(* ===== verification/Qrax_Prelude.thy ===== *)
theory Qrax_Prelude
  imports Main "HOL-Library.Word"
begin

text \<open>
  Shared vocabulary of the development: bytes and byte vectors, the error monad in which the
  fallible routines are written, and little-endian number encodings together with the
  arithmetic facts about them that the components use.
\<close>

unbundle bit_operations_syntax

section \<open>Types and collections of facts\<close>

text \<open>
  An \<^verbatim>\<open>unsigned char\<close> is an 8-bit word; \<^verbatim>\<open>std::vector<unsigned char>\<close> (\<^verbatim>\<open>valtype\<close>)
  and \<^verbatim>\<open>CScript\<close> are lists of them.
\<close>

type_synonym byte = "8 word"
type_synonym bytes = "byte list"

named_theorems res_simps \<open>computation rules of the error monad\<close>
named_theorems le_simps \<open>little-endian encodings\<close>

section \<open>Results that may be errors\<close>

definition bindE :: "'e + 'a \<Rightarrow> ('a \<Rightarrow> 'e + 'b) \<Rightarrow> 'e + 'b" where
  "bindE r f = (case r of Inl e \<Rightarrow> Inl e | Inr x \<Rightarrow> f x)"

lemma bindE_Inl [simp, res_simps]: "bindE (Inl e) f = Inl e"
  by (simp add: bindE_def)

lemma bindE_Inr [simp, res_simps]: "bindE (Inr x) f = f x"
  by (simp add: bindE_def)

lemma bindE_eq_Inr [res_simps]: "bindE r f = Inr y \<longleftrightarrow> (\<exists>x. r = Inr x \<and> f x = Inr y)"
  by (cases r) auto

lemma bindE_eq_Inl [res_simps]:
  "bindE r f = Inl e \<longleftrightarrow> r = Inl e \<or> (\<exists>x. r = Inr x \<and> f x = Inl e)"
  by (cases r) auto

lemma bindE_cong [fundef_cong]:
  "r = r' \<Longrightarrow> (\<And>x. r' = Inr x \<Longrightarrow> f x = f' x) \<Longrightarrow> bindE r f = bindE r' f'"
  by (cases r') auto

section \<open>Little-endian numbers\<close>

primrec le_encode :: "nat \<Rightarrow> nat \<Rightarrow> bytes" where
  "le_encode 0 v = []"
| "le_encode (Suc k) v = of_nat v # le_encode k (v div 256)"

primrec le_decode :: "bytes \<Rightarrow> nat" where
  "le_decode [] = 0"
| "le_decode (b # bs) = unat b + 256 * le_decode bs"

lemma unat_byte_less [simp]: "unat (b :: byte) < 256"
  using unsigned_less [of b] by simp

lemma unat_byte_le [simp]: "unat (b :: byte) \<le> 255"
  using unat_byte_less [of b] by linarith

lemma uint_byte_less [simp]: "uint (b :: byte) < 256"
  using unsigned_less [of b] by simp

lemma unat_of_nat_byte [simp]: "unat (of_nat v :: byte) = v mod 256"
  by (simp add: unat_of_nat)

lemma length_le_encode [simp, le_simps]: "length (le_encode k v) = k"
  by (induction k arbitrary: v) auto

lemma le_decode_encode [le_simps]: "le_decode (le_encode k v) = v mod 256 ^ k"
proof (induction k arbitrary: v)
  case 0
  then show ?case by simp
next
  case (Suc k)
  have "v mod (256 * 256 ^ k) = 256 * (v div 256 mod 256 ^ k) + v mod 256"
    by (rule mod_mult2_eq)
  with Suc show ?case by simp
qed

lemma le_decode_bound: "le_decode bs < 256 ^ length bs"
proof (induction bs)
  case (Cons b bs)
  have "unat b + 256 * le_decode bs < 256 + 256 * le_decode bs"
    using unat_byte_less [of b] by (rule add_strict_right_mono)
  also have "\<dots> \<le> 256 * 256 ^ length bs"
    using Cons by simp
  finally show ?case by simp
qed simp

lemma le_decode_append [le_simps]:
  "le_decode (xs @ ys) = le_decode xs + 256 ^ length xs * le_decode ys"
  by (induction xs) (simp_all add: algebra_simps)

lemma le_encode_decode [le_simps]: "le_encode (length bs) (le_decode bs) = bs"
proof (induction bs)
  case (Cons b bs)
  have "(of_nat (unat b + 256 * le_decode bs) :: byte) = b"
    by (rule word_unat_eq_iff [THEN iffD2]) (simp add: unat_of_nat del: of_nat_add of_nat_mult)
  moreover have "(unat b + 256 * le_decode bs) div 256 = le_decode bs"
    by simp
  ultimately show ?case using Cons by simp
qed simp

lemma le_decode_inject:
  assumes "length xs = length ys" "le_decode xs = le_decode ys" shows "xs = ys"
proof -
  have "xs = le_encode (length xs) (le_decode xs)" by (simp only: le_encode_decode)
  also have "\<dots> = ys" unfolding assms by (rule le_encode_decode)
  finally show ?thesis .
qed

lemma le_decode_last_ge:
  "xs \<noteq> [] \<Longrightarrow> unat (last xs) * 256 ^ (length xs - 1) \<le> le_decode xs"
proof -
  assume "xs \<noteq> []"
  then have "le_decode xs = le_decode (butlast xs @ [last xs])" by simp
  also have "\<dots> = le_decode (butlast xs) + 256 ^ (length xs - 1) * unat (last xs)"
    by (simp only: le_decode_append) simp
  finally show ?thesis by simp
qed

lemma le_decode_snoc: "xs \<noteq> [] \<Longrightarrow>
    le_decode xs = le_decode (butlast xs) + 256 ^ (length xs - 1) * unat (last xs)"
  by (cases xs rule: rev_cases) (simp_all add: le_decode_append)

text \<open>Little-endian digits without a leading zero are unique.\<close>

lemma le_decode_pos: "xs \<noteq> [] \<Longrightarrow> last xs \<noteq> 0 \<Longrightarrow> 256 ^ (length xs - 1) \<le> le_decode xs"
proof -
  assume "xs \<noteq> []" "last xs \<noteq> 0"
  then have "1 \<le> unat (last xs)" by (simp add: Suc_le_eq unat_gt_0)
  then have "256 ^ (length xs - 1) \<le> unat (last xs) * 256 ^ (length xs - 1)" by simp
  also have "\<dots> \<le> le_decode xs" using \<open>xs \<noteq> []\<close> by (rule le_decode_last_ge)
  finally show ?thesis .
qed

lemma le_digits_length:
  assumes "xs \<noteq> []" "last xs \<noteq> 0" "le_decode xs < 256 ^ n" shows "length xs \<le> n"
proof -
  have "(256 :: nat) ^ (length xs - 1) < 256 ^ n"
    using le_decode_pos [OF assms(1,2)] assms(3) by (rule le_less_trans)
  then have "length xs - 1 < n" by simp
  then show ?thesis using assms(1) by (cases xs) auto
qed

lemma le_digits_unique:
  assumes "xs \<noteq> [] \<Longrightarrow> last xs \<noteq> 0" "ys \<noteq> [] \<Longrightarrow> last ys \<noteq> 0" "le_decode xs = le_decode ys"
  shows "xs = ys"
proof -
  have le: "length xs \<le> length ys" 
    if "xs \<noteq> [] \<Longrightarrow> last xs \<noteq> 0" "le_decode xs = le_decode ys" for xs ys :: bytes
    using that le_digits_length [of xs "length ys"] le_decode_bound [of ys] by (cases "xs = []") auto
  have "length xs = length ys"
    using le [of xs ys] le [of ys xs] assms by simp
  then show ?thesis using assms(3) by (rule le_decode_inject)
qed

section \<open>Bits of a byte\<close>

text \<open>The sign bit \<^verbatim>\<open>b & 0x80\<close> of a byte, and the byte without it, as numbers.\<close>

lemma byte_bit7_iff: "bit (b :: byte) 7 \<longleftrightarrow> 128 \<le> unat b"
proof -
  have "bit b 7 \<longleftrightarrow> bit (unat b) 7"
    by (simp add: bit_unsigned_iff)
  also have "\<dots> \<longleftrightarrow> odd (unat b div 128)"
    by (simp add: bit_nat_def)
  also have "\<dots> \<longleftrightarrow> 128 \<le> unat b"
  proof -
    have "unat b div 128 = 0 \<or> unat b div 128 = 1"
      using unat_byte_less [of b] by linarith
    then show ?thesis by auto
  qed
  finally show ?thesis .
qed

lemma byte_and_80_iff: "b AND 0x80 = 0 \<longleftrightarrow> unat (b :: byte) < 128"
  using and_exp_eq_0_iff_not_bit [of b 7] byte_bit7_iff [of b] by auto

lemma byte_or_80: "unat b < 128 \<Longrightarrow> unat (b OR 0x80 :: byte) = 128 + unat b"
proof -
  assume b: "unat b < 128"
  have "b AND 0x80 = 0" using b by (simp add: byte_and_80_iff)
  then have eq: "b OR 0x80 = b + 0x80" by (simp add: disjunctive_add_eq_or)
  show ?thesis unfolding eq using b by (simp add: unat_add_lem [THEN iffD1])
qed

lemma byte_and_7f_iff: "b AND 0x7f = 0 \<longleftrightarrow> unat (b :: byte) mod 128 = 0"
proof -
  have m: "(0x7f :: byte) = mask 7" by (simp add: mask_eq_exp_minus_1)
  have "unat (b AND 0x7f) = take_bit 7 (unat b)"
    unfolding m take_bit_eq_mask [symmetric] by (rule unsigned_take_bit_eq)
  then have "unat (b AND 0x7f) = unat b mod 128" by (simp only: take_bit_eq_mod) simp
  then show ?thesis by (metis unat_eq_0)
qed

lemma byte_mod_128_0: "unat (b :: byte) mod 128 = 0 \<longleftrightarrow> b = 0 \<or> b = 0x80"
proof
  assume "unat b mod 128 = 0"
  then have "unat b = 0 \<or> unat b = 128"
    using unat_byte_less [of b] by presburger
  then show "b = 0 \<or> b = 0x80" by (auto simp: word_unat_eq_iff)
qed auto

section \<open>64-bit words\<close>

lemma unat_ucast_byte64 [simp]: "unat (ucast (b :: byte) :: 64 word) = unat b"
proof -
  have "uint (ucast b :: 64 word) = uint b" by (rule uint_up_ucast) (simp add: is_up)
  then show ?thesis by (simp flip: nat_uint_eq)
qed

lemma sint_small: assumes "unat (w :: 64 word) < 2 ^ 63" shows "sint w = int (unat w)"
proof -
  have "int (unat w) < int (2 ^ 63)" using assms by (simp only: of_nat_less_iff)
  then have "uint w < 2 ^ 63" by simp
  moreover have "- (2 ^ 63) \<le> uint w" by (rule order_trans [of _ 0]) simp_all
  ultimately show ?thesis by (simp add: sint_uint signed_take_bit_int_eq_self)
qed

lemma and_not_bit_unat:
  fixes w :: "64 word"
  assumes "bit w k" 
  shows "unat (w AND NOT (push_bit k 1)) = unat w - 2 ^ k"
proof -
  have k: "k < 64" using bit_imp_le_length [OF assms] by simp
  have eq: "w AND NOT (push_bit k 1) = w - push_bit k 1"
    by (rule disjunctive_diff [symmetric]) (use assms in \<open>auto simp: bit_simps bit_1_iff\<close>)
  have p: "unat (push_bit k 1 :: 64 word) = 2 ^ k"
  proof -
    have "(push_bit k 1 :: 64 word) = of_nat (2 ^ k)" by (simp add: push_bit_eq_mult)
    moreover have "(2 :: nat) ^ k < 2 ^ 64" using k by (intro power_strict_increasing) auto
    ultimately show ?thesis by (simp only: unat_of_nat) simp
  qed
  have le: "2 ^ k \<le> unat w"
  proof -
    have "bit (unat w) k" using assms k by (simp add: bit_unsigned_iff)
    then have "0 < unat w div 2 ^ k" by (intro odd_pos) (simp add: bit_nat_def)
    then show ?thesis by (metis div_less less_irrefl not_less)
  qed
  have "push_bit k 1 \<le> w" using le p by (simp add: word_le_nat_alt)
  then have "unat (w - push_bit k 1) = unat w - unat (push_bit k 1 :: 64 word)" by (rule unat_sub)
  then show ?thesis by (simp only: eq p)
qed

lemma word_or_disjoint_add:
  fixes r x :: "64 word"
  assumes r: "unat r < 2 ^ k" and sum: "unat r + 2 ^ k * unat x < 2 ^ 64"
  shows "unat (r OR push_bit k x) = unat r + 2 ^ k * unat x"
proof -
  have nb: "\<not> bit r n" if "k \<le> n" for n
  proof -
    have "\<not> bit (unat r) n"
    proof -
      have "unat r < 2 ^ n" using r that by (meson less_le_trans one_le_numeral power_increasing)
      then show ?thesis by (simp add: bit_nat_def)
    qed
    then show ?thesis by (cases "n < 64") (auto simp: bit_unsigned_iff dest: bit_imp_le_length)
  qed
  have "r AND push_bit k x = 0"
    by (rule bit_eqI) (auto simp: bit_simps dest: nb)
  then have or: "r OR push_bit k x = r + push_bit k x"
    by (simp add: disjunctive_add_eq_or)
  have p: "unat (push_bit k x) = 2 ^ k * unat x"
  proof -
    have "push_bit k x = of_nat (2 ^ k * unat x)"
      by (simp add: push_bit_eq_mult mult.commute)
    moreover have "2 ^ k * unat x < 2 ^ 64" using sum by simp
    ultimately show ?thesis by (simp only: unat_of_nat) simp
  qed
  show ?thesis unfolding or
    using sum by (simp add: unat_add_lem [THEN iffD1] p)
qed

lemma unat_and_ff: "unat (ucast (w AND 0xff :: 64 word) :: byte) = unat w mod 256"
proof -
  have m: "(0xff :: 64 word) = mask 8" by (simp add: mask_eq_exp_minus_1)
  have "unat (w AND 0xff) = take_bit 8 (unat w)"
    unfolding m take_bit_eq_mask [symmetric] by (rule unsigned_take_bit_eq)
  then have "unat (w AND 0xff) = unat w mod 256" by (simp only: take_bit_eq_mod) simp
  then show ?thesis by (simp only: unsigned_ucast_eq take_bit_eq_mod) simp
qed

lemma unat_drop_8: "unat (drop_bit 8 w) = unat (w :: 64 word) div 256"
  by (simp add: unat_drop_bit_eq) (simp add: drop_bit_eq_div)

lemma unat_of_int64: assumes "0 \<le> x" "x < 2 ^ 64" shows "unat (of_int x :: 64 word) = nat x"
proof -
  have "(of_int x :: 64 word) = of_nat (nat x)" using assms(1) by simp
  moreover have "nat x < 2 ^ 64" using assms by simp
  ultimately show ?thesis by (simp only: unat_of_nat) simp
qed

end
