(* ===== verification/Script_Num.thy ===== *)
theory Script_Num
  imports Qrax_Prelude
begin

text \<open>
  Script numbers: the class \<^verbatim>\<open>CScriptNum\<close> of \<^verbatim>\<open>src/script/script.h\<close> and the truth value
  \<^verbatim>\<open>CastToBool\<close> of a stack element (\<^verbatim>\<open>src/script/interpreter.cpp\<close>).
  The member \<^verbatim>\<open>m_value\<close> (an \<^verbatim>\<open>int64_t\<close>) is an \<open>int\<close>; the bytes are assembled and taken apart
  on 64-bit words, as the code does.  \<open>num_of_vch\<close> is the sign-magnitude number that a
  byte vector denotes; the lemmas relate the bit manipulation to it.
\<close>

section \<open>Definitions\<close>

abbreviation (input) "int64_min \<equiv> - (2 ^ 63) :: int"
abbreviation (input) "int64_max \<equiv> 2 ^ 63 - 1 :: int"

datatype scriptnum_error = ScriptNumOverflow | NonMinimallyEncoded

definition nDefaultMaxNumSize :: nat where
  "nDefaultMaxNumSize = 4"

text \<open>\<^verbatim>\<open>result |= static_cast<int64_t>(vch[i]) << 8*i\<close>, for \<open>i\<close> from the given index on.\<close>

fun set_vch_loop :: "bytes \<Rightarrow> nat \<Rightarrow> 64 word \<Rightarrow> 64 word" where
  "set_vch_loop [] i result = result"
| "set_vch_loop (b # bs) i result =
     set_vch_loop bs (Suc i) (result OR push_bit (8 * i) (ucast b))"

definition set_vch :: "bytes \<Rightarrow> int" where
  "set_vch vch =
     (if vch = [] then 0
      else let result = set_vch_loop vch 0 0 in
        if last vch AND 0x80 \<noteq> 0
        then - sint (result AND NOT (push_bit (8 * (length vch - 1)) 0x80))
        else sint result)"

definition CScriptNum :: "bytes \<Rightarrow> bool \<Rightarrow> nat \<Rightarrow> scriptnum_error + int" where
  "CScriptNum vch fRequireMinimal nMaxNumSize =
     (if length vch > nMaxNumSize then Inl ScriptNumOverflow
      else if fRequireMinimal \<and> length vch > 0 \<and> last vch AND 0x7f = 0 \<and>
              (length vch \<le> 1 \<or> vch ! (length vch - 2) AND 0x80 = 0)
      then Inl NonMinimallyEncoded
      else Inr (set_vch vch))"

text \<open>The assertions of \<^verbatim>\<open>operator+=\<close>, \<^verbatim>\<open>operator-=\<close> and of the unary minus.\<close>

definition plus_assign_assert :: "int \<Rightarrow> int \<Rightarrow> bool" where
  "plus_assign_assert m_value rhs \<longleftrightarrow>
     rhs = 0 \<or> (rhs > 0 \<and> m_value \<le> int64_max - rhs) \<or> (rhs < 0 \<and> m_value \<ge> int64_min - rhs)"

definition minus_assign_assert :: "int \<Rightarrow> int \<Rightarrow> bool" where
  "minus_assign_assert m_value rhs \<longleftrightarrow>
     rhs = 0 \<or> (rhs > 0 \<and> m_value \<ge> int64_min + rhs) \<or> (rhs < 0 \<and> m_value \<le> int64_max + rhs)"

definition unary_minus_assert :: "int \<Rightarrow> bool" where
  "unary_minus_assert m_value \<longleftrightarrow> m_value \<noteq> int64_min"

definition getint :: "int \<Rightarrow> int" where
  "getint m_value =
     (if m_value > 2 ^ 31 - 1 then 2 ^ 31 - 1
      else if m_value < - (2 ^ 31) then - (2 ^ 31)
      else m_value)"

text \<open>\<^verbatim>\<open>while(absvalue) { result.push_back(absvalue & 0xff); absvalue >>= 8; }\<close>\<close>

function serialize_abs :: "64 word \<Rightarrow> bytes" where
  "serialize_abs absvalue =
     (if absvalue = 0 then []
      else ucast (absvalue AND 0xff) # serialize_abs (drop_bit 8 absvalue))"
  by pat_completeness auto
termination
proof (relation "measure unat")
  fix w :: "64 word"
  assume "w \<noteq> 0"
  then show "(drop_bit 8 w, w) \<in> measure unat"
    by (simp add: unat_drop_bit_eq unat_gt_0) (simp add: drop_bit_eq_div unat_gt_0)
qed simp

declare serialize_abs.simps [simp del]

definition serialize :: "int \<Rightarrow> bytes" where
  "serialize value =
     (if value = 0 then []
      else let neg = value < 0;
               absvalue = (if neg then NOT (of_int value) + 1 else of_int value :: 64 word);
               result = serialize_abs absvalue
           in if last result AND 0x80 \<noteq> 0 then result @ [if neg then 0x80 else 0]
              else if neg then butlast result @ [last result OR 0x80]
              else result)"

definition getvch :: "int \<Rightarrow> bytes" where
  "getvch m_value = serialize m_value"

text \<open>The loop of \<^verbatim>\<open>CastToBool\<close>; the last byte may carry the sign of a negative zero.\<close>

fun CastToBool :: "bytes \<Rightarrow> bool" where
  "CastToBool [] = False"
| "CastToBool (b # vch) =
     (if b \<noteq> 0 then \<not> (vch = [] \<and> b = 0x80) else CastToBool vch)"

section \<open>The number a byte vector denotes\<close>

definition num_abs :: "bytes \<Rightarrow> nat" where
  "num_abs vch = le_decode (butlast vch) + 256 ^ (length vch - 1) * (unat (last vch) mod 128)"

definition num_of_vch :: "bytes \<Rightarrow> int" where
  "num_of_vch vch =
     (if vch = [] then 0
      else if 128 \<le> unat (last vch) then - int (num_abs vch)
      else int (num_abs vch))"

text \<open>The encodings without a superfluous last byte.\<close>

definition minimal_vch :: "bytes \<Rightarrow> bool" where
  "minimal_vch vch \<longleftrightarrow>
     vch = [] \<or> unat (last vch) mod 128 \<noteq> 0 \<or>
     (2 \<le> length vch \<and> 128 \<le> unat (vch ! (length vch - 2)))"

section \<open>Decoding\<close>

lemma unat_set_vch_loop:
  assumes "i + length bs \<le> 8" "unat r < 256 ^ i"
  shows "unat (set_vch_loop bs i r) = unat r + 256 ^ i * le_decode bs"
  using assms
proof (induction bs i r rule: set_vch_loop.induct)
  case (2 b bs i r)
  have p: "(2 :: nat) ^ (8 * i) = 256 ^ i" by (simp add: power_mult)
  have "unat r + 256 ^ i * unat b < 256 ^ i * (1 + unat b)"
    using "2.prems"(2) by simp
  also have "256 ^ i * (1 + unat b) \<le> 256 ^ i * 256"
    by (intro mult_le_mono2) simp
  finally have b: "unat r + 256 ^ i * unat b < 256 ^ Suc i" by (simp add: mult.commute)
  have "(256 :: nat) ^ Suc i \<le> 256 ^ 8"
    using "2.prems"(1) by (intro power_increasing) auto
  then have le: "unat r + 256 ^ i * unat b < 2 ^ 64"
    using b by (simp del: power_Suc)
  have step: "unat (r OR push_bit (8 * i) (ucast b)) = unat r + 256 ^ i * unat b"
    using word_or_disjoint_add [of r "8 * i" "ucast b"] "2.prems"(2) le
    unfolding p by simp
  show ?case
    using "2.IH" "2.prems"(1) step b by (simp add: algebra_simps)
qed simp

lemma num_abs_bound: "xs \<noteq> [] \<Longrightarrow> num_abs xs < 128 * 256 ^ (length xs - 1)"
proof -
  assume "xs \<noteq> []"
  have "le_decode (butlast xs) < 256 ^ (length xs - 1)"
    using le_decode_bound [of "butlast xs"] by simp
  then have "num_abs xs < 256 ^ (length xs - 1) * (1 + unat (last xs) mod 128)"
    by (simp add: num_abs_def)
  also have "\<dots> \<le> 256 ^ (length xs - 1) * 128"
    by (intro mult_le_mono2) (simp add: Suc_le_eq)
  finally show ?thesis by (simp add: mult.commute)
qed

lemma num_abs_bound_63: "xs \<noteq> [] \<Longrightarrow> length xs \<le> 8 \<Longrightarrow> num_abs xs < 2 ^ 63"
proof -
  assume "xs \<noteq> []" "length xs \<le> 8"
  then have "(256 :: nat) ^ (length xs - 1) \<le> 256 ^ 7"
    by (intro power_increasing) auto
  then show ?thesis using num_abs_bound [OF \<open>xs \<noteq> []\<close>] by simp
qed

lemma set_vch_eq: 
  assumes "length vch \<le> 8"
  shows "set_vch vch = num_of_vch vch"
proof (cases "vch = []")
  case False
  define n where "n = length vch - 1"
  define r where "r = set_vch_loop vch 0 0"
  have ru: "unat r = le_decode (butlast vch) + 256 ^ n * unat (last vch)"
    using unat_set_vch_loop [of 0 vch 0] assms le_decode_snoc [OF False] by (simp add: n_def r_def)
  have bl: "le_decode (butlast vch) < 256 ^ n"
    using le_decode_bound [of "butlast vch"] by (simp add: n_def)
  have n: "n \<le> 7" using assms by (simp add: n_def)
  have na: "num_abs vch = le_decode (butlast vch) + 256 ^ n * (unat (last vch) mod 128)"
    by (simp add: num_abs_def n_def)
  have p: "(2 :: nat) ^ (8 * n + 7) = 128 * 256 ^ n"
    by (simp add: power_add power_mult)
  have b63: "num_abs vch < 2 ^ 63" using False assms by (rule num_abs_bound_63)
  show ?thesis
  proof (cases "128 \<le> unat (last vch)")
    case True
    have l: "unat (last vch) = 128 + unat (last vch) mod 128"
      using le_mod_geq [OF True] True unat_byte_less [of "last vch"] by simp
    have m: "push_bit (8 * n) 0x80 = (push_bit (8 * n + 7) 1 :: 64 word)"
      by (simp add: push_bit_eq_mult power_add)
    have r2: "unat r = num_abs vch + 2 ^ (8 * n + 7)"
      unfolding ru p by (subst l) (simp add: na algebra_simps)
    have "bit (unat r) (8 * n + 7)"
    proof -
      have "num_abs vch < 2 ^ (8 * n + 7)"
        using num_abs_bound [OF False] unfolding p by (simp add: n_def)
      then show ?thesis by (simp add: bit_nat_def r2 div_add1_eq)
    qed
    then have "bit r (8 * n + 7)" using n by (simp add: bit_unsigned_iff)
    then have "unat (r AND NOT (push_bit (8 * n) 0x80)) = num_abs vch"
      unfolding m by (subst and_not_bit_unat) (simp_all add: r2)
    then have "sint (r AND NOT (push_bit (8 * n) 0x80)) = int (num_abs vch)"
      using b63 by (subst sint_small) auto
    with False True show ?thesis
      by (simp add: set_vch_def num_of_vch_def byte_and_80_iff Let_def r_def n_def)
  next
    case F: False
    then have "unat (last vch) mod 128 = unat (last vch)" by simp
    then have "unat r = num_abs vch" using ru by (simp add: num_abs_def n_def)
    moreover have "sint r = int (unat r)"
      using calculation b63 by (intro sint_small) simp
    ultimately show ?thesis using False F
      by (simp add: set_vch_def num_of_vch_def byte_and_80_iff Let_def r_def)
  qed
qed (simp add: set_vch_def num_of_vch_def)

lemma CScriptNum_eq:
  "CScriptNum vch fMin n =
     (if length vch > n then Inl ScriptNumOverflow
      else if fMin \<and> \<not> minimal_vch vch then Inl NonMinimallyEncoded
      else Inr (set_vch vch))"
  by (cases "vch = []")
     (auto simp: CScriptNum_def minimal_vch_def byte_and_7f_iff byte_and_80_iff not_le less_Suc_eq_le numeral_2_eq_2)

lemma num_abs_Cons: "bs \<noteq> [] \<Longrightarrow> num_abs (b # bs) = unat b + 256 * num_abs bs"
  by (cases bs) (simp_all add: num_abs_def algebra_simps)

lemma CastToBool_num_abs: "vch \<noteq> [] \<Longrightarrow> CastToBool vch \<longleftrightarrow> num_abs vch \<noteq> 0"
proof (induction vch)
  case (Cons b bs)
  show ?case
  proof (cases "bs = []")
    case True
    then show ?thesis using byte_mod_128_0 [of b] by (auto simp: num_abs_def)
  next
    case False
    then show ?thesis using Cons.IH
      by (auto simp: num_abs_Cons unat_eq_0)
  qed
qed simp

lemma CScriptNum_range:
  assumes "CScriptNum vch fMin k = Inr v" "1 \<le> k" "k \<le> 8"
  shows "\<bar>v\<bar> < 2 ^ (8 * k - 1)"
proof (cases "vch = []")
  case False
  have l: "length vch \<le> k" and v: "v = num_of_vch vch"
    using assms by (auto simp: CScriptNum_eq set_vch_eq split: if_splits)
  have "num_abs vch < 128 * 256 ^ (length vch - 1)" using False by (rule num_abs_bound)
  also have "\<dots> \<le> 128 * 256 ^ (k - 1)" using l by (simp add: power_increasing)
  also have "\<dots> = 2 ^ (8 * k - 1)" using assms(2) by (cases k) (simp_all add: power_add power_mult)
  finally have "int (num_abs vch) < int (2 ^ (8 * k - 1))" by (simp only: of_nat_less_iff)
  moreover have "\<bar>v\<bar> = int (num_abs vch)" using False by (simp add: v num_of_vch_def)
  ultimately show ?thesis by simp
next
  case True
  then show ?thesis using assms by (auto simp: CScriptNum_eq set_vch_eq num_of_vch_def split: if_splits)
qed

section \<open>Encoding\<close>

lemma serialize_abs_0 [simp]: "serialize_abs 0 = []"
  by (simp add: serialize_abs.simps)

lemma serialize_abs_step: "w \<noteq> 0 \<Longrightarrow>
    serialize_abs w = ucast (w AND 0xff) # serialize_abs (drop_bit 8 w)"
  by (simp add: serialize_abs.simps [of w])

lemma le_decode_serialize_abs: "le_decode (serialize_abs w) = unat w"
proof (induction w rule: serialize_abs.induct)
  case (1 w)
  then show ?case
    by (cases "w = 0") (simp_all add: serialize_abs_step unat_and_ff unat_drop_8)
qed

lemma serialize_abs_last: "w \<noteq> 0 \<Longrightarrow> serialize_abs w \<noteq> [] \<and> last (serialize_abs w) \<noteq> 0"
proof (induction w rule: serialize_abs.induct)
  case (1 w)
  show ?case
  proof (cases "drop_bit 8 w = 0")
    case True
    then have "unat w div 256 = 0" by (simp flip: unat_drop_8)
    moreover have "unat w \<noteq> 0" using "1.prems" by (simp add: unat_eq_0)
    ultimately have "unat (ucast (w AND 0xff) :: byte) \<noteq> 0" by (simp add: unat_and_ff)
    then have "(ucast (w AND 0xff) :: byte) \<noteq> 0" by (metis unsigned_0)
    then show ?thesis using "1.prems" True by (simp add: serialize_abs_step)
  next
    case False
    then show ?thesis using "1.IH" "1.prems" by (simp add: serialize_abs_step)
  qed
qed

lemma absvalue_eq:
  assumes "int64_min \<le> v" "v \<le> int64_max"
  shows "unat (if v < 0 then NOT (of_int v) + 1 else of_int v :: 64 word) = nat \<bar>v\<bar>"
proof (cases "v < 0")
  case True
  have "NOT (of_int v) + 1 = (of_int (- v) :: 64 word)"
    by (simp only: minus_eq_not_plus_1 [symmetric] of_int_minus)
  moreover have "unat (of_int (- v) :: 64 word) = nat (- v)"
    using True assms by (intro unat_of_int64) auto
  ultimately show ?thesis using True by (simp only: if_True abs_of_neg)
next
  case False
  then show ?thesis using unat_of_int64 [of v] assms by (simp only: if_False) simp
qed

text \<open>What the loop of \<open>serialize\<close> collects, and what the last steps make of it.\<close>

lemma serialize_cases:
  assumes "int64_min \<le> v" "v \<le> int64_max" "v \<noteq> 0"
  obtains ds where "ds \<noteq> []" "last ds \<noteq> 0" "le_decode ds = nat \<bar>v\<bar>"
    "serialize v = (if 128 \<le> unat (last ds) then ds @ [if v < 0 then 0x80 else 0]
       else if v < 0 then butlast ds @ [last ds OR 0x80] else ds)"
proof -
  define w where "w = (if v < 0 then NOT (of_int v) + 1 else of_int v :: 64 word)"
  have w: "unat w = nat \<bar>v\<bar>" unfolding w_def using assms(1,2) by (rule absvalue_eq)
  then have "w \<noteq> 0" using assms(3) by (intro notI) simp
  have "serialize v = (let result = serialize_abs w
      in if last result AND 0x80 \<noteq> 0 then result @ [if v < 0 then 0x80 else 0]
         else if v < 0 then butlast result @ [last result OR 0x80] else result)"
    using assms(3) by (simp only: serialize_def w_def Let_def if_False)
  then show ?thesis
    using \<open>w \<noteq> 0\<close> w
    by (intro that [of "serialize_abs w"])
       (simp_all add: serialize_abs_last le_decode_serialize_abs byte_and_80_iff not_less Let_def)
qed

lemma num_of_vch_snoc:
  "num_of_vch (bs @ [l]) =
     (let m = int (le_decode bs + 256 ^ length bs * (unat l mod 128))
      in if 128 \<le> unat l then - m else m)"
  by (simp add: num_of_vch_def num_abs_def Let_def)

lemma num_of_serialize:
  assumes "int64_min \<le> v" "v \<le> int64_max"
  shows "num_of_vch (serialize v) = v"
proof (cases "v = 0")
  case False
  then obtain ds where ds: "ds \<noteq> []" "le_decode ds = nat \<bar>v\<bar>"
    "serialize v = (if 128 \<le> unat (last ds) then ds @ [if v < 0 then 0x80 else 0]
       else if v < 0 then butlast ds @ [last ds OR 0x80] else ds)"
    using serialize_cases [OF assms] by metis
  have l: "butlast ds @ [last ds] = ds" using ds(1) by simp
  show ?thesis
  proof (cases "128 \<le> unat (last ds)")
    case True
    then show ?thesis using ds by (simp add: num_of_vch_snoc)
  next
    case small: False
    have "le_decode (butlast ds) + 256 ^ length (butlast ds) * unat (last ds) = nat \<bar>v\<bar>"
      using le_decode_snoc [OF ds(1)] ds(2) by simp
    then have d: "int (le_decode (butlast ds) + 256 ^ length (butlast ds) * unat (last ds)) = \<bar>v\<bar>"
      by (simp only: int_nat_eq) simp
    show ?thesis
    proof (cases "v < 0")
      case True
      then show ?thesis using ds(3) small d by (simp add: num_of_vch_snoc byte_or_80 Let_def)
    next
      case False
      then have "num_of_vch (serialize v) = num_of_vch (butlast ds @ [last ds])"
        using ds(3) small l by simp
      then show ?thesis using small d False by (simp add: num_of_vch_snoc Let_def del: append_butlast_last_id)
    qed
  qed
qed (simp add: serialize_def num_of_vch_def)

lemma serialize_num:
  assumes "length vch \<le> 8" "minimal_vch vch"
  shows "serialize (num_of_vch vch) = vch"
proof (cases vch rule: rev_cases)
  case Nil
  then show ?thesis by (simp add: serialize_def num_of_vch_def)
next
  case (snoc bs l)
  define n where "n = num_of_vch vch"
  define m where "m = le_decode bs + 256 ^ length bs * (unat l mod 128)"
  have n: "n = (if 128 \<le> unat l then - int m else int m)"
    by (simp only: n_def snoc num_of_vch_snoc Let_def m_def)
  then have "nat \<bar>n\<bar> = m" by simp
  then have abs: "nat \<bar>n\<bar> = le_decode bs + 256 ^ length bs * (unat l mod 128)"
    by (simp only: m_def)
  have min: "unat l mod 128 \<noteq> 0 \<or> (bs \<noteq> [] \<and> 128 \<le> unat (last bs))"
    using assms(2) by (cases bs rule: rev_cases) (auto simp: minimal_vch_def snoc nth_append)
  have "nat \<bar>n\<bar> = num_abs vch" by (simp add: abs num_abs_def snoc)
  then have b63: "nat \<bar>n\<bar> < 2 ^ 63" using num_abs_bound_63 [of vch] assms(1) snoc by simp
  then have "\<bar>n\<bar> < 2 ^ 63" by (simp add: nat_less_iff)
  then have r: "int64_min \<le> n" "n \<le> int64_max" by auto
  have pos: "0 < nat \<bar>n\<bar>"
    using min abs le_decode_last_ge [of bs] by (cases "unat l mod 128 = 0") (auto intro: Nat.gr0I)
  have sgn: "n < 0 \<longleftrightarrow> 128 \<le> unat l"
    using pos n by (auto split: if_splits)
  obtain ds where ds: "ds \<noteq> []" "last ds \<noteq> 0" "le_decode ds = nat \<bar>n\<bar>"
    "serialize n = (if 128 \<le> unat (last ds) then ds @ [if n < 0 then 0x80 else 0]
       else if n < 0 then butlast ds @ [last ds OR 0x80] else ds)"
    using serialize_cases [OF r] pos by (metis abs_zero less_irrefl nat_0)
  show ?thesis
  proof (cases "unat l mod 128 = 0")
    case True
    have "ds = bs"
      using min True ds abs by (intro le_digits_unique) auto
    then show ?thesis using True min ds(4) sgn unfolding n_def [symmetric]
      by (auto simp: snoc byte_mod_128_0)
  next
    case False
    define x where "x = (of_nat (unat l mod 128) :: byte)"
    have x: "unat x = unat l mod 128" by (simp add: x_def mod_mod_trivial)
    have "ds = bs @ [x]"
      using False ds abs x by (intro le_digits_unique) (auto simp: le_decode_append)
    moreover have "unat x < 128" by (simp add: x)
    moreover have "x OR 0x80 = l" if "128 \<le> unat l"
      using that le_mod_geq [OF that] unat_byte_less [of l]
      by (intro word_unat_eq_iff [THEN iffD2]) (simp add: byte_or_80 x)
    moreover have "x = l" if "\<not> 128 \<le> unat l"
      using that by (intro word_unat_eq_iff [THEN iffD2]) (simp add: x)
    ultimately show ?thesis using ds(4) sgn unfolding n_def [symmetric]
      by (simp add: snoc)
  qed
qed

lemma minimal_serialize:
  assumes "int64_min \<le> v" "v \<le> int64_max"
  shows "minimal_vch (serialize v)"
proof (cases "v = 0")
  case False
  then obtain ds where ds: "ds \<noteq> []" "last ds \<noteq> 0"
    "serialize v = (if 128 \<le> unat (last ds) then ds @ [if v < 0 then 0x80 else 0]
       else if v < 0 then butlast ds @ [last ds OR 0x80] else ds)"
    using serialize_cases [OF assms] by metis
  have "unat (last ds) \<noteq> 0" using ds(2) by (simp add: unat_eq_0)
  moreover have "(ds @ [x]) ! (length (ds @ [x]) - 2) = last ds" for x
    using ds(1) by (simp add: nth_append last_conv_nth numeral_2_eq_2)
  moreover have "2 \<le> length (ds @ [x])" for x :: byte
    using ds(1) by (cases ds) auto
  ultimately show ?thesis using ds(1) unfolding ds(3) minimal_vch_def
    by (auto simp: byte_or_80 le_mod_geq)
qed (simp add: serialize_def minimal_vch_def)

lemma length_serialize:
  assumes "\<bar>v\<bar> < 2 ^ (8 * k - 1)" "1 \<le> k" "k \<le> 8"
  shows "length (serialize v) \<le> k"
proof (cases "v = 0")
  case False
  have "(2 :: int) ^ (8 * k - 1) \<le> 2 ^ 63"
    using assms(3) by (intro power_increasing) auto
  then have r: "int64_min \<le> v" "v \<le> int64_max" using assms(1) by auto
  obtain ds where ds: "ds \<noteq> []" "last ds \<noteq> 0" "le_decode ds = nat \<bar>v\<bar>"
    "serialize v = (if 128 \<le> unat (last ds) then ds @ [if v < 0 then 0x80 else 0]
       else if v < 0 then butlast ds @ [last ds OR 0x80] else ds)"
    using serialize_cases [OF r False] by metis
  obtain j where k: "k = Suc j" using assms(2) by (cases k) auto
  have p: "(2 :: nat) ^ (8 * k - 1) = 128 * 256 ^ j"
    by (simp add: k power_add power_mult)
  have "nat \<bar>v\<bar> < 2 ^ (8 * k - 1)"
    using assms(1) by (simp add: nat_less_iff)
  then have b: "le_decode ds < 128 * 256 ^ j" unfolding ds(3) p .
  have "length ds \<le> k"
    using b ds(1,2) by (intro le_digits_length) (simp_all add: k)
  moreover have "length ds \<noteq> k" if "128 \<le> unat (last ds)"
  proof
    assume "length ds = k"
    then have "unat (last ds) * 256 ^ j \<le> le_decode ds"
      using le_decode_last_ge [OF ds(1)] by (simp add: k)
    moreover have "128 * 256 ^ j \<le> unat (last ds) * 256 ^ j"
      using that by (rule mult_le_mono1)
    ultimately show False using b by linarith
  qed
  ultimately show ?thesis using ds(1,4) by (auto simp: le_less)
qed (simp add: serialize_def)

lemma CScriptNum_getvch:
  assumes "1 \<le> k" and "k \<le> 8" and "\<bar>v\<bar> < 2 ^ (8 * k - 1)"
  shows "CScriptNum (getvch v) fRequireMinimal k = Inr v"
proof -
  have "(2 :: int) ^ (8 * k - 1) \<le> 2 ^ 63"
    using assms(2) by (intro power_increasing) auto
  then have r: "int64_min \<le> v" "v \<le> int64_max" using assms(3) by auto
  have l: "length (serialize v) \<le> k"
    using assms(3,1,2) by (rule length_serialize)
  then have "set_vch (serialize v) = v"
    using assms(2) num_of_serialize [OF r] by (simp add: set_vch_eq)
  with l minimal_serialize [OF r] show ?thesis
    by (simp add: CScriptNum_eq getvch_def)
qed

section \<open>Properties\<close>

text \<open>
  Every number that fits into \<open>k\<close> bytes (sign included) survives being written with
  \<^verbatim>\<open>getvch\<close> and read back with the limit \<open>k\<close>, whether or not minimal encodings are required.
\<close>

theorem CScriptNum_roundtrip:
  assumes "1 \<le> k" and "k \<le> 8" and "\<bar>v\<bar> < 2 ^ (8 * k - 1)"
  shows "CScriptNum (getvch v) fRequireMinimal k = Inr v"
  using assms by (rule CScriptNum_getvch)

theorem CScriptNum_roundtrip_witness:
  "getvch (- 255) = [0xff, 0x80] \<and> CScriptNum [0xff, 0x80] True 4 = Inr (- 255)"
proof -
  have g: "getvch (- 255) = [0xff, 0x80]"
    by (simp add: getvch_def serialize_def serialize_abs.simps)
  have "CScriptNum (getvch (- 255)) True 4 = Inr (- 255)"
    by (rule CScriptNum_roundtrip) simp_all
  with g show ?thesis by simp
qed

text \<open>
  Under the minimality rule (BIP62 rule 4) a number has exactly one accepted encoding:
  what \<^verbatim>\<open>CScriptNum(vch, true, k)\<close> accepts is what \<^verbatim>\<open>getvch\<close> writes for the value read.
\<close>

theorem CScriptNum_canonical:
  assumes "CScriptNum vch True k = Inr v" and "k \<le> 8"
  shows "getvch v = vch"
proof -
  from assms have "length vch \<le> 8" "minimal_vch vch" "v = set_vch vch"
    by (auto simp: CScriptNum_eq split: if_splits)
  then show ?thesis by (simp add: getvch_def set_vch_eq serialize_num)
qed

theorem CScriptNum_canonical_witness:
  "CScriptNum [0xe8, 0x03] True 4 = Inr 1000 \<and> getvch 1000 = [0xe8, 0x03]"
proof -
  have c: "CScriptNum [0xe8, 0x03] True 4 = Inr 1000"
    by (simp add: CScriptNum_def set_vch_def)
  from CScriptNum_canonical [OF c] c show ?thesis by simp
qed

text \<open>
  A stack element is true exactly when the number it denotes is not zero: the byte loop of
  \<^verbatim>\<open>CastToBool\<close>, with its treatment of negative zero, agrees with \<^verbatim>\<open>set_vch\<close>.
\<close>

theorem CastToBool_iff_nonzero:
  assumes "length vch \<le> 8"
  shows "CastToBool vch \<longleftrightarrow> set_vch vch \<noteq> 0"
  using assms by (cases "vch = []")
    (auto simp: CastToBool_num_abs set_vch_eq num_of_vch_def)

theorem CastToBool_iff_nonzero_witness:
  "\<not> CastToBool [0, 0x80] \<and> set_vch [0, 0x80] = 0"
  using CastToBool_iff_nonzero [of "[0, 0x80]"] by simp

text \<open>
  The operands of the numeric opcodes are at most four bytes long, so the assertions of
  \<^verbatim>\<open>operator+=\<close>, \<^verbatim>\<open>operator-=\<close> and the unary minus hold, sums and differences stay within
  \<^verbatim>\<open>int64_t\<close>, and every result is written in at most five bytes.
\<close>

theorem scriptnum_arith_no_overflow:
  assumes "CScriptNum a f nDefaultMaxNumSize = Inr x"
    and "CScriptNum b g nDefaultMaxNumSize = Inr y"
  shows "plus_assign_assert x 1 \<and> minus_assign_assert x 1 \<and> unary_minus_assert x \<and>
    int64_min \<le> x + y \<and> x + y \<le> int64_max \<and> int64_min \<le> x - y \<and> x - y \<le> int64_max \<and>
    length (getvch (x + y)) \<le> 5 \<and> length (getvch (x - y)) \<le> 5 \<and> length (getvch (- x)) \<le> 4"
proof -
  have x: "\<bar>x\<bar> < 2 ^ 31" and y: "\<bar>y\<bar> < 2 ^ 31"
    using CScriptNum_range [OF assms(1)] CScriptNum_range [OF assms(2)]
    by (simp_all add: nDefaultMaxNumSize_def)
  have "length (getvch (x + y)) \<le> 5" "length (getvch (x - y)) \<le> 5"
    unfolding getvch_def by (rule length_serialize; use x y in simp)+
  moreover have "length (getvch (- x)) \<le> 4"
    unfolding getvch_def by (rule length_serialize; use x in simp)
  ultimately show ?thesis using x y
    by (auto simp: plus_assign_assert_def minus_assign_assert_def unary_minus_assert_def)
qed

theorem scriptnum_arith_no_overflow_witness:
  "CScriptNum [0xff, 0xff, 0xff, 0x7f] True nDefaultMaxNumSize = Inr 2147483647 \<and>
   length (getvch (2147483647 + 2147483647)) \<le> 5"
proof -
  have c: "CScriptNum [0xff, 0xff, 0xff, 0x7f] True nDefaultMaxNumSize = Inr 2147483647"
    by (simp add: CScriptNum_def set_vch_def nDefaultMaxNumSize_def)
  from scriptnum_arith_no_overflow [OF c c] c show ?thesis by simp
qed

end
