(* ===== verification/Script_Code.thy ===== *)
theory Script_Code
  imports Script_Num
begin

text \<open>
  Serialized scripts: \<^verbatim>\<open>src/script/script.h\<close> and \<^verbatim>\<open>src/script/script.cpp\<close>.
  A \<^verbatim>\<open>CScript\<close> is its list of bytes, an iterator into it is the suffix of the list that starts
  there, and \<^verbatim>\<open>end()\<close> is the empty list.  An \<^verbatim>\<open>opcodetype\<close> is a byte: \<^verbatim>\<open>GetOp2\<close> casts every
  byte value to the enumeration, named or not; the enumerators are abbreviations of their values.
\<close>

section \<open>Opcodes\<close>

type_synonym opcodetype = byte

abbreviation (input) OP_0 :: opcodetype where "OP_0 \<equiv> 0x00"
abbreviation (input) OP_FALSE :: opcodetype where "OP_FALSE \<equiv> OP_0"
abbreviation (input) OP_PUSHDATA1 :: opcodetype where "OP_PUSHDATA1 \<equiv> 0x4c"
abbreviation (input) OP_PUSHDATA2 :: opcodetype where "OP_PUSHDATA2 \<equiv> 0x4d"
abbreviation (input) OP_PUSHDATA4 :: opcodetype where "OP_PUSHDATA4 \<equiv> 0x4e"
abbreviation (input) OP_1NEGATE :: opcodetype where "OP_1NEGATE \<equiv> 0x4f"
abbreviation (input) OP_RESERVED :: opcodetype where "OP_RESERVED \<equiv> 0x50"
abbreviation (input) OP_1 :: opcodetype where "OP_1 \<equiv> 0x51"
abbreviation (input) OP_TRUE :: opcodetype where "OP_TRUE \<equiv> OP_1"
abbreviation (input) OP_2 :: opcodetype where "OP_2 \<equiv> 0x52"
abbreviation (input) OP_3 :: opcodetype where "OP_3 \<equiv> 0x53"
abbreviation (input) OP_4 :: opcodetype where "OP_4 \<equiv> 0x54"
abbreviation (input) OP_5 :: opcodetype where "OP_5 \<equiv> 0x55"
abbreviation (input) OP_6 :: opcodetype where "OP_6 \<equiv> 0x56"
abbreviation (input) OP_7 :: opcodetype where "OP_7 \<equiv> 0x57"
abbreviation (input) OP_8 :: opcodetype where "OP_8 \<equiv> 0x58"
abbreviation (input) OP_9 :: opcodetype where "OP_9 \<equiv> 0x59"
abbreviation (input) OP_10 :: opcodetype where "OP_10 \<equiv> 0x5a"
abbreviation (input) OP_11 :: opcodetype where "OP_11 \<equiv> 0x5b"
abbreviation (input) OP_12 :: opcodetype where "OP_12 \<equiv> 0x5c"
abbreviation (input) OP_13 :: opcodetype where "OP_13 \<equiv> 0x5d"
abbreviation (input) OP_14 :: opcodetype where "OP_14 \<equiv> 0x5e"
abbreviation (input) OP_15 :: opcodetype where "OP_15 \<equiv> 0x5f"
abbreviation (input) OP_16 :: opcodetype where "OP_16 \<equiv> 0x60"
abbreviation (input) OP_NOP :: opcodetype where "OP_NOP \<equiv> 0x61"
abbreviation (input) OP_VER :: opcodetype where "OP_VER \<equiv> 0x62"
abbreviation (input) OP_IF :: opcodetype where "OP_IF \<equiv> 0x63"
abbreviation (input) OP_NOTIF :: opcodetype where "OP_NOTIF \<equiv> 0x64"
abbreviation (input) OP_VERIF :: opcodetype where "OP_VERIF \<equiv> 0x65"
abbreviation (input) OP_VERNOTIF :: opcodetype where "OP_VERNOTIF \<equiv> 0x66"
abbreviation (input) OP_ELSE :: opcodetype where "OP_ELSE \<equiv> 0x67"
abbreviation (input) OP_ENDIF :: opcodetype where "OP_ENDIF \<equiv> 0x68"
abbreviation (input) OP_VERIFY :: opcodetype where "OP_VERIFY \<equiv> 0x69"
abbreviation (input) OP_RETURN :: opcodetype where "OP_RETURN \<equiv> 0x6a"
abbreviation (input) OP_TOALTSTACK :: opcodetype where "OP_TOALTSTACK \<equiv> 0x6b"
abbreviation (input) OP_FROMALTSTACK :: opcodetype where "OP_FROMALTSTACK \<equiv> 0x6c"
abbreviation (input) OP_2DROP :: opcodetype where "OP_2DROP \<equiv> 0x6d"
abbreviation (input) OP_2DUP :: opcodetype where "OP_2DUP \<equiv> 0x6e"
abbreviation (input) OP_3DUP :: opcodetype where "OP_3DUP \<equiv> 0x6f"
abbreviation (input) OP_2OVER :: opcodetype where "OP_2OVER \<equiv> 0x70"
abbreviation (input) OP_2ROT :: opcodetype where "OP_2ROT \<equiv> 0x71"
abbreviation (input) OP_2SWAP :: opcodetype where "OP_2SWAP \<equiv> 0x72"
abbreviation (input) OP_IFDUP :: opcodetype where "OP_IFDUP \<equiv> 0x73"
abbreviation (input) OP_DEPTH :: opcodetype where "OP_DEPTH \<equiv> 0x74"
abbreviation (input) OP_DROP :: opcodetype where "OP_DROP \<equiv> 0x75"
abbreviation (input) OP_DUP :: opcodetype where "OP_DUP \<equiv> 0x76"
abbreviation (input) OP_NIP :: opcodetype where "OP_NIP \<equiv> 0x77"
abbreviation (input) OP_OVER :: opcodetype where "OP_OVER \<equiv> 0x78"
abbreviation (input) OP_PICK :: opcodetype where "OP_PICK \<equiv> 0x79"
abbreviation (input) OP_ROLL :: opcodetype where "OP_ROLL \<equiv> 0x7a"
abbreviation (input) OP_ROT :: opcodetype where "OP_ROT \<equiv> 0x7b"
abbreviation (input) OP_SWAP :: opcodetype where "OP_SWAP \<equiv> 0x7c"
abbreviation (input) OP_TUCK :: opcodetype where "OP_TUCK \<equiv> 0x7d"
abbreviation (input) OP_CAT :: opcodetype where "OP_CAT \<equiv> 0x7e"
abbreviation (input) OP_SUBSTR :: opcodetype where "OP_SUBSTR \<equiv> 0x7f"
abbreviation (input) OP_LEFT :: opcodetype where "OP_LEFT \<equiv> 0x80"
abbreviation (input) OP_RIGHT :: opcodetype where "OP_RIGHT \<equiv> 0x81"
abbreviation (input) OP_SIZE :: opcodetype where "OP_SIZE \<equiv> 0x82"
abbreviation (input) OP_INVERT :: opcodetype where "OP_INVERT \<equiv> 0x83"
abbreviation (input) OP_AND :: opcodetype where "OP_AND \<equiv> 0x84"
abbreviation (input) OP_OR :: opcodetype where "OP_OR \<equiv> 0x85"
abbreviation (input) OP_XOR :: opcodetype where "OP_XOR \<equiv> 0x86"
abbreviation (input) OP_EQUAL :: opcodetype where "OP_EQUAL \<equiv> 0x87"
abbreviation (input) OP_EQUALVERIFY :: opcodetype where "OP_EQUALVERIFY \<equiv> 0x88"
abbreviation (input) OP_RESERVED1 :: opcodetype where "OP_RESERVED1 \<equiv> 0x89"
abbreviation (input) OP_RESERVED2 :: opcodetype where "OP_RESERVED2 \<equiv> 0x8a"
abbreviation (input) OP_1ADD :: opcodetype where "OP_1ADD \<equiv> 0x8b"
abbreviation (input) OP_1SUB :: opcodetype where "OP_1SUB \<equiv> 0x8c"
abbreviation (input) OP_2MUL :: opcodetype where "OP_2MUL \<equiv> 0x8d"
abbreviation (input) OP_2DIV :: opcodetype where "OP_2DIV \<equiv> 0x8e"
abbreviation (input) OP_NEGATE :: opcodetype where "OP_NEGATE \<equiv> 0x8f"
abbreviation (input) OP_ABS :: opcodetype where "OP_ABS \<equiv> 0x90"
abbreviation (input) OP_NOT :: opcodetype where "OP_NOT \<equiv> 0x91"
abbreviation (input) OP_0NOTEQUAL :: opcodetype where "OP_0NOTEQUAL \<equiv> 0x92"
abbreviation (input) OP_ADD :: opcodetype where "OP_ADD \<equiv> 0x93"
abbreviation (input) OP_SUB :: opcodetype where "OP_SUB \<equiv> 0x94"
abbreviation (input) OP_MUL :: opcodetype where "OP_MUL \<equiv> 0x95"
abbreviation (input) OP_DIV :: opcodetype where "OP_DIV \<equiv> 0x96"
abbreviation (input) OP_MOD :: opcodetype where "OP_MOD \<equiv> 0x97"
abbreviation (input) OP_LSHIFT :: opcodetype where "OP_LSHIFT \<equiv> 0x98"
abbreviation (input) OP_RSHIFT :: opcodetype where "OP_RSHIFT \<equiv> 0x99"
abbreviation (input) OP_BOOLAND :: opcodetype where "OP_BOOLAND \<equiv> 0x9a"
abbreviation (input) OP_BOOLOR :: opcodetype where "OP_BOOLOR \<equiv> 0x9b"
abbreviation (input) OP_NUMEQUAL :: opcodetype where "OP_NUMEQUAL \<equiv> 0x9c"
abbreviation (input) OP_NUMEQUALVERIFY :: opcodetype where "OP_NUMEQUALVERIFY \<equiv> 0x9d"
abbreviation (input) OP_NUMNOTEQUAL :: opcodetype where "OP_NUMNOTEQUAL \<equiv> 0x9e"
abbreviation (input) OP_LESSTHAN :: opcodetype where "OP_LESSTHAN \<equiv> 0x9f"
abbreviation (input) OP_GREATERTHAN :: opcodetype where "OP_GREATERTHAN \<equiv> 0xa0"
abbreviation (input) OP_LESSTHANOREQUAL :: opcodetype where "OP_LESSTHANOREQUAL \<equiv> 0xa1"
abbreviation (input) OP_GREATERTHANOREQUAL :: opcodetype where "OP_GREATERTHANOREQUAL \<equiv> 0xa2"
abbreviation (input) OP_MIN :: opcodetype where "OP_MIN \<equiv> 0xa3"
abbreviation (input) OP_MAX :: opcodetype where "OP_MAX \<equiv> 0xa4"
abbreviation (input) OP_WITHIN :: opcodetype where "OP_WITHIN \<equiv> 0xa5"
abbreviation (input) OP_RIPEMD160 :: opcodetype where "OP_RIPEMD160 \<equiv> 0xa6"
abbreviation (input) OP_SHA1 :: opcodetype where "OP_SHA1 \<equiv> 0xa7"
abbreviation (input) OP_SHA256 :: opcodetype where "OP_SHA256 \<equiv> 0xa8"
abbreviation (input) OP_HASH160 :: opcodetype where "OP_HASH160 \<equiv> 0xa9"
abbreviation (input) OP_HASH256 :: opcodetype where "OP_HASH256 \<equiv> 0xaa"
abbreviation (input) OP_CODESEPARATOR :: opcodetype where "OP_CODESEPARATOR \<equiv> 0xab"
abbreviation (input) OP_CHECKSIG :: opcodetype where "OP_CHECKSIG \<equiv> 0xac"
abbreviation (input) OP_CHECKSIGVERIFY :: opcodetype where "OP_CHECKSIGVERIFY \<equiv> 0xad"
abbreviation (input) OP_CHECKMULTISIG :: opcodetype where "OP_CHECKMULTISIG \<equiv> 0xae"
abbreviation (input) OP_CHECKMULTISIGVERIFY :: opcodetype where "OP_CHECKMULTISIGVERIFY \<equiv> 0xaf"
abbreviation (input) OP_NOP1 :: opcodetype where "OP_NOP1 \<equiv> 0xb0"
abbreviation (input) OP_NOP2 :: opcodetype where "OP_NOP2 \<equiv> 0xb1"
abbreviation (input) OP_CHECKLOCKTIMEVERIFY :: opcodetype where "OP_CHECKLOCKTIMEVERIFY \<equiv> OP_NOP2"
abbreviation (input) OP_NOP3 :: opcodetype where "OP_NOP3 \<equiv> 0xb2"
abbreviation (input) OP_NOP4 :: opcodetype where "OP_NOP4 \<equiv> 0xb3"
abbreviation (input) OP_NOP5 :: opcodetype where "OP_NOP5 \<equiv> 0xb4"
abbreviation (input) OP_NOP6 :: opcodetype where "OP_NOP6 \<equiv> 0xb5"
abbreviation (input) OP_NOP7 :: opcodetype where "OP_NOP7 \<equiv> 0xb6"
abbreviation (input) OP_NOP8 :: opcodetype where "OP_NOP8 \<equiv> 0xb7"
abbreviation (input) OP_NOP9 :: opcodetype where "OP_NOP9 \<equiv> 0xb8"
abbreviation (input) OP_NOP10 :: opcodetype where "OP_NOP10 \<equiv> 0xb9"
abbreviation (input) OP_ASSETSMINT :: opcodetype where "OP_ASSETSMINT \<equiv> 0xd4"
abbreviation (input) OP_ASSETSSPEND :: opcodetype where "OP_ASSETSSPEND \<equiv> 0xd5"
abbreviation (input) OP_DPOSASSETSMINT :: opcodetype where "OP_DPOSASSETSMINT \<equiv> 0xd6"
abbreviation (input) OP_CHECKCOLDSTAKEVERIFY :: opcodetype where "OP_CHECKCOLDSTAKEVERIFY \<equiv> 0xd1"
abbreviation (input) OP_INVALIDOPCODE :: opcodetype where "OP_INVALIDOPCODE \<equiv> 0xff"

definition opcode_names :: "(opcodetype \<times> string) list" where
  "opcode_names =
    [(OP_0, ''0''),
     (OP_PUSHDATA1, ''OP_PUSHDATA1''),
     (OP_PUSHDATA2, ''OP_PUSHDATA2''),
     (OP_PUSHDATA4, ''OP_PUSHDATA4''),
     (OP_1NEGATE, ''-1''),
     (OP_RESERVED, ''OP_RESERVED''),
     (OP_1, ''1''),
     (OP_2, ''2''),
     (OP_3, ''3''),
     (OP_4, ''4''),
     (OP_5, ''5''),
     (OP_6, ''6''),
     (OP_7, ''7''),
     (OP_8, ''8''),
     (OP_9, ''9''),
     (OP_10, ''10''),
     (OP_11, ''11''),
     (OP_12, ''12''),
     (OP_13, ''13''),
     (OP_14, ''14''),
     (OP_15, ''15''),
     (OP_16, ''16''),
     (OP_NOP, ''OP_NOP''),
     (OP_VER, ''OP_VER''),
     (OP_IF, ''OP_IF''),
     (OP_NOTIF, ''OP_NOTIF''),
     (OP_VERIF, ''OP_VERIF''),
     (OP_VERNOTIF, ''OP_VERNOTIF''),
     (OP_ELSE, ''OP_ELSE''),
     (OP_ENDIF, ''OP_ENDIF''),
     (OP_VERIFY, ''OP_VERIFY''),
     (OP_RETURN, ''OP_RETURN''),
     (OP_TOALTSTACK, ''OP_TOALTSTACK''),
     (OP_FROMALTSTACK, ''OP_FROMALTSTACK''),
     (OP_2DROP, ''OP_2DROP''),
     (OP_2DUP, ''OP_2DUP''),
     (OP_3DUP, ''OP_3DUP''),
     (OP_2OVER, ''OP_2OVER''),
     (OP_2ROT, ''OP_2ROT''),
     (OP_2SWAP, ''OP_2SWAP''),
     (OP_IFDUP, ''OP_IFDUP''),
     (OP_DEPTH, ''OP_DEPTH''),
     (OP_DROP, ''OP_DROP''),
     (OP_DUP, ''OP_DUP''),
     (OP_NIP, ''OP_NIP''),
     (OP_OVER, ''OP_OVER''),
     (OP_PICK, ''OP_PICK''),
     (OP_ROLL, ''OP_ROLL''),
     (OP_ROT, ''OP_ROT''),
     (OP_SWAP, ''OP_SWAP''),
     (OP_TUCK, ''OP_TUCK''),
     (OP_CAT, ''OP_CAT''),
     (OP_SUBSTR, ''OP_SUBSTR''),
     (OP_LEFT, ''OP_LEFT''),
     (OP_RIGHT, ''OP_RIGHT''),
     (OP_SIZE, ''OP_SIZE''),
     (OP_INVERT, ''OP_INVERT''),
     (OP_AND, ''OP_AND''),
     (OP_OR, ''OP_OR''),
     (OP_XOR, ''OP_XOR''),
     (OP_EQUAL, ''OP_EQUAL''),
     (OP_EQUALVERIFY, ''OP_EQUALVERIFY''),
     (OP_RESERVED1, ''OP_RESERVED1''),
     (OP_RESERVED2, ''OP_RESERVED2''),
     (OP_1ADD, ''OP_1ADD''),
     (OP_1SUB, ''OP_1SUB''),
     (OP_2MUL, ''OP_2MUL''),
     (OP_2DIV, ''OP_2DIV''),
     (OP_NEGATE, ''OP_NEGATE''),
     (OP_ABS, ''OP_ABS''),
     (OP_NOT, ''OP_NOT''),
     (OP_0NOTEQUAL, ''OP_0NOTEQUAL''),
     (OP_ADD, ''OP_ADD''),
     (OP_SUB, ''OP_SUB''),
     (OP_MUL, ''OP_MUL''),
     (OP_DIV, ''OP_DIV''),
     (OP_MOD, ''OP_MOD''),
     (OP_LSHIFT, ''OP_LSHIFT''),
     (OP_RSHIFT, ''OP_RSHIFT''),
     (OP_BOOLAND, ''OP_BOOLAND''),
     (OP_BOOLOR, ''OP_BOOLOR''),
     (OP_NUMEQUAL, ''OP_NUMEQUAL''),
     (OP_NUMEQUALVERIFY, ''OP_NUMEQUALVERIFY''),
     (OP_NUMNOTEQUAL, ''OP_NUMNOTEQUAL''),
     (OP_LESSTHAN, ''OP_LESSTHAN''),
     (OP_GREATERTHAN, ''OP_GREATERTHAN''),
     (OP_LESSTHANOREQUAL, ''OP_LESSTHANOREQUAL''),
     (OP_GREATERTHANOREQUAL, ''OP_GREATERTHANOREQUAL''),
     (OP_MIN, ''OP_MIN''),
     (OP_MAX, ''OP_MAX''),
     (OP_WITHIN, ''OP_WITHIN''),
     (OP_RIPEMD160, ''OP_RIPEMD160''),
     (OP_SHA1, ''OP_SHA1''),
     (OP_SHA256, ''OP_SHA256''),
     (OP_HASH160, ''OP_HASH160''),
     (OP_HASH256, ''OP_HASH256''),
     (OP_CODESEPARATOR, ''OP_CODESEPARATOR''),
     (OP_CHECKSIG, ''OP_CHECKSIG''),
     (OP_CHECKSIGVERIFY, ''OP_CHECKSIGVERIFY''),
     (OP_CHECKMULTISIG, ''OP_CHECKMULTISIG''),
     (OP_CHECKMULTISIGVERIFY, ''OP_CHECKMULTISIGVERIFY''),
     (OP_NOP1, ''OP_NOP1''),
     (OP_CHECKLOCKTIMEVERIFY, ''OP_CHECKLOCKTIMEVERIFY''),
     (OP_NOP3, ''OP_NOP3''),
     (OP_NOP4, ''OP_NOP4''),
     (OP_NOP5, ''OP_NOP5''),
     (OP_NOP6, ''OP_NOP6''),
     (OP_NOP7, ''OP_NOP7''),
     (OP_NOP8, ''OP_NOP8''),
     (OP_NOP9, ''OP_NOP9''),
     (OP_NOP10, ''OP_NOP10''),
     (OP_CHECKCOLDSTAKEVERIFY, ''OP_CHECKCOLDSTAKEVERIFY''),
     (OP_ASSETSSPEND, ''OP_ASSETSSPEND''),
     (OP_ASSETSMINT, ''OP_ASSETSMINT''),
     (OP_DPOSASSETSMINT, ''OP_DPOSASSETSMINT''),
     (OP_INVALIDOPCODE, ''OP_INVALIDOPCODE'')]"

definition GetOpName :: "opcodetype \<Rightarrow> string" where
  "GetOpName opcode =
     (case map_of opcode_names opcode of Some name \<Rightarrow> name | None \<Rightarrow> ''OP_UNKNOWN'')"

section \<open>Limits\<close>

definition MAX_SCRIPT_ELEMENT_SIZE :: nat where "MAX_SCRIPT_ELEMENT_SIZE = 520"
definition MAX_SCRIPT_SIZE :: nat where "MAX_SCRIPT_SIZE = 10000"
definition LOCKTIME_THRESHOLD :: int where "LOCKTIME_THRESHOLD = 500000000"

section \<open>Little-endian integers of \<open>crypto/common.h\<close>\<close>

definition ReadLE16 :: "bytes \<Rightarrow> nat" where "ReadLE16 ptr = le_decode (take 2 ptr)"
definition ReadLE32 :: "bytes \<Rightarrow> nat" where "ReadLE32 ptr = le_decode (take 4 ptr)"
definition WriteLE16 :: "nat \<Rightarrow> bytes" where "WriteLE16 x = le_encode 2 x"
definition WriteLE32 :: "nat \<Rightarrow> bytes" where "WriteLE32 x = le_encode 4 x"

section \<open>Building scripts\<close>

text \<open>\<^verbatim>\<open>operator<<(const std::vector<unsigned char>& b)\<close>\<close>

definition push_vch :: "bytes \<Rightarrow> bytes \<Rightarrow> bytes" where
  "push_vch script b =
     (if length b < unat OP_PUSHDATA1 then script @ [of_nat (length b)] @ b
      else if length b \<le> 0xff then script @ [OP_PUSHDATA1, of_nat (length b)] @ b
      else if length b \<le> 0xffff then script @ [OP_PUSHDATA2] @ WriteLE16 (length b) @ b
      else script @ [OP_PUSHDATA4] @ WriteLE32 (length b) @ b)"

definition push_opcode :: "bytes \<Rightarrow> opcodetype \<Rightarrow> bytes" where
  "push_opcode script opcode = script @ [opcode]"

definition push_int64 :: "bytes \<Rightarrow> int \<Rightarrow> bytes" where
  "push_int64 script n =
     (if n = -1 \<or> (n \<ge> 1 \<and> n \<le> 16) then script @ [of_int (n + (uint OP_1 - 1))]
      else if n = 0 then script @ [OP_0]
      else push_vch script (serialize n))"

definition push_num :: "bytes \<Rightarrow> int \<Rightarrow> bytes" where
  "push_num script b = push_vch script (getvch b)"

text \<open>\<^verbatim>\<open>DecodeOP_N\<close> and \<^verbatim>\<open>EncodeOP_N\<close>; \<open>None\<close> where their assertion fails.\<close>

definition DecodeOP_N :: "opcodetype \<Rightarrow> nat option" where
  "DecodeOP_N opcode =
     (if opcode = OP_0 then Some 0
      else if opcode \<ge> OP_1 \<and> opcode \<le> OP_16 then Some (unat opcode - (unat OP_1 - 1))
      else None)"

definition EncodeOP_N :: "int \<Rightarrow> opcodetype option" where
  "EncodeOP_N n =
     (if \<not> (n \<ge> 0 \<and> n \<le> 16) then None
      else if n = 0 then Some OP_0
      else Some (of_int (uint OP_1 + n - 1)))"

section \<open>Reading scripts\<close>

text \<open>
  The size of an immediate operand and the iterator after the size bytes; no size when the script
  ends before them.
\<close>

definition GetOpSize :: "opcodetype \<Rightarrow> bytes \<Rightarrow> nat option \<times> bytes" where
  "GetOpSize opcode pc =
     (if opcode < OP_PUSHDATA1 then (Some (unat opcode), pc)
      else if opcode = OP_PUSHDATA1 then
        (case pc of [] \<Rightarrow> (None, pc) | b # pc' \<Rightarrow> (Some (unat b), pc'))
      else if opcode = OP_PUSHDATA2 then
        (if length pc < 2 then (None, pc) else (Some (ReadLE16 pc), drop 2 pc))
      else if opcode = OP_PUSHDATA4 then
        (if length pc < 4 then (None, pc) else (Some (ReadLE32 pc), drop 4 pc))
      else (Some 0, pc))"

text \<open>
  \<^verbatim>\<open>GetOp2\<close>: the opcode with its operand, or \<open>None\<close> where the code returns \<^verbatim>\<open>false\<close> (with
  \<^verbatim>\<open>OP_INVALIDOPCODE\<close> and an empty operand), and the iterator the caller is left with, which has
  moved over the bytes read also when the call fails.
\<close>

definition GetOp2 :: "bytes \<Rightarrow> (opcodetype \<times> bytes) option \<times> bytes" where
  "GetOp2 pc =
     (case pc of
        [] \<Rightarrow> (None, [])
      | opcode # pc1 \<Rightarrow>
          if opcode \<le> OP_PUSHDATA4 then
            (case GetOpSize opcode pc1 of
               (None, pc2) \<Rightarrow> (None, pc2)
             | (Some nSize, pc2) \<Rightarrow>
                 if length pc2 < nSize then (None, pc2)
                 else (Some (opcode, take nSize pc2), drop nSize pc2))
          else (Some (opcode, []), pc1))"

lemma GetOpSize_suffix: "length (snd (GetOpSize opcode pc)) \<le> length pc"
  by (auto simp: GetOpSize_def split: list.splits)

lemma GetOp2_Nil [simp]: "GetOp2 [] = (None, [])"
  by (simp add: GetOp2_def)

lemma GetOp2_shorter: "GetOp2 pc = (Some x, pc') \<Longrightarrow> length pc' < length pc"
proof (cases pc)
  case (Cons opcode pc1)
  assume "GetOp2 pc = (Some x, pc')"
  then show ?thesis
    using GetOpSize_suffix [of opcode pc1]
    by (auto simp: Cons GetOp2_def split: if_splits option.splits prod.splits)
qed simp


lemma GetOp2_shorter': "(Some x, pc') = GetOp2 pc \<Longrightarrow> length pc' < length pc"
  by (metis GetOp2_shorter)

section \<open>Searching scripts\<close>

text \<open>\<^verbatim>\<open>std::equal\<close> of \<open>b\<close> with the script at \<open>pc\<close>, skipped as often as it matches.\<close>

function skip_matches :: "bytes \<Rightarrow> bytes \<Rightarrow> nat \<Rightarrow> bytes \<times> nat" where
  "skip_matches b pc nFound =
     (if b \<noteq> [] \<and> length pc \<ge> length b \<and> take (length b) pc = b
      then skip_matches b (drop (length b) pc) (Suc nFound)
      else (pc, nFound))"
  by pat_completeness auto
termination
  by (relation "measure (\<lambda>(b, pc, n). length pc)") (auto simp: neq_Nil_conv)

declare skip_matches.simps [simp del]

lemma skip_matches_length: "length (fst (skip_matches b pc n)) \<le> length pc"
proof (induction b pc n rule: skip_matches.induct)
  case (1 b pc n)
  then show ?case by (auto simp: skip_matches.simps [of b pc n])
qed

lemma skip_GetOp2_shorter:
  assumes "(pc2, n') = skip_matches b pc n" "(Some y, pc') = GetOp2 pc2"
  shows "length pc' < length pc"
  using skip_matches_length [of b pc n] GetOp2_shorter' [OF assms(2)] assms(1)
  by (metis fst_conv less_le_trans)

text \<open>
  The do-while loop of \<^verbatim>\<open>FindAndDelete\<close>, from the point where \<open>result\<close> holds everything kept
  before \<open>pc\<close>; it returns \<open>result\<close>, the final \<^verbatim>\<open>pc2\<close> and \<^verbatim>\<open>nFound\<close>.
\<close>

function FindAndDelete_loop :: "bytes \<Rightarrow> bytes \<Rightarrow> bytes \<Rightarrow> nat \<Rightarrow> bytes \<times> bytes \<times> nat" where
  "FindAndDelete_loop b pc result nFound =
     (case skip_matches b pc nFound of
        (pc2, nFound') \<Rightarrow>
          (case GetOp2 pc2 of
             (None, _) \<Rightarrow> (result, pc2, nFound')
           | (Some _, pc') \<Rightarrow>
               FindAndDelete_loop b pc' (result @ take (length pc2 - length pc') pc2) nFound'))"
  by pat_completeness auto
termination
  by (relation "measure (\<lambda>(b, pc, r, n). length pc)") (auto dest: skip_GetOp2_shorter)

declare FindAndDelete_loop.simps [simp del]

definition FindAndDelete :: "bytes \<Rightarrow> bytes \<Rightarrow> bytes \<times> nat" where
  "FindAndDelete script b =
     (if b = [] then (script, 0)
      else case FindAndDelete_loop b script [] 0 of
        (result, pc2, nFound) \<Rightarrow>
          if nFound > 0 then (result @ pc2, nFound) else (script, nFound))"

function Find_loop :: "opcodetype \<Rightarrow> bytes \<Rightarrow> nat \<Rightarrow> nat" where
  "Find_loop op pc nFound =
     (case GetOp2 pc of
        (None, _) \<Rightarrow> nFound
      | (Some (opcode, _), pc') \<Rightarrow> Find_loop op pc' (if opcode = op then Suc nFound else nFound))"
  by pat_completeness auto
termination
  by (relation "measure (\<lambda>(op, pc, n). length pc)") (auto dest: GetOp2_shorter')

declare Find_loop.simps [simp del]

definition Find :: "bytes \<Rightarrow> opcodetype \<Rightarrow> nat" where
  "Find script op = Find_loop op script 0"

section \<open>Counting signature operations\<close>

text \<open>What one operation adds to the count \<open>n\<close>.\<close>

definition sigop_weight :: "bool \<Rightarrow> opcodetype \<Rightarrow> opcodetype \<Rightarrow> nat" where
  "sigop_weight fAccurate lastOpcode opcode =
     (if opcode = OP_CHECKSIG \<or> opcode = OP_CHECKSIGVERIFY then 1
      else if opcode = OP_CHECKMULTISIG \<or> opcode = OP_CHECKMULTISIGVERIFY then
        (if fAccurate \<and> lastOpcode \<ge> OP_1 \<and> lastOpcode \<le> OP_16
         then the (DecodeOP_N lastOpcode) else 20)
      else 0)"

function GetSigOpCount_loop :: "bool \<Rightarrow> opcodetype \<Rightarrow> bytes \<Rightarrow> nat \<Rightarrow> nat" where
  "GetSigOpCount_loop fAccurate lastOpcode pc n =
     (case GetOp2 pc of
        (None, _) \<Rightarrow> n
      | (Some (opcode, _), pc') \<Rightarrow>
          GetSigOpCount_loop fAccurate opcode pc' (n + sigop_weight fAccurate lastOpcode opcode))"
  by pat_completeness auto
termination
  by (relation "measure (\<lambda>(f, l, pc, n). length pc)") (auto dest: GetOp2_shorter')

declare GetSigOpCount_loop.simps [simp del]

definition GetSigOpCount :: "bytes \<Rightarrow> bool \<Rightarrow> nat" where
  "GetSigOpCount script fAccurate = GetSigOpCount_loop fAccurate OP_INVALIDOPCODE script 0"

section \<open>Script templates\<close>

definition IsPayToPublicKeyHash :: "bytes \<Rightarrow> bool" where
  "IsPayToPublicKeyHash script \<longleftrightarrow>
     length script = 25 \<and> script ! 0 = OP_DUP \<and> script ! 1 = OP_HASH160 \<and> script ! 2 = 0x14 \<and>
     script ! 23 = OP_EQUALVERIFY \<and> script ! 24 = OP_CHECKSIG"

definition IsPayToScriptHash :: "bytes \<Rightarrow> bool" where
  "IsPayToScriptHash script \<longleftrightarrow>
     length script = 23 \<and> script ! 0 = OP_HASH160 \<and> script ! 1 = 0x14 \<and> script ! 22 = OP_EQUAL"

text \<open>The global \<^verbatim>\<open>g_newP2CSRules\<close> is an argument.\<close>

definition IsPayToColdStaking :: "bool \<Rightarrow> bytes \<Rightarrow> bool" where
  "IsPayToColdStaking g_newP2CSRules script \<longleftrightarrow>
     length script = 51 \<and>
     (\<not> g_newP2CSRules \<or> script ! 0 = OP_DUP) \<and>
     (\<not> g_newP2CSRules \<or> script ! 1 = OP_HASH160) \<and>
     script ! 2 = OP_ROT \<and>
     (\<not> g_newP2CSRules \<or> script ! 3 = OP_IF) \<and>
     script ! 4 = OP_CHECKCOLDSTAKEVERIFY \<and>
     script ! 5 = 0x14 \<and>
     (\<not> g_newP2CSRules \<or> script ! 26 = OP_ELSE) \<and>
     script ! 27 = 0x14 \<and>
     (\<not> g_newP2CSRules \<or> script ! 48 = OP_ENDIF) \<and>
     script ! 49 = OP_EQUALVERIFY \<and>
     script ! 50 = OP_CHECKSIG"

definition IsPayToPublicKey :: "bytes \<Rightarrow> bool" where
  "IsPayToPublicKey script \<longleftrightarrow>
     (if length script = 35
      then (script ! 1 = 0x02 \<or> script ! 1 = 0x03) \<and> script ! 34 = OP_CHECKSIG
      else if length script = 67 then script ! 1 = 0x04 \<and> script ! 66 = OP_CHECKSIG
      else False)"

definition StartsWithOpcode :: "bytes \<Rightarrow> opcodetype \<Rightarrow> bool" where
  "StartsWithOpcode script opcode \<longleftrightarrow> script \<noteq> [] \<and> script ! 0 = opcode"

definition IsPayAssetScriptHash :: "bytes \<Rightarrow> bool" where
  "IsPayAssetScriptHash script \<longleftrightarrow>
     length script = 26 \<and> script ! 0 = OP_DUP \<and> script ! 1 = OP_HASH160 \<and>
     script ! 2 = OP_ASSETSMINT \<and> script ! 24 = OP_EQUALVERIFY \<and> script ! 25 = OP_CHECKSIG"

definition IsPayAssetDposScript :: "bytes \<Rightarrow> bool" where
  "IsPayAssetDposScript script \<longleftrightarrow>
     length script = 51 \<and> script ! 2 = OP_ROT \<and> script ! 4 = OP_DPOSASSETSMINT \<and>
     script ! 5 = 0x14 \<and> script ! 27 = 0x14 \<and> script ! 49 = OP_EQUALVERIFY \<and>
     script ! 50 = OP_CHECKSIG"

definition IsPayToGenesisAddress :: "bytes \<Rightarrow> string \<Rightarrow> bool" where
  "IsPayToGenesisAddress script genesis \<longleftrightarrow> False"

definition IsMultiMiningSpend :: "bytes \<Rightarrow> bool" where
  "IsMultiMiningSpend script \<longleftrightarrow> StartsWithOpcode script OP_ASSETSSPEND"

function IsPushOnly :: "bytes \<Rightarrow> bool" where
  "IsPushOnly pc =
     (if pc = [] then True
      else case GetOp2 pc of
        (None, _) \<Rightarrow> False
      | (Some (opcode, _), pc') \<Rightarrow> if opcode > OP_16 then False else IsPushOnly pc')"
  by pat_completeness auto
termination
  by (relation "measure length") (auto dest: GetOp2_shorter')

declare IsPushOnly.simps [simp del]

definition IsUnspendable :: "bytes \<Rightarrow> bool" where
  "IsUnspendable script \<longleftrightarrow>
     (length script > 0 \<and> hd script = OP_RETURN) \<or> length script > MAX_SCRIPT_SIZE"

text \<open>
  The last element that a push-only script leaves in \<^verbatim>\<open>data\<close>, or \<open>None\<close> where the loop of
  \<^verbatim>\<open>GetSigOpCount(scriptSig)\<close> returns 0.
\<close>

function last_push :: "bytes \<Rightarrow> bytes \<Rightarrow> bytes option" where
  "last_push pc data =
     (if pc = [] then Some data
      else case GetOp2 pc of
        (None, _) \<Rightarrow> None
      | (Some (opcode, vch), pc') \<Rightarrow> if opcode > OP_16 then None else last_push pc' vch)"
  by pat_completeness auto
termination
  by (relation "measure (\<lambda>(pc, d). length pc)") (auto dest: GetOp2_shorter')

declare last_push.simps [simp del]

definition GetSigOpCount_P2SH :: "bytes \<Rightarrow> bytes \<Rightarrow> nat" where
  "GetSigOpCount_P2SH script scriptSig =
     (if \<not> IsPayToScriptHash script then GetSigOpCount script True
      else case last_push scriptSig [] of
        None \<Rightarrow> 0
      | Some data \<Rightarrow> GetSigOpCount data True)"

section \<open>Pushes are read back\<close>

text \<open>The opcode with which \<^verbatim>\<open>operator<<\<close> pushes a vector.\<close>

definition push_op :: "bytes \<Rightarrow> opcodetype" where
  "push_op b =
     (if length b < 76 then of_nat (length b)
      else if length b \<le> 255 then OP_PUSHDATA1
      else if length b \<le> 65535 then OP_PUSHDATA2
      else OP_PUSHDATA4)"

lemma push_vch_append: "push_vch script b = script @ push_vch [] b"
  by (simp add: push_vch_def)

lemma of_nat_byte_less: "n < m \<Longrightarrow> m < 256 \<Longrightarrow> (of_nat n :: byte) < of_nat m"
  by (simp add: word_less_nat_alt)

lemma push_op_le: "push_op b \<le> OP_PUSHDATA4"
  by (auto simp: push_op_def word_le_nat_alt)

lemma GetOp2_push_vch:
  assumes "length b < 2 ^ 32"
  shows "GetOp2 (push_vch [] b @ rest) = (Some (push_op b, b), rest)"
proof -
  consider (direct) "length b < 76" | (one) "76 \<le> length b" "length b \<le> 255"
    | (two) "255 < length b" "length b \<le> 65535" | (four) "65535 < length b"
    by linarith
  then show ?thesis
  proof cases
    case direct
    then have "(of_nat (length b) :: byte) < OP_PUSHDATA1"
      using of_nat_byte_less [of "length b" 76] by simp
    moreover have "(of_nat (length b) :: byte) \<le> OP_PUSHDATA4"
      using push_op_le [of b] direct by (simp add: push_op_def)
    ultimately show ?thesis using direct
      by (simp add: push_vch_def GetOp2_def GetOpSize_def push_op_def)
  next
    case one
    then show ?thesis
      by (simp add: push_vch_def GetOp2_def GetOpSize_def push_op_def)
  next
    case two
    then show ?thesis
      by (simp add: push_vch_def GetOp2_def GetOpSize_def push_op_def ReadLE16_def WriteLE16_def le_decode_encode)
  next
    case four
    then show ?thesis using assms
      by (simp add: push_vch_def GetOp2_def GetOpSize_def push_op_def ReadLE32_def WriteLE32_def le_decode_encode)
  qed
qed

lemma GetOp2_opcode:
  "op > OP_PUSHDATA4 \<Longrightarrow> GetOp2 (op # rest) = (Some (op, []), rest)"
  by (auto simp: GetOp2_def not_le [symmetric])

lemma GetOpSize_drop: "GetOpSize opcode pc = (r, pc') \<Longrightarrow> \<exists>k \<le> length pc. pc' = drop k pc"
  by (rule exI [of _ "length pc - length pc'"])
     (auto simp: GetOpSize_def split: if_splits list.splits)

lemma GetOp2_drop:
  assumes "GetOp2 pc = (Some x, pc')"
  obtains k where "pc' = drop k pc" "k \<le> length pc"
proof (cases pc)
  case Nil
  then show ?thesis using assms by simp
next
  case (Cons opcode pc1)
  show ?thesis
  proof (cases "opcode \<le> OP_PUSHDATA4")
    case True
    then obtain n q where g: "GetOpSize opcode pc1 = (Some n, q)" "pc' = drop n q" "n \<le> length q"
      using assms by (auto simp: Cons GetOp2_def split: option.splits prod.splits if_splits)
    obtain j where j: "j \<le> length pc1" "q = drop j pc1" using GetOpSize_drop [OF g(1)] by blast
    show ?thesis
      by (rule that [of "Suc (n + j)"]) (use g j in \<open>auto simp: Cons\<close>)
  next
    case False
    then have "pc' = drop 1 pc" using assms by (simp add: Cons GetOp2_def)
    then show ?thesis using that [of 1] by (simp add: Cons)
  qed
qed

section \<open>Deletion\<close>

text \<open>
  The reference: cut out \<open>b\<close> wherever it stands at the boundary of an operation, and keep the
  operations in between.
\<close>

function delete_at_ops :: "bytes \<Rightarrow> bytes \<Rightarrow> bytes" where
  "delete_at_ops b pc =
     (if b \<noteq> [] \<and> length pc \<ge> length b \<and> take (length b) pc = b
      then delete_at_ops b (drop (length b) pc)
      else case GetOp2 pc of
        (None, _) \<Rightarrow> pc
      | (Some _, pc') \<Rightarrow> take (length pc - length pc') pc @ delete_at_ops b pc')"
  by pat_completeness auto
termination
  by (relation "measure (\<lambda>(b, pc). length pc)") (auto simp: neq_Nil_conv dest: GetOp2_shorter')

declare delete_at_ops.simps [simp del]

lemma delete_skip: "delete_at_ops b (fst (skip_matches b pc n)) = delete_at_ops b pc"
proof (induction b pc n rule: skip_matches.induct)
  case (1 b pc n)
  show ?case
  proof (cases "b \<noteq> [] \<and> length pc \<ge> length b \<and> take (length b) pc = b")
    case True
    then show ?thesis using 1
      by (simp add: skip_matches.simps [of b pc n] delete_at_ops.simps [of b pc])
  next
    case False
    then show ?thesis by (simp only: skip_matches.simps [of b pc n] if_not_P) simp
  qed
qed

lemma skip_not_match: "skip_matches b pc n = (pc2, n') \<Longrightarrow>
    \<not> (b \<noteq> [] \<and> length pc2 \<ge> length b \<and> take (length b) pc2 = b)"
proof (induction b pc n rule: skip_matches.induct)
  case (1 b pc n)
  show ?case
  proof (cases "b \<noteq> [] \<and> length pc \<ge> length b \<and> take (length b) pc = b")
    case True
    then show ?thesis using 1 by (simp add: skip_matches.simps [of b pc n])
  next
    case False
    then have "pc2 = pc" using "1.prems" by (simp only: skip_matches.simps [of b pc n] if_not_P) simp
    then show ?thesis using False by simp
  qed
qed

lemma FindAndDelete_loop_delete:
  "FindAndDelete_loop b pc result n = (result', pc2, n') \<Longrightarrow>
     result' @ pc2 = result @ delete_at_ops b pc"
proof (induction b pc result n rule: FindAndDelete_loop.induct)
  case (1 b pc result n)
  obtain p m where s: "skip_matches b pc n = (p, m)" by (cases "skip_matches b pc n")
  have d: "delete_at_ops b pc = delete_at_ops b p" using delete_skip [of b pc n] s by simp
  have nm: "\<not> (b \<noteq> [] \<and> length p \<ge> length b \<and> take (length b) p = b)" using s by (rule skip_not_match)
  show ?case
  proof (cases "GetOp2 p")
    case (Pair r q)
    show ?thesis
    proof (cases r)
      case None
      then show ?thesis using "1.prems" s Pair nm
        by (simp only: FindAndDelete_loop.simps [of b pc result n] delete_at_ops.simps [of b p] d if_not_P) simp
    next
      case (Some a)
      have "result' @ pc2 = (result @ take (length p - length q) p) @ delete_at_ops b q"
        using "1.IH" [OF s [symmetric] Pair [symmetric] Some] "1.prems" s Pair Some
        by (simp add: FindAndDelete_loop.simps [of b pc result n])
      then show ?thesis using s Pair Some nm
        by (simp only: delete_at_ops.simps [of b p] d if_not_P) simp
    qed
  qed
qed

lemma skip_matches_count:
  "skip_matches b pc n = (pc2, n') \<Longrightarrow>
     length pc2 + n' * length b = length pc + n * length b \<and> n \<le> n' \<and> (n' = n \<longrightarrow> pc2 = pc)"
proof (induction b pc n rule: skip_matches.induct)
  case (1 b pc n)
  show ?case
  proof (cases "b \<noteq> [] \<and> length pc \<ge> length b \<and> take (length b) pc = b")
    case True
    then have "skip_matches b (drop (length b) pc) (Suc n) = (pc2, n')"
      using "1.prems" by (simp add: skip_matches.simps [of b pc n])
    with "1.IH" [OF True] True show ?thesis by auto
  next
    case False
    then show ?thesis using "1.prems" by (simp only: skip_matches.simps [of b pc n] if_not_P) simp
  qed
qed

lemma FindAndDelete_loop_count:
  "FindAndDelete_loop b pc result n = (result', pc2, n') \<Longrightarrow>
     length result' + length pc2 + n' * length b = length result + length pc + n * length b \<and>
     n \<le> n' \<and> (n' = n \<longrightarrow> result' @ pc2 = result @ pc)"
proof (induction b pc result n rule: FindAndDelete_loop.induct)
  case (1 b pc result n)
  obtain p m where s: "skip_matches b pc n = (p, m)" by (cases "skip_matches b pc n")
  note c = skip_matches_count [OF s]
  show ?case
  proof (cases "GetOp2 p")
    case (Pair r q)
    show ?thesis
    proof (cases r)
      case None
      then show ?thesis using "1.prems" s Pair c
        by (simp add: FindAndDelete_loop.simps [of b pc result n])
    next
      case (Some a)
      then obtain k where k: "q = drop k p" "k \<le> length p"
        using GetOp2_drop Pair by metis
      have "FindAndDelete_loop b q (result @ take (length p - length q) p) m = (result', pc2, n')"
        using "1.prems" s Pair Some by (simp add: FindAndDelete_loop.simps [of b pc result n])
      from "1.IH" [OF s [symmetric] Pair [symmetric] Some this] c k show ?thesis
        by auto
    qed
  qed
qed

section \<open>Bounds on the number of signature operations\<close>

lemma sigop_weight_bounds:
  "sigop_weight f l opcode \<le> 20" "sigop_weight True l opcode \<le> sigop_weight False l opcode"
  by (auto simp: sigop_weight_def DecodeOP_N_def word_le_nat_alt)

lemma GetSigOpCount_loop_bound: "GetSigOpCount_loop f l pc n \<le> n + 20 * length pc"
proof (induction f l pc n rule: GetSigOpCount_loop.induct)
  case (1 f l pc n)
  show ?case
  proof (cases "\<exists>x pc'. GetOp2 pc = (Some x, pc')")
    case True
    then obtain opcode vch pc' where g: "GetOp2 pc = (Some (opcode, vch), pc')" by auto
    have "length pc' < length pc" using g by (rule GetOp2_shorter)
    then show ?thesis
      using "1.IH" [OF g [symmetric] refl refl] sigop_weight_bounds(1) [of f l opcode]
      by (simp add: GetSigOpCount_loop.simps [of f l pc] g)
  next
    case False
    then show ?thesis by (cases "GetOp2 pc") (auto simp: GetSigOpCount_loop.simps [of f l pc] split: option.splits)
  qed
qed

lemma GetSigOpCount_loop_mono:
  "m \<le> n \<Longrightarrow> GetSigOpCount_loop True l pc m \<le> GetSigOpCount_loop False l pc n"
proof (induction "False" l pc n arbitrary: m rule: GetSigOpCount_loop.induct)
  case (1 l pc n)
  show ?case
  proof (cases "\<exists>x pc'. GetOp2 pc = (Some x, pc')")
    case True
    then obtain opcode vch pc' where g: "GetOp2 pc = (Some (opcode, vch), pc')" by auto
    have "m + sigop_weight True l opcode \<le> n + sigop_weight False l opcode"
      using "1.prems" sigop_weight_bounds(2) by (rule add_mono)
    then show ?thesis
      using "1.hyps" [OF g [symmetric] refl refl]
      by (simp add: GetSigOpCount_loop.simps [of _ l pc] g)
  next
    case False
    then show ?thesis using "1.prems"
      by (cases "GetOp2 pc") (auto simp: GetSigOpCount_loop.simps [of _ l pc] split: option.splits)
  qed
qed

section \<open>Properties\<close>

text \<open>
  What \<^verbatim>\<open>operator<<\<close> appends for a vector is read back by \<^verbatim>\<open>GetOp\<close> as one push of exactly that
  vector, and the iterator is left at whatever follows; all four push forms are covered.
\<close>

theorem GetOp_push_roundtrip:
  assumes "length b < 2 ^ 32"
  shows "\<exists>opcode \<le> OP_PUSHDATA4.
     push_vch script b @ rest = script @ (push_vch [] b @ rest) \<and>
     GetOp2 (push_vch [] b @ rest) = (Some (opcode, b), rest)"
  using GetOp2_push_vch [OF assms] push_op_le [of b] push_vch_append [of script b]
  by auto

theorem GetOp_push_roundtrip_witness:
  "GetOp2 (push_vch [] [1, 2, 3] @ [OP_CHECKSIG]) = (Some (3, [1, 2, 3]), [OP_CHECKSIG])"
proof -
  have "\<exists>opcode \<le> OP_PUSHDATA4. GetOp2 (push_vch [] [1, 2, 3] @ [OP_CHECKSIG]) = (Some (opcode, [1, 2, 3]), [OP_CHECKSIG])"
    using GetOp_push_roundtrip [of "[1, 2, 3]" "[]" "[OP_CHECKSIG]"] by auto
  then show ?thesis by (auto simp: push_vch_def GetOp2_def GetOpSize_def)
qed

text \<open>
  C39. \<^verbatim>\<open>FindAndDelete\<close> computes the reference deletion (the vector is cut out wherever it stands at
  the boundary of an operation), and the number it returns accounts for the bytes removed.
\<close>

theorem FindAndDelete_correct:
  assumes "b \<noteq> []" and "FindAndDelete script b = (script', nFound)"
  shows "script' = delete_at_ops b script \<and> length script' + nFound * length b = length script"
proof -
  obtain result pc2 n where l: "FindAndDelete_loop b script [] 0 = (result, pc2, n)"
    by (cases "FindAndDelete_loop b script [] 0")
  then show ?thesis
    using FindAndDelete_loop_delete [OF l] FindAndDelete_loop_count [OF l] assms
    by (auto simp: FindAndDelete_def split: if_splits)
qed

theorem FindAndDelete_correct_witness:
  "FindAndDelete [2, 7, 8, OP_DUP, 2, 7, 8, OP_CHECKSIG] [2, 7, 8] = ([OP_DUP, OP_CHECKSIG], 2) \<and>
   delete_at_ops [2, 7, 8] [2, 7, 8, OP_DUP, 2, 7, 8, OP_CHECKSIG] = [OP_DUP, OP_CHECKSIG]"
proof -
  have f: "FindAndDelete [2, 7, 8, OP_DUP, 2, 7, 8, OP_CHECKSIG] [2, 7, 8] = ([OP_DUP, OP_CHECKSIG], 2)"
    by (simp add: FindAndDelete_def FindAndDelete_loop.simps skip_matches.simps GetOp2_def)
  from FindAndDelete_correct [OF _ f] f show ?thesis by simp
qed

text \<open>
  The accurate count of signature operations never exceeds the conservative one, which is at
  most 20 for every byte of the script.
\<close>

theorem GetSigOpCount_bounds:
  "GetSigOpCount script True \<le> GetSigOpCount script False \<and>
   GetSigOpCount script False \<le> 20 * length script"
  using GetSigOpCount_loop_mono [of 0 0] GetSigOpCount_loop_bound [of False _ script 0]
  by (auto simp: GetSigOpCount_def)

end
