(* ===== verification/Sig_Encoding.thy ===== *)
theory Sig_Encoding
  imports Script_Code
begin

text \<open>
  The encoding rules for signatures, public keys and pushes
  (\<^verbatim>\<open>src/script/interpreter.cpp\<close>, first part), the script errors
  (\<^verbatim>\<open>src/script/script_error.h\<close>) and the verification flags (\<^verbatim>\<open>src/script/interpreter.h\<close>).
  A routine that returns \<^verbatim>\<open>bool\<close> and sets \<^verbatim>\<open>*serror\<close> returns a \<open>ScriptError option\<close> here: \<open>None\<close> for
  \<^verbatim>\<open>true\<close>, \<open>Some e\<close> for \<^verbatim>\<open>false\<close> with the error it set.
  \<^verbatim>\<open>CPubKey::CheckLowS\<close> rests on the elliptic-curve library and is an argument.
\<close>

section \<open>Errors and flags\<close>

datatype ScriptError =
    SCRIPT_ERR_OK
  | SCRIPT_ERR_UNKNOWN_ERROR
  | SCRIPT_ERR_EVAL_FALSE
  | SCRIPT_ERR_OP_RETURN
  | SCRIPT_ERR_SCRIPT_SIZE
  | SCRIPT_ERR_PUSH_SIZE
  | SCRIPT_ERR_OP_COUNT
  | SCRIPT_ERR_STACK_SIZE
  | SCRIPT_ERR_SIG_COUNT
  | SCRIPT_ERR_PUBKEY_COUNT
  | SCRIPT_ERR_VERIFY
  | SCRIPT_ERR_EQUALVERIFY
  | SCRIPT_ERR_CHECKCOLDSTAKEVERIFY
  | SCRIPT_ERR_CHECKMULTISIGVERIFY
  | SCRIPT_ERR_CHECKSIGVERIFY
  | SCRIPT_ERR_NUMEQUALVERIFY
  | SCRIPT_ERR_BAD_OPCODE
  | SCRIPT_ERR_DISABLED_OPCODE
  | SCRIPT_ERR_INVALID_STACK_OPERATION
  | SCRIPT_ERR_INVALID_ALTSTACK_OPERATION
  | SCRIPT_ERR_UNBALANCED_CONDITIONAL
  | SCRIPT_ERR_NEGATIVE_LOCKTIME
  | SCRIPT_ERR_UNSATISFIED_LOCKTIME
  | SCRIPT_ERR_SIG_HASHTYPE
  | SCRIPT_ERR_SIG_DER
  | SCRIPT_ERR_MINIMALDATA
  | SCRIPT_ERR_SIG_PUSHONLY
  | SCRIPT_ERR_SIG_HIGH_S
  | SCRIPT_ERR_SIG_NULLDUMMY
  | SCRIPT_ERR_PUBKEYTYPE
  | SCRIPT_ERR_DISCOURAGE_UPGRADABLE_NOPS
  | SCRIPT_ERR_ERROR_COUNT

type_synonym script_flags = "32 word"

abbreviation (input) SCRIPT_VERIFY_NONE :: script_flags where "SCRIPT_VERIFY_NONE \<equiv> 0"
abbreviation (input) SCRIPT_VERIFY_P2SH :: script_flags where "SCRIPT_VERIFY_P2SH \<equiv> push_bit 0 1"
abbreviation (input) SCRIPT_VERIFY_STRICTENC :: script_flags where "SCRIPT_VERIFY_STRICTENC \<equiv> push_bit 1 1"
abbreviation (input) SCRIPT_VERIFY_DERSIG :: script_flags where "SCRIPT_VERIFY_DERSIG \<equiv> push_bit 2 1"
abbreviation (input) SCRIPT_VERIFY_LOW_S :: script_flags where "SCRIPT_VERIFY_LOW_S \<equiv> push_bit 3 1"
abbreviation (input) SCRIPT_VERIFY_NULLDUMMY :: script_flags where "SCRIPT_VERIFY_NULLDUMMY \<equiv> push_bit 4 1"
abbreviation (input) SCRIPT_VERIFY_SIGPUSHONLY :: script_flags where "SCRIPT_VERIFY_SIGPUSHONLY \<equiv> push_bit 5 1"
abbreviation (input) SCRIPT_VERIFY_MINIMALDATA :: script_flags where "SCRIPT_VERIFY_MINIMALDATA \<equiv> push_bit 6 1"
abbreviation (input) SCRIPT_VERIFY_DISCOURAGE_UPGRADABLE_NOPS :: script_flags where
  "SCRIPT_VERIFY_DISCOURAGE_UPGRADABLE_NOPS \<equiv> push_bit 7 1"
abbreviation (input) SCRIPT_VERIFY_CLEANSTACK :: script_flags where "SCRIPT_VERIFY_CLEANSTACK \<equiv> push_bit 8 1"
abbreviation (input) SCRIPT_VERIFY_CHECKLOCKTIMEVERIFY :: script_flags where
  "SCRIPT_VERIFY_CHECKLOCKTIMEVERIFY \<equiv> push_bit 9 1"

definition flag_set :: "script_flags \<Rightarrow> script_flags \<Rightarrow> bool" where
  "flag_set flags f \<longleftrightarrow> flags AND f \<noteq> 0"

abbreviation (input) SIGHASH_ALL :: nat where "SIGHASH_ALL \<equiv> 1"
abbreviation (input) SIGHASH_NONE :: nat where "SIGHASH_NONE \<equiv> 2"
abbreviation (input) SIGHASH_SINGLE :: nat where "SIGHASH_SINGLE \<equiv> 3"
abbreviation (input) SIGHASH_ANYONECANPAY :: nat where "SIGHASH_ANYONECANPAY \<equiv> 0x80"

abbreviation (input) PUBLIC_KEY_SIZE :: nat where "PUBLIC_KEY_SIZE \<equiv> 65"
abbreviation (input) COMPRESSED_PUBLIC_KEY_SIZE :: nat where "COMPRESSED_PUBLIC_KEY_SIZE \<equiv> 33"

section \<open>Public keys and signatures\<close>

definition IsCompressedOrUncompressedPubKey :: "bytes \<Rightarrow> bool" where
  "IsCompressedOrUncompressedPubKey vchPubKey =
     (if length vchPubKey < COMPRESSED_PUBLIC_KEY_SIZE then False
      else if vchPubKey ! 0 = 0x04 then
        (if length vchPubKey \<noteq> PUBLIC_KEY_SIZE then False else True)
      else if vchPubKey ! 0 = 0x02 \<or> vchPubKey ! 0 = 0x03 then
        (if length vchPubKey \<noteq> COMPRESSED_PUBLIC_KEY_SIZE then False else True)
      else False)"

definition IsValidSignatureEncoding :: "bytes \<Rightarrow> bool" where
  "IsValidSignatureEncoding sig =
     (if length sig < 9 then False
      else if length sig > 73 then False
      else if sig ! 0 \<noteq> 0x30 then False
      else if unat (sig ! 1) \<noteq> length sig - 3 then False
      else let lenR = unat (sig ! 3) in
        if 5 + lenR \<ge> length sig then False
        else let lenS = unat (sig ! (5 + lenR)) in
          if lenR + lenS + 7 \<noteq> length sig then False
          else if sig ! 2 \<noteq> 0x02 then False
          else if lenR = 0 then False
          else if sig ! 4 AND 0x80 \<noteq> 0 then False
          else if lenR > 1 \<and> sig ! 4 = 0x00 \<and> \<not> sig ! 5 AND 0x80 \<noteq> 0 then False
          else if sig ! (lenR + 4) \<noteq> 0x02 then False
          else if lenS = 0 then False
          else if sig ! (lenR + 6) AND 0x80 \<noteq> 0 then False
          else if lenS > 1 \<and> sig ! (lenR + 6) = 0x00 \<and> \<not> sig ! (lenR + 7) AND 0x80 \<noteq> 0 then False
          else True)"

definition IsLowDERSignature :: "(bytes \<Rightarrow> bool) \<Rightarrow> bytes \<Rightarrow> ScriptError option" where
  "IsLowDERSignature CheckLowS vchSig =
     (if \<not> IsValidSignatureEncoding vchSig then Some SCRIPT_ERR_SIG_DER
      else if \<not> CheckLowS (take (length vchSig - 1) vchSig) then Some SCRIPT_ERR_SIG_HIGH_S
      else None)"

definition IsDefinedHashtypeSignature :: "bytes \<Rightarrow> bool" where
  "IsDefinedHashtypeSignature vchSig =
     (if length vchSig = 0 then False
      else let nHashType = unat (last vchSig AND NOT (of_nat SIGHASH_ANYONECANPAY)) in
        if nHashType < SIGHASH_ALL \<or> nHashType > SIGHASH_SINGLE then False else True)"

definition CheckSignatureEncoding ::
    "(bytes \<Rightarrow> bool) \<Rightarrow> bytes \<Rightarrow> script_flags \<Rightarrow> ScriptError option" where
  "CheckSignatureEncoding CheckLowS vchSig flags =
     (if length vchSig = 0 then None
      else if flag_set flags (SCRIPT_VERIFY_DERSIG OR SCRIPT_VERIFY_LOW_S OR SCRIPT_VERIFY_STRICTENC) \<and>
              \<not> IsValidSignatureEncoding vchSig
      then Some SCRIPT_ERR_SIG_DER
      else if flag_set flags SCRIPT_VERIFY_LOW_S \<and> IsLowDERSignature CheckLowS vchSig \<noteq> None
      then IsLowDERSignature CheckLowS vchSig
      else if flag_set flags SCRIPT_VERIFY_STRICTENC \<and> \<not> IsDefinedHashtypeSignature vchSig
      then Some SCRIPT_ERR_SIG_HASHTYPE
      else None)"

definition CheckPubKeyEncoding :: "bytes \<Rightarrow> script_flags \<Rightarrow> ScriptError option" where
  "CheckPubKeyEncoding vchSig flags =
     (if flag_set flags SCRIPT_VERIFY_STRICTENC \<and> \<not> IsCompressedOrUncompressedPubKey vchSig
      then Some SCRIPT_ERR_PUBKEYTYPE else None)"

section \<open>Minimal pushes\<close>

definition CheckMinimalPush :: "bytes \<Rightarrow> opcodetype \<Rightarrow> bool" where
  "CheckMinimalPush data opcode =
     (if length data = 0 then opcode = OP_0
      else if length data = 1 \<and> data ! 0 \<ge> 1 \<and> data ! 0 \<le> 16
      then unat opcode = unat OP_1 + (unat (data ! 0) - 1)
      else if length data = 1 \<and> data ! 0 = 0x81 then opcode = OP_1NEGATE
      else if length data \<le> 75 then unat opcode = length data
      else if length data \<le> 255 then opcode = OP_PUSHDATA1
      else if length data \<le> 65535 then opcode = OP_PUSHDATA2
      else True)"

section \<open>What a canonical signature looks like\<close>

text \<open>
  A positive DER integer: not empty, not negative, and no leading zero byte unless the next byte
  has its top bit set.
\<close>

definition der_integer :: "bytes \<Rightarrow> bool" where
  "der_integer r \<longleftrightarrow> r \<noteq> [] \<and> unat (r ! 0) < 128 \<and>
     (length r > 1 \<longrightarrow> r ! 0 = 0 \<longrightarrow> 128 \<le> unat (r ! 1))"

text \<open>\<^verbatim>\<open>0x30 [total-length] 0x02 [R-length] [R] 0x02 [S-length] [S] [sighash]\<close>\<close>

definition der_signature :: "bytes \<Rightarrow> bytes \<Rightarrow> byte \<Rightarrow> bytes" where
  "der_signature r s hashtype =
     [0x30, of_nat (length r + length s + 4), 0x02, of_nat (length r)] @ r @
     [0x02, of_nat (length s)] @ s @ [hashtype]"

lemma der_signature_nth:
  assumes "length r + length s \<le> 66"
  shows "length (der_signature r s h) = length r + length s + 7"
    "der_signature r s h ! 0 = 0x30" "unat (der_signature r s h ! 1) = length r + length s + 4"
    "der_signature r s h ! 2 = 0x02" "unat (der_signature r s h ! 3) = length r"
    "i < length r \<Longrightarrow> der_signature r s h ! (4 + i) = r ! i"
    "der_signature r s h ! (length r + 4) = 0x02"
    "unat (der_signature r s h ! (length r + 5)) = length s"
    "i < length s \<Longrightarrow> der_signature r s h ! (length r + 6 + i) = s ! i"
  using assms by (simp_all add: der_signature_def nth_append nth_Cons del: of_nat_add split: nat.splits)

lemma der_signature_decompose:
  assumes len: "length sig = lenR + lenS + 7"
    and sig: "sig ! 0 = 0x30" "unat (sig ! 1) = length sig - 3" "sig ! 2 = 0x02"
      "unat (sig ! 3) = lenR" "sig ! (lenR + 4) = 0x02" "unat (sig ! (5 + lenR)) = lenS"
  shows "sig = der_signature (take lenR (drop 4 sig)) (take lenS (drop (lenR + 6) sig)) (last sig)"
    (is "sig = ?d")
proof (rule nth_equalityI)
  show "length sig = length ?d" using len by (simp add: der_signature_def)
  fix i assume "i < length sig"
  then consider "i < 4" | "4 \<le> i" "i < lenR + 4" | "i = lenR + 4" | "i = lenR + 5"
    | "lenR + 6 \<le> i" "i < lenR + lenS + 6" | "i = lenR + lenS + 6"
    using len by linarith
  then show "sig ! i = ?d ! i"
  proof cases
    case 1
    then have "i = 0 \<or> i = 1 \<or> i = 2 \<or> i = 3" by linarith
    moreover have "lenR + lenS + 4 = unat (sig ! 1)" using sig(2) len by simp
    then have "of_nat (lenR + lenS + 4) = sig ! 1" by (simp only:) simp
    moreover have "of_nat lenR = sig ! 3" using sig(4) [symmetric] by simp
    ultimately show ?thesis using sig len
      by (auto simp: der_signature_def simp del: of_nat_add)
  next
    case 2
    then obtain j where "i = 4 + j" "j < lenR" using le_Suc_ex by fastforce
    then show ?thesis using len by (simp add: der_signature_def nth_append)
  next
    case 3
    then show ?thesis using sig len by (simp add: der_signature_def nth_append)
  next
    case 4
    moreover have "of_nat lenS = sig ! (5 + lenR)" using sig(6) [symmetric] by simp
    ultimately show ?thesis using len
      by (simp add: der_signature_def nth_append add.commute)
  next
    case 5
    then obtain j where "i = lenR + 6 + j" "j < lenS" using le_Suc_ex by fastforce
    then show ?thesis using len by (simp add: der_signature_def nth_append)
  next
    case 6
    moreover have "sig \<noteq> []" using len by auto
    then have "last sig = sig ! (lenR + lenS + 6)" using len by (simp add: last_conv_nth add.commute)
    ultimately show ?thesis using len by (simp add: der_signature_def nth_append)
  qed
qed

lemma if_False_else: "(if c then False else d) \<longleftrightarrow> \<not> c \<and> d"
  by simp

lemma IsValidSignatureEncoding_conj:
  "IsValidSignatureEncoding sig \<longleftrightarrow>
     (let lenR = unat (sig ! 3); lenS = unat (sig ! (5 + lenR)) in
        9 \<le> length sig \<and> length sig \<le> 73 \<and> sig ! 0 = 0x30 \<and> unat (sig ! 1) = length sig - 3 \<and>
        5 + lenR < length sig \<and> lenR + lenS + 7 = length sig \<and> sig ! 2 = 0x02 \<and> lenR \<noteq> 0 \<and>
        unat (sig ! 4) < 128 \<and> (lenR > 1 \<longrightarrow> sig ! 4 = 0 \<longrightarrow> 128 \<le> unat (sig ! 5)) \<and>
        sig ! (lenR + 4) = 0x02 \<and> lenS \<noteq> 0 \<and> unat (sig ! (lenR + 6)) < 128 \<and>
        (lenS > 1 \<longrightarrow> sig ! (lenR + 6) = 0 \<longrightarrow> 128 \<le> unat (sig ! (lenR + 7))))"
  unfolding IsValidSignatureEncoding_def Let_def
  by (simp only: if_False_else byte_and_80_iff not_less not_le not_not) auto

lemma CheckMinimalPush_push_op:
  "CheckMinimalPush b (push_op b) \<longleftrightarrow>
     \<not> (length b = 1 \<and> (1 \<le> b ! 0 \<and> b ! 0 \<le> 16 \<or> b ! 0 = 0x81))"
proof (cases "length b = 0")
  case False
  then show ?thesis
    by (auto simp: CheckMinimalPush_def push_op_def word_le_nat_alt)
qed (simp add: CheckMinimalPush_def push_op_def)

section \<open>Properties\<close>

text \<open>
  C40. The index arithmetic of \<^verbatim>\<open>IsValidSignatureEncoding\<close> accepts exactly the byte strings of the
  documented form \<^verbatim>\<open>0x30 len 0x02 lenR R 0x02 lenS S hashtype\<close>, with \<open>R\<close> and \<open>S\<close> positive integers in
  their shortest encoding and at most 73 bytes in all.
\<close>

theorem IsValidSignatureEncoding_iff_der:
  "IsValidSignatureEncoding sig \<longleftrightarrow>
     (\<exists>r s hashtype. der_integer r \<and> der_integer s \<and> length r + length s \<le> 66 \<and>
        sig = der_signature r s hashtype)"
proof
  assume v: "IsValidSignatureEncoding sig"
  define lenR where "lenR = unat (sig ! 3)"
  define lenS where "lenS = unat (sig ! (5 + lenR))"
  have len: "length sig = lenR + lenS + 7" and le: "length sig \<le> 73"
    and sig: "sig ! 0 = 0x30" "unat (sig ! 1) = length sig - 3" "sig ! 2 = 0x02"
      "sig ! (lenR + 4) = 0x02" "lenR \<noteq> 0" "lenS \<noteq> 0"
      "unat (sig ! 4) < 128" "lenR > 1 \<longrightarrow> sig ! 4 = 0 \<longrightarrow> 128 \<le> unat (sig ! 5)"
      "unat (sig ! (lenR + 6)) < 128"
      "lenS > 1 \<longrightarrow> sig ! (lenR + 6) = 0 \<longrightarrow> 128 \<le> unat (sig ! (lenR + 7))"
    using v unfolding IsValidSignatureEncoding_conj Let_def lenR_def lenS_def
    by simp_all
  let ?r = "take lenR (drop 4 sig)" and ?s = "take lenS (drop (lenR + 6) sig)"
  have "sig = der_signature ?r ?s (last sig)"
    using len sig(1-3) lenR_def [symmetric] sig(4) lenS_def [symmetric]
    by (rule der_signature_decompose)
  moreover have "der_integer ?r" "der_integer ?s"
    using sig len by (auto simp: der_integer_def add.commute)
  moreover have "length ?r + length ?s \<le> 66" using len le by simp
  ultimately show "\<exists>r s hashtype. der_integer r \<and> der_integer s \<and> length r + length s \<le> 66 \<and>
        sig = der_signature r s hashtype" by blast
next
  assume "\<exists>r s hashtype. der_integer r \<and> der_integer s \<and> length r + length s \<le> 66 \<and>
        sig = der_signature r s hashtype"
  then obtain r s h where d: "der_integer r" "der_integer s" and l: "length r + length s \<le> 66"
    and sig: "sig = der_signature r s h" by blast
  note nth = der_signature_nth [OF l, where h = h, folded sig]
  have "length r > 0" "length s > 0" using d by (auto simp: der_integer_def)
  moreover from this have "sig ! 4 = r ! 0" "sig ! (length r + 6) = s ! 0"
    "length r > 1 \<longrightarrow> sig ! 5 = r ! 1" "length s > 1 \<longrightarrow> sig ! (length r + 7) = s ! 1"
    using nth(6) [of 0] nth(6) [of 1] nth(9) [of 0] nth(9) [of 1] by (auto simp: add.commute)
  moreover have "unat (r ! 0) < 128" "length r > 1 \<longrightarrow> r ! 0 = 0 \<longrightarrow> 128 \<le> unat (r ! 1)"
    "unat (s ! 0) < 128" "length s > 1 \<longrightarrow> s ! 0 = 0 \<longrightarrow> 128 \<le> unat (s ! 1)"
    using d unfolding der_integer_def by blast+
  moreover have "length sig - 3 = length r + length s + 4" "5 + length r < length sig"
    "9 \<le> length sig" "length sig \<le> 73"
    using nth(1) l calculation(1,2) by linarith+
  moreover have "unat (sig ! (5 + length r)) = length s"
    using nth(8) by (simp only: add.commute)
  ultimately show "IsValidSignatureEncoding sig"
    using nth(1-5,7) unfolding IsValidSignatureEncoding_conj Let_def
    by (intro conjI) (simp only: | simp)+
qed

end
