(* ===== verification/Hash_Functions.thy ===== *)
theory Hash_Functions
  imports Script_Code
begin

text \<open>
  The hash functions the node uses for scripts, transactions and blocks:
  \<^verbatim>\<open>CSHA256\<close>, \<^verbatim>\<open>CRIPEMD160\<close> and \<^verbatim>\<open>CSHA1\<close> of \<^verbatim>\<open>src/crypto\<close>, \<^verbatim>\<open>CHash256\<close> and \<^verbatim>\<open>CHash160\<close> of
  \<^verbatim>\<open>src/hash.h\<close>.  The three hasher classes buffer their input in the same way; the buffering is
  written once over the compression function (\<open>hasher_Write\<close>, \<open>hasher_Finalize\<close>), and the locale
  \<open>block_hasher\<close> shows that the digest depends on the bytes written only, not on how they were cut
  into calls.  The unrolled rounds of the compression functions are folds over their tables of
  constants; the rotation of the variable names from one round to the next is a rotation of the tuple.
\<close>

section \<open>Big-endian and little-endian words\<close>

definition ReadBE32 :: "bytes \<Rightarrow> 32 word" where
  "ReadBE32 ptr = of_nat (le_decode (rev (take 4 ptr)))"

definition WriteBE32 :: "32 word \<Rightarrow> bytes" where
  "WriteBE32 x = rev (le_encode 4 (unat x))"

definition WriteBE64 :: "nat \<Rightarrow> bytes" where
  "WriteBE64 x = rev (le_encode 8 x)"

definition WriteLE64 :: "nat \<Rightarrow> bytes" where
  "WriteLE64 x = le_encode 8 x"

section \<open>The buffer of a hasher\<close>

record hasher =
  hs :: "32 word list"
  hbuf :: bytes
  hbytes :: nat

definition memcpy :: "bytes \<Rightarrow> nat \<Rightarrow> bytes \<Rightarrow> bytes" where
  "memcpy buf off src = take off buf @ src @ drop (off + length src) buf"

text \<open>\<^verbatim>\<open>while (end >= data + 64) { Transform(s, data); bytes += 64; data += 64; }\<close>\<close>

function hasher_chunks ::
    "(32 word list \<Rightarrow> bytes \<Rightarrow> 32 word list) \<Rightarrow> 32 word list \<Rightarrow> nat \<Rightarrow> bytes \<Rightarrow> 32 word list \<times> nat \<times> bytes" where
  "hasher_chunks transform s n data =
     (if length data \<ge> 64
      then hasher_chunks transform (transform s (take 64 data)) (n + 64) (drop 64 data)
      else (s, n, data))"
  by pat_completeness auto
termination
  by (relation "measure (\<lambda>(t, s, n, data). length data)") auto

declare hasher_chunks.simps [simp del]

definition hasher_Write ::
    "(32 word list \<Rightarrow> bytes \<Rightarrow> 32 word list) \<Rightarrow> hasher \<Rightarrow> bytes \<Rightarrow> hasher" where
  "hasher_Write transform h data =
     (let bufsize = hbytes h mod 64;
          (h1, data1, bufsize1) =
            (if bufsize \<noteq> 0 \<and> bufsize + length data \<ge> 64
             then let buf = memcpy (hbuf h) bufsize (take (64 - bufsize) data)
                  in (h\<lparr>hs := transform (hs h) buf, hbuf := buf, hbytes := hbytes h + (64 - bufsize)\<rparr>,
                      drop (64 - bufsize) data, 0)
             else (h, data, bufsize));
          (s2, n2, data2) = hasher_chunks transform (hs h1) (hbytes h1) data1;
          h2 = h1\<lparr>hs := s2, hbytes := n2\<rparr>
      in if data2 \<noteq> []
         then h2\<lparr>hbuf := memcpy (hbuf h2) bufsize1 data2, hbytes := hbytes h2 + length data2\<rparr>
         else h2)"

text \<open>The padding \<^verbatim>\<open>0x80 0x00 ...\<close> and the 64-bit message length in bits.\<close>

definition hasher_pad :: "nat \<Rightarrow> bytes" where
  "hasher_pad n = take (1 + ((119 - n mod 64) mod 64)) (0x80 # replicate 63 0)"

definition hasher_Finalize ::
    "(32 word list \<Rightarrow> bytes \<Rightarrow> 32 word list) \<Rightarrow> (nat \<Rightarrow> bytes) \<Rightarrow> (32 word \<Rightarrow> bytes) \<Rightarrow> hasher \<Rightarrow> bytes" where
  "hasher_Finalize transform sizeenc wordenc h =
     (let sizedesc = sizeenc (hbytes h * 8 mod 2 ^ 64);
          h1 = hasher_Write transform h (hasher_pad (hbytes h));
          h2 = hasher_Write transform h1 sizedesc
      in concat (map wordenc (hs h2)))"

section \<open>SHA-256\<close>

definition sha256_Ch :: "32 word \<Rightarrow> 32 word \<Rightarrow> 32 word \<Rightarrow> 32 word" where
  "sha256_Ch x y z = z XOR (x AND (y XOR z))"

definition sha256_Maj :: "32 word \<Rightarrow> 32 word \<Rightarrow> 32 word \<Rightarrow> 32 word" where
  "sha256_Maj x y z = (x AND y) OR (z AND (x OR y))"

definition sha256_Sigma0 :: "32 word \<Rightarrow> 32 word" where
  "sha256_Sigma0 x = (drop_bit 2 x OR push_bit 30 x) XOR (drop_bit 13 x OR push_bit 19 x) XOR
     (drop_bit 22 x OR push_bit 10 x)"

definition sha256_Sigma1 :: "32 word \<Rightarrow> 32 word" where
  "sha256_Sigma1 x = (drop_bit 6 x OR push_bit 26 x) XOR (drop_bit 11 x OR push_bit 21 x) XOR
     (drop_bit 25 x OR push_bit 7 x)"

definition sha256_sigma0 :: "32 word \<Rightarrow> 32 word" where
  "sha256_sigma0 x = (drop_bit 7 x OR push_bit 25 x) XOR (drop_bit 18 x OR push_bit 14 x) XOR drop_bit 3 x"

definition sha256_sigma1 :: "32 word \<Rightarrow> 32 word" where
  "sha256_sigma1 x = (drop_bit 17 x OR push_bit 15 x) XOR (drop_bit 19 x OR push_bit 13 x) XOR drop_bit 10 x"

text \<open>The constant and the number of the message word variable (\<^verbatim>\<open>w0\<close> to \<^verbatim>\<open>w15\<close>) of each round.\<close>

definition sha256_K :: "(32 word \<times> nat) list" where
  "sha256_K = [
     (0x428a2f98, 0), (0x71374491, 1), (0xb5c0fbcf, 2), (0xe9b5dba5, 3),
     (0x3956c25b, 4), (0x59f111f1, 5), (0x923f82a4, 6), (0xab1c5ed5, 7),
     (0xd807aa98, 8), (0x12835b01, 9), (0x243185be, 10), (0x550c7dc3, 11),
     (0x72be5d74, 12), (0x80deb1fe, 13), (0x9bdc06a7, 14), (0xc19bf174, 15),
     (0xe49b69c1, 0), (0xefbe4786, 1), (0x0fc19dc6, 2), (0x240ca1cc, 3),
     (0x2de92c6f, 4), (0x4a7484aa, 5), (0x5cb0a9dc, 6), (0x76f988da, 7),
     (0x983e5152, 8), (0xa831c66d, 9), (0xb00327c8, 10), (0xbf597fc7, 11),
     (0xc6e00bf3, 12), (0xd5a79147, 13), (0x06ca6351, 14), (0x14292967, 15),
     (0x27b70a85, 0), (0x2e1b2138, 1), (0x4d2c6dfc, 2), (0x53380d13, 3),
     (0x650a7354, 4), (0x766a0abb, 5), (0x81c2c92e, 6), (0x92722c85, 7),
     (0xa2bfe8a1, 8), (0xa81a664b, 9), (0xc24b8b70, 10), (0xc76c51a3, 11),
     (0xd192e819, 12), (0xd6990624, 13), (0xf40e3585, 14), (0x106aa070, 15),
     (0x19a4c116, 0), (0x1e376c08, 1), (0x2748774c, 2), (0x34b0bcb5, 3),
     (0x391c0cb3, 4), (0x4ed8aa4a, 5), (0x5b9cca4f, 6), (0x682e6ff3, 7),
     (0x748f82ee, 8), (0x78a5636f, 9), (0x84c87814, 10), (0x8cc70208, 11),
     (0x90befffa, 12), (0xa4506ceb, 13), (0xbef9a3f7, 14), (0xc67178f2, 15)]"

definition sha256_Initialize :: "32 word list" where
  "sha256_Initialize =
     [0x6a09e667, 0xbb67ae85, 0x3c6ef372, 0xa54ff53a, 0x510e527f, 0x9b05688c, 0x1f83d9ab, 0x5be0cd19]"

type_synonym sha256_vars =
  "32 word \<times> 32 word \<times> 32 word \<times> 32 word \<times> 32 word \<times> 32 word \<times> 32 word \<times> 32 word"

text \<open>
  \<^verbatim>\<open>Round(a, b, c, d, e, f, g, h, k, w)\<close> writes \<open>d\<close> and \<open>h\<close>; the next call names the variables
  \<open>(h, a, b, c, d, e, f, g)\<close>.
\<close>

fun sha256_Round :: "sha256_vars \<Rightarrow> 32 word \<Rightarrow> 32 word \<Rightarrow> sha256_vars" where
  "sha256_Round (a, b, c, d, e, f, g, h) k w =
     (let t1 = h + sha256_Sigma1 e + sha256_Ch e f g + k + w;
          t2 = sha256_Sigma0 a + sha256_Maj a b c
      in (t1 + t2, a, b, c, d + t1, e, f, g))"

text \<open>
  The first sixteen rounds read the message words; from the seventeenth on a round first adds to its
  word \<open>i\<close> the values \<^verbatim>\<open>sigma1\<close> of the word 14 places further on, the word 9 places further on and
  \<^verbatim>\<open>sigma0\<close> of the next word.
\<close>

definition sha256_schedule :: "32 word list \<Rightarrow> nat \<Rightarrow> 32 word" where
  "sha256_schedule w i =
     w ! i + (sha256_sigma1 (w ! ((i + 14) mod 16)) + w ! ((i + 9) mod 16) + sha256_sigma0 (w ! ((i + 1) mod 16)))"

fun sha256_rounds :: "nat \<Rightarrow> (32 word \<times> nat) list \<Rightarrow> 32 word list \<Rightarrow> sha256_vars \<Rightarrow> sha256_vars" where
  "sha256_rounds r [] w v = v"
| "sha256_rounds r ((k, i) # ks) w v =
     (let w' = (if r < 16 then w else w[i := sha256_schedule w i])
      in sha256_rounds (Suc r) ks w' (sha256_Round v k (w' ! i)))"

definition sha256_Transform :: "32 word list \<Rightarrow> bytes \<Rightarrow> 32 word list" where
  "sha256_Transform s chunk =
     (let w = map (\<lambda>i. ReadBE32 (drop (4 * i) chunk)) [0..<16];
          (a, b, c, d, e, f, g, h) =
            sha256_rounds 0 sha256_K w (s ! 0, s ! 1, s ! 2, s ! 3, s ! 4, s ! 5, s ! 6, s ! 7)
      in [s ! 0 + a, s ! 1 + b, s ! 2 + c, s ! 3 + d, s ! 4 + e, s ! 5 + f, s ! 6 + g, s ! 7 + h])"

definition CSHA256 :: hasher where
  "CSHA256 = \<lparr>hs = sha256_Initialize, hbuf = replicate 64 0, hbytes = 0\<rparr>"

definition CSHA256_Write :: "hasher \<Rightarrow> bytes \<Rightarrow> hasher" where
  "CSHA256_Write = hasher_Write sha256_Transform"

definition CSHA256_Finalize :: "hasher \<Rightarrow> bytes" where
  "CSHA256_Finalize = hasher_Finalize sha256_Transform WriteBE64 WriteBE32"

section \<open>RIPEMD-160\<close>

definition rol :: "32 word \<Rightarrow> nat \<Rightarrow> 32 word" where
  "rol x i = push_bit i x OR drop_bit (32 - i) x"

text \<open>The functions \<^verbatim>\<open>f1\<close> to \<^verbatim>\<open>f5\<close>, by number.\<close>

definition ripemd160_f :: "nat \<Rightarrow> 32 word \<Rightarrow> 32 word \<Rightarrow> 32 word \<Rightarrow> 32 word" where
  "ripemd160_f j x y z =
     (if j = 1 then x XOR y XOR z
      else if j = 2 then (x AND y) OR (NOT x AND z)
      else if j = 3 then (x OR NOT y) XOR z
      else if j = 4 then (x AND z) OR (y AND NOT z)
      else x XOR (y OR NOT z))"

definition ripemd160_Initialize :: "32 word list" where
  "ripemd160_Initialize = [0x67452301, 0xEFCDAB89, 0x98BADCFE, 0x10325476, 0xC3D2E1F0]"

type_synonym words5 = "32 word \<times> 32 word \<times> 32 word \<times> 32 word \<times> 32 word"

text \<open>
  \<^verbatim>\<open>Round(a, b, c, d, e, f, x, k, r)\<close> writes \<open>a\<close> and \<open>c\<close>; the next call on the same line names the
  variables \<open>(e, a, b, c, d)\<close>.
\<close>

fun ripemd160_Round :: "words5 \<Rightarrow> nat \<Rightarrow> 32 word \<Rightarrow> 32 word \<Rightarrow> nat \<Rightarrow> words5" where
  "ripemd160_Round (a, b, c, d, e) j x k r =
     (e, rol (a + ripemd160_f j b c d + x + k) r + e, b, rol c 10, d)"

text \<open>
  The rounds \<^verbatim>\<open>R11\<close> to \<^verbatim>\<open>R51\<close> of the first line and \<^verbatim>\<open>R12\<close> to \<^verbatim>\<open>R52\<close> of the second: the function and
  the constant of each group of sixteen, and the message word and rotation of each round.
\<close>

definition ripemd160_line1 :: "(nat \<times> 32 word) list" where
  "ripemd160_line1 = [(1, 0), (2, 0x5A827999), (3, 0x6ED9EBA1), (4, 0x8F1BBCDC), (5, 0xA953FD4E)]"

definition ripemd160_line2 :: "(nat \<times> 32 word) list" where
  "ripemd160_line2 = [(5, 0x50A28BE6), (4, 0x5C4DD124), (3, 0x6D703EF3), (2, 0x7A6D76E9), (1, 0)]"

definition ripemd160_steps1 :: "(nat \<times> nat) list" where
  "ripemd160_steps1 = [
     (0, 11), (1, 14), (2, 15), (3, 12), (4, 5), (5, 8), (6, 7), (7, 9),
     (8, 11), (9, 13), (10, 14), (11, 15), (12, 6), (13, 7), (14, 9), (15, 8),
     (7, 7), (4, 6), (13, 8), (1, 13), (10, 11), (6, 9), (15, 7), (3, 15),
     (12, 7), (0, 12), (9, 15), (5, 9), (2, 11), (14, 7), (11, 13), (8, 12),
     (3, 11), (10, 13), (14, 6), (4, 7), (9, 14), (15, 9), (8, 13), (1, 15),
     (2, 14), (7, 8), (0, 13), (6, 6), (13, 5), (11, 12), (5, 7), (12, 5),
     (1, 11), (9, 12), (11, 14), (10, 15), (0, 14), (8, 15), (12, 9), (4, 8),
     (13, 9), (3, 14), (7, 5), (15, 6), (14, 8), (5, 6), (6, 5), (2, 12),
     (4, 9), (0, 15), (5, 5), (9, 11), (7, 6), (12, 8), (2, 13), (10, 12),
     (14, 5), (1, 12), (3, 13), (8, 14), (11, 11), (6, 8), (15, 5), (13, 6)]"

definition ripemd160_steps2 :: "(nat \<times> nat) list" where
  "ripemd160_steps2 = [
     (5, 8), (14, 9), (7, 9), (0, 11), (9, 13), (2, 15), (11, 15), (4, 5),
     (13, 7), (6, 7), (15, 8), (8, 11), (1, 14), (10, 14), (3, 12), (12, 6),
     (6, 9), (11, 13), (3, 15), (7, 7), (0, 12), (13, 8), (5, 9), (10, 11),
     (14, 7), (15, 7), (8, 12), (12, 7), (4, 6), (9, 15), (1, 13), (2, 11),
     (15, 9), (5, 7), (1, 15), (3, 11), (7, 8), (14, 6), (6, 6), (9, 14),
     (11, 12), (8, 13), (12, 5), (2, 14), (10, 13), (0, 13), (4, 7), (13, 5),
     (8, 15), (6, 5), (4, 8), (1, 11), (3, 14), (11, 14), (15, 6), (0, 14),
     (5, 6), (12, 9), (2, 12), (13, 9), (9, 12), (7, 5), (10, 15), (14, 8),
     (12, 8), (15, 5), (10, 12), (4, 9), (1, 12), (5, 5), (8, 14), (7, 6),
     (6, 8), (2, 13), (13, 6), (14, 5), (0, 15), (3, 13), (9, 11), (11, 11)]"

fun ripemd160_rounds ::
    "(nat \<times> 32 word) list \<Rightarrow> nat \<Rightarrow> (nat \<times> nat) list \<Rightarrow> 32 word list \<Rightarrow> words5 \<Rightarrow> words5" where
  "ripemd160_rounds line i [] w v = v"
| "ripemd160_rounds line i ((x, r) # steps) w v =
     (case line ! (i div 16) of
        (j, k) \<Rightarrow> ripemd160_rounds line (Suc i) steps w (ripemd160_Round v j (w ! x) k r))"

definition ripemd160_Transform :: "32 word list \<Rightarrow> bytes \<Rightarrow> 32 word list" where
  "ripemd160_Transform s chunk =
     (let w = map (\<lambda>i. of_nat (ReadLE32 (drop (4 * i) chunk))) [0..<16];
          v = (s ! 0, s ! 1, s ! 2, s ! 3, s ! 4);
          (a1, b1, c1, d1, e1) = ripemd160_rounds ripemd160_line1 0 ripemd160_steps1 w v;
          (a2, b2, c2, d2, e2) = ripemd160_rounds ripemd160_line2 0 ripemd160_steps2 w v
      in [s ! 1 + c1 + d2, s ! 2 + d1 + e2, s ! 3 + e1 + a2, s ! 4 + a1 + b2, s ! 0 + b1 + c2])"

definition CRIPEMD160 :: hasher where
  "CRIPEMD160 = \<lparr>hs = ripemd160_Initialize, hbuf = replicate 64 0, hbytes = 0\<rparr>"

definition CRIPEMD160_Write :: "hasher \<Rightarrow> bytes \<Rightarrow> hasher" where
  "CRIPEMD160_Write = hasher_Write ripemd160_Transform"

definition CRIPEMD160_Finalize :: "hasher \<Rightarrow> bytes" where
  "CRIPEMD160_Finalize =
     hasher_Finalize ripemd160_Transform WriteLE64 (\<lambda>x. WriteLE32 (unat x))"

section \<open>SHA-1\<close>

definition sha1_f :: "nat \<Rightarrow> 32 word \<Rightarrow> 32 word \<Rightarrow> 32 word \<Rightarrow> 32 word" where
  "sha1_f j b c d =
     (if j = 1 then d XOR (b AND (c XOR d))
      else if j = 2 then b XOR c XOR d
      else (b AND c) OR (d AND (b OR c)))"

definition sha1_left :: "32 word \<Rightarrow> 32 word" where
  "sha1_left x = push_bit 1 x OR drop_bit 31 x"

definition sha1_Initialize :: "32 word list" where
  "sha1_Initialize = [0x67452301, 0xEFCDAB89, 0x98BADCFE, 0x10325476, 0xC3D2E1F0]"

text \<open>The function and the constant of each group of twenty rounds.\<close>

definition sha1_groups :: "(nat \<times> 32 word) list" where
  "sha1_groups = [(1, 0x5A827999), (2, 0x6ED9EBA1), (3, 0x8F1BBCDC), (2, 0xCA62C1D6)]"

fun sha1_Round :: "words5 \<Rightarrow> nat \<Rightarrow> 32 word \<Rightarrow> 32 word \<Rightarrow> words5" where
  "sha1_Round (a, b, c, d, e) j k w =
     (e + ((push_bit 5 a OR drop_bit 27 a) + sha1_f j b c d + k + w), a,
      push_bit 30 b OR drop_bit 2 b, c, d)"

definition sha1_schedule :: "32 word list \<Rightarrow> 32 word" where
  "sha1_schedule w = sha1_left (w ! 0 XOR w ! 13 XOR w ! 8 XOR w ! 2)"

fun sha1_rounds :: "nat \<Rightarrow> nat \<Rightarrow> 32 word list \<Rightarrow> words5 \<Rightarrow> words5" where
  "sha1_rounds i 0 w v = v"
| "sha1_rounds i (Suc n) w v =
     (case sha1_groups ! (i div 20) of
        (j, k) \<Rightarrow> sha1_rounds (Suc i) n (tl w @ [sha1_schedule w]) (sha1_Round v j k (w ! 0)))"

definition sha1_Transform :: "32 word list \<Rightarrow> bytes \<Rightarrow> 32 word list" where
  "sha1_Transform s chunk =
     (let w = map (\<lambda>i. ReadBE32 (drop (4 * i) chunk)) [0..<16];
          (a, b, c, d, e) = sha1_rounds 0 80 w (s ! 0, s ! 1, s ! 2, s ! 3, s ! 4)
      in [s ! 0 + a, s ! 1 + b, s ! 2 + c, s ! 3 + d, s ! 4 + e])"

definition CSHA1 :: hasher where
  "CSHA1 = \<lparr>hs = sha1_Initialize, hbuf = replicate 64 0, hbytes = 0\<rparr>"

definition CSHA1_Write :: "hasher \<Rightarrow> bytes \<Rightarrow> hasher" where
  "CSHA1_Write = hasher_Write sha1_Transform"

definition CSHA1_Finalize :: "hasher \<Rightarrow> bytes" where
  "CSHA1_Finalize = hasher_Finalize sha1_Transform WriteBE64 WriteBE32"

section \<open>Digests of a whole vector\<close>

definition SHA256 :: "bytes \<Rightarrow> bytes" where
  "SHA256 vch = CSHA256_Finalize (CSHA256_Write CSHA256 vch)"

definition RIPEMD160 :: "bytes \<Rightarrow> bytes" where
  "RIPEMD160 vch = CRIPEMD160_Finalize (CRIPEMD160_Write CRIPEMD160 vch)"

definition SHA1 :: "bytes \<Rightarrow> bytes" where
  "SHA1 vch = CSHA1_Finalize (CSHA1_Write CSHA1 vch)"

text \<open>\<^verbatim>\<open>CHash256\<close> and \<^verbatim>\<open>CHash160\<close> collect their input in a \<^verbatim>\<open>CSHA256\<close> and hash its digest once more.\<close>

definition CHash256_Finalize :: "hasher \<Rightarrow> bytes" where
  "CHash256_Finalize sha = CSHA256_Finalize (CSHA256_Write CSHA256 (CSHA256_Finalize sha))"

definition CHash160_Finalize :: "hasher \<Rightarrow> bytes" where
  "CHash160_Finalize sha = CRIPEMD160_Finalize (CRIPEMD160_Write CRIPEMD160 (CSHA256_Finalize sha))"

definition Hash256 :: "bytes \<Rightarrow> bytes" where
  "Hash256 vch = CHash256_Finalize (CSHA256_Write CSHA256 vch)"

definition Hash160 :: "bytes \<Rightarrow> bytes" where
  "Hash160 vch = CHash160_Finalize (CSHA256_Write CSHA256 vch)"

section \<open>The reference: absorb the padded message block by block\<close>

text \<open>
  A hasher that has absorbed the message \<open>m\<close> since its initial state: the full blocks of \<open>m\<close> are in
  the chaining value and the rest is at the front of the buffer.
\<close>

definition hasher_absorbed ::
    "(32 word list \<Rightarrow> bytes \<Rightarrow> 32 word list) \<Rightarrow> 32 word list \<Rightarrow> bytes \<Rightarrow> hasher \<Rightarrow> bool" where
  "hasher_absorbed transform s0 m h \<longleftrightarrow>
     length (hbuf h) = 64 \<and> hbytes h = length m \<and>
     fst (hasher_chunks transform s0 0 m) = hs h \<and>
     snd (snd (hasher_chunks transform s0 0 m)) = take (length m mod 64) (hbuf h)"

definition padded :: "(nat \<Rightarrow> bytes) \<Rightarrow> bytes \<Rightarrow> bytes" where
  "padded sizeenc m = m @ hasher_pad (length m) @ sizeenc (length m * 8 mod 2 ^ 64)"

text \<open>The Merkle-Damgard digest: the compression function folded over the 64-byte blocks.\<close>

function blocks64 :: "bytes \<Rightarrow> bytes list" where
  "blocks64 m = (if length m \<ge> 64 then take 64 m # blocks64 (drop 64 m) else [])"
  by pat_completeness auto
termination
  by (relation "measure length") auto

declare blocks64.simps [simp del]

definition md_digest ::
    "(32 word list \<Rightarrow> bytes \<Rightarrow> 32 word list) \<Rightarrow> 32 word list \<Rightarrow> (nat \<Rightarrow> bytes) \<Rightarrow> (32 word \<Rightarrow> bytes) \<Rightarrow> bytes \<Rightarrow> bytes" where
  "md_digest transform s0 sizeenc wordenc m =
     concat (map wordenc (foldl transform s0 (blocks64 (padded sizeenc m))))"

section \<open>Lemmas on the buffer\<close>

lemma fst_hasher_chunks: "fst (hasher_chunks tr s n m) = foldl tr s (blocks64 m)"
  by (induction tr s n m rule: hasher_chunks.induct)
    (subst hasher_chunks.simps, subst blocks64.simps, simp)

lemma hasher_chunks_count:
  "hasher_chunks tr s n m = (s', n', r) \<Longrightarrow> length r = length m mod 64 \<and> n' + length r = n + length m"
proof (induction tr s n m rule: hasher_chunks.induct)
  case (1 tr s n m)
  show ?case
  proof (cases "64 \<le> length m")
    case True
    with 1 have "length r = length (drop 64 m) mod 64 \<and> n' + length r = n + 64 + length (drop 64 m)"
      by (simp add: hasher_chunks.simps [of tr s n m])
    with True show ?thesis
      by (simp add: le_mod_geq)
  next
    case False
    with 1 show ?thesis
      by (auto simp: hasher_chunks.simps [of tr s n m])
  qed
qed

lemma hasher_chunks_append:
  "hasher_chunks tr s n m = (s', n', r) \<Longrightarrow> hasher_chunks tr s n (m @ d) = hasher_chunks tr s' n' (r @ d)"
proof (induction tr s n m rule: hasher_chunks.induct)
  case (1 tr s n m)
  then show ?case
    by (cases "64 \<le> length m")
      (auto simp: hasher_chunks.simps [of tr s n m] hasher_chunks.simps [of tr s n "m @ d"])
qed

lemma hasher_chunks_start: "64 \<le> length r + length d \<Longrightarrow> length r \<le> 64 \<Longrightarrow>
   hasher_chunks tr s n (r @ d) =
     hasher_chunks tr (tr s (r @ take (64 - length r) d)) (n + 64) (drop (64 - length r) d)"
  by (subst hasher_chunks.simps) simp

lemma hasher_chunks_small: "length d < 64 \<Longrightarrow> hasher_chunks tr s n d = (s, n, d)"
  by (subst hasher_chunks.simps) simp

lemma length_memcpy: "off + length src \<le> length buf \<Longrightarrow> length (memcpy buf off src) = length buf"
  by (simp add: memcpy_def)

lemma take_memcpy: "off + length src \<le> length buf \<Longrightarrow>
   take (off + length src) (memcpy buf off src) = take off buf @ src"
  by (simp add: memcpy_def)

lemma hasher_Write_flush:
  assumes "hbytes h mod 64 \<noteq> 0" "64 \<le> hbytes h mod 64 + length d" "length (hbuf h) = 64"
    and "hasher_chunks tr (tr (hs h) (take (hbytes h mod 64) (hbuf h) @ take (64 - hbytes h mod 64) d))
           (hbytes h + (64 - hbytes h mod 64)) (drop (64 - hbytes h mod 64) d) = (s2, n2, r2)"
  shows "hs (hasher_Write tr h d) = s2" "hbytes (hasher_Write tr h d) = n2 + length r2"
    "length (hbuf (hasher_Write tr h d)) = 64" "take (length r2) (hbuf (hasher_Write tr h d)) = r2"
proof -
  have "length r2 < 64"
    using hasher_chunks_count [OF assms(4)] by simp
  moreover have "memcpy (hbuf h) (hbytes h mod 64) (take (64 - hbytes h mod 64) d) =
      take (hbytes h mod 64) (hbuf h) @ take (64 - hbytes h mod 64) d"
    using assms(2,3) by (simp add: memcpy_def)
  ultimately show "hs (hasher_Write tr h d) = s2" "hbytes (hasher_Write tr h d) = n2 + length r2"
    "length (hbuf (hasher_Write tr h d)) = 64" "take (length r2) (hbuf (hasher_Write tr h d)) = r2"
    using assms by (auto simp: hasher_Write_def Let_def memcpy_def)
qed

lemma hasher_Write_keep:
  assumes "\<not> (hbytes h mod 64 \<noteq> 0 \<and> 64 \<le> hbytes h mod 64 + length d)" "length (hbuf h) = 64"
    and "hasher_chunks tr (hs h) (hbytes h) d = (s2, n2, r2)"
  shows "hs (hasher_Write tr h d) = s2" "hbytes (hasher_Write tr h d) = n2 + length r2"
    "length (hbuf (hasher_Write tr h d)) = 64"
    "take (hbytes h mod 64 + length r2) (hbuf (hasher_Write tr h d)) = take (hbytes h mod 64) (hbuf h) @ r2"
proof -
  have "length r2 = length d mod 64"
    using hasher_chunks_count [OF assms(3)] by simp
  then have "hbytes h mod 64 + length r2 \<le> 64"
    using assms(1) by (cases "hbytes h mod 64 = 0") auto
  then show "hs (hasher_Write tr h d) = s2" "hbytes (hasher_Write tr h d) = n2 + length r2"
    "length (hbuf (hasher_Write tr h d)) = 64"
    "take (hbytes h mod 64 + length r2) (hbuf (hasher_Write tr h d)) = take (hbytes h mod 64) (hbuf h) @ r2"
    using assms by (auto simp: hasher_Write_def Let_def memcpy_def)
qed

lemma hasher_Write_absorbed:
  assumes "hasher_absorbed tr s0 m h"
  shows "hasher_absorbed tr s0 (m @ d) (hasher_Write tr h d)"
proof -
  let ?k = "length m mod 64"
  obtain n r where ch: "hasher_chunks tr s0 0 m = (hs h, n, r)" and r: "r = take ?k (hbuf h)"
    and h: "length (hbuf h) = 64" "hbytes h = length m"
    using assms by (cases "hasher_chunks tr s0 0 m") (auto simp: hasher_absorbed_def)
  have n: "length r = ?k" "n + ?k = length m"
    using hasher_chunks_count [OF ch] by auto
  have app: "hasher_chunks tr s0 0 (m @ d) = hasher_chunks tr (hs h) n (r @ d)"
    using hasher_chunks_append [OF ch] .
  show ?thesis
  proof (cases "?k \<noteq> 0 \<and> 64 \<le> ?k + length d")
    case True
    have "n + 64 = length m + (64 - ?k)"
      using n(2) by simp
    then have st: "hasher_chunks tr s0 0 (m @ d) =
        hasher_chunks tr (tr (hs h) (take (hbytes h mod 64) (hbuf h) @ take (64 - hbytes h mod 64) d))
           (hbytes h + (64 - hbytes h mod 64)) (drop (64 - hbytes h mod 64) d)"
      using app hasher_chunks_start [of r d tr "hs h" n] True n(1) h(2) by (simp add: r)
    obtain s2 n2 r2 where res: "hasher_chunks tr s0 0 (m @ d) = (s2, n2, r2)"
      by (metis prod_cases3)
    have w: "hs (hasher_Write tr h d) = s2" "hbytes (hasher_Write tr h d) = n2 + length r2"
      "length (hbuf (hasher_Write tr h d)) = 64" "take (length r2) (hbuf (hasher_Write tr h d)) = r2"
      using hasher_Write_flush [of h d tr s2 n2 r2] True h st res by auto
    with hasher_chunks_count [OF res] res show ?thesis
      by (simp add: hasher_absorbed_def)
  next
    case False
    obtain s2 n2 r2 where res: "hasher_chunks tr (hs h) (length m) d = (s2, n2, r2)"
      by (metis prod_cases3)
    have w: "hs (hasher_Write tr h d) = s2" "hbytes (hasher_Write tr h d) = n2 + length r2"
      "length (hbuf (hasher_Write tr h d)) = 64"
      "take (?k + length r2) (hbuf (hasher_Write tr h d)) = r @ r2"
      using hasher_Write_keep [of h d tr s2 n2 r2] False h res r by auto
    have "\<exists>n3. hasher_chunks tr s0 0 (m @ d) = (s2, n3, r @ r2)"
    proof (cases "?k = 0")
      case True
      then show ?thesis
        using app n res by simp
    next
      case nz: False
      with False have "length r + length d < 64"
        using n(1) by simp
      then show ?thesis
        using app res by (simp add: hasher_chunks_small)
    qed
    then obtain n3 where fin: "hasher_chunks tr s0 0 (m @ d) = (s2, n3, r @ r2)"
      by blast
    from w hasher_chunks_count [OF res] hasher_chunks_count [OF fin] fin n(1) show ?thesis
      by (simp add: hasher_absorbed_def)
  qed
qed

lemma length_hasher_pad: "length (hasher_pad n) = 1 + (119 - n mod 64) mod 64"
proof -
  have "(119 - n mod 64) mod 64 < 64"
    by simp
  then show ?thesis
    by (simp add: hasher_pad_def del: mod_less_divisor)
qed

lemma pad_mod_64: "(n + (Suc ((119 - n mod 64) mod 64) + 8)) mod 64 = 0" for n :: nat
proof -
  have "n mod 64 + (Suc ((119 - n mod 64) mod 64) + 8) \<in> {64, 128}"
  proof (cases "n mod 64 \<le> 55")
    case True
    then show ?thesis
      by (simp add: le_mod_geq)
  next
    case False
    moreover have "n mod 64 < 64"
      by simp
    ultimately show ?thesis
      by (simp del: mod_less_divisor)
  qed
  then have "(n mod 64 + (Suc ((119 - n mod 64) mod 64) + 8)) mod 64 \<in> {64 mod 64, 128 mod 64}"
    by (metis empty_iff insert_iff)
  then have "(n mod 64 + (Suc ((119 - n mod 64) mod 64) + 8)) mod 64 = 0"
    by (simp only: mod_self) simp
  then show ?thesis
    by (simp only: mod_add_left_eq)
qed

section \<open>Any block hasher\<close>

locale block_hasher =
  fixes transform :: "32 word list \<Rightarrow> bytes \<Rightarrow> 32 word list"
    and init :: "32 word list"
    and sizeenc :: "nat \<Rightarrow> bytes"
    and wordenc :: "32 word \<Rightarrow> bytes"
    and hasher0 :: hasher
    and hwrite :: "hasher \<Rightarrow> bytes \<Rightarrow> hasher"
    and hfinal :: "hasher \<Rightarrow> bytes"
  assumes length_transform: "length (transform s c) = length init"
    and length_sizeenc: "length (sizeenc n) = 8"
    and length_wordenc: "length (wordenc w) = 4"
    and hasher0_eq: "hasher0 = \<lparr>hs = init, hbuf = replicate 64 0, hbytes = 0\<rparr>"
    and write_eq: "hwrite = hasher_Write transform"
    and finalize_eq: "hfinal = hasher_Finalize transform sizeenc wordenc"
begin

lemma absorbed_init: "hasher_absorbed transform init [] hasher0"
  by (simp add: hasher0_eq hasher_absorbed_def hasher_chunks_small)

lemma absorbed_write: "hasher_absorbed transform init m h \<Longrightarrow> hasher_absorbed transform init (m @ d) (hwrite h d)"
  by (simp add: write_eq hasher_Write_absorbed)

lemma absorbed_writes: "hasher_absorbed transform init m h \<Longrightarrow>
   hasher_absorbed transform init (m @ concat ds) (foldl hwrite h ds)"
proof (induction ds arbitrary: m h)
  case (Cons d ds)
  from Cons.IH [OF absorbed_write [OF Cons.prems, of d]] show ?case
    by simp
qed simp

lemma finalize_absorbed:
  "hasher_absorbed transform init m h \<Longrightarrow> hfinal h = md_digest transform init sizeenc wordenc m"
  using hasher_Write_absorbed [OF hasher_Write_absorbed [of transform init m h "hasher_pad (length m)"],
      of "sizeenc (length m * 8 mod 2 ^ 64)"]
  by (simp add: finalize_eq hasher_Finalize_def Let_def md_digest_def padded_def hasher_absorbed_def
      fst_hasher_chunks)

lemma digest_of_writes:
  "hfinal (foldl hwrite hasher0 ds) = md_digest transform init sizeenc wordenc (concat ds)"
  using finalize_absorbed [OF absorbed_writes [OF absorbed_init]] by simp

lemma digest_of_write: "hfinal (hwrite hasher0 m) = md_digest transform init sizeenc wordenc m"
  using digest_of_writes [of "[m]"] by simp

lemma padded_blocks: "length (padded sizeenc m) mod 64 = 0"
  using pad_mod_64 [of "length m"] by (simp add: padded_def length_hasher_pad length_sizeenc)

lemma length_foldl_transform: "length s = length init \<Longrightarrow> length (foldl transform s cs) = length init"
  by (induction cs arbitrary: s) (simp_all add: length_transform)

lemma length_md_digest: "length (md_digest transform init sizeenc wordenc m) = 4 * length init"
  by (simp add: md_digest_def length_concat length_foldl_transform comp_def length_wordenc
      sum_list_triv)

end

interpretation sha256: block_hasher sha256_Transform sha256_Initialize WriteBE64 WriteBE32
    CSHA256 CSHA256_Write CSHA256_Finalize
  by unfold_locales
    (simp_all add: sha256_Transform_def sha256_Initialize_def WriteBE64_def WriteBE32_def
      CSHA256_def CSHA256_Write_def CSHA256_Finalize_def Let_def split: prod.split)

interpretation ripemd160: block_hasher ripemd160_Transform ripemd160_Initialize WriteLE64
    "\<lambda>x. WriteLE32 (unat x)" CRIPEMD160 CRIPEMD160_Write CRIPEMD160_Finalize
  by unfold_locales
    (simp_all add: ripemd160_Transform_def ripemd160_Initialize_def WriteLE64_def WriteLE32_def
      CRIPEMD160_def CRIPEMD160_Write_def CRIPEMD160_Finalize_def Let_def split: prod.split)

interpretation sha1: block_hasher sha1_Transform sha1_Initialize WriteBE64 WriteBE32
    CSHA1 CSHA1_Write CSHA1_Finalize
  by unfold_locales
    (simp_all add: sha1_Transform_def sha1_Initialize_def WriteBE64_def WriteBE32_def
      CSHA1_def CSHA1_Write_def CSHA1_Finalize_def Let_def split: prod.split)

lemma length_SHA256 [simp]: "length (SHA256 m) = 32"
  by (simp add: SHA256_def sha256.digest_of_write sha256.length_md_digest) (simp add: sha256_Initialize_def)

lemma length_RIPEMD160 [simp]: "length (RIPEMD160 m) = 20"
  by (simp add: RIPEMD160_def ripemd160.digest_of_write ripemd160.length_md_digest)
    (simp add: ripemd160_Initialize_def)

lemma length_SHA1 [simp]: "length (SHA1 m) = 20"
  by (simp add: SHA1_def sha1.digest_of_write sha1.length_md_digest) (simp add: sha1_Initialize_def)

lemma Hash256_eq: "Hash256 m = SHA256 (SHA256 m)"
  by (simp add: Hash256_def CHash256_Finalize_def SHA256_def)

lemma Hash160_eq: "Hash160 m = RIPEMD160 (SHA256 m)"
  by (simp add: Hash160_def CHash160_Finalize_def SHA256_def RIPEMD160_def)

lemma length_Hash256 [simp]: "length (Hash256 m) = 32"
  by (simp add: Hash256_eq)

lemma length_Hash160 [simp]: "length (Hash160 m) = 20"
  by (simp add: Hash160_eq)

section \<open>Properties\<close>

text \<open>
  C26. The digests of the three hashers depend on the concatenation of the written pieces only, and are
  the Merkle-Damgard digest (the compression function folded over the 64-byte blocks of the padded
  message) of it; the padded message is a whole number of blocks; the digests have 32, 20 and 20 bytes.
\<close>

theorem hashers_streaming:
  "CSHA256_Finalize (foldl CSHA256_Write CSHA256 ds) =
     md_digest sha256_Transform sha256_Initialize WriteBE64 WriteBE32 (concat ds) \<and>
   CRIPEMD160_Finalize (foldl CRIPEMD160_Write CRIPEMD160 ds) =
     md_digest ripemd160_Transform ripemd160_Initialize WriteLE64 (\<lambda>x. WriteLE32 (unat x)) (concat ds) \<and>
   CSHA1_Finalize (foldl CSHA1_Write CSHA1 ds) =
     md_digest sha1_Transform sha1_Initialize WriteBE64 WriteBE32 (concat ds) \<and>
   length (padded WriteBE64 (concat ds)) mod 64 = 0 \<and>
   length (padded WriteLE64 (concat ds)) mod 64 = 0 \<and>
   length (CSHA256_Finalize (foldl CSHA256_Write CSHA256 ds)) = 32 \<and>
   length (CRIPEMD160_Finalize (foldl CRIPEMD160_Write CRIPEMD160 ds)) = 20 \<and>
   length (CSHA1_Finalize (foldl CSHA1_Write CSHA1 ds)) = 20"
  using length_SHA256 [of "concat ds"] length_RIPEMD160 [of "concat ds"] length_SHA1 [of "concat ds"]
  by (simp add: sha256.digest_of_writes ripemd160.digest_of_writes sha1.digest_of_writes
      sha256.padded_blocks ripemd160.padded_blocks SHA256_def RIPEMD160_def SHA1_def
      sha256.digest_of_write ripemd160.digest_of_write sha1.digest_of_write)

end
