(* ===== verification/Script_Interp.thy ===== *)
theory Script_Interp
  imports Sig_Encoding Hash_Functions "HOL-Library.Sublist"
begin

text \<open>
  The script interpreter (\<^verbatim>\<open>src/script/interpreter.cpp\<close>): \<^verbatim>\<open>EvalScript\<close> and \<^verbatim>\<open>VerifyScript\<close>.
  The stacks are lists with the top at the head; \<^verbatim>\<open>vfExec\<close> is a list with the innermost conditional at
  the head; the iterators \<^verbatim>\<open>pc\<close> and \<^verbatim>\<open>pbegincodehash\<close> are the suffixes of the script they point to.
  Each \<^verbatim>\<open>case\<close> of the switch is a definition; those that only touch the main stack are functions on it.
  An exception (a number that does not fit, a signature hash that cannot be formed) is caught by
  \<^verbatim>\<open>EvalScript\<close> and becomes \<^verbatim>\<open>SCRIPT_ERR_UNKNOWN_ERROR\<close>.  The signature checker is a record of
  functions, as the virtual methods of \<^verbatim>\<open>BaseSignatureChecker\<close>; a \<^verbatim>\<open>CheckSig\<close> that throws returns \<open>None\<close>.
\<close>

section \<open>Checkers, environment and state\<close>

datatype SigVersion = SIGVERSION_BASE | SIGVERSION_SAPLING

type_synonym stack = "bytes list"

record sig_checker =
  CheckSig :: "bytes \<Rightarrow> bytes \<Rightarrow> bytes \<Rightarrow> SigVersion \<Rightarrow> bool option"
  CheckLockTime :: "int \<Rightarrow> bool"
  CheckColdStake :: "bytes \<Rightarrow> stack \<Rightarrow> script_flags \<Rightarrow> ScriptError option"

text \<open>
  The default methods return \<^verbatim>\<open>false\<close>; the one for cold staking leaves \<^verbatim>\<open>*serror\<close> as it was.
\<close>

definition BaseSignatureChecker :: sig_checker where
  "BaseSignatureChecker =
     \<lparr>CheckSig = (\<lambda>_ _ _ _. Some False), CheckLockTime = (\<lambda>_. False),
      CheckColdStake = (\<lambda>_ _ _. Some SCRIPT_ERR_UNKNOWN_ERROR)\<rparr>"

text \<open>The arguments of one call of \<^verbatim>\<open>EvalScript\<close>, and the curve library's \<^verbatim>\<open>CheckLowS\<close>.\<close>

record eval_env =
  env_script :: bytes
  env_flags :: script_flags
  env_checker :: sig_checker
  env_sigversion :: SigVersion
  env_CheckLowS :: "bytes \<Rightarrow> bool"

record eval_state =
  es_stack :: stack
  es_altstack :: stack
  es_vfExec :: "bool list"
  es_pc :: bytes
  es_pbegincodehash :: bytes
  es_nOpCount :: nat

definition fRequireMinimal :: "eval_env \<Rightarrow> bool" where
  "fRequireMinimal env = flag_set (env_flags env) SCRIPT_VERIFY_MINIMALDATA"

definition vchFalse :: bytes where "vchFalse = []"
definition vchTrue :: bytes where "vchTrue = [1]"

definition vchBool :: "bool \<Rightarrow> bytes" where
  "vchBool f = (if f then vchTrue else vchFalse)"

abbreviation invalid_stack :: "ScriptError + 'a" where
  "invalid_stack \<equiv> Inl SCRIPT_ERR_INVALID_STACK_OPERATION"

text \<open>\<^verbatim>\<open>CScriptNum(vch, fRequireMinimal, size)\<close> inside the \<^verbatim>\<open>try\<close> block.\<close>

definition num_arg :: "bool \<Rightarrow> bytes \<Rightarrow> nat \<Rightarrow> ScriptError + int" where
  "num_arg fMinimal vch nMaxNumSize =
     (case CScriptNum vch fMinimal nMaxNumSize of Inl _ \<Rightarrow> Inl SCRIPT_ERR_UNKNOWN_ERROR | Inr n \<Rightarrow> Inr n)"

section \<open>Operations on the main stack\<close>

definition op_push_value :: "opcodetype \<Rightarrow> stack \<Rightarrow> ScriptError + stack" where
  "op_push_value opcode st = Inr (getvch (int (unat opcode) - (int (unat OP_1) - 1)) # st)"

definition op_CHECKLOCKTIMEVERIFY :: "eval_env \<Rightarrow> stack \<Rightarrow> ScriptError + stack" where
  "op_CHECKLOCKTIMEVERIFY env st =
     (if \<not> flag_set (env_flags env) SCRIPT_VERIFY_CHECKLOCKTIMEVERIFY
      then if flag_set (env_flags env) SCRIPT_VERIFY_DISCOURAGE_UPGRADABLE_NOPS
           then Inl SCRIPT_ERR_DISCOURAGE_UPGRADABLE_NOPS else Inr st
      else case st of
        [] \<Rightarrow> invalid_stack
      | x # _ \<Rightarrow> bindE (num_arg (fRequireMinimal env) x 5) (\<lambda>nLockTime.
          if nLockTime < 0 then Inl SCRIPT_ERR_NEGATIVE_LOCKTIME
          else if \<not> CheckLockTime (env_checker env) nLockTime then Inl SCRIPT_ERR_UNSATISFIED_LOCKTIME
          else Inr st))"

definition op_upgradable_NOP :: "eval_env \<Rightarrow> stack \<Rightarrow> ScriptError + stack" where
  "op_upgradable_NOP env st =
     (if flag_set (env_flags env) SCRIPT_VERIFY_DISCOURAGE_UPGRADABLE_NOPS
      then Inl SCRIPT_ERR_DISCOURAGE_UPGRADABLE_NOPS else Inr st)"

definition op_VERIFY :: "stack \<Rightarrow> ScriptError + stack" where
  "op_VERIFY st =
     (case st of
        x # s \<Rightarrow> if CastToBool x then Inr s else Inl SCRIPT_ERR_VERIFY
      | _ \<Rightarrow> invalid_stack)"

definition op_2DROP :: "stack \<Rightarrow> ScriptError + stack" where
  "op_2DROP st = (case st of x2 # x1 # s \<Rightarrow> Inr s | _ \<Rightarrow> invalid_stack)"

definition op_2DUP :: "stack \<Rightarrow> ScriptError + stack" where
  "op_2DUP st = (case st of x2 # x1 # s \<Rightarrow> Inr (x2 # x1 # x2 # x1 # s) | _ \<Rightarrow> invalid_stack)"

definition op_3DUP :: "stack \<Rightarrow> ScriptError + stack" where
  "op_3DUP st =
     (case st of x3 # x2 # x1 # s \<Rightarrow> Inr (x3 # x2 # x1 # x3 # x2 # x1 # s) | _ \<Rightarrow> invalid_stack)"

definition op_2OVER :: "stack \<Rightarrow> ScriptError + stack" where
  "op_2OVER st =
     (case st of x4 # x3 # x2 # x1 # s \<Rightarrow> Inr (x2 # x1 # x4 # x3 # x2 # x1 # s) | _ \<Rightarrow> invalid_stack)"

definition op_2ROT :: "stack \<Rightarrow> ScriptError + stack" where
  "op_2ROT st =
     (case st of
        x6 # x5 # x4 # x3 # x2 # x1 # s \<Rightarrow> Inr (x2 # x1 # x6 # x5 # x4 # x3 # s)
      | _ \<Rightarrow> invalid_stack)"

definition op_2SWAP :: "stack \<Rightarrow> ScriptError + stack" where
  "op_2SWAP st =
     (case st of x4 # x3 # x2 # x1 # s \<Rightarrow> Inr (x2 # x1 # x4 # x3 # s) | _ \<Rightarrow> invalid_stack)"

definition op_IFDUP :: "stack \<Rightarrow> ScriptError + stack" where
  "op_IFDUP st =
     (case st of x # s \<Rightarrow> Inr (if CastToBool x then x # x # s else x # s) | _ \<Rightarrow> invalid_stack)"

definition op_DEPTH :: "stack \<Rightarrow> ScriptError + stack" where
  "op_DEPTH st = Inr (getvch (int (length st)) # st)"

definition op_DROP :: "stack \<Rightarrow> ScriptError + stack" where
  "op_DROP st = (case st of x # s \<Rightarrow> Inr s | _ \<Rightarrow> invalid_stack)"

definition op_DUP :: "stack \<Rightarrow> ScriptError + stack" where
  "op_DUP st = (case st of x # s \<Rightarrow> Inr (x # x # s) | _ \<Rightarrow> invalid_stack)"

definition op_NIP :: "stack \<Rightarrow> ScriptError + stack" where
  "op_NIP st = (case st of x2 # x1 # s \<Rightarrow> Inr (x2 # s) | _ \<Rightarrow> invalid_stack)"

definition op_OVER :: "stack \<Rightarrow> ScriptError + stack" where
  "op_OVER st = (case st of x2 # x1 # s \<Rightarrow> Inr (x1 # x2 # x1 # s) | _ \<Rightarrow> invalid_stack)"

definition op_PICK_ROLL :: "bool \<Rightarrow> opcodetype \<Rightarrow> stack \<Rightarrow> ScriptError + stack" where
  "op_PICK_ROLL fMinimal opcode st =
     (case st of
        x # y # s' \<Rightarrow>
          bindE (num_arg fMinimal x nDefaultMaxNumSize) (\<lambda>bn.
            let n = getint bn; s = y # s' in
            if n < 0 \<or> n \<ge> int (length s) then invalid_stack
            else let vch = s ! nat n in
              Inr (vch # (if opcode = OP_ROLL then take (nat n) s @ drop (nat n + 1) s else s)))
      | _ \<Rightarrow> invalid_stack)"

definition op_ROT :: "stack \<Rightarrow> ScriptError + stack" where
  "op_ROT st = (case st of x3 # x2 # x1 # s \<Rightarrow> Inr (x1 # x3 # x2 # s) | _ \<Rightarrow> invalid_stack)"

definition op_SWAP :: "stack \<Rightarrow> ScriptError + stack" where
  "op_SWAP st = (case st of x2 # x1 # s \<Rightarrow> Inr (x1 # x2 # s) | _ \<Rightarrow> invalid_stack)"

definition op_TUCK :: "stack \<Rightarrow> ScriptError + stack" where
  "op_TUCK st = (case st of x2 # x1 # s \<Rightarrow> Inr (x2 # x1 # x2 # s) | _ \<Rightarrow> invalid_stack)"

definition op_SIZE :: "stack \<Rightarrow> ScriptError + stack" where
  "op_SIZE st = (case st of x # s \<Rightarrow> Inr (getvch (int (length x)) # x # s) | _ \<Rightarrow> invalid_stack)"

definition op_EQUAL :: "opcodetype \<Rightarrow> stack \<Rightarrow> ScriptError + stack" where
  "op_EQUAL opcode st =
     (case st of
        x2 # x1 # s \<Rightarrow>
          let fEqual = (x1 = x2) in
          if opcode = OP_EQUALVERIFY
          then if fEqual then Inr s else Inl SCRIPT_ERR_EQUALVERIFY
          else Inr (vchBool fEqual # s)
      | _ \<Rightarrow> invalid_stack)"

text \<open>The inner switch of the unary and of the binary numeric operations.\<close>

definition bn_bool :: "bool \<Rightarrow> int" where
  "bn_bool b = (if b then 1 else 0)"

definition unary_value :: "opcodetype \<Rightarrow> int \<Rightarrow> int" where
  "unary_value opcode bn =
     (if opcode = OP_1ADD then bn + 1
      else if opcode = OP_1SUB then bn - 1
      else if opcode = OP_NEGATE then - bn
      else if opcode = OP_ABS then (if bn < 0 then - bn else bn)
      else if opcode = OP_NOT then bn_bool (bn = 0)
      else bn_bool (bn \<noteq> 0))"

definition op_unary :: "bool \<Rightarrow> opcodetype \<Rightarrow> stack \<Rightarrow> ScriptError + stack" where
  "op_unary fMinimal opcode st =
     (case st of
        x # s \<Rightarrow> bindE (num_arg fMinimal x nDefaultMaxNumSize) (\<lambda>bn.
          Inr (getvch (unary_value opcode bn) # s))
      | _ \<Rightarrow> invalid_stack)"

definition binary_value :: "opcodetype \<Rightarrow> int \<Rightarrow> int \<Rightarrow> int" where
  "binary_value opcode bn1 bn2 =
     (if opcode = OP_ADD then bn1 + bn2
      else if opcode = OP_SUB then bn1 - bn2
      else if opcode = OP_BOOLAND then bn_bool (bn1 \<noteq> 0 \<and> bn2 \<noteq> 0)
      else if opcode = OP_BOOLOR then bn_bool (bn1 \<noteq> 0 \<or> bn2 \<noteq> 0)
      else if opcode = OP_NUMEQUAL then bn_bool (bn1 = bn2)
      else if opcode = OP_NUMEQUALVERIFY then bn_bool (bn1 = bn2)
      else if opcode = OP_NUMNOTEQUAL then bn_bool (bn1 \<noteq> bn2)
      else if opcode = OP_LESSTHAN then bn_bool (bn1 < bn2)
      else if opcode = OP_GREATERTHAN then bn_bool (bn1 > bn2)
      else if opcode = OP_LESSTHANOREQUAL then bn_bool (bn1 \<le> bn2)
      else if opcode = OP_GREATERTHANOREQUAL then bn_bool (bn1 \<ge> bn2)
      else if opcode = OP_MIN then (if bn1 < bn2 then bn1 else bn2)
      else (if bn1 > bn2 then bn1 else bn2))"

definition op_binary :: "bool \<Rightarrow> opcodetype \<Rightarrow> stack \<Rightarrow> ScriptError + stack" where
  "op_binary fMinimal opcode st =
     (case st of
        x2 # x1 # s \<Rightarrow>
          bindE (num_arg fMinimal x1 nDefaultMaxNumSize) (\<lambda>bn1.
          bindE (num_arg fMinimal x2 nDefaultMaxNumSize) (\<lambda>bn2.
            let vch = getvch (binary_value opcode bn1 bn2) in
            if opcode = OP_NUMEQUALVERIFY
            then if CastToBool vch then Inr s else Inl SCRIPT_ERR_NUMEQUALVERIFY
            else Inr (vch # s)))
      | _ \<Rightarrow> invalid_stack)"

definition op_WITHIN :: "bool \<Rightarrow> stack \<Rightarrow> ScriptError + stack" where
  "op_WITHIN fMinimal st =
     (case st of
        x3 # x2 # x1 # s \<Rightarrow>
          bindE (num_arg fMinimal x1 nDefaultMaxNumSize) (\<lambda>bn1.
          bindE (num_arg fMinimal x2 nDefaultMaxNumSize) (\<lambda>bn2.
          bindE (num_arg fMinimal x3 nDefaultMaxNumSize) (\<lambda>bn3.
            Inr (vchBool (bn2 \<le> bn1 \<and> bn1 < bn3) # s))))
      | _ \<Rightarrow> invalid_stack)"

definition op_hash :: "opcodetype \<Rightarrow> stack \<Rightarrow> ScriptError + stack" where
  "op_hash opcode st =
     (case st of
        x # s \<Rightarrow>
          Inr ((if opcode = OP_RIPEMD160 then RIPEMD160 x
                else if opcode = OP_SHA1 then SHA1 x
                else if opcode = OP_SHA256 then SHA256 x
                else if opcode = OP_HASH160 then Hash160 x
                else Hash256 x) # s)
      | _ \<Rightarrow> invalid_stack)"

section \<open>Signature operations\<close>

definition check_encodings :: "eval_env \<Rightarrow> bytes \<Rightarrow> bytes \<Rightarrow> ScriptError option" where
  "check_encodings env vchSig vchPubKey =
     (case CheckSignatureEncoding (env_CheckLowS env) vchSig (env_flags env) of
        Some e \<Rightarrow> Some e
      | None \<Rightarrow> CheckPubKeyEncoding vchPubKey (env_flags env))"

text \<open>One encoding check and one call of \<^verbatim>\<open>checker.CheckSig\<close>, with both ways to fail.\<close>

definition checked_sig :: "eval_env \<Rightarrow> bytes \<Rightarrow> bytes \<Rightarrow> bytes \<Rightarrow> ScriptError + bool" where
  "checked_sig env scriptCode vchSig vchPubKey =
     (case check_encodings env vchSig vchPubKey of
        Some e \<Rightarrow> Inl e
      | None \<Rightarrow>
          (case CheckSig (env_checker env) vchSig vchPubKey scriptCode (env_sigversion env) of
             None \<Rightarrow> Inl SCRIPT_ERR_UNKNOWN_ERROR
           | Some fSuccess \<Rightarrow> Inr fSuccess))"

definition op_CHECKSIG :: "eval_env \<Rightarrow> opcodetype \<Rightarrow> bytes \<Rightarrow> stack \<Rightarrow> ScriptError + stack" where
  "op_CHECKSIG env opcode pbegincodehash st =
     (case st of
        vchPubKey # vchSig # s \<Rightarrow>
          let scriptCode = fst (FindAndDelete pbegincodehash (push_vch [] vchSig)) in
          bindE (checked_sig env scriptCode vchSig vchPubKey) (\<lambda>fSuccess.
            if opcode = OP_CHECKSIGVERIFY
            then if fSuccess then Inr s else Inl SCRIPT_ERR_CHECKSIGVERIFY
            else Inr (vchBool fSuccess # s))
      | _ \<Rightarrow> invalid_stack)"

text \<open>
  The loop of \<^verbatim>\<open>OP_CHECKMULTISIG\<close> over the remaining signatures and keys.  It is entered with at most
  as many signatures as keys and keeps it so, hence the second equation is never reached from
  \<open>op_CHECKMULTISIG\<close>.
\<close>

fun multisig_loop :: "eval_env \<Rightarrow> bytes \<Rightarrow> bytes list \<Rightarrow> bytes list \<Rightarrow> ScriptError + bool" where
  "multisig_loop env scriptCode [] keys = Inr True"
| "multisig_loop env scriptCode (vchSig # sigs) [] = Inr False"
| "multisig_loop env scriptCode (vchSig # sigs) (vchPubKey # keys) =
     bindE (checked_sig env scriptCode vchSig vchPubKey) (\<lambda>fOk.
       let sigs' = (if fOk then sigs else vchSig # sigs) in
       if length sigs' > length keys then Inr False
       else multisig_loop env scriptCode sigs' keys)"

text \<open>What is left when the arguments are gone: the extra argument, then the verdict.\<close>

definition multisig_cleanup :: "eval_env \<Rightarrow> opcodetype \<Rightarrow> bool \<Rightarrow> stack \<Rightarrow> ScriptError + stack" where
  "multisig_cleanup env opcode fSuccess st =
     (case st of
        [] \<Rightarrow> invalid_stack
      | dummy # s \<Rightarrow>
          if flag_set (env_flags env) SCRIPT_VERIFY_NULLDUMMY \<and> length dummy \<noteq> 0
          then Inl SCRIPT_ERR_SIG_NULLDUMMY
          else if opcode = OP_CHECKMULTISIGVERIFY
          then if fSuccess then Inr s else Inl SCRIPT_ERR_CHECKMULTISIGVERIFY
          else Inr (vchBool fSuccess # s))"

text \<open>
  With the number of keys on top: \<^verbatim>\<open>nKeysCount [pubkey ...] nSigsCount [sig ...] dummy\<close>, read downwards.
  The operation also adds the number of keys to \<^verbatim>\<open>nOpCount\<close>, hence it returns both.
\<close>

definition op_CHECKMULTISIG ::
    "eval_env \<Rightarrow> opcodetype \<Rightarrow> bytes \<Rightarrow> nat \<Rightarrow> stack \<Rightarrow> ScriptError + stack \<times> nat" where
  "op_CHECKMULTISIG env opcode pbegincodehash nOpCount st =
     (if length st < 1 then invalid_stack
      else bindE (num_arg (fRequireMinimal env) (st ! 0) nDefaultMaxNumSize) (\<lambda>bnKeys.
        let nKeysCount = getint bnKeys in
        if nKeysCount < 0 \<or> nKeysCount > 20 then Inl SCRIPT_ERR_PUBKEY_COUNT
        else let nKeys = nat nKeysCount; nOps = nOpCount + nKeys in
          if nOps > 201 then Inl SCRIPT_ERR_OP_COUNT
          else if length st < 2 + nKeys then invalid_stack
          else bindE (num_arg (fRequireMinimal env) (st ! (1 + nKeys)) nDefaultMaxNumSize) (\<lambda>bnSigs.
            let nSigsCount = getint bnSigs in
            if nSigsCount < 0 \<or> nSigsCount > nKeysCount then Inl SCRIPT_ERR_SIG_COUNT
            else let nSigs = nat nSigsCount in
              if length st < 3 + nKeys + nSigs then invalid_stack
              else let keys = take nKeys (drop 1 st);
                       sigs = take nSigs (drop (2 + nKeys) st);
                       scriptCode = foldl (\<lambda>code vchSig. fst (FindAndDelete code (push_vch [] vchSig)))
                                      pbegincodehash sigs
                   in bindE (multisig_loop env scriptCode sigs keys) (\<lambda>fSuccess.
                     bindE (multisig_cleanup env opcode fSuccess (drop (2 + nKeys + nSigs) st)) (\<lambda>s.
                       Inr (s, nOps))))))"

section \<open>The switch\<close>

text \<open>
  What one instruction does: go on with a new state, \<^verbatim>\<open>return set_error(serror, e)\<close>, or, for
  \<^verbatim>\<open>OP_CHECKCOLDSTAKEVERIFY\<close> only, \<^verbatim>\<open>return true\<close> at once with \<^verbatim>\<open>*serror\<close> as it was.
\<close>

datatype step_result = Continue eval_state | ReturnFalse ScriptError | ReturnTrue stack

definition stack_result :: "eval_state \<Rightarrow> ScriptError + stack \<Rightarrow> step_result" where
  "stack_result st r =
     (case r of Inl e \<Rightarrow> ReturnFalse e | Inr s \<Rightarrow> Continue (st\<lparr>es_stack := s\<rparr>))"

definition op_IF_NOTIF :: "bool \<Rightarrow> opcodetype \<Rightarrow> eval_state \<Rightarrow> step_result" where
  "op_IF_NOTIF fExec opcode st =
     (if fExec
      then case es_stack st of
             [] \<Rightarrow> ReturnFalse SCRIPT_ERR_UNBALANCED_CONDITIONAL
           | vch # s \<Rightarrow>
               let fValue = (if opcode = OP_NOTIF then \<not> CastToBool vch else CastToBool vch)
               in Continue (st\<lparr>es_stack := s, es_vfExec := fValue # es_vfExec st\<rparr>)
      else Continue (st\<lparr>es_vfExec := False # es_vfExec st\<rparr>))"

definition op_ELSE :: "eval_state \<Rightarrow> step_result" where
  "op_ELSE st =
     (case es_vfExec st of
        [] \<Rightarrow> ReturnFalse SCRIPT_ERR_UNBALANCED_CONDITIONAL
      | f # fs \<Rightarrow> Continue (st\<lparr>es_vfExec := (\<not> f) # fs\<rparr>))"

definition op_ENDIF :: "eval_state \<Rightarrow> step_result" where
  "op_ENDIF st =
     (case es_vfExec st of
        [] \<Rightarrow> ReturnFalse SCRIPT_ERR_UNBALANCED_CONDITIONAL
      | f # fs \<Rightarrow> Continue (st\<lparr>es_vfExec := fs\<rparr>))"

definition op_TOALTSTACK :: "eval_state \<Rightarrow> step_result" where
  "op_TOALTSTACK st =
     (case es_stack st of
        [] \<Rightarrow> ReturnFalse SCRIPT_ERR_INVALID_STACK_OPERATION
      | x # s \<Rightarrow> Continue (st\<lparr>es_stack := s, es_altstack := x # es_altstack st\<rparr>))"

definition op_FROMALTSTACK :: "eval_state \<Rightarrow> step_result" where
  "op_FROMALTSTACK st =
     (case es_altstack st of
        [] \<Rightarrow> ReturnFalse SCRIPT_ERR_INVALID_ALTSTACK_OPERATION
      | x # s \<Rightarrow> Continue (st\<lparr>es_stack := x # es_stack st, es_altstack := s\<rparr>))"

definition op_CODESEPARATOR :: "eval_state \<Rightarrow> step_result" where
  "op_CODESEPARATOR st = Continue (st\<lparr>es_pbegincodehash := es_pc st\<rparr>)"

definition op_CHECKMULTISIG_state :: "eval_env \<Rightarrow> opcodetype \<Rightarrow> eval_state \<Rightarrow> step_result" where
  "op_CHECKMULTISIG_state env opcode st =
     (case op_CHECKMULTISIG env opcode (es_pbegincodehash st) (es_nOpCount st) (es_stack st) of
        Inl e \<Rightarrow> ReturnFalse e
      | Inr (s, nOps) \<Rightarrow> Continue (st\<lparr>es_stack := s, es_nOpCount := nOps\<rparr>))"

definition op_CHECKCOLDSTAKEVERIFY :: "eval_env \<Rightarrow> eval_state \<Rightarrow> step_result" where
  "op_CHECKCOLDSTAKEVERIFY env st =
     (case CheckColdStake (env_checker env) (env_script env) (es_stack st) (env_flags env) of
        Some e \<Rightarrow> ReturnFalse e
      | None \<Rightarrow> ReturnTrue (es_stack st))"

text \<open>The cases of the switch that work on the main stack alone.\<close>

definition stack_switch ::
    "eval_env \<Rightarrow> opcodetype \<Rightarrow> bytes \<Rightarrow> stack \<Rightarrow> ScriptError + stack" where
  "stack_switch env opcode codehash s =
     (if opcode = OP_1NEGATE \<or> OP_1 \<le> opcode \<and> opcode \<le> OP_16 then op_push_value opcode s
      else if opcode = OP_NOP then Inr s
      else if opcode = OP_CHECKLOCKTIMEVERIFY then op_CHECKLOCKTIMEVERIFY env s
      else if opcode = OP_NOP1 \<or> OP_NOP3 \<le> opcode \<and> opcode \<le> OP_NOP10 then op_upgradable_NOP env s
      else if opcode = OP_VERIFY then op_VERIFY s
      else if opcode = OP_RETURN then Inl SCRIPT_ERR_OP_RETURN
      else if opcode = OP_2DROP then op_2DROP s
      else if opcode = OP_2DUP then op_2DUP s
      else if opcode = OP_3DUP then op_3DUP s
      else if opcode = OP_2OVER then op_2OVER s
      else if opcode = OP_2ROT then op_2ROT s
      else if opcode = OP_2SWAP then op_2SWAP s
      else if opcode = OP_IFDUP then op_IFDUP s
      else if opcode = OP_DEPTH then op_DEPTH s
      else if opcode = OP_DROP then op_DROP s
      else if opcode = OP_DUP then op_DUP s
      else if opcode = OP_NIP then op_NIP s
      else if opcode = OP_OVER then op_OVER s
      else if opcode = OP_PICK \<or> opcode = OP_ROLL then op_PICK_ROLL (fRequireMinimal env) opcode s
      else if opcode = OP_ROT then op_ROT s
      else if opcode = OP_SWAP then op_SWAP s
      else if opcode = OP_TUCK then op_TUCK s
      else if opcode = OP_SIZE then op_SIZE s
      else if opcode = OP_EQUAL \<or> opcode = OP_EQUALVERIFY then op_EQUAL opcode s
      else if opcode = OP_1ADD \<or> opcode = OP_1SUB \<or> opcode = OP_NEGATE \<or> opcode = OP_ABS \<or>
              opcode = OP_NOT \<or> opcode = OP_0NOTEQUAL then op_unary (fRequireMinimal env) opcode s
      else if opcode = OP_ADD \<or> opcode = OP_SUB \<or> OP_BOOLAND \<le> opcode \<and> opcode \<le> OP_MAX
      then op_binary (fRequireMinimal env) opcode s
      else if opcode = OP_WITHIN then op_WITHIN (fRequireMinimal env) s
      else if OP_RIPEMD160 \<le> opcode \<and> opcode \<le> OP_HASH256 then op_hash opcode s
      else if opcode = OP_CHECKSIG \<or> opcode = OP_CHECKSIGVERIFY then op_CHECKSIG env opcode codehash s
      else if opcode = OP_ASSETSMINT \<or> opcode = OP_ASSETSSPEND then Inr s
      else Inl SCRIPT_ERR_BAD_OPCODE)"

definition eval_switch :: "eval_env \<Rightarrow> bool \<Rightarrow> opcodetype \<Rightarrow> eval_state \<Rightarrow> step_result" where
  "eval_switch env fExec opcode st =
     (if opcode = OP_IF \<or> opcode = OP_NOTIF then op_IF_NOTIF fExec opcode st
      else if opcode = OP_ELSE then op_ELSE st
      else if opcode = OP_ENDIF then op_ENDIF st
      else if opcode = OP_TOALTSTACK then op_TOALTSTACK st
      else if opcode = OP_FROMALTSTACK then op_FROMALTSTACK st
      else if opcode = OP_CODESEPARATOR then op_CODESEPARATOR st
      else if opcode = OP_CHECKMULTISIG \<or> opcode = OP_CHECKMULTISIGVERIFY
      then op_CHECKMULTISIG_state env opcode st
      else if opcode = OP_CHECKCOLDSTAKEVERIFY then op_CHECKCOLDSTAKEVERIFY env st
      else stack_result st (stack_switch env opcode (es_pbegincodehash st) (es_stack st)))"

section \<open>EvalScript\<close>

definition disabled_opcodes :: "opcodetype list" where
  "disabled_opcodes =
     [OP_CAT, OP_SUBSTR, OP_LEFT, OP_RIGHT, OP_INVERT, OP_AND, OP_OR, OP_XOR, OP_2MUL, OP_2DIV,
      OP_MUL, OP_DIV, OP_MOD, OP_LSHIFT, OP_RSHIFT]"

definition fExec :: "eval_state \<Rightarrow> bool" where
  "fExec st = list_all (\<lambda>f. f) (es_vfExec st)"

text \<open>The body of the \<^verbatim>\<open>while\<close> loop, after \<^verbatim>\<open>GetOp\<close> has read the instruction and moved \<^verbatim>\<open>pc\<close>.\<close>

definition eval_exec :: "eval_env \<Rightarrow> opcodetype \<Rightarrow> bytes \<Rightarrow> eval_state \<Rightarrow> step_result" where
  "eval_exec env opcode vchPushValue st =
     (if fExec st \<and> opcode \<le> OP_PUSHDATA4
      then if fRequireMinimal env \<and> \<not> CheckMinimalPush vchPushValue opcode
           then ReturnFalse SCRIPT_ERR_MINIMALDATA
           else Continue (st\<lparr>es_stack := vchPushValue # es_stack st\<rparr>)
      else if fExec st \<or> OP_IF \<le> opcode \<and> opcode \<le> OP_ENDIF
      then eval_switch env (fExec st) opcode st
      else Continue st)"

definition eval_step :: "eval_env \<Rightarrow> opcodetype \<Rightarrow> bytes \<Rightarrow> eval_state \<Rightarrow> step_result" where
  "eval_step env opcode vchPushValue st =
     (if length vchPushValue > MAX_SCRIPT_ELEMENT_SIZE then ReturnFalse SCRIPT_ERR_PUSH_SIZE
      else let st1 = (if opcode > OP_16 then st\<lparr>es_nOpCount := es_nOpCount st + 1\<rparr> else st) in
        if opcode > OP_16 \<and> es_nOpCount st1 > 201 then ReturnFalse SCRIPT_ERR_OP_COUNT
        else if opcode \<in> set disabled_opcodes then ReturnFalse SCRIPT_ERR_DISABLED_OPCODE
        else case eval_exec env opcode vchPushValue st1 of
               Continue st2 \<Rightarrow>
                 if length (es_stack st2) + length (es_altstack st2) > 1000
                 then ReturnFalse SCRIPT_ERR_STACK_SIZE
                 else Continue st2
             | r \<Rightarrow> r)"

text \<open>
  What \<^verbatim>\<open>EvalScript\<close> returns: \<^verbatim>\<open>false\<close> with an error, or \<^verbatim>\<open>true\<close> with the value of \<^verbatim>\<open>*serror\<close> and the stack
  it leaves.
\<close>

datatype eval_result = EvalFalse ScriptError | EvalTrue ScriptError stack

text \<open>No case of the switch moves \<^verbatim>\<open>pc\<close>, so the loop ends.\<close>

lemmas eval_switch_defs = eval_switch_def stack_result_def op_IF_NOTIF_def op_ELSE_def op_ENDIF_def
  op_TOALTSTACK_def op_FROMALTSTACK_def op_CODESEPARATOR_def op_CHECKMULTISIG_state_def
  op_CHECKCOLDSTAKEVERIFY_def Let_def

lemma eval_switch_pc: "eval_switch env f opcode st = Continue st' \<Longrightarrow> es_pc st' = es_pc st"
  by (auto simp: eval_switch_defs
      split: if_splits list.splits sum.splits prod.splits option.splits)

lemma eval_step_pc: "eval_step env opcode vch st = Continue st' \<Longrightarrow> es_pc st' = es_pc st"
  by (auto simp: eval_step_def eval_exec_def Let_def dest!: eval_switch_pc
      split: if_splits step_result.splits)

function EvalScript_loop :: "eval_env \<Rightarrow> eval_state \<Rightarrow> eval_result" where
  "EvalScript_loop env st =
     (if es_pc st = []
      then if es_vfExec st \<noteq> [] then EvalFalse SCRIPT_ERR_UNBALANCED_CONDITIONAL
           else EvalTrue SCRIPT_ERR_OK (es_stack st)
      else case GetOp2 (es_pc st) of
        (None, _) \<Rightarrow> EvalFalse SCRIPT_ERR_BAD_OPCODE
      | (Some (opcode, vchPushValue), pc') \<Rightarrow>
          (case eval_step env opcode vchPushValue (st\<lparr>es_pc := pc'\<rparr>) of
             Continue st' \<Rightarrow> EvalScript_loop env st'
           | ReturnFalse e \<Rightarrow> EvalFalse e
           | ReturnTrue s \<Rightarrow> EvalTrue SCRIPT_ERR_UNKNOWN_ERROR s))"
  by pat_completeness auto
termination
  by (relation "measure (\<lambda>(env, st). length (es_pc st))")
    (auto dest!: eval_step_pc dest: GetOp2_shorter')

declare EvalScript_loop.simps [simp del]

definition eval_init :: "stack \<Rightarrow> bytes \<Rightarrow> eval_state" where
  "eval_init st script =
     \<lparr>es_stack = st, es_altstack = [], es_vfExec = [], es_pc = script, es_pbegincodehash = script,
      es_nOpCount = 0\<rparr>"

definition EvalScript ::
    "(bytes \<Rightarrow> bool) \<Rightarrow> stack \<Rightarrow> bytes \<Rightarrow> script_flags \<Rightarrow> sig_checker \<Rightarrow> SigVersion \<Rightarrow> eval_result" where
  "EvalScript CheckLowS st script flags checker sigversion =
     (if length script > MAX_SCRIPT_SIZE then EvalFalse SCRIPT_ERR_SCRIPT_SIZE
      else EvalScript_loop
        \<lparr>env_script = script, env_flags = flags, env_checker = checker, env_sigversion = sigversion,
         env_CheckLowS = CheckLowS\<rparr>
        (eval_init st script))"

section \<open>VerifyScript\<close>

text \<open>The result is the returned value with \<^verbatim>\<open>*serror\<close>; \<open>None\<close> is the failure of the \<^verbatim>\<open>assert\<close>.\<close>

definition VerifyScript ::
    "(bytes \<Rightarrow> bool) \<Rightarrow> bytes \<Rightarrow> bytes \<Rightarrow> script_flags \<Rightarrow> sig_checker \<Rightarrow> SigVersion \<Rightarrow> (bool \<times> ScriptError) option" where
  "VerifyScript CheckLowS scriptSig scriptPubKey flags checker sigversion =
     (if flag_set flags SCRIPT_VERIFY_SIGPUSHONLY \<and> \<not> IsPushOnly scriptSig
      then Some (False, SCRIPT_ERR_SIG_PUSHONLY)
      else case EvalScript CheckLowS [] scriptSig flags checker sigversion of
        EvalFalse e \<Rightarrow> Some (False, e)
      | EvalTrue _ stackCopy \<Rightarrow>
          (case EvalScript CheckLowS stackCopy scriptPubKey flags checker sigversion of
             EvalFalse e \<Rightarrow> Some (False, e)
           | EvalTrue _ [] \<Rightarrow> Some (False, SCRIPT_ERR_EVAL_FALSE)
           | EvalTrue _ (vch # _) \<Rightarrow>
               if \<not> CastToBool vch then Some (False, SCRIPT_ERR_EVAL_FALSE)
               else if flag_set flags SCRIPT_VERIFY_P2SH \<and> IsPayToScriptHash scriptPubKey
               then if \<not> IsPushOnly scriptSig then Some (False, SCRIPT_ERR_SIG_PUSHONLY)
                    else case stackCopy of
                      [] \<Rightarrow> None
                    | pubKey2 # rest \<Rightarrow>
                        (case EvalScript CheckLowS rest pubKey2 flags checker sigversion of
                           EvalFalse e \<Rightarrow> Some (False, e)
                         | EvalTrue _ [] \<Rightarrow> Some (False, SCRIPT_ERR_EVAL_FALSE)
                         | EvalTrue _ (vch2 # _) \<Rightarrow>
                             if \<not> CastToBool vch2 then Some (False, SCRIPT_ERR_EVAL_FALSE)
                             else Some (True, SCRIPT_ERR_OK))
               else Some (True, SCRIPT_ERR_OK)))"

section \<open>Reachable states and bounds\<close>

text \<open>The loop as a transition system: the states at the loop head that a run passes through.\<close>

inductive eval_reach :: "eval_env \<Rightarrow> eval_state \<Rightarrow> eval_state \<Rightarrow> bool" for env st0 where
  start: "eval_reach env st0 st0"
| step: "eval_reach env st0 st \<Longrightarrow> GetOp2 (es_pc st) = (Some (opcode, vch), pc') \<Longrightarrow>
     eval_step env opcode vch (st\<lparr>es_pc := pc'\<rparr>) = Continue st' \<Longrightarrow> eval_reach env st0 st'"

definition elems_ok :: "stack \<Rightarrow> bool" where
  "elems_ok s \<longleftrightarrow> (\<forall>x \<in> set s. length x \<le> MAX_SCRIPT_ELEMENT_SIZE)"

definition res_ok :: "ScriptError + stack \<Rightarrow> bool" where
  "res_ok r \<longleftrightarrow> (\<forall>s. r = Inr s \<longrightarrow> elems_ok s)"

definition eval_inv :: "eval_state \<Rightarrow> bool" where
  "eval_inv st \<longleftrightarrow> elems_ok (es_stack st) \<and> elems_ok (es_altstack st) \<and>
     length (es_stack st) + length (es_altstack st) \<le> 1000 \<and> es_nOpCount st \<le> 201"

lemma elems_ok_Nil [simp]: "elems_ok []"
  by (simp add: elems_ok_def)

lemma elems_ok_Cons [simp]: "elems_ok (x # s) \<longleftrightarrow> length x \<le> 520 \<and> elems_ok s"
  by (simp add: elems_ok_def MAX_SCRIPT_ELEMENT_SIZE_def)

lemma elems_ok_append [simp]: "elems_ok (s @ t) \<longleftrightarrow> elems_ok s \<and> elems_ok t"
  by (auto simp: elems_ok_def)

lemma elems_ok_subset: "elems_ok s \<Longrightarrow> set t \<subseteq> set s \<Longrightarrow> elems_ok t"
  by (auto simp: elems_ok_def)

lemma elems_ok_drop: "elems_ok s \<Longrightarrow> elems_ok (drop n s)"
  by (rule elems_ok_subset) (auto dest: in_set_dropD)

lemma elems_ok_take: "elems_ok s \<Longrightarrow> elems_ok (take n s)"
  by (rule elems_ok_subset) (auto dest: in_set_takeD)

lemma res_ok_simps [simp]: "res_ok (Inl e)" "res_ok (Inr s) \<longleftrightarrow> elems_ok s"
  by (simp_all add: res_ok_def)

lemma res_ok_bindE: "(\<And>x. r = Inr x \<Longrightarrow> res_ok (f x)) \<Longrightarrow> res_ok (bindE r f)"
  by (cases r) simp_all

lemma length_serialize_abs: "unat w < 256 ^ k \<Longrightarrow> length (serialize_abs w) \<le> k"
proof (induction k arbitrary: w)
  case 0
  then have "w = 0"
    by (simp add: unat_eq_zero)
  then show ?case
    by simp
next
  case (Suc k)
  have "unat (drop_bit 8 w) = unat w div 256"
    using unat_drop_8 [of w] by simp
  then have "unat (drop_bit 8 w) < 256 ^ k"
    using Suc.prems by (simp add: less_mult_imp_div_less mult.commute)
  from Suc.IH [OF this] show ?case
    by (cases "w = 0") (simp_all add: serialize_abs_step)
qed

lemma length_getvch: "length (getvch v) \<le> 9"
proof -
  have "length (serialize_abs w) \<le> 8" for w
    by (intro length_serialize_abs order_less_le_trans [OF unsigned_less]) simp
  then have "length (serialize_abs w) \<le> 9" "length (serialize_abs w) \<le> 8"
    "length (serialize_abs w) - Suc 0 \<le> 8" for w
    by (auto intro: le_trans [of _ 8] le_trans [OF diff_le_self])
  then show ?thesis
    by (simp add: getvch_def serialize_def Let_def)
qed

lemma length_getvch_520 [simp]: "length (getvch v) \<le> 520"
  using length_getvch [of v] by simp

lemma length_vchBool [simp]: "length (vchBool f) \<le> 520"
  by (simp add: vchBool_def vchTrue_def vchFalse_def)

lemmas stack_op_defs = op_push_value_def op_CHECKLOCKTIMEVERIFY_def op_upgradable_NOP_def op_VERIFY_def
  op_2DROP_def op_2DUP_def op_3DUP_def op_2OVER_def op_2SWAP_def op_IFDUP_def op_DEPTH_def
  op_DROP_def op_DUP_def op_NIP_def op_OVER_def op_ROT_def op_SWAP_def op_TUCK_def op_SIZE_def
  op_EQUAL_def op_unary_def op_binary_def op_WITHIN_def op_hash_def op_CHECKSIG_def

lemma op_2ROT_ok [simp]: "elems_ok s \<Longrightarrow> res_ok (op_2ROT s)"
  by (auto simp: op_2ROT_def split: list.split)

lemma elems_ok_nth: "elems_ok s \<Longrightarrow> n < length s \<Longrightarrow> length (s ! n) \<le> 520"
  using nth_mem [of n s] by (simp add: elems_ok_def MAX_SCRIPT_ELEMENT_SIZE_def)

lemma op_PICK_ROLL_Cons:
  "s \<noteq> [] \<Longrightarrow> op_PICK_ROLL m opcode (x # s) =
     bindE (num_arg m x nDefaultMaxNumSize) (\<lambda>bn.
       if getint bn < 0 \<or> getint bn \<ge> int (length s) then invalid_stack
       else Inr (s ! nat (getint bn) #
         (if opcode = OP_ROLL then take (nat (getint bn)) s @ drop (nat (getint bn) + 1) s else s)))"
  by (cases s) (simp_all add: op_PICK_ROLL_def Let_def cong: if_cong)

lemma op_PICK_ROLL_ok [simp]:
  assumes "elems_ok s"
  shows "res_ok (op_PICK_ROLL m opcode s)"
proof (cases "length s < 2")
  case True
  then show ?thesis
    by (cases s) (auto simp: op_PICK_ROLL_def)
next
  case False
  then obtain x s' where s: "s = x # s'" "s' \<noteq> []"
    by (cases s) auto
  have ok: "elems_ok s'"
    using assms by (simp add: s)
  show ?thesis
    unfolding s(1) op_PICK_ROLL_Cons [OF s(2)] using ok
    by (auto intro!: res_ok_bindE elems_ok_nth elems_ok_take elems_ok_drop)
qed

lemma stack_ops_ok [simp]:
  assumes "elems_ok s"
  shows "res_ok (op_push_value opcode s)" "res_ok (op_CHECKLOCKTIMEVERIFY env s)"
    "res_ok (op_upgradable_NOP env s)" "res_ok (op_VERIFY s)" "res_ok (op_2DROP s)" "res_ok (op_2DUP s)"
    "res_ok (op_3DUP s)" "res_ok (op_2OVER s)" "res_ok (op_2SWAP s)" "res_ok (op_IFDUP s)"
    "res_ok (op_DEPTH s)" "res_ok (op_DROP s)" "res_ok (op_DUP s)" "res_ok (op_NIP s)" "res_ok (op_OVER s)"
    "res_ok (op_ROT s)" "res_ok (op_SWAP s)" "res_ok (op_TUCK s)" "res_ok (op_SIZE s)"
    "res_ok (op_EQUAL opcode s)" "res_ok (op_unary m opcode s)" "res_ok (op_binary m opcode s)"
    "res_ok (op_WITHIN m s)" "res_ok (op_hash opcode s)" "res_ok (op_CHECKSIG env opcode code s)"
  using assms
  by (auto simp: stack_op_defs Let_def intro!: res_ok_bindE split: list.split)


lemma stack_switch_ok: "elems_ok s \<Longrightarrow> res_ok (stack_switch env opcode code s)"
  by (simp add: stack_switch_def)

lemma multisig_cleanup_ok:
  "multisig_cleanup env opcode f s = Inr s' \<Longrightarrow> elems_ok s \<Longrightarrow> elems_ok s' \<and> length s' \<le> length s"
  by (auto simp: multisig_cleanup_def split: if_splits list.splits)

lemma op_CHECKMULTISIG_ok:
  assumes "op_CHECKMULTISIG env opcode code n s = Inr (s', n')" "elems_ok s"
  shows "elems_ok s' \<and> n' \<le> 201"
  using assms(1) multisig_cleanup_ok [OF _ elems_ok_drop [OF assms(2)]]
  by (auto simp: op_CHECKMULTISIG_def bindE_eq_Inr Let_def split: if_splits)

lemma eval_switch_inv:
  assumes "eval_switch env f opcode st = Continue st'" "elems_ok (es_stack st)" "elems_ok (es_altstack st)"
    "es_nOpCount st \<le> 201"
  shows "elems_ok (es_stack st') \<and> elems_ok (es_altstack st') \<and> es_nOpCount st' \<le> 201"
proof -
  have "res_ok (stack_switch env opcode (es_pbegincodehash st) (es_stack st))"
    using assms(2) by (rule stack_switch_ok)
  then show ?thesis
    using assms
    by (auto simp: eval_switch_defs res_ok_def
      split: if_splits list.splits sum.splits prod.splits option.splits dest: op_CHECKMULTISIG_ok)
qed

lemma eval_step_inv:
  assumes "eval_step env opcode vch st = Continue st'" "eval_inv st"
  shows "eval_inv st'"
  using assms
  by (auto simp: eval_step_def eval_exec_def eval_inv_def Let_def MAX_SCRIPT_ELEMENT_SIZE_def
      dest!: eval_switch_inv split: if_splits step_result.splits)

lemma eval_reach_inv: "eval_reach env st0 st \<Longrightarrow> eval_inv st0 \<Longrightarrow> eval_inv st"
proof (induction rule: eval_reach.induct)
  case (step st opcode vch pc' st')
  then have "eval_inv (st\<lparr>es_pc := pc'\<rparr>)"
    by (simp add: eval_inv_def)
  with step.hyps(3) show ?case
    by (rule eval_step_inv)
qed

lemma eval_reach_first:
  "eval_reach env st2 st3 \<Longrightarrow> GetOp2 (es_pc st1) = (Some (opcode, vch), pc') \<Longrightarrow>
   eval_step env opcode vch (st1\<lparr>es_pc := pc'\<rparr>) = Continue st2 \<Longrightarrow> eval_reach env st1 st3"
  by (induction rule: eval_reach.induct) (blast intro: eval_reach.intros)+

lemma eval_step_true: "eval_step env opcode vch st = ReturnTrue s \<Longrightarrow> s = es_stack st"
  by (auto simp: eval_step_def eval_exec_def eval_switch_defs
      split: if_splits step_result.splits list.splits sum.splits prod.splits option.splits)

text \<open>A stack that \<^verbatim>\<open>EvalScript\<close> leaves is the stack of a state the loop passed through.\<close>

lemma EvalScript_loop_reach:
  "EvalScript_loop env st = EvalTrue e s \<Longrightarrow> \<exists>st'. eval_reach env st st' \<and> es_stack st' = s"
proof (induction env st rule: EvalScript_loop.induct)
  case (1 env st)
  show ?case
  proof (cases "es_pc st = []")
    case True
    with "1.prems" show ?thesis
      by (auto simp: EvalScript_loop.simps [of env st] split: if_splits intro: eval_reach.start)
  next
    case False
    then obtain opcode vch pc' where g: "GetOp2 (es_pc st) = (Some (opcode, vch), pc')"
      using "1.prems" by (auto simp: EvalScript_loop.simps [of env st] split: prod.splits option.splits)
    show ?thesis
    proof (cases "eval_step env opcode vch (st\<lparr>es_pc := pc'\<rparr>)")
      case (Continue st2)
      then have "EvalScript_loop env st2 = EvalTrue e s"
        using "1.prems" False g by (simp add: EvalScript_loop.simps [of env st])
      from "1.IH" [OF False g [symmetric] refl refl Continue this]
      show ?thesis
        using eval_reach_first [OF _ g Continue] by blast
    next
      case (ReturnTrue s')
      then show ?thesis
        using "1.prems" False g eval_step_true [OF ReturnTrue]
        by (auto simp: EvalScript_loop.simps [of env st] intro: eval_reach.start)
    qed (use "1.prems" False g in \<open>simp add: EvalScript_loop.simps [of env st]\<close>)
  qed
qed

section \<open>What a script that runs to its end looks like\<close>

function parse_ops :: "bytes \<Rightarrow> (opcodetype \<times> bytes) list option" where
  "parse_ops pc =
     (if pc = [] then Some []
      else case GetOp2 pc of
        (None, _) \<Rightarrow> None
      | (Some op, pc') \<Rightarrow> map_option ((#) op) (parse_ops pc'))"
  by pat_completeness auto
termination
  by (relation "measure length") (auto dest: GetOp2_shorter')

declare parse_ops.simps [simp del]

text \<open>The nesting depth of the conditionals after an instruction, and after a list of them.\<close>

definition depth_step :: "opcodetype \<Rightarrow> nat \<Rightarrow> nat option" where
  "depth_step opcode d =
     (if opcode = OP_IF \<or> opcode = OP_NOTIF then Some (Suc d)
      else if opcode = OP_ELSE then (if d = 0 then None else Some d)
      else if opcode = OP_ENDIF then (if d = 0 then None else Some (d - 1))
      else Some d)"

fun if_depth :: "opcodetype list \<Rightarrow> nat \<Rightarrow> nat option" where
  "if_depth [] d = Some d"
| "if_depth (opcode # ops) d =
     (case depth_step opcode d of None \<Rightarrow> None | Some d' \<Rightarrow> if_depth ops d')"

definition op_count :: "(opcodetype \<times> bytes) list \<Rightarrow> nat" where
  "op_count ops = length (filter (\<lambda>(opcode, vch). opcode > OP_16) ops)"

definition op_allowed :: "opcodetype \<times> bytes \<Rightarrow> bool" where
  "op_allowed = (\<lambda>(opcode, vch). length vch \<le> MAX_SCRIPT_ELEMENT_SIZE \<and> opcode \<notin> set disabled_opcodes \<and>
     opcode \<noteq> OP_VERIF \<and> opcode \<noteq> OP_VERNOTIF)"

lemma eval_switch_depth: "eval_switch env f opcode st = Continue st' \<Longrightarrow>
   depth_step opcode (length (es_vfExec st)) = Some (length (es_vfExec st'))"
  by (auto simp: eval_switch_defs depth_step_def
      split: if_splits list.splits sum.splits prod.splits option.splits)

lemma op_CHECKMULTISIG_count: "op_CHECKMULTISIG env opcode code n s = Inr (s', n') \<Longrightarrow> n \<le> n' \<and> n' \<le> 201"
  by (auto simp: op_CHECKMULTISIG_def bindE_eq_Inr Let_def split: if_splits)

lemma eval_switch_count: "eval_switch env f opcode st = Continue st' \<Longrightarrow>
   es_nOpCount st \<le> es_nOpCount st' \<and> (es_nOpCount st \<le> 201 \<longrightarrow> es_nOpCount st' \<le> 201)"
  by (auto simp: eval_switch_defs dest: op_CHECKMULTISIG_count
      split: if_splits list.splits sum.splits prod.splits option.splits)

lemma eval_switch_verif:
  "opcode = OP_VERIF \<or> opcode = OP_VERNOTIF \<Longrightarrow> eval_switch env f opcode st = ReturnFalse SCRIPT_ERR_BAD_OPCODE"
  by (elim disjE) (simp_all add: eval_switch_def stack_switch_def stack_result_def)

lemma eval_step_Continue:
  assumes "eval_step env opcode vch st = Continue st'"
  obtains st1 where "length vch \<le> MAX_SCRIPT_ELEMENT_SIZE" "opcode \<notin> set disabled_opcodes"
    "st1 = st\<lparr>es_nOpCount := es_nOpCount st + (if opcode > OP_16 then 1 else 0)\<rparr>"
    "opcode > OP_16 \<Longrightarrow> es_nOpCount st1 \<le> 201" "eval_exec env opcode vch st1 = Continue st'"
  using assms
  by (auto simp: eval_step_def Let_def linorder_not_less
      split: if_split_asm step_result.split_asm)

lemma eval_exec_Continue:
  assumes "eval_exec env opcode vch st = Continue st'"
  obtains "opcode \<le> OP_PUSHDATA4" "st' = st\<lparr>es_stack := vch # es_stack st\<rparr>"
  | "eval_switch env (fExec st) opcode st = Continue st'"
  | "\<not> (OP_IF \<le> opcode \<and> opcode \<le> OP_ENDIF)" "st' = st"
proof (cases "fExec st \<and> opcode \<le> OP_PUSHDATA4")
  case True
  then show ?thesis
    using assms that(1) by (simp add: eval_exec_def split: if_split_asm)
next
  case False
  have "eval_exec env opcode vch st =
      (if fExec st \<or> OP_IF \<le> opcode \<and> opcode \<le> OP_ENDIF then eval_switch env (fExec st) opcode st
       else Continue st)"
    unfolding eval_exec_def using False by (rule if_not_P)
  with assms that(2,3) show ?thesis
    by (metis step_result.inject(1))
qed

lemma depth_step_other: "opcode \<notin> {OP_IF, OP_NOTIF, OP_ELSE, OP_ENDIF} \<Longrightarrow> depth_step opcode d = Some d"
  by (simp add: depth_step_def)

lemma depth_step_push: "opcode \<le> OP_PUSHDATA4 \<Longrightarrow> depth_step opcode d = Some d"
  by (rule depth_step_other) auto

lemma depth_step_outside: "\<not> (OP_IF \<le> opcode \<and> opcode \<le> OP_ENDIF) \<Longrightarrow> depth_step opcode d = Some d"
  by (rule depth_step_other) auto

lemma eval_exec_static:
  assumes "eval_exec env opcode vch st = Continue st'"
  shows "opcode \<noteq> OP_VERIF \<and> opcode \<noteq> OP_VERNOTIF"
    and "depth_step opcode (length (es_vfExec st)) = Some (length (es_vfExec st'))"
    and "es_nOpCount st \<le> es_nOpCount st' \<and> (es_nOpCount st \<le> 201 \<longrightarrow> es_nOpCount st' \<le> 201)"
proof -
  from assms show "opcode \<noteq> OP_VERIF \<and> opcode \<noteq> OP_VERNOTIF"
    using eval_switch_verif [of opcode env "fExec st" st] by (cases rule: eval_exec_Continue) auto
  from assms show "depth_step opcode (length (es_vfExec st)) = Some (length (es_vfExec st'))"
    by (cases rule: eval_exec_Continue)
      (simp_all add: depth_step_push depth_step_outside eval_switch_depth)
  from assms show "es_nOpCount st \<le> es_nOpCount st' \<and> (es_nOpCount st \<le> 201 \<longrightarrow> es_nOpCount st' \<le> 201)"
    by (cases rule: eval_exec_Continue) (auto dest: eval_switch_count)
qed

lemma eval_step_static:
  assumes "eval_step env opcode vch st = Continue st'" "es_nOpCount st \<le> 201"
  shows "op_allowed (opcode, vch)"
    and "depth_step opcode (length (es_vfExec st)) = Some (length (es_vfExec st'))"
    and "es_nOpCount st + (if opcode > OP_16 then 1 else 0) \<le> es_nOpCount st'" "es_nOpCount st' \<le> 201"
proof -
  obtain st1 where s: "length vch \<le> MAX_SCRIPT_ELEMENT_SIZE" "opcode \<notin> set disabled_opcodes"
    "st1 = st\<lparr>es_nOpCount := es_nOpCount st + (if opcode > OP_16 then 1 else 0)\<rparr>"
    "opcode > OP_16 \<Longrightarrow> es_nOpCount st1 \<le> 201" "eval_exec env opcode vch st1 = Continue st'"
    using eval_step_Continue [OF assms(1)] by blast
  note e = eval_exec_static [OF s(5)]
  show "op_allowed (opcode, vch)"
    using s(1,2) e(1) by (simp add: op_allowed_def)
  show "depth_step opcode (length (es_vfExec st)) = Some (length (es_vfExec st'))"
    using e(2) by (simp add: s(3))
  show "es_nOpCount st + (if opcode > OP_16 then 1 else 0) \<le> es_nOpCount st'"
    using e(3) by (simp add: s(3))
  show "es_nOpCount st' \<le> 201"
    using e(3) s(4) assms(2) by (cases "opcode > OP_16") (simp_all add: s(3))
qed

lemma EvalScript_loop_static:
  "EvalScript_loop env st = EvalTrue SCRIPT_ERR_OK s \<Longrightarrow> es_nOpCount st \<le> 201 \<Longrightarrow>
   \<exists>ops. parse_ops (es_pc st) = Some ops \<and> list_all op_allowed ops \<and>
     es_nOpCount st + op_count ops \<le> 201 \<and> if_depth (map fst ops) (length (es_vfExec st)) = Some 0"
proof (induction env st rule: EvalScript_loop.induct)
  case (1 env st)
  show ?case
  proof (cases "es_pc st = []")
    case True
    with "1.prems" show ?thesis
      by (auto simp: EvalScript_loop.simps [of env st] parse_ops.simps [of "[]"] op_count_def split: if_splits)
  next
    case False
    then obtain opcode vch pc' where g: "GetOp2 (es_pc st) = (Some (opcode, vch), pc')"
      using "1.prems" by (auto simp: EvalScript_loop.simps [of env st] split: prod.splits option.splits)
    obtain st2 where c: "eval_step env opcode vch (st\<lparr>es_pc := pc'\<rparr>) = Continue st2"
      using "1.prems" False g
      by (auto simp: EvalScript_loop.simps [of env st] split: step_result.splits)
    note static = eval_step_static [OF c, simplified, OF "1.prems"(2)]
    have "EvalScript_loop env st2 = EvalTrue SCRIPT_ERR_OK s"
      using "1.prems" False g c by (simp add: EvalScript_loop.simps [of env st])
    from "1.IH" [OF False g [symmetric] refl refl c this static(4)] obtain ops
      where "parse_ops (es_pc st2) = Some ops" "list_all op_allowed ops"
        "es_nOpCount st2 + op_count ops \<le> 201" "if_depth (map fst ops) (length (es_vfExec st2)) = Some 0"
      by blast
    with static False g eval_step_pc [OF c] show ?thesis
      by (auto simp: parse_ops.simps [of "es_pc st"] op_count_def)
  qed
qed

section \<open>Single instructions\<close>

lemma EvalScript_loop_op:
  assumes "es_pc st = opcode # rest" "opcode > OP_PUSHDATA4"
  shows "EvalScript_loop env st =
     (case eval_step env opcode [] (st\<lparr>es_pc := rest\<rparr>) of
        Continue st' \<Rightarrow> EvalScript_loop env st'
      | ReturnFalse e \<Rightarrow> EvalFalse e
      | ReturnTrue s \<Rightarrow> EvalTrue SCRIPT_ERR_UNKNOWN_ERROR s)"
  using assms GetOp2_opcode [of opcode rest]
  by (simp add: EvalScript_loop.simps [of env st])

lemma fExec_outermost [simp]: "es_vfExec st = [] \<Longrightarrow> fExec st"
  by (simp add: fExec_def)

lemma eval_step_RETURN:
  "es_vfExec st = [] \<Longrightarrow> es_nOpCount st < 201 \<Longrightarrow> eval_step env OP_RETURN [] st = ReturnFalse SCRIPT_ERR_OP_RETURN"
  by (simp add: eval_step_def eval_exec_def eval_switch_def stack_switch_def stack_result_def
      disabled_opcodes_def Let_def)

lemma eval_step_HASH160_empty:
  "es_vfExec st = [] \<Longrightarrow> es_nOpCount st < 201 \<Longrightarrow> es_stack st = [] \<Longrightarrow>
   eval_step env OP_HASH160 [] st = ReturnFalse SCRIPT_ERR_INVALID_STACK_OPERATION"
  by (simp add: eval_step_def eval_exec_def eval_switch_def stack_switch_def stack_result_def
      disabled_opcodes_def Let_def op_hash_def)

lemma EvalScript_unspendable:
  assumes "IsUnspendable script"
  shows "\<exists>e. EvalScript lows st script flags checker sv = EvalFalse e"
proof (cases "length script > MAX_SCRIPT_SIZE")
  case True
  then show ?thesis
    by (simp add: EvalScript_def)
next
  case False
  then obtain rest where s: "script = OP_RETURN # rest"
    using assms by (cases script) (auto simp: IsUnspendable_def)
  show ?thesis
    by (simp add: EvalScript_def s eval_init_def EvalScript_loop_op [of _ OP_RETURN rest] eval_step_RETURN)
qed

lemma EvalScript_P2SH_empty:
  assumes "IsPayToScriptHash script"
  shows "\<exists>e. EvalScript lows [] script flags checker sv = EvalFalse e"
proof -
  obtain rest where s: "script = OP_HASH160 # rest"
    using assms by (cases script) (auto simp: IsPayToScriptHash_def)
  show ?thesis
    by (simp add: EvalScript_def s eval_init_def EvalScript_loop_op [of _ OP_HASH160 rest]
        eval_step_HASH160_empty)
qed

section \<open>The signature matching of CHECKMULTISIG\<close>

text \<open>Signature \<open>i\<close> matches its key, in the order of the keys, some keys left out.\<close>

definition sigs_match :: "(bytes \<Rightarrow> bytes \<Rightarrow> bool) \<Rightarrow> bytes list \<Rightarrow> bytes list \<Rightarrow> bool" where
  "sigs_match ok sigs keys \<longleftrightarrow> (\<exists>ks. subseq ks keys \<and> list_all2 ok sigs ks)"

lemma sigs_match_Nil [simp]: "sigs_match ok [] keys"
  by (auto simp: sigs_match_def intro: exI [of _ "[]"])

lemma sigs_match_length: "sigs_match ok sigs keys \<Longrightarrow> length sigs \<le> length keys"
  by (auto simp: sigs_match_def dest!: list_all2_lengthD list_emb_length)

lemma sigs_match_Cons:
  "sigs_match ok (s # sigs) (k # keys) \<longleftrightarrow>
     (if ok s k then sigs_match ok sigs keys else sigs_match ok (s # sigs) keys)"
proof -
  have tl: "sigs_match ok sigs keys" if "sigs_match ok (s # sigs) keys"
  proof -
    obtain ks where "subseq ks keys" "list_all2 ok (s # sigs) ks"
      using \<open>sigs_match ok (s # sigs) keys\<close> by (auto simp: sigs_match_def)
    then show ?thesis
      by (auto simp: sigs_match_def list_all2_Cons1 dest: subseq_Cons')
  qed
  have split: "sigs_match ok (s # sigs) (k # keys) \<longleftrightarrow>
      ok s k \<and> sigs_match ok sigs keys \<or> sigs_match ok (s # sigs) keys"
  proof
    assume "sigs_match ok (s # sigs) (k # keys)"
    then obtain k' ks where "subseq (k' # ks) (k # keys)" "ok s k'" "list_all2 ok sigs ks"
      by (auto simp: sigs_match_def list_all2_Cons1)
    then show "ok s k \<and> sigs_match ok sigs keys \<or> sigs_match ok (s # sigs) keys"
      by (cases "k' = k") (auto simp: sigs_match_def)
  next
    assume "ok s k \<and> sigs_match ok sigs keys \<or> sigs_match ok (s # sigs) keys"
    then show "sigs_match ok (s # sigs) (k # keys)"
    proof
      assume "ok s k \<and> sigs_match ok sigs keys"
      then obtain ks where "ok s k" "subseq ks keys" "list_all2 ok sigs ks"
        by (auto simp: sigs_match_def)
      then show ?thesis
        unfolding sigs_match_def by (intro exI [of _ "k # ks"]) simp
    qed (auto simp: sigs_match_def)
  qed
  show ?thesis
    using tl split by auto
qed

lemma multisig_loop_match:
  assumes "\<And>s k. s \<in> set sigs \<Longrightarrow> k \<in> set keys \<Longrightarrow> checked_sig env code s k = Inr (ok s k)"
  shows "length sigs \<le> length keys \<Longrightarrow> multisig_loop env code sigs keys = Inr (sigs_match ok sigs keys)"
  using assms
proof (induction keys arbitrary: sigs)
  case Nil
  then show ?case
    by simp
next
  case (Cons k keys)
  show ?case
  proof (cases sigs)
    case s: (Cons s sigs')
    have c: "checked_sig env code s k = Inr (ok s k)"
      using Cons.prems(2) [of s k] by (simp add: s)
    define rem where "rem = (if ok s k then sigs' else s # sigs')"
    have m: "sigs_match ok sigs (k # keys) \<longleftrightarrow> sigs_match ok rem keys"
      by (simp add: s sigs_match_Cons rem_def)
    have "set rem \<subseteq> set sigs"
      by (auto simp: s rem_def)
    then have "length rem \<le> length keys \<Longrightarrow> multisig_loop env code rem keys = Inr (sigs_match ok rem keys)"
      using Cons.IH [of rem] Cons.prems(2) by auto
    then show ?thesis
      unfolding m using c sigs_match_length [of ok rem keys] by (auto simp: s rem_def Let_def)
  qed simp
qed

lemma EvalScript_loop_push:
  assumes "es_pc st = push_vch [] vch @ rest" "fExec st" "length vch \<le> MAX_SCRIPT_ELEMENT_SIZE"
    "fRequireMinimal env \<Longrightarrow> CheckMinimalPush vch (push_op vch)"
  shows "EvalScript_loop env st =
     (if length (es_stack st) + length (es_altstack st) \<ge> 1000 then EvalFalse SCRIPT_ERR_STACK_SIZE
      else EvalScript_loop env (st\<lparr>es_pc := rest, es_stack := vch # es_stack st\<rparr>))"
proof -
  have g: "GetOp2 (push_vch [] vch @ rest) = (Some (push_op vch, vch), rest)"
    using assms(3) by (intro GetOp2_push_vch) (simp add: MAX_SCRIPT_ELEMENT_SIZE_def)
  have o: "push_op vch \<le> OP_PUSHDATA4" "\<not> push_op vch > OP_16" "push_op vch \<notin> set disabled_opcodes"
    using push_op_le [of vch] by (auto simp: disabled_opcodes_def word_le_nat_alt word_less_nat_alt)
  have ne: "push_vch [] vch \<noteq> []"
    by (simp add: push_vch_def)
  have "eval_step env (push_op vch) vch (st\<lparr>es_pc := rest\<rparr>) =
     (if length (es_stack st) + length (es_altstack st) \<ge> 1000 then ReturnFalse SCRIPT_ERR_STACK_SIZE
      else Continue (st\<lparr>es_pc := rest, es_stack := vch # es_stack st\<rparr>))"
    using o assms(2,3,4)
    by (cases "fRequireMinimal env") (auto simp: eval_step_def eval_exec_def fExec_def Let_def)
  then show ?thesis
    by (simp add: EvalScript_loop.simps [of env st] assms(1) g ne)
qed

lemma EvalScript_loop_end:
  "es_pc st = [] \<Longrightarrow> es_vfExec st = [] \<Longrightarrow> EvalScript_loop env st = EvalTrue SCRIPT_ERR_OK (es_stack st)"
  by (simp add: EvalScript_loop.simps [of env st])

lemma minimal_push_long: "2 \<le> length b \<Longrightarrow> CheckMinimalPush b (push_op b)"
  by (simp add: CheckMinimalPush_push_op)

lemma push_vch_20: "length h = 20 \<Longrightarrow> push_vch [] h = 0x14 # h"
  by (simp add: push_vch_def)

lemma IsPayToScriptHash_shape:
  assumes "IsPayToScriptHash script"
  shows "script = OP_HASH160 # push_vch [] (take 20 (drop 2 script)) @ [OP_EQUAL]"
    "length (take 20 (drop 2 script)) = 20"
proof -
  have l: "length script = 23"
    using assms by (simp add: IsPayToScriptHash_def)
  then show h: "length (take 20 (drop 2 script)) = 20"
    by simp
  have "script = take 2 script @ take 20 (drop 2 script) @ drop 22 script"
    by (simp add: append_take_drop_id [of 20 "drop 2 script", simplified])
  moreover have "take 2 script = [OP_HASH160, 0x14]" "drop 22 script = [OP_EQUAL]"
    using assms l by (auto simp: IsPayToScriptHash_def list_eq_iff_nth_eq less_2_cases_iff)
  ultimately show "script = OP_HASH160 # push_vch [] (take 20 (drop 2 script)) @ [OP_EQUAL]"
    by (simp add: push_vch_20 [OF h])
qed

lemmas step_simps = eval_step_def eval_exec_def eval_switch_def stack_switch_def stack_result_def
  disabled_opcodes_def Let_def

lemma eval_step_HASH160:
  "es_vfExec st = [] \<Longrightarrow> es_nOpCount st < 201 \<Longrightarrow> es_stack st = x # s \<Longrightarrow>
   eval_step env OP_HASH160 [] st =
     (if length s + length (es_altstack st) \<ge> 1000 then ReturnFalse SCRIPT_ERR_STACK_SIZE
      else Continue (st\<lparr>es_stack := Hash160 x # s, es_nOpCount := es_nOpCount st + 1\<rparr>))"
  by (simp add: step_simps op_hash_def fExec_def not_le)

lemma eval_step_EQUAL:
  "es_vfExec st = [] \<Longrightarrow> es_nOpCount st < 201 \<Longrightarrow> es_stack st = x # y # s \<Longrightarrow>
   eval_step env OP_EQUAL [] st =
     (if length s + length (es_altstack st) \<ge> 1000 then ReturnFalse SCRIPT_ERR_STACK_SIZE
      else Continue (st\<lparr>es_stack := vchBool (y = x) # s, es_nOpCount := es_nOpCount st + 1\<rparr>))"
  by (simp add: step_simps op_EQUAL_def fExec_def not_le)

lemma EvalScript_P2SH:
  assumes "IsPayToScriptHash script"
  shows "EvalScript lows (x # s) script flags checker sv =
     (if length s \<ge> 999 then EvalFalse SCRIPT_ERR_STACK_SIZE
      else EvalTrue SCRIPT_ERR_OK (vchBool (Hash160 x = take 20 (drop 2 script)) # s))"
proof -
  define h where "h = take 20 (drop 2 script)"
  have s: "script = OP_HASH160 # push_vch [] h @ [OP_EQUAL]" and h: "length h = 20"
    using IsPayToScriptHash_shape [OF assms] by (simp_all add: h_def)
  have l: "length script = 23"
    using assms by (simp add: IsPayToScriptHash_def)
  let ?env = "\<lparr>env_script = script, env_flags = flags, env_checker = checker, env_sigversion = sv,
         env_CheckLowS = lows\<rparr>"
  have "EvalScript lows (x # s) script flags checker sv = EvalScript_loop ?env (eval_init (x # s) script)"
    by (simp add: EvalScript_def l MAX_SCRIPT_SIZE_def)
  also have "\<dots> = (if length s \<ge> 999 then EvalFalse SCRIPT_ERR_STACK_SIZE
      else EvalTrue SCRIPT_ERR_OK (vchBool (Hash160 x = h) # s))"
    by (simp add: EvalScript_loop_op [of _ OP_HASH160 "push_vch [] h @ [OP_EQUAL]"] eval_init_def s
        eval_step_HASH160 EvalScript_loop_push [of _ h "[OP_EQUAL]"] fExec_def MAX_SCRIPT_ELEMENT_SIZE_def h
        minimal_push_long EvalScript_loop_op [of _ OP_EQUAL "[]"] eval_step_EQUAL EvalScript_loop_end)
  finally show ?thesis
    by (simp add: h_def)
qed

lemma num_arg_getvch: "n \<le> 1000 \<Longrightarrow> num_arg m (getvch (int n)) nDefaultMaxNumSize = Inr (int n)"
  by (simp add: num_arg_def CScriptNum_getvch nDefaultMaxNumSize_def)

lemma getint_small: "n \<le> 1000 \<Longrightarrow> getint (int n) = int n"
  by (simp add: getint_def)

lemma op_CHECKMULTISIG_frame:
  assumes "length keys \<le> 20" "length sigs \<le> length keys" "n + length keys \<le> 201"
  shows "op_CHECKMULTISIG env opcode code n
      (getvch (int (length keys)) # keys @ getvch (int (length sigs)) # sigs @ dummy # s) =
    bindE (multisig_loop env (foldl (\<lambda>code vchSig. fst (FindAndDelete code (push_vch [] vchSig))) code sigs)
        sigs keys) (\<lambda>f.
      bindE (multisig_cleanup env opcode f (dummy # s)) (\<lambda>s'. Inr (s', n + length keys)))"
  using assms
  by (simp add: op_CHECKMULTISIG_def num_arg_getvch getint_small nth_append Let_def)

section \<open>Properties\<close>

text \<open>
  C1. The resource limits hold in every state the interpreter passes through and for every stack it
  leaves: at most 1000 elements on the two stacks together, no element over 520 bytes, and at most
  201 counted operations.
\<close>

theorem EvalScript_bounds:
  assumes "elems_ok st" and "length st \<le> 1000"
  shows "(eval_reach env (eval_init st script) st' \<longrightarrow> eval_inv st') \<and>
    (EvalScript CheckLowS st script flags checker sigversion = EvalTrue e s \<longrightarrow>
       elems_ok s \<and> length s \<le> 1000)"
proof -
  have i: "eval_inv (eval_init st script)"
    using assms by (simp add: eval_inv_def eval_init_def)
  have "elems_ok s \<and> length s \<le> 1000" if "EvalScript_loop env' (eval_init st script) = EvalTrue e s" for env'
    using EvalScript_loop_reach [OF that] eval_reach_inv [OF _ i] by (fastforce simp: eval_inv_def)
  with eval_reach_inv [OF _ i] show ?thesis
    by (auto simp: EvalScript_def split: if_splits)
qed

theorem EvalScript_bounds_witness:
  "EvalScript (\<lambda>_. True) [[1]] [OP_DUP] 0 BaseSignatureChecker SIGVERSION_BASE =
     EvalTrue SCRIPT_ERR_OK [[1], [1]] \<and> elems_ok [[1], [1]]"
proof -
  have "EvalScript (\<lambda>_. True) [[1]] [OP_DUP] 0 BaseSignatureChecker SIGVERSION_BASE =
     EvalTrue SCRIPT_ERR_OK [[1], [1]]"
    by (simp add: EvalScript_def eval_init_def EvalScript_loop.simps GetOp2_def MAX_SCRIPT_SIZE_def
        MAX_SCRIPT_ELEMENT_SIZE_def step_simps op_DUP_def fExec_def)
  with EvalScript_bounds [of "[[1]]" undefined "[OP_DUP]" undefined "\<lambda>_. True" 0 BaseSignatureChecker
      SIGVERSION_BASE SCRIPT_ERR_OK "[[1], [1]]"]
  show ?thesis by simp
qed

text \<open>
  C3. A script that runs to its end is well formed in all its instructions, also in those of branches
  that were not taken: it parses, no push exceeds 520 bytes, it has no disabled opcode and no
  \<^verbatim>\<open>OP_VERIF\<close> or \<^verbatim>\<open>OP_VERNOTIF\<close>, at most 201 of its instructions count as operations, and its
  conditionals are balanced.
\<close>

theorem EvalScript_ok_static:
  assumes "EvalScript CheckLowS st script flags checker sigversion = EvalTrue SCRIPT_ERR_OK s"
  shows "length script \<le> MAX_SCRIPT_SIZE \<and>
    (\<exists>ops. parse_ops script = Some ops \<and> list_all op_allowed ops \<and> op_count ops \<le> 201 \<and>
       if_depth (map fst ops) 0 = Some 0)"
  using assms EvalScript_loop_static [of _ "eval_init st script" s]
  by (auto simp: EvalScript_def eval_init_def split: if_splits)

theorem EvalScript_ok_static_witness:
  "\<exists>ops. parse_ops [OP_1, OP_IF, OP_2, OP_ENDIF] = Some ops \<and> if_depth (map fst ops) 0 = Some 0"
proof -
  have "EvalScript (\<lambda>_. True) [] [OP_1, OP_IF, OP_2, OP_ENDIF] 0 BaseSignatureChecker SIGVERSION_BASE =
     EvalTrue SCRIPT_ERR_OK [[2]]"
    by (simp add: EvalScript_def eval_init_def EvalScript_loop.simps GetOp2_def MAX_SCRIPT_SIZE_def
        MAX_SCRIPT_ELEMENT_SIZE_def step_simps op_push_value_def getvch_def serialize_def
        serialize_abs.simps op_IF_NOTIF_def op_ENDIF_def fExec_def)
  from EvalScript_ok_static [OF this] show ?thesis by blast
qed

text \<open>
  C5. Outputs that \<^verbatim>\<open>IsUnspendable\<close> prunes from the coin database can never be spent: verification
  fails for every \<^verbatim>\<open>scriptSig\<close>, every checker and all flags.
\<close>

theorem unspendable_never_verifies:
  assumes "IsUnspendable scriptPubKey"
  shows "\<exists>e. VerifyScript CheckLowS scriptSig scriptPubKey flags checker sigversion = Some (False, e)"
proof -
  have "\<forall>st. \<exists>e. EvalScript CheckLowS st scriptPubKey flags checker sigversion = EvalFalse e"
    using EvalScript_unspendable [OF assms] by blast
  from choice [OF this] obtain f
    where "\<forall>st. EvalScript CheckLowS st scriptPubKey flags checker sigversion = EvalFalse (f st)" ..
  then show ?thesis
    by (simp add: VerifyScript_def split: eval_result.split)
qed

theorem unspendable_never_verifies_witness:
  "\<exists>e. VerifyScript (\<lambda>_. True) [OP_1] [OP_RETURN, OP_1] 0 BaseSignatureChecker SIGVERSION_BASE = Some (False, e)"
  using unspendable_never_verifies [of "[OP_RETURN, OP_1]" "\<lambda>_. True" "[OP_1]" 0 BaseSignatureChecker SIGVERSION_BASE]
  by (simp add: IsUnspendable_def)

text \<open>
  The assertion \<^verbatim>\<open>!stackCopy.empty()\<close> of \<^verbatim>\<open>VerifyScript\<close> holds, whatever the scripts, the flags and
  the checker: it returns \<^verbatim>\<open>true\<close> with \<^verbatim>\<open>SCRIPT_ERR_OK\<close>, or \<^verbatim>\<open>false\<close>.
\<close>

theorem VerifyScript_assert:
  "VerifyScript CheckLowS scriptSig scriptPubKey flags checker sigversion = Some (True, SCRIPT_ERR_OK) \<or>
   (\<exists>e. VerifyScript CheckLowS scriptSig scriptPubKey flags checker sigversion = Some (False, e))"
proof -
  have "EvalScript CheckLowS [] scriptPubKey flags checker sigversion \<noteq> EvalTrue e s"
    if "IsPayToScriptHash scriptPubKey" for e s
    using EvalScript_P2SH_empty [OF that] by (metis eval_result.distinct(1))
  then show ?thesis
    by (auto simp: VerifyScript_def split: eval_result.split list.split)
qed

text \<open>
  C2. A spend of a pay-to-script-hash output under \<^verbatim>\<open>SCRIPT_VERIFY_P2SH\<close> is accepted only if the
  \<^verbatim>\<open>scriptSig\<close> consists of pushes, the last of them is a script whose \<^verbatim>\<open>Hash160\<close> is the one in the
  output, and that script itself, run on the rest, leaves a true value on top.
\<close>

theorem P2SH_sound:
  assumes "VerifyScript CheckLowS scriptSig scriptPubKey flags checker sigversion = Some (True, e)"
    and "flag_set flags SCRIPT_VERIFY_P2SH" and "IsPayToScriptHash scriptPubKey"
  shows "IsPushOnly scriptSig \<and>
    (\<exists>e1 redeemScript rest e2 vch s.
       EvalScript CheckLowS [] scriptSig flags checker sigversion = EvalTrue e1 (redeemScript # rest) \<and>
       Hash160 redeemScript = take 20 (drop 2 scriptPubKey) \<and>
       EvalScript CheckLowS rest redeemScript flags checker sigversion = EvalTrue e2 (vch # s) \<and>
       CastToBool vch)"
proof (cases "EvalScript CheckLowS [] scriptSig flags checker sigversion")
  case (EvalTrue e1 st)
  show ?thesis
  proof (cases st)
    case Nil
    then show ?thesis
      using assms EvalTrue EvalScript_P2SH_empty [OF assms(3), of CheckLowS flags checker sigversion]
      by (auto simp: VerifyScript_def split: if_splits)
  next
    case (Cons redeemScript rest)
    have "length rest < 999 \<and> vchBool (Hash160 redeemScript = take 20 (drop 2 scriptPubKey)) \<noteq> []"
      using assms EvalTrue Cons EvalScript_P2SH [OF assms(3)]
      by (auto simp: VerifyScript_def split: if_splits)
    then have h: "length rest < 999" "Hash160 redeemScript = take 20 (drop 2 scriptPubKey)"
      by (auto simp: vchBool_def vchFalse_def split: if_splits)
    then show ?thesis
      using assms EvalTrue Cons EvalScript_P2SH [OF assms(3), of CheckLowS redeemScript rest]
      by (auto simp: VerifyScript_def split: if_splits eval_result.splits list.splits)
  qed
qed (use assms(1) in \<open>auto simp: VerifyScript_def split: if_splits\<close>)

theorem P2SH_sound_witness:
  "\<exists>scriptPubKey. IsPayToScriptHash scriptPubKey \<and>
     VerifyScript (\<lambda>_. True) [1, OP_1] scriptPubKey SCRIPT_VERIFY_P2SH BaseSignatureChecker SIGVERSION_BASE =
       Some (True, SCRIPT_ERR_OK) \<and> IsPushOnly [1, OP_1]"
proof -
  define spk where "spk = OP_HASH160 # 0x14 # Hash160 [OP_1] @ [OP_EQUAL]"
  have p: "IsPayToScriptHash spk"
    by (simp add: IsPayToScriptHash_def spk_def nth_append)
  have h: "take 20 (drop 2 spk) = Hash160 [OP_1]"
    by (simp add: spk_def)
  have p1: "EvalScript (\<lambda>_. True) [] [1, OP_1] SCRIPT_VERIFY_P2SH BaseSignatureChecker SIGVERSION_BASE =
      EvalTrue SCRIPT_ERR_OK [[OP_1]]"
    by (simp add: EvalScript_def eval_init_def EvalScript_loop.simps GetOp2_def GetOpSize_def MAX_SCRIPT_SIZE_def
        MAX_SCRIPT_ELEMENT_SIZE_def step_simps fExec_def fRequireMinimal_def flag_set_def)
  have p2: "EvalScript (\<lambda>_. True) [] [OP_1] SCRIPT_VERIFY_P2SH BaseSignatureChecker SIGVERSION_BASE =
      EvalTrue SCRIPT_ERR_OK [[1]]"
    by (simp add: EvalScript_def eval_init_def EvalScript_loop.simps GetOp2_def MAX_SCRIPT_SIZE_def
        MAX_SCRIPT_ELEMENT_SIZE_def step_simps op_push_value_def getvch_def serialize_def
        serialize_abs.simps fExec_def)
  have i: "IsPushOnly [1, OP_1]"
    by (simp add: IsPushOnly.simps GetOp2_def GetOpSize_def)
  have v: "VerifyScript (\<lambda>_. True) [1, OP_1] spk SCRIPT_VERIFY_P2SH BaseSignatureChecker SIGVERSION_BASE =
       Some (True, SCRIPT_ERR_OK)"
    using p i by (simp add: VerifyScript_def p1 [simplified] p2 [simplified] EvalScript_P2SH h vchBool_def vchTrue_def flag_set_def)
  have "flag_set SCRIPT_VERIFY_P2SH SCRIPT_VERIFY_P2SH"
    by (simp add: flag_set_def)
  from P2SH_sound [OF v this p] p v show ?thesis by blast
qed

text \<open>
  C4. \<^verbatim>\<open>OP_CHECKMULTISIG\<close>: on a well-formed stack whose signature checks do not fail, the single pass
  over keys and signatures succeeds exactly when the signatures can be assigned to distinct keys in
  the order of the keys; all arguments and the dummy are consumed and the keys are counted as
  operations.
\<close>

theorem CHECKMULTISIG_complete:
  assumes "length keys \<le> 20" and "length sigs \<le> length keys" and "nOpCount + length keys \<le> 201"
    and "scriptCode = foldl (\<lambda>code vchSig. fst (FindAndDelete code (push_vch [] vchSig))) codehash sigs"
    and "\<forall>s \<in> set sigs. \<forall>k \<in> set keys. checked_sig env scriptCode s k = Inr (ok s k)"
  shows "op_CHECKMULTISIG env OP_CHECKMULTISIG codehash nOpCount
      (getvch (int (length keys)) # keys @ getvch (int (length sigs)) # sigs @ [] # s) =
    Inr (vchBool (\<exists>ks. subseq ks keys \<and> list_all2 ok sigs ks) # s, nOpCount + length keys)"
proof -
  have "multisig_loop env scriptCode sigs keys = Inr (sigs_match ok sigs keys)"
    using assms(2,5) by (intro multisig_loop_match) auto
  then show ?thesis
    using assms(1-4) by (simp add: op_CHECKMULTISIG_frame multisig_cleanup_def sigs_match_def)
qed

theorem CHECKMULTISIG_complete_witness:
  "\<exists>env. op_CHECKMULTISIG env OP_CHECKMULTISIG [OP_CHECKMULTISIG] 1
     (getvch 2 # [[2], [3]] @ getvch 1 # [[3]] @ [] # []) = Inr ([vchTrue], 3)"
proof -
  define chk where "chk = BaseSignatureChecker\<lparr>CheckSig := \<lambda>sig key _ _. Some (sig = key)\<rparr>"
  define env where "env = \<lparr>env_script = [OP_CHECKMULTISIG], env_flags = 0, env_checker = chk,
     env_sigversion = SIGVERSION_BASE, env_CheckLowS = \<lambda>_. True\<rparr>"
  have c: "checked_sig env code s k = Inr (s = k)" for code s k
    by (simp add: checked_sig_def check_encodings_def CheckSignatureEncoding_def CheckPubKeyEncoding_def
        flag_set_def env_def chk_def)
  have m: "(\<exists>ks. subseq ks [[2], [3 :: byte]] \<and> list_all2 (=) [[3]] ks) = True"
    by (auto intro!: exI [of _ "[[3]]"])
  note * = CHECKMULTISIG_complete [of "[[2], [3]]" "[[3]]" 1 _ "[OP_CHECKMULTISIG]" env "(=)" "[]"]
  have "op_CHECKMULTISIG env OP_CHECKMULTISIG [OP_CHECKMULTISIG] 1
     (getvch 2 # [[2], [3]] @ getvch 1 # [[3]] @ [] # []) =
    Inr (vchBool (\<exists>ks. subseq ks [[2], [3 :: byte]] \<and> list_all2 (=) [[3]] ks) # [], 3)"
    using * [OF _ _ _ refl] by (simp add: c)
  then show ?thesis
    unfolding m by (intro exI [of _ env]) (simp add: vchBool_def)
qed

end
