(* ===== verification/Serialization.thy ===== *)
theory Serialization
  imports Qrax_Prelude "HOL-Library.Monad_Syntax"
begin

text \<open>
  The binary format of \<^verbatim>\<open>src/serialize.h\<close>: little-endian integers, compact sizes, variable-length
  integers, vectors and optional values.  A stream is the list of bytes that are left to read; a read
  returns the value and the rest, or \<open>None\<close> where the code throws \<^verbatim>\<open>std::ios_base::failure\<close>.  The locale
  \<open>codec\<close> states what every pair of a writer and a reader promises; it is interpreted for each type.
\<close>

section \<open>Integers\<close>

definition ser_writedata8 :: "nat \<Rightarrow> bytes" where "ser_writedata8 obj = le_encode 1 obj"
definition ser_writedata16 :: "nat \<Rightarrow> bytes" where "ser_writedata16 obj = le_encode 2 obj"
definition ser_writedata32 :: "nat \<Rightarrow> bytes" where "ser_writedata32 obj = le_encode 4 obj"
definition ser_writedata64 :: "nat \<Rightarrow> bytes" where "ser_writedata64 obj = le_encode 8 obj"

definition stream_read :: "nat \<Rightarrow> bytes \<Rightarrow> (bytes \<times> bytes) option" where
  "stream_read nSize s = (if length s < nSize then None else Some (take nSize s, drop nSize s))"

definition read_le :: "nat \<Rightarrow> bytes \<Rightarrow> (nat \<times> bytes) option" where
  "read_le k s = do { (b, s') \<leftarrow> stream_read k s; Some (le_decode b, s') }"

definition ser_readdata8 :: "bytes \<Rightarrow> (nat \<times> bytes) option" where "ser_readdata8 = read_le 1"
definition ser_readdata16 :: "bytes \<Rightarrow> (nat \<times> bytes) option" where "ser_readdata16 = read_le 2"
definition ser_readdata32 :: "bytes \<Rightarrow> (nat \<times> bytes) option" where "ser_readdata32 = read_le 4"
definition ser_readdata64 :: "bytes \<Rightarrow> (nat \<times> bytes) option" where "ser_readdata64 = read_le 8"

text \<open>The conversions between a signed integer of \<open>w\<close> bits and the unsigned one it is written as.\<close>

definition to_unsigned :: "nat \<Rightarrow> int \<Rightarrow> nat" where
  "to_unsigned w a = nat (a mod 2 ^ w)"

definition to_signed :: "nat \<Rightarrow> nat \<Rightarrow> int" where
  "to_signed w n = (if n < 2 ^ (w - 1) then int n else int n - 2 ^ w)"

definition Serialize_int16 :: "int \<Rightarrow> bytes" where
  "Serialize_int16 a = ser_writedata16 (to_unsigned 16 a)"

definition Serialize_int32 :: "int \<Rightarrow> bytes" where
  "Serialize_int32 a = ser_writedata32 (to_unsigned 32 a)"

definition Serialize_uint32 :: "nat \<Rightarrow> bytes" where
  "Serialize_uint32 a = ser_writedata32 a"

definition Serialize_int64 :: "int \<Rightarrow> bytes" where
  "Serialize_int64 a = ser_writedata64 (to_unsigned 64 a)"

definition Unserialize_int16 :: "bytes \<Rightarrow> (int \<times> bytes) option" where
  "Unserialize_int16 s = do { (n, s') \<leftarrow> ser_readdata16 s; Some (to_signed 16 n, s') }"

definition Unserialize_int32 :: "bytes \<Rightarrow> (int \<times> bytes) option" where
  "Unserialize_int32 s = do { (n, s') \<leftarrow> ser_readdata32 s; Some (to_signed 32 n, s') }"

definition Unserialize_uint32 :: "bytes \<Rightarrow> (nat \<times> bytes) option" where
  "Unserialize_uint32 s = ser_readdata32 s"

definition Unserialize_int64 :: "bytes \<Rightarrow> (int \<times> bytes) option" where
  "Unserialize_int64 s = do { (n, s') \<leftarrow> ser_readdata64 s; Some (to_signed 64 n, s') }"

section \<open>Compact sizes\<close>

definition MAX_SIZE :: nat where "MAX_SIZE = 0x02000000"

definition GetSizeOfCompactSize :: "nat \<Rightarrow> nat" where
  "GetSizeOfCompactSize nSize =
     (if nSize < 253 then 1
      else if nSize \<le> 0xffff then 1 + 2
      else if nSize \<le> 0xffffffff then 1 + 4
      else 1 + 8)"

definition WriteCompactSize :: "nat \<Rightarrow> bytes" where
  "WriteCompactSize nSize =
     (if nSize < 253 then ser_writedata8 nSize
      else if nSize \<le> 0xffff then ser_writedata8 253 @ ser_writedata16 nSize
      else if nSize \<le> 0xffffffff then ser_writedata8 254 @ ser_writedata32 nSize
      else ser_writedata8 255 @ ser_writedata64 nSize)"

text \<open>\<^verbatim>\<open>throw std::ios_base::failure\<close> for encodings that are longer than necessary.\<close>

definition canonical_size :: "nat \<Rightarrow> nat \<times> bytes \<Rightarrow> (nat \<times> bytes) option" where
  "canonical_size lower = (\<lambda>(n, s). if n < lower then None else Some (n, s))"

definition ReadCompactSize :: "bytes \<Rightarrow> (nat \<times> bytes) option" where
  "ReadCompactSize is = do {
     (chSize, s) \<leftarrow> ser_readdata8 is;
     (nSizeRet, s') \<leftarrow>
       (if chSize < 253 then Some (chSize, s)
        else if chSize = 253 then ser_readdata16 s \<bind> canonical_size 253
        else if chSize = 254 then ser_readdata32 s \<bind> canonical_size 0x10000
        else ser_readdata64 s \<bind> canonical_size 0x100000000);
     if nSizeRet > MAX_SIZE then None else Some (nSizeRet, s')
   }"

section \<open>Variable-length integers\<close>

text \<open>The array \<^verbatim>\<open>tmp\<close>, filled from index 0; the flag says whether \<^verbatim>\<open>len\<close> is not zero.\<close>

function varint_tmp :: "nat \<Rightarrow> bool \<Rightarrow> bytes" where
  "varint_tmp n len =
     (let ch = of_nat ((n mod 128) + (if len then 128 else 0)) in
      if n \<le> 0x7F then [ch] else ch # varint_tmp (n div 128 - 1) True)"
  by pat_completeness auto
termination
  by (relation "measure fst") auto

declare varint_tmp.simps [simp del]

definition WriteVarInt :: "nat \<Rightarrow> bytes" where
  "WriteVarInt n = rev (varint_tmp n False)"

function GetSizeOfVarInt :: "nat \<Rightarrow> nat" where
  "GetSizeOfVarInt n = (if n \<le> 0x7F then 1 else 1 + GetSizeOfVarInt (n div 128 - 1))"
  by pat_completeness auto
termination
  by (relation "measure id") auto

declare GetSizeOfVarInt.simps [simp del]

text \<open>Reading into an unsigned type of \<open>w\<close> bits: shift and increment wrap.\<close>

fun ReadVarInt_loop :: "nat \<Rightarrow> nat \<Rightarrow> bytes \<Rightarrow> (nat \<times> bytes) option" where
  "ReadVarInt_loop w n [] = None"
| "ReadVarInt_loop w n (chData # s) =
     (let n' = (n * 128) mod 2 ^ w + unat chData mod 128 in
      if chData AND 0x80 \<noteq> 0 then ReadVarInt_loop w ((n' + 1) mod 2 ^ w) s else Some (n', s))"

definition ReadVarInt :: "nat \<Rightarrow> bytes \<Rightarrow> (nat \<times> bytes) option" where
  "ReadVarInt w s = ReadVarInt_loop w 0 s"

section \<open>Vectors and optional values\<close>

definition Serialize_vector :: "('a \<Rightarrow> bytes) \<Rightarrow> 'a list \<Rightarrow> bytes" where
  "Serialize_vector ser v = WriteCompactSize (length v) @ concat (map ser v)"

text \<open>The elements are read one after the other; growing the vector in steps does not change them.\<close>

fun read_elements :: "(bytes \<Rightarrow> ('a \<times> bytes) option) \<Rightarrow> nat \<Rightarrow> bytes \<Rightarrow> ('a list \<times> bytes) option" where
  "read_elements unser 0 s = Some ([], s)"
| "read_elements unser (Suc n) s = do {
     (x, s') \<leftarrow> unser s;
     (xs, s'') \<leftarrow> read_elements unser n s';
     Some (x # xs, s'')
   }"

definition Unserialize_vector :: "(bytes \<Rightarrow> ('a \<times> bytes) option) \<Rightarrow> bytes \<Rightarrow> ('a list \<times> bytes) option" where
  "Unserialize_vector unser s = do {
     (nSize, s') \<leftarrow> ReadCompactSize s;
     read_elements unser nSize s'
   }"

definition Serialize_bytes :: "bytes \<Rightarrow> bytes" where
  "Serialize_bytes v = WriteCompactSize (length v) @ v"

definition Unserialize_bytes :: "bytes \<Rightarrow> (bytes \<times> bytes) option" where
  "Unserialize_bytes s = do {
     (nSize, s') \<leftarrow> ReadCompactSize s;
     stream_read nSize s'
   }"

definition Serialize_optional :: "('a \<Rightarrow> bytes) \<Rightarrow> 'a option \<Rightarrow> bytes" where
  "Serialize_optional ser item =
     (case item of Some x \<Rightarrow> ser_writedata8 1 @ ser x | None \<Rightarrow> ser_writedata8 0)"

definition Unserialize_optional :: "(bytes \<Rightarrow> ('a \<times> bytes) option) \<Rightarrow> bytes \<Rightarrow> ('a option \<times> bytes) option" where
  "Unserialize_optional unser s = do {
     (discriminant, s') \<leftarrow> ser_readdata8 s;
     if discriminant = 0 then Some (None, s')
     else do { (x, s'') \<leftarrow> unser s'; Some (Some x, s'') }
   }"

section \<open>Lemmas\<close>

named_theorems codec_simps \<open>reads of what was just written\<close>

lemma bind_eq_Some: "Option.bind r f = Some y \<longleftrightarrow> (\<exists>x. r = Some x \<and> f x = Some y)"
  by (cases r) auto

lemma stream_read_append [codec_simps]: "length b = k \<Longrightarrow> stream_read k (b @ s) = Some (b, s)"
  by (simp add: stream_read_def)

lemma stream_read_eq: "stream_read k s = Some (b, s') \<longleftrightarrow> s = b @ s' \<and> length b = k"
  by (auto simp: stream_read_def)

lemma read_le_append [codec_simps]: "n < 256 ^ k \<Longrightarrow> read_le k (le_encode k n @ s) = Some (n, s)"
  by (simp add: read_le_def stream_read_append length_le_encode le_decode_encode)

lemma read_le_eq:
  "read_le k s = Some (n, s') \<longleftrightarrow> s = le_encode k n @ s' \<and> n < 256 ^ k"
proof
  assume "read_le k s = Some (n, s')"
  then obtain b where "s = b @ s'" "length b = k" "n = le_decode b"
    by (auto simp: read_le_def bind_eq_Some stream_read_eq)
  then show "s = le_encode k n @ s' \<and> n < 256 ^ k"
    using le_encode_decode [of b] le_decode_bound [of b] by auto
qed (simp add: read_le_append)

lemmas read_defs = ser_readdata8_def ser_readdata16_def ser_readdata32_def ser_readdata64_def
  ser_writedata8_def ser_writedata16_def ser_writedata32_def ser_writedata64_def

lemma read_write_data [codec_simps]:
  "n < 256 \<Longrightarrow> ser_readdata8 (ser_writedata8 n @ s) = Some (n, s)"
  "n < 2 ^ 16 \<Longrightarrow> ser_readdata16 (ser_writedata16 n @ s) = Some (n, s)"
  "n < 2 ^ 32 \<Longrightarrow> ser_readdata32 (ser_writedata32 n @ s) = Some (n, s)"
  "n < 2 ^ 64 \<Longrightarrow> ser_readdata64 (ser_writedata64 n @ s) = Some (n, s)"
  unfolding read_defs by (rule read_le_append; simp)+

lemma to_signed_unsigned:
  "- (2 ^ (w - 1)) \<le> a \<Longrightarrow> a < 2 ^ (w - 1) \<Longrightarrow> 0 < w \<Longrightarrow> to_signed w (to_unsigned w a) = a"
proof -
  assume a: "- (2 ^ (w - 1)) \<le> a" "a < 2 ^ (w - 1)" "0 < w"
  then have p: "(2 :: int) ^ w = 2 * 2 ^ (w - 1)"
    by (cases w) simp_all
  show ?thesis
  proof (cases "0 \<le> a")
    case True
    then have "a mod 2 ^ w = a"
      using a p by simp
    then show ?thesis
      using a True by (simp add: to_signed_def to_unsigned_def nat_less_iff)
  next
    case False
    have "a mod 2 ^ w = (a + 2 ^ w) mod 2 ^ w"
      by simp
    also have "\<dots> = a + 2 ^ w"
      using a p False by (intro mod_pos_pos_trivial) simp_all
    finally show ?thesis
      using a p False by (simp add: to_signed_def to_unsigned_def nat_less_iff)
  qed
qed

lemma to_unsigned_less: "to_unsigned w a < 2 ^ w"
  by (simp add: to_unsigned_def nat_less_iff)

lemma ReadCompactSize_Write [codec_simps]:
  "n \<le> MAX_SIZE \<Longrightarrow> ReadCompactSize (WriteCompactSize n @ s) = Some (n, s)"
proof -
  assume n: "n \<le> MAX_SIZE"
  then have b: "n < 2 ^ 32" "\<not> MAX_SIZE < n"
    by (simp_all add: MAX_SIZE_def)
  consider "n < 253" | "253 \<le> n" "n < 2 ^ 16" | "2 ^ 16 \<le> n"
    by linarith
  then show ?thesis
  proof cases
    case 1
    then show ?thesis
      using n by (simp add: ReadCompactSize_def WriteCompactSize_def read_write_data)
  next
    case 2
    then show ?thesis
      using n by (simp add: ReadCompactSize_def WriteCompactSize_def read_write_data canonical_size_def)
  next
    case 3
    then show ?thesis
      using n b by (simp add: ReadCompactSize_def WriteCompactSize_def read_write_data canonical_size_def)
  qed
qed

lemma length_WriteCompactSize: "length (WriteCompactSize n) = GetSizeOfCompactSize n"
  by (simp add: WriteCompactSize_def GetSizeOfCompactSize_def read_defs length_le_encode)

section \<open>What a writer and a reader promise\<close>

locale codec =
  fixes ser :: "'a \<Rightarrow> bytes"
    and unser :: "bytes \<Rightarrow> ('a \<times> bytes) option"
    and ok :: "'a \<Rightarrow> bool"
  assumes unser_ser: "ok x \<Longrightarrow> unser (ser x @ s) = Some (x, s)"
begin

lemma ser_inject: "ok x \<Longrightarrow> ok y \<Longrightarrow> ser x @ s = ser y @ t \<Longrightarrow> x = y \<and> s = t"
  by (metis option.inject prod.inject unser_ser)

lemma read_elements_ser:
  "list_all ok xs \<Longrightarrow> read_elements unser (length xs) (concat (map ser xs) @ s) = Some (xs, s)"
  by (induction xs) (simp_all add: unser_ser)

lemma vector_unser_ser:
  "list_all ok xs \<Longrightarrow> length xs \<le> MAX_SIZE \<Longrightarrow>
   Unserialize_vector unser (Serialize_vector ser xs @ s) = Some (xs, s)"
  by (simp add: Unserialize_vector_def Serialize_vector_def ReadCompactSize_Write read_elements_ser)

lemma optional_unser_ser:
  "pred_option ok item \<Longrightarrow> Unserialize_optional unser (Serialize_optional ser item @ s) = Some (item, s)"
  by (cases item)
    (simp_all add: Unserialize_optional_def Serialize_optional_def read_write_data unser_ser)

end

interpretation int16: codec Serialize_int16 Unserialize_int16 "\<lambda>a. - (2 ^ 15) \<le> a \<and> a < 2 ^ 15"
  by unfold_locales
    (use to_unsigned_less [of 16] to_signed_unsigned [of 16] in
      \<open>simp add: Serialize_int16_def Unserialize_int16_def read_write_data\<close>)

interpretation int32: codec Serialize_int32 Unserialize_int32 "\<lambda>a. - (2 ^ 31) \<le> a \<and> a < 2 ^ 31"
  by unfold_locales
    (use to_unsigned_less [of 32] to_signed_unsigned [of 32] in
      \<open>simp add: Serialize_int32_def Unserialize_int32_def read_write_data\<close>)

interpretation uint32: codec Serialize_uint32 Unserialize_uint32 "\<lambda>a. a < 2 ^ 32"
  by unfold_locales (simp add: Serialize_uint32_def Unserialize_uint32_def read_write_data)

interpretation int64: codec Serialize_int64 Unserialize_int64 "\<lambda>a. - (2 ^ 63) \<le> a \<and> a < 2 ^ 63"
  by unfold_locales
    (use to_unsigned_less [of 64] to_signed_unsigned [of 64] in
      \<open>simp add: Serialize_int64_def Unserialize_int64_def read_write_data\<close>)

interpretation bytevec: codec Serialize_bytes Unserialize_bytes "\<lambda>v. length v \<le> MAX_SIZE"
  by unfold_locales
    (simp add: Serialize_bytes_def Unserialize_bytes_def ReadCompactSize_Write stream_read_append)

interpretation compactsize: codec WriteCompactSize ReadCompactSize "\<lambda>n. n \<le> MAX_SIZE"
  by unfold_locales (rule ReadCompactSize_Write)

section \<open>Variable-length integers\<close>

lemma shift7_mod:
  assumes "7 \<le> w"
  shows "((q div 128) mod 2 ^ w * 128) mod 2 ^ w + q mod 128 = q mod (2 :: nat) ^ w"
proof -
  obtain v where w: "w = 7 + v"
    using assms le_Suc_ex by blast
  have p: "(2 :: nat) ^ w = 128 * 2 ^ v"
    by (simp add: w power_add)
  have "((q div 128) mod 2 ^ w * 128) mod 2 ^ w = (q div 128 * 128) mod 2 ^ w"
    by (rule mod_mult_left_eq)
  also have "\<dots> = 128 * (q div 128 mod 2 ^ v)"
    unfolding p mult_mod_right by (simp only: mult.commute)
  finally have "((q div 128) mod 2 ^ w * 128) mod 2 ^ w = 128 * (q div 128 mod 2 ^ v)" .
  moreover have "q mod 2 ^ w = 128 * (q div 128 mod 2 ^ v) + q mod 128"
    unfolding p by (rule mod_mult2_eq)
  ultimately show ?thesis
    by (simp only:)
qed

lemma varint_ch:
  "unat (of_nat (m mod 128 + (if len then 128 else 0)) :: byte) mod 128 = m mod 128"
  "(of_nat (m mod 128 + (if len then 128 else 0)) :: byte) AND 0x80 \<noteq> 0 \<longleftrightarrow> len"
proof -
  have "m mod 128 < 128"
    by simp
  then have "m mod 128 + (if len then 128 else 0) < 256"
    by (cases len) simp_all
  then have u: "unat (of_nat (m mod 128 + (if len then 128 else 0)) :: byte) = m mod 128 + (if len then 128 else 0)"
    by (simp only: unat_of_nat_byte mod_less)
  show "unat (of_nat (m mod 128 + (if len then 128 else 0)) :: byte) mod 128 = m mod 128"
    unfolding u by simp
  show "(of_nat (m mod 128 + (if len then 128 else 0)) :: byte) AND 0x80 \<noteq> 0 \<longleftrightarrow> len"
    unfolding byte_and_80_iff u using \<open>m mod 128 < 128\<close> by (cases len) simp_all
qed

lemma ReadVarInt_step:
  assumes "7 \<le> w"
  shows "ReadVarInt_loop w ((q div 128) mod 2 ^ w) (of_nat (q mod 128 + (if len then 128 else 0)) # s) =
    (if len then ReadVarInt_loop w ((q + 1) mod 2 ^ w) s else Some (q mod 2 ^ w, s))"
  using shift7_mod [OF assms, of q]
  by (simp only: ReadVarInt_loop.simps Let_def varint_ch mod_add_left_eq)

lemma varint_tmp_loop:
  "7 \<le> w \<Longrightarrow> ReadVarInt_loop w 0 (rev (varint_tmp q len) @ s) =
    (if len then ReadVarInt_loop w ((q + 1) mod 2 ^ w) s else Some (q mod 2 ^ w, s))"
proof (induction q len arbitrary: s rule: varint_tmp.induct)
  case (1 q len)
  show ?case
  proof (cases "q \<le> 127")
    case True
    then have "q div 128 = 0"
      by simp
    then show ?thesis
      using ReadVarInt_step [OF "1.prems", of q len s] True
      by (simp add: varint_tmp.simps [of q len] del: ReadVarInt_loop.simps)
  next
    case False
    then have "q div 128 - 1 + 1 = q div 128"
      by (simp add: div_greater_zero_iff)
    then show ?thesis
      using ReadVarInt_step [OF "1.prems", of q len s] "1.IH" [OF refl False "1.prems"] False
      by (simp add: varint_tmp.simps [of q len] del: ReadVarInt_loop.simps)
  qed
qed

lemma length_varint_tmp: "length (varint_tmp n len) = GetSizeOfVarInt n"
  by (induction n len rule: varint_tmp.induct)
    (simp add: varint_tmp.simps GetSizeOfVarInt.simps Let_def)

section \<open>Compact sizes have one encoding\<close>

lemma canonical_size_eq: "canonical_size l x = Some y \<longleftrightarrow> x = y \<and> l \<le> fst y"
  by (cases x; cases y) (auto simp: canonical_size_def)

lemma ReadCompactSize_cases:
  assumes "ReadCompactSize bs = Some (n, s)"
  shows "bs = WriteCompactSize n @ s \<and> n \<le> MAX_SIZE"
proof -
  obtain ch s1 where ch: "ser_readdata8 bs = Some (ch, s1)" "n \<le> MAX_SIZE"
    and c: "(if ch < 253 then Some (ch, s1)
        else if ch = 253 then ser_readdata16 s1 \<bind> canonical_size 253
        else if ch = 254 then ser_readdata32 s1 \<bind> canonical_size 0x10000
        else ser_readdata64 s1 \<bind> canonical_size 0x100000000) = Some (n, s)"
    using assms by (auto simp: ReadCompactSize_def bind_eq_Some split: if_splits)
  have bs: "bs = ser_writedata8 ch @ s1" "ch < 256"
    using ch(1) by (simp_all add: ser_readdata8_def read_le_eq ser_writedata8_def)
  consider "ch < 253" | "ch = 253" | "ch = 254" | "ch = 255"
    using bs(2) by linarith
  then show ?thesis
  proof cases
    case 1
    then show ?thesis
      using c bs ch by (simp add: WriteCompactSize_def)
  next
    case 2
    then show ?thesis
      using c bs ch
      by (auto simp: bind_eq_Some canonical_size_eq ser_readdata16_def read_le_eq WriteCompactSize_def
          ser_writedata16_def)
  next
    case 3
    then show ?thesis
      using c bs ch
      by (auto simp: bind_eq_Some canonical_size_eq ser_readdata32_def read_le_eq WriteCompactSize_def
          ser_writedata32_def)
  next
    case 4
    then show ?thesis
      using c ch(2) by (auto simp: bind_eq_Some canonical_size_eq MAX_SIZE_def)
  qed
qed

section \<open>Properties\<close>

text \<open>
  C38. Compact sizes: \<^verbatim>\<open>ReadCompactSize\<close> succeeds exactly on what \<^verbatim>\<open>WriteCompactSize\<close> writes for a size up
  to \<^verbatim>\<open>MAX_SIZE\<close>, so a size has one accepted encoding, of \<^verbatim>\<open>GetSizeOfCompactSize\<close> bytes.
\<close>

theorem CompactSize_canonical:
  "(ReadCompactSize bs = Some (n, s) \<longleftrightarrow> bs = WriteCompactSize n @ s \<and> n \<le> MAX_SIZE) \<and>
   length (WriteCompactSize n) = GetSizeOfCompactSize n"
  using ReadCompactSize_cases [of bs n s] ReadCompactSize_Write [of n s]
  by (auto simp: length_WriteCompactSize)

text \<open>
  Variable-length integers: reading what \<^verbatim>\<open>WriteVarInt\<close> wrote into an unsigned type of at least 7 bits
  gives the number modulo the size of the type and the rest of the stream; the encoding has
  \<^verbatim>\<open>GetSizeOfVarInt\<close> bytes.  Numbers that fit are read back exactly; larger ones wrap silently.
\<close>

theorem VarInt_read_write:
  assumes "7 \<le> w"
  shows "ReadVarInt w (WriteVarInt n @ s) = Some (n mod 2 ^ w, s) \<and>
    length (WriteVarInt n) = GetSizeOfVarInt n"
  using varint_tmp_loop [OF assms, of n False s]
  by (simp add: ReadVarInt_def WriteVarInt_def length_varint_tmp)

theorem VarInt_read_write_witness:
  "WriteVarInt (2 ^ 32) = [0x8E, 0xFE, 0xFE, 0xFF, 0x00] \<and>
   ReadVarInt 64 [0x8E, 0xFE, 0xFE, 0xFF, 0x00] = Some (2 ^ 32, []) \<and>
   ReadVarInt 32 [0x8E, 0xFE, 0xFE, 0xFF, 0x00] = Some (0, []) \<and> ReadVarInt 32 [0x00] = Some (0, [])"
proof -
  have w: "WriteVarInt (2 ^ 32) = [0x8E, 0xFE, 0xFE, 0xFF, 0x00]"
    by (simp add: WriteVarInt_def varint_tmp.simps)
  have "ReadVarInt 32 [0x00] = Some (0, [])"
    by (simp add: ReadVarInt_def)
  with w VarInt_read_write [of 64 "2 ^ 32" "[]"] VarInt_read_write [of 32 "2 ^ 32" "[]"] show ?thesis
    by simp
qed

end
