(* ===== verification/Transactions.thy ===== *)
theory Transactions
  imports Script_Interp Serialization
begin

text \<open>
  Transactions (\<^verbatim>\<open>src/primitives/transaction.h\<close>, \<^verbatim>\<open>transaction.cpp\<close>, \<^verbatim>\<open>src/sapling/sapling_transaction.h\<close>):
  their data, wire format and predicates, and the context-free checks of
  \<^verbatim>\<open>src/consensus/tx_verify.cpp\<close>, \<^verbatim>\<open>src/sapling/sapling_validation.cpp\<close> and
  \<^verbatim>\<open>src/tiertwo/specialtx_validation.cpp\<close>.  Hashes and keys are byte lists, machine integers are \<open>nat\<close> or
  \<open>int\<close> with the range of the type as part of the well-formedness predicates.
\<close>

section \<open>Data\<close>

abbreviation uint32_max :: nat where "uint32_max \<equiv> 0xffffffff"

record COutPoint =
  outpoint_hash :: bytes
  outpoint_n :: nat

record CTxIn =
  prevout :: COutPoint
  scriptSig :: bytes
  nSequence :: nat

record CTxOut =
  nValue :: int
  scriptPubKey :: bytes
  nRounds :: int

record SpendDescription =
  sd_cv :: bytes
  sd_anchor :: bytes
  sd_nullifier :: bytes
  sd_rk :: bytes
  sd_zkproof :: bytes
  sd_spendAuthSig :: bytes

record OutputDescription =
  od_cv :: bytes
  od_cmu :: bytes
  od_ephemeralKey :: bytes
  od_encCiphertext :: bytes
  od_outCiphertext :: bytes
  od_zkproof :: bytes

record SaplingTxData =
  valueBalance :: int
  vShieldedSpend :: "SpendDescription list"
  vShieldedOutput :: "OutputDescription list"
  bindingSig :: bytes

record CTransaction =
  nVersion :: int
  nType :: int
  vin :: "CTxIn list"
  vout :: "CTxOut list"
  nLockTime :: nat
  sapData :: "SaplingTxData option"
  extraPayload :: "bytes option"
  walletSenderId :: bytes

definition uint256_IsNull :: "bytes \<Rightarrow> bool" where
  "uint256_IsNull h = list_all (\<lambda>b. b = 0) h"

definition COutPoint_IsNull :: "COutPoint \<Rightarrow> bool" where
  "COutPoint_IsNull p = (uint256_IsNull (outpoint_hash p) \<and> outpoint_n p = uint32_max)"

definition CTxIn_IsFinal :: "CTxIn \<Rightarrow> bool" where
  "CTxIn_IsFinal txin = (nSequence txin = uint32_max)"

definition CTxIn_IsNull :: "CTxIn \<Rightarrow> bool" where
  "CTxIn_IsNull txin = (COutPoint_IsNull (prevout txin) \<and> scriptSig txin = [] \<and> CTxIn_IsFinal txin)"

definition CTxIn_IsMultiMiningSpend :: "CTxIn \<Rightarrow> bool" where
  "CTxIn_IsMultiMiningSpend txin =
     (uint256_IsNull (outpoint_hash (prevout txin)) \<and> IsMultiMiningSpend (scriptSig txin))"

definition CTxOut_SetNull :: CTxOut where
  "CTxOut_SetNull = \<lparr>nValue = - 1, scriptPubKey = [], nRounds = - 10\<rparr>"

definition CTxOut_IsNull :: "CTxOut \<Rightarrow> bool" where
  "CTxOut_IsNull txout = (nValue txout = - 1)"

definition CTxOut_IsEmpty :: "CTxOut \<Rightarrow> bool" where
  "CTxOut_IsEmpty txout = (nValue txout = 0 \<and> scriptPubKey txout = [])"

definition IsMultiMiningMint :: "CTxOut \<Rightarrow> bool" where
  "IsMultiMiningMint txout = IsPayAssetScriptHash (scriptPubKey txout)"

definition IsAssetDposMint :: "CTxOut \<Rightarrow> bool" where
  "IsAssetDposMint txout = IsPayAssetDposScript (scriptPubKey txout)"

definition hasBindingSig :: "SaplingTxData \<Rightarrow> bool" where
  "hasBindingSig d = list_ex (\<lambda>c. c \<noteq> 0) (bindingSig d)"

definition SaplingTxData_default :: SaplingTxData where
  "SaplingTxData_default =
     \<lparr>valueBalance = 0, vShieldedSpend = [], vShieldedOutput = [], bindingSig = replicate 64 0\<rparr>"

section \<open>Predicates\<close>

definition hasSaplingData :: "CTransaction \<Rightarrow> bool" where
  "hasSaplingData tx =
     (case sapData tx of
        None \<Rightarrow> False
      | Some d \<Rightarrow> vShieldedOutput d \<noteq> [] \<or> vShieldedSpend d \<noteq> [] \<or> valueBalance d \<noteq> 0 \<or> hasBindingSig d)"

abbreviation (input) TxVersion_SAPLING :: int where "TxVersion_SAPLING \<equiv> 3"
abbreviation (input) TxVersion_TOOHIGH :: int where "TxVersion_TOOHIGH \<equiv> 4"
abbreviation (input) TxType_NORMAL :: int where "TxType_NORMAL \<equiv> 0"

definition isSaplingVersion :: "CTransaction \<Rightarrow> bool" where
  "isSaplingVersion tx = (nVersion tx \<ge> TxVersion_SAPLING)"

definition IsShieldedTx :: "CTransaction \<Rightarrow> bool" where
  "IsShieldedTx tx = (isSaplingVersion tx \<and> hasSaplingData tx)"

definition hasExtraPayload :: "CTransaction \<Rightarrow> bool" where
  "hasExtraPayload tx = (case extraPayload tx of None \<Rightarrow> False | Some p \<Rightarrow> p \<noteq> [])"

definition IsSpecialTx :: "CTransaction \<Rightarrow> bool" where
  "IsSpecialTx tx = (isSaplingVersion tx \<and> nType tx \<noteq> TxType_NORMAL \<and> hasExtraPayload tx)"

definition IsNormalType :: "CTransaction \<Rightarrow> bool" where
  "IsNormalType tx = (nType tx = TxType_NORMAL)"

definition GetRequiredSigVersion :: "CTransaction \<Rightarrow> SigVersion" where
  "GetRequiredSigVersion tx = (if isSaplingVersion tx then SIGVERSION_SAPLING else SIGVERSION_BASE)"

definition HasAssetsDposMintOutputs :: "CTransaction \<Rightarrow> bool" where
  "HasAssetsDposMintOutputs tx = list_ex IsAssetDposMint (vout tx)"

definition HasAssetsMintOutputs :: "CTransaction \<Rightarrow> bool" where
  "HasAssetsMintOutputs tx = list_ex IsMultiMiningMint (vout tx)"

definition HasAssetsSpendInputs :: "CTransaction \<Rightarrow> bool" where
  "HasAssetsSpendInputs tx = list_ex CTxIn_IsMultiMiningSpend (vin tx)"

definition ContainsAssets :: "CTransaction \<Rightarrow> bool" where
  "ContainsAssets tx = (HasAssetsSpendInputs tx \<or> HasAssetsMintOutputs tx \<or> HasAssetsDposMintOutputs tx)"

definition IsCoinBase :: "CTransaction \<Rightarrow> bool" where
  "IsCoinBase tx =
     (length (vin tx) = 1 \<and> COutPoint_IsNull (prevout (vin tx ! 0)) \<and> \<not> HasAssetsMintOutputs tx \<and>
      \<not> HasAssetsSpendInputs tx \<and> \<not> HasAssetsDposMintOutputs tx)"

definition IsCoinStake :: "CTransaction \<Rightarrow> bool" where
  "IsCoinStake tx =
     (if vin tx = [] then False
      else let fAllowNull = CTxIn_IsMultiMiningSpend (vin tx ! 0) in
        if COutPoint_IsNull (prevout (vin tx ! 0)) \<and> \<not> fAllowNull then False
        else length (vout tx) \<ge> 2 \<and> CTxOut_IsEmpty (vout tx ! 0))"

definition HasP2CSOutputs :: "bool \<Rightarrow> CTransaction \<Rightarrow> bool" where
  "HasP2CSOutputs g_newP2CSRules tx =
     list_ex (\<lambda>txout. IsPayToColdStaking g_newP2CSRules (scriptPubKey txout)) (vout tx)"

section \<open>Amounts\<close>

text \<open>\<^verbatim>\<open>int64_t\<close> arithmetic as the machine does it.\<close>

definition wrap64 :: "int \<Rightarrow> int" where
  "wrap64 v = to_signed 64 (to_unsigned 64 v)"

text \<open>\<open>None\<close> stands for the thrown \<^verbatim>\<open>std::runtime_error\<close>.\<close>

fun GetValueOut_loop :: "CTxOut list \<Rightarrow> int \<Rightarrow> int option" where
  "GetValueOut_loop [] nValueOut = Some nValueOut"
| "GetValueOut_loop (txout # rest) nValueOut =
     (if nValue txout < 0 then None
      else if wrap64 (nValueOut + nValue txout) < nValueOut then None
      else GetValueOut_loop rest (wrap64 (nValueOut + nValue txout)))"

definition GetValueOut :: "CTransaction \<Rightarrow> int option" where
  "GetValueOut tx =
     (case GetValueOut_loop (vout tx) 0 of
        None \<Rightarrow> None
      | Some nValueOut \<Rightarrow>
          (case sapData tx of
             Some d \<Rightarrow>
               if hasSaplingData tx \<and> valueBalance d < 0
               then if \<not> isSaplingVersion tx then None else Some (wrap64 (nValueOut - valueBalance d))
               else Some nValueOut
           | None \<Rightarrow> Some nValueOut))"

definition GetShieldedValueIn :: "CTransaction \<Rightarrow> int option" where
  "GetShieldedValueIn tx =
     (case sapData tx of
        Some d \<Rightarrow>
          if hasSaplingData tx \<and> valueBalance d > 0
          then if \<not> isSaplingVersion tx then None else Some (valueBalance d)
          else Some 0
      | None \<Rightarrow> Some 0)"

definition GetMultiMiningSpend :: "CTransaction \<Rightarrow> int" where
  "GetMultiMiningSpend tx = foldl (\<lambda>nValueOut txout. wrap64 (nValueOut + nValue txout)) 0 (vout tx)"

section \<open>Wire format\<close>

definition Serialize_COutPoint :: "COutPoint \<Rightarrow> bytes" where
  "Serialize_COutPoint p = outpoint_hash p @ Serialize_uint32 (outpoint_n p)"

definition Unserialize_COutPoint :: "bytes \<Rightarrow> (COutPoint \<times> bytes) option" where
  "Unserialize_COutPoint s = do {
     (h, s1) \<leftarrow> stream_read 32 s;
     (n, s2) \<leftarrow> Unserialize_uint32 s1;
     Some (\<lparr>outpoint_hash = h, outpoint_n = n\<rparr>, s2)
   }"

definition Serialize_CTxIn :: "CTxIn \<Rightarrow> bytes" where
  "Serialize_CTxIn txin =
     Serialize_COutPoint (prevout txin) @ Serialize_bytes (scriptSig txin) @ Serialize_uint32 (nSequence txin)"

definition Unserialize_CTxIn :: "bytes \<Rightarrow> (CTxIn \<times> bytes) option" where
  "Unserialize_CTxIn s = do {
     (p, s1) \<leftarrow> Unserialize_COutPoint s;
     (sc, s2) \<leftarrow> Unserialize_bytes s1;
     (q, s3) \<leftarrow> Unserialize_uint32 s2;
     Some (\<lparr>prevout = p, scriptSig = sc, nSequence = q\<rparr>, s3)
   }"

definition Serialize_CTxOut :: "CTxOut \<Rightarrow> bytes" where
  "Serialize_CTxOut txout = Serialize_int64 (nValue txout) @ Serialize_bytes (scriptPubKey txout)"

definition Unserialize_CTxOut :: "bytes \<Rightarrow> (CTxOut \<times> bytes) option" where
  "Unserialize_CTxOut s = do {
     (v, s1) \<leftarrow> Unserialize_int64 s;
     (sc, s2) \<leftarrow> Unserialize_bytes s1;
     Some (\<lparr>nValue = v, scriptPubKey = sc, nRounds = - 10\<rparr>, s2)
   }"

definition Serialize_SpendDescription :: "SpendDescription \<Rightarrow> bytes" where
  "Serialize_SpendDescription d =
     sd_cv d @ sd_anchor d @ sd_nullifier d @ sd_rk d @ sd_zkproof d @ sd_spendAuthSig d"

definition Unserialize_SpendDescription :: "bytes \<Rightarrow> (SpendDescription \<times> bytes) option" where
  "Unserialize_SpendDescription s = do {
     (cv, s1) \<leftarrow> stream_read 32 s;
     (anchor, s2) \<leftarrow> stream_read 32 s1;
     (nullifier, s3) \<leftarrow> stream_read 32 s2;
     (rk, s4) \<leftarrow> stream_read 32 s3;
     (zkproof, s5) \<leftarrow> stream_read 192 s4;
     (sig, s6) \<leftarrow> stream_read 64 s5;
     Some (\<lparr>sd_cv = cv, sd_anchor = anchor, sd_nullifier = nullifier, sd_rk = rk, sd_zkproof = zkproof,
            sd_spendAuthSig = sig\<rparr>, s6)
   }"

definition Serialize_OutputDescription :: "OutputDescription \<Rightarrow> bytes" where
  "Serialize_OutputDescription d =
     od_cv d @ od_cmu d @ od_ephemeralKey d @ od_encCiphertext d @ od_outCiphertext d @ od_zkproof d"

definition Unserialize_OutputDescription :: "bytes \<Rightarrow> (OutputDescription \<times> bytes) option" where
  "Unserialize_OutputDescription s = do {
     (cv, s1) \<leftarrow> stream_read 32 s;
     (cmu, s2) \<leftarrow> stream_read 32 s1;
     (epk, s3) \<leftarrow> stream_read 32 s2;
     (enc, s4) \<leftarrow> stream_read 580 s3;
     (out, s5) \<leftarrow> stream_read 80 s4;
     (zkproof, s6) \<leftarrow> stream_read 192 s5;
     Some (\<lparr>od_cv = cv, od_cmu = cmu, od_ephemeralKey = epk, od_encCiphertext = enc,
            od_outCiphertext = out, od_zkproof = zkproof\<rparr>, s6)
   }"

definition Serialize_SaplingTxData :: "SaplingTxData \<Rightarrow> bytes" where
  "Serialize_SaplingTxData d =
     Serialize_int64 (valueBalance d) @
     Serialize_vector Serialize_SpendDescription (vShieldedSpend d) @
     Serialize_vector Serialize_OutputDescription (vShieldedOutput d) @
     bindingSig d"

definition Unserialize_SaplingTxData :: "bytes \<Rightarrow> (SaplingTxData \<times> bytes) option" where
  "Unserialize_SaplingTxData s = do {
     (v, s1) \<leftarrow> Unserialize_int64 s;
     (sp, s2) \<leftarrow> Unserialize_vector Unserialize_SpendDescription s1;
     (ou, s3) \<leftarrow> Unserialize_vector Unserialize_OutputDescription s2;
     (sig, s4) \<leftarrow> stream_read 64 s3;
     Some (\<lparr>valueBalance = v, vShieldedSpend = sp, vShieldedOutput = ou, bindingSig = sig\<rparr>, s4)
   }"

definition SerializeTransaction :: "CTransaction \<Rightarrow> bytes" where
  "SerializeTransaction tx =
     Serialize_int16 (nVersion tx) @ Serialize_int16 (nType tx) @
     Serialize_vector Serialize_CTxIn (vin tx) @ Serialize_vector Serialize_CTxOut (vout tx) @
     Serialize_uint32 (nLockTime tx) @
     (if isSaplingVersion tx
      then Serialize_optional Serialize_SaplingTxData (sapData tx) @
           (if \<not> IsNormalType tx then Serialize_optional Serialize_bytes (extraPayload tx) else [])
      else []) @
     walletSenderId tx"

text \<open>
  \<^verbatim>\<open>UnserializeTransaction\<close> on a new \<^verbatim>\<open>CMutableTransaction\<close>: the fields that are not read keep the values
  of the default initializers.
\<close>

definition UnserializeTransaction :: "bytes \<Rightarrow> (CTransaction \<times> bytes) option" where
  "UnserializeTransaction s = do {
     (ver, s1) \<leftarrow> Unserialize_int16 s;
     (typ, s2) \<leftarrow> Unserialize_int16 s1;
     (ins, s3) \<leftarrow> Unserialize_vector Unserialize_CTxIn s2;
     (outs, s4) \<leftarrow> Unserialize_vector Unserialize_CTxOut s3;
     (lock, s5) \<leftarrow> Unserialize_uint32 s4;
     (sap, s6) \<leftarrow>
       (if ver \<ge> TxVersion_SAPLING then Unserialize_optional Unserialize_SaplingTxData s5
        else Some (Some SaplingTxData_default, s5));
     (pay, s7) \<leftarrow>
       (if ver \<ge> TxVersion_SAPLING \<and> typ \<noteq> TxType_NORMAL then Unserialize_optional Unserialize_bytes s6
        else Some (None, s6));
     (sender, s8) \<leftarrow> stream_read 20 s7;
     Some (\<lparr>nVersion = ver, nType = typ, vin = ins, vout = outs, nLockTime = lock, sapData = sap,
            extraPayload = pay, walletSenderId = sender\<rparr>, s8)
   }"

definition CTransaction_GetHash :: "CTransaction \<Rightarrow> bytes" where
  "CTransaction_GetHash tx = Hash256 (SerializeTransaction tx)"

definition GetTotalSize :: "CTransaction \<Rightarrow> nat" where
  "GetTotalSize tx = length (SerializeTransaction tx)"

fun CalculateModifiedSize_loop :: "CTxIn list \<Rightarrow> nat \<Rightarrow> nat" where
  "CalculateModifiedSize_loop [] nTxSize = nTxSize"
| "CalculateModifiedSize_loop (txin # rest) nTxSize =
     (let offset = 41 + min 110 (length (scriptSig txin)) in
      CalculateModifiedSize_loop rest (if nTxSize > offset then nTxSize - offset else nTxSize))"

definition CalculateModifiedSize :: "CTransaction \<Rightarrow> nat \<Rightarrow> nat" where
  "CalculateModifiedSize tx nTxSize =
     CalculateModifiedSize_loop (vin tx) (if nTxSize = 0 then GetTotalSize tx else nTxSize)"

section \<open>Context-free checks\<close>

text \<open>
  A failed check is a call of \<^verbatim>\<open>state.DoS\<close> with a level and a reason, or a plain \<^verbatim>\<open>return false\<close>.
\<close>

datatype tx_error = DoS nat string | PlainFalse

definition MAX_TX_SIZE_AFTER_SAPLING :: nat where "MAX_TX_SIZE_AFTER_SAPLING = 400000"
definition MAX_STANDARD_TX_SIZE :: nat where "MAX_STANDARD_TX_SIZE = 150000"
definition MAX_SPECIALTX_EXTRAPAYLOAD :: nat where "MAX_SPECIALTX_EXTRAPAYLOAD = 10000"
definition COIN :: int where "COIN = 100000000"
definition MIN_COLDSTAKING_AMOUNT :: int where "MIN_COLDSTAKING_AMOUNT = 10000 * COIN"

definition MoneyRange :: "int \<Rightarrow> int \<Rightarrow> bool" where
  "MoneyRange nMaxMoneyOut v = (v \<ge> 0 \<and> v \<le> nMaxMoneyOut)"

text \<open>
  \<^verbatim>\<open>IsFinalTx\<close>; the adjusted time, read from the clock when \<^verbatim>\<open>nBlockTime\<close> is 0, is an argument.
\<close>

definition IsFinalTx :: "int \<Rightarrow> CTransaction \<Rightarrow> int \<Rightarrow> int \<Rightarrow> bool" where
  "IsFinalTx adjustedTime tx nBlockHeight nBlockTime =
     (if nLockTime tx = 0 then True
      else let nBlockTime' = (if nBlockTime = 0 then adjustedTime else nBlockTime) in
        if int (nLockTime tx) < (if int (nLockTime tx) < LOCKTIME_THRESHOLD then nBlockHeight else nBlockTime')
        then True
        else list_all CTxIn_IsFinal (vin tx))"

definition GetLegacySigOpCount :: "CTransaction \<Rightarrow> nat" where
  "GetLegacySigOpCount tx =
     sum_list (map (\<lambda>txin. GetSigOpCount (scriptSig txin) False) (vin tx)) +
     sum_list (map (\<lambda>txout. GetSigOpCount (scriptPubKey txout) False) (vout tx))"

text \<open>The view \<^verbatim>\<open>inputs.AccessCoin\<close> is a function from outpoints to outputs.\<close>

definition GetP2SHSigOpCount :: "CTransaction \<Rightarrow> (COutPoint \<Rightarrow> CTxOut) \<Rightarrow> nat" where
  "GetP2SHSigOpCount tx AccessCoin =
     (if IsCoinBase tx \<or> ContainsAssets tx then 0
      else sum_list (map (\<lambda>txin.
        let spk = scriptPubKey (AccessCoin (prevout txin)) in
        if IsPayToScriptHash spk then GetSigOpCount_P2SH spk (scriptSig txin) else 0) (vin tx)))"

fun has_duplicates :: "'a list \<Rightarrow> 'a set \<Rightarrow> bool" where
  "has_duplicates [] seen = False"
| "has_duplicates (x # xs) seen = (if x \<in> seen then True else has_duplicates xs (insert x seen))"

text \<open>The two functions of \<^verbatim>\<open>SaplingValidation\<close> return the value they add to \<^verbatim>\<open>nValueOut\<close>.\<close>

definition CheckTransactionWithoutProofVerification ::
    "int \<Rightarrow> SaplingTxData \<Rightarrow> int \<Rightarrow> tx_error + int" where
  "CheckTransactionWithoutProofVerification nMaxMoneyOut d nValueOut =
     (if vShieldedSpend d = [] \<and> vShieldedOutput d = [] \<and> valueBalance d \<noteq> 0
      then Inl (DoS 100 ''bad-txns-valuebalance-nonzero'')
      else if valueBalance d > nMaxMoneyOut \<or> valueBalance d < - nMaxMoneyOut
      then Inl (DoS 100 ''bad-txns-valuebalance-toolarge'')
      else let nValueOut' = (if valueBalance d < 0 then nValueOut - valueBalance d else nValueOut) in
        if valueBalance d < 0 \<and> \<not> MoneyRange nMaxMoneyOut nValueOut'
        then Inl (DoS 100 ''bad-txns-txouttotal-toolarge'')
        else if valueBalance d > 0 \<and> \<not> MoneyRange nMaxMoneyOut (valueBalance d)
        then Inl (DoS 100 ''bad-txns-txintotal-toolarge'')
        else if has_duplicates (map sd_nullifier (vShieldedSpend d)) {}
        then Inl (DoS 100 ''bad-spend-description-nullifiers-duplicate'')
        else Inr nValueOut')"

definition SaplingValidation_CheckTransaction ::
    "int \<Rightarrow> CTransaction \<Rightarrow> int \<Rightarrow> bool \<Rightarrow> tx_error + int" where
  "SaplingValidation_CheckTransaction nMaxMoneyOut tx nValueOut fIsSaplingActive =
     (if \<not> isSaplingVersion tx \<and> hasSaplingData tx then Inl (DoS 100 ''bad-txns-form-not-sapling'')
      else if \<not> hasSaplingData tx then Inr nValueOut
      else if IsCoinStake tx \<or> IsCoinBase tx then Inl (DoS 100 ''bad-txns-invalid-sapling'')
      else if \<not> fIsSaplingActive then Inl (DoS 100 ''bad-txns-invalid-sapling-act'')
      else CheckTransactionWithoutProofVerification nMaxMoneyOut (the (sapData tx)) nValueOut)"

definition CheckSpecialTx :: "CTransaction \<Rightarrow> bool \<Rightarrow> tx_error + unit" where
  "CheckSpecialTx tx fIsSaplingActive =
     (if \<not> fIsSaplingActive then (if hasExtraPayload tx then Inl PlainFalse else Inr ())
      else if \<not> isSaplingVersion tx \<and> nType tx \<noteq> TxType_NORMAL then Inl (DoS 100 ''bad-txns-type-version'')
      else if nType tx = TxType_NORMAL
      then if hasExtraPayload tx then Inl (DoS 100 ''bad-txns-type-payload'') else Inr ()
      else if \<not> hasExtraPayload tx then Inl (DoS 100 ''bad-txns-payload-empty'')
      else if length (the (extraPayload tx)) > MAX_SPECIALTX_EXTRAPAYLOAD
      then Inl (DoS 100 ''bad-txns-payload-oversize'')
      else Inl (DoS 10 ''bad-tx-type''))"

text \<open>The loop over the outputs, with \<^verbatim>\<open>nValueOut\<close> as accumulator.\<close>

fun CheckTransaction_vout ::
    "int \<Rightarrow> bool \<Rightarrow> int \<Rightarrow> CTransaction \<Rightarrow> bool \<Rightarrow> CTxOut list \<Rightarrow> int \<Rightarrow> tx_error + int" where
  "CheckTransaction_vout nMaxMoneyOut g_newP2CSRules nTipHeight tx fColdStakingActive [] nValueOut = Inr nValueOut"
| "CheckTransaction_vout nMaxMoneyOut g_newP2CSRules nTipHeight tx fColdStakingActive (txout # rest) nValueOut =
     (if CTxOut_IsEmpty txout \<and> \<not> IsCoinBase tx \<and> \<not> IsCoinStake tx \<and> \<not> ContainsAssets tx
      then Inl (DoS 100 ''bad-txns-vout-empty'')
      else if nValue txout < 0 then Inl (DoS 100 ''bad-txns-vout-negative'')
      else if nValue txout > nMaxMoneyOut then Inl (DoS 100 ''bad-txns-vout-toolarge'')
      else let nValueOut' = nValueOut + nValue txout in
        if \<not> MoneyRange nMaxMoneyOut nValueOut' then Inl (DoS 100 ''bad-txns-txouttotal-toolarge'')
        else if IsPayToColdStaking g_newP2CSRules (scriptPubKey txout) \<and> \<not> fColdStakingActive
        then Inl (DoS 10 ''cold-stake-inactive'')
        else if IsPayToColdStaking g_newP2CSRules (scriptPubKey txout) \<and>
                nValue txout < MIN_COLDSTAKING_AMOUNT \<and> nTipHeight > 21555
        then Inl (DoS 100 ''cold-stake-vout-toosmall'')
        else CheckTransaction_vout nMaxMoneyOut g_newP2CSRules nTipHeight tx fColdStakingActive rest nValueOut')"

definition CheckTransaction_vin :: "CTransaction \<Rightarrow> tx_error + unit" where
  "CheckTransaction_vin tx =
     (if has_duplicates (map prevout (vin tx)) {} then Inl (DoS 100 ''bad-txns-inputs-duplicate'')
      else if IsCoinBase tx
      then if length (scriptSig (vin tx ! 0)) < 2 \<or> length (scriptSig (vin tx ! 0)) > 150
           then Inl (DoS 100 ''bad-cb-length'') else Inr ()
      else if list_ex (\<lambda>txin. COutPoint_IsNull (prevout txin) \<and> \<not> CTxIn_IsMultiMiningSpend txin) (vin tx)
      then Inl (DoS 10 ''bad-txns-prevout-null'')
      else Inr ())"

definition CheckTransaction ::
    "int \<Rightarrow> bool \<Rightarrow> int \<Rightarrow> CTransaction \<Rightarrow> bool \<Rightarrow> bool \<Rightarrow> tx_error + unit" where
  "CheckTransaction nMaxMoneyOut g_newP2CSRules nTipHeight tx fColdStakingActive fSaplingActive =
     (if vin tx = [] \<and> (case sapData tx of Some d \<Rightarrow> vShieldedSpend d = [] | None \<Rightarrow> False)
      then Inl (DoS 10 ''bad-txns-vin-empty'')
      else if vout tx = [] \<and> (case sapData tx of Some d \<Rightarrow> vShieldedOutput d = [] | None \<Rightarrow> False)
      then Inl (DoS 10 ''bad-txns-vout-empty'')
      else if fSaplingActive \<and> (nVersion tx < 1 \<or> nVersion tx \<ge> TxVersion_TOOHIGH)
      then Inl (DoS 10 ''bad-tx-version-too-high'')
      else if GetTotalSize tx > (if IsShieldedTx tx then MAX_TX_SIZE_AFTER_SAPLING else MAX_STANDARD_TX_SIZE)
      then Inl (DoS 10 ''bad-txns-oversize'')
      else bindE (SaplingValidation_CheckTransaction nMaxMoneyOut tx 0 fSaplingActive) (\<lambda>nValueOut.
        bindE (CheckSpecialTx tx fSaplingActive) (\<lambda>_.
        bindE (CheckTransaction_vout nMaxMoneyOut g_newP2CSRules nTipHeight tx fColdStakingActive (vout tx) nValueOut)
          (\<lambda>_. CheckTransaction_vin tx))))"

section \<open>Well-formed transactions\<close>

definition COutPoint_ok :: "COutPoint \<Rightarrow> bool" where
  "COutPoint_ok p \<longleftrightarrow> length (outpoint_hash p) = 32 \<and> outpoint_n p < 2 ^ 32"

definition CTxIn_ok :: "CTxIn \<Rightarrow> bool" where
  "CTxIn_ok i \<longleftrightarrow> COutPoint_ok (prevout i) \<and> length (scriptSig i) \<le> MAX_SIZE \<and> nSequence i < 2 ^ 32"

definition CTxOut_ok :: "CTxOut \<Rightarrow> bool" where
  "CTxOut_ok t \<longleftrightarrow> - (2 ^ 63) \<le> nValue t \<and> nValue t < 2 ^ 63 \<and> length (scriptPubKey t) \<le> MAX_SIZE \<and> nRounds t = - 10"

definition SpendDescription_ok :: "SpendDescription \<Rightarrow> bool" where
  "SpendDescription_ok d \<longleftrightarrow> length (sd_cv d) = 32 \<and> length (sd_anchor d) = 32 \<and> length (sd_nullifier d) = 32 \<and>
     length (sd_rk d) = 32 \<and> length (sd_zkproof d) = 192 \<and> length (sd_spendAuthSig d) = 64"

definition OutputDescription_ok :: "OutputDescription \<Rightarrow> bool" where
  "OutputDescription_ok d \<longleftrightarrow> length (od_cv d) = 32 \<and> length (od_cmu d) = 32 \<and> length (od_ephemeralKey d) = 32 \<and>
     length (od_encCiphertext d) = 580 \<and> length (od_outCiphertext d) = 80 \<and> length (od_zkproof d) = 192"

definition SaplingTxData_ok :: "SaplingTxData \<Rightarrow> bool" where
  "SaplingTxData_ok d \<longleftrightarrow> - (2 ^ 63) \<le> valueBalance d \<and> valueBalance d < 2 ^ 63 \<and>
     list_all SpendDescription_ok (vShieldedSpend d) \<and> length (vShieldedSpend d) \<le> MAX_SIZE \<and>
     list_all OutputDescription_ok (vShieldedOutput d) \<and> length (vShieldedOutput d) \<le> MAX_SIZE \<and>
     length (bindingSig d) = 64"

text \<open>
  The fields that are not written have their default values: the shielded data before the Sapling
  version, the payload of a normal transaction.
\<close>

definition CTransaction_ok :: "CTransaction \<Rightarrow> bool" where
  "CTransaction_ok tx \<longleftrightarrow>
     - (2 ^ 15) \<le> nVersion tx \<and> nVersion tx < 2 ^ 15 \<and> - (2 ^ 15) \<le> nType tx \<and> nType tx < 2 ^ 15 \<and>
     list_all CTxIn_ok (vin tx) \<and> length (vin tx) \<le> MAX_SIZE \<and>
     list_all CTxOut_ok (vout tx) \<and> length (vout tx) \<le> MAX_SIZE \<and> nLockTime tx < 2 ^ 32 \<and>
     (if isSaplingVersion tx then pred_option SaplingTxData_ok (sapData tx)
      else sapData tx = Some SaplingTxData_default) \<and>
     (if isSaplingVersion tx \<and> \<not> IsNormalType tx then pred_option (\<lambda>v. length v \<le> MAX_SIZE) (extraPayload tx)
      else extraPayload tx = None) \<and>
     length (walletSenderId tx) = 20"

interpretation outpoint: codec Serialize_COutPoint Unserialize_COutPoint COutPoint_ok
  by unfold_locales
    (simp add: Serialize_COutPoint_def Unserialize_COutPoint_def COutPoint_ok_def stream_read_append uint32.unser_ser)

interpretation txin: codec Serialize_CTxIn Unserialize_CTxIn CTxIn_ok
  by unfold_locales
    (simp add: Serialize_CTxIn_def Unserialize_CTxIn_def CTxIn_ok_def outpoint.unser_ser bytevec.unser_ser uint32.unser_ser)

interpretation txout: codec Serialize_CTxOut Unserialize_CTxOut CTxOut_ok
  by unfold_locales
    (simp add: Serialize_CTxOut_def Unserialize_CTxOut_def CTxOut_ok_def int64.unser_ser bytevec.unser_ser)

interpretation spend: codec Serialize_SpendDescription Unserialize_SpendDescription SpendDescription_ok
  by unfold_locales
    (simp add: Serialize_SpendDescription_def Unserialize_SpendDescription_def SpendDescription_ok_def stream_read_append)

interpretation outputd: codec Serialize_OutputDescription Unserialize_OutputDescription OutputDescription_ok
  by unfold_locales
    (simp add: Serialize_OutputDescription_def Unserialize_OutputDescription_def OutputDescription_ok_def stream_read_append)

interpretation sapling: codec Serialize_SaplingTxData Unserialize_SaplingTxData SaplingTxData_ok
  by unfold_locales
    (simp add: Serialize_SaplingTxData_def Unserialize_SaplingTxData_def SaplingTxData_ok_def stream_read_append
      int64.unser_ser spend.vector_unser_ser outputd.vector_unser_ser)

interpretation transaction: codec SerializeTransaction UnserializeTransaction CTransaction_ok
  by unfold_locales
    (auto simp: SerializeTransaction_def UnserializeTransaction_def CTransaction_ok_def stream_read_append
      int16.unser_ser uint32.unser_ser txin.vector_unser_ser txout.vector_unser_ser
      sapling.optional_unser_ser bytevec.optional_unser_ser isSaplingVersion_def IsNormalType_def)

section \<open>Lemmas on the checks\<close>

lemma has_duplicates_distinct: "\<not> has_duplicates xs seen \<longleftrightarrow> distinct xs \<and> set xs \<inter> seen = {}"
  by (induction xs arbitrary: seen) auto

lemma wrap64_id: "- (2 ^ 63) \<le> v \<Longrightarrow> v < 2 ^ 63 \<Longrightarrow> wrap64 v = v"
  using to_signed_unsigned [of 64 v] by (simp add: wrap64_def)

lemma CheckTransaction_vout_ok:
  assumes "CheckTransaction_vout maxm g h tx cs outs v = Inr v'"
  shows "v' = v + sum_list (map nValue outs) \<and> list_all (\<lambda>t. 0 \<le> nValue t \<and> nValue t \<le> maxm) outs \<and>
    (outs \<noteq> [] \<longrightarrow> 0 \<le> v' \<and> v' \<le> maxm)"
  using assms
proof (induction outs arbitrary: v)
  case (Cons t outs)
  from Cons.prems have h: "0 \<le> nValue t" "nValue t \<le> maxm" "0 \<le> v + nValue t" "v + nValue t \<le> maxm"
    and r: "CheckTransaction_vout maxm g h tx cs outs (v + nValue t) = Inr v'"
    by (auto simp: Let_def MoneyRange_def split: if_splits)
  from Cons.IH [OF r] h show ?case
    by (cases outs) auto
qed simp

lemma GetValueOut_loop_ok:
  assumes "list_all (\<lambda>t. 0 \<le> nValue t) outs" "0 \<le> v" "v + sum_list (map nValue outs) < 2 ^ 63"
  shows "GetValueOut_loop outs v = Some (v + sum_list (map nValue outs))"
  using assms
proof (induction outs arbitrary: v)
  case (Cons t outs)
  have "0 \<le> sum_list (map nValue outs)"
    using Cons.prems(1) by (intro sum_list_nonneg) (auto simp: list_all_iff)
  then have "wrap64 (v + nValue t) = v + nValue t"
    using Cons.prems by (intro wrap64_id) auto
  with Cons show ?case
    by (simp add: add.assoc)
qed simp

lemma Sapling_check_value:
  assumes "SaplingValidation_CheckTransaction maxm tx 0 act = Inr v"
  shows "(case sapData tx of
      Some d \<Rightarrow> v = (if hasSaplingData tx \<and> valueBalance d < 0 then - valueBalance d else 0)
    | None \<Rightarrow> v = 0)"
    and "hasSaplingData tx \<Longrightarrow> isSaplingVersion tx" "v \<noteq> 0 \<Longrightarrow> 0 \<le> v \<and> v \<le> maxm"
  using assms
  by (auto simp: SaplingValidation_CheckTransaction_def CheckTransactionWithoutProofVerification_def
      hasSaplingData_def MoneyRange_def Let_def split: if_splits option.splits)

text \<open>What a transaction takes from the transparent pool: its outputs and a negative shielded balance.\<close>

definition value_out :: "CTransaction \<Rightarrow> int" where
  "value_out tx = sum_list (map nValue (vout tx)) +
     (case sapData tx of
        Some d \<Rightarrow> if hasSaplingData tx \<and> valueBalance d < 0 then - valueBalance d else 0
      | None \<Rightarrow> 0)"

lemma GetValueOut_value_out:
  assumes "list_all (\<lambda>t. 0 \<le> nValue t) (vout tx)" "value_out tx < 2 ^ 63"
    "hasSaplingData tx \<Longrightarrow> isSaplingVersion tx"
  shows "GetValueOut tx = Some (value_out tx)"
proof -
  have n: "0 \<le> sum_list (map nValue (vout tx))"
    using assms(1) by (intro sum_list_nonneg) (auto simp: list_all_iff)
  have "sum_list (map nValue (vout tx)) \<le> value_out tx"
    by (auto simp: value_out_def split: option.splits)
  then have l: "GetValueOut_loop (vout tx) 0 = Some (sum_list (map nValue (vout tx)))"
    using assms by (subst GetValueOut_loop_ok) simp_all
  have "wrap64 (value_out tx) = value_out tx" if "0 \<le> value_out tx"
    using that assms(2) by (intro wrap64_id) auto
  with n l assms(3) show ?thesis
    by (auto simp: GetValueOut_def value_out_def split: option.splits)
qed

section \<open>Properties\<close>

text \<open>
  C28. The wire format of transactions: \<^verbatim>\<open>UnserializeTransaction\<close> reads back what \<^verbatim>\<open>SerializeTransaction\<close>
  wrote, shielded data and extra payload included, and leaves the rest of the stream.
\<close>

theorem Transaction_roundtrip:
  assumes "CTransaction_ok tx"
  shows "UnserializeTransaction (SerializeTransaction tx @ s) = Some (tx, s)"
  using assms by (rule transaction.unser_ser)

theorem Transaction_roundtrip_witness:
  "\<exists>tx. CTransaction_ok tx \<and> length (vin tx) = 1 \<and> length (vout tx) = 1 \<and> isSaplingVersion tx \<and>
     UnserializeTransaction (SerializeTransaction tx) = Some (tx, [])"
proof -
  define tx where "tx = \<lparr>nVersion = 3, nType = 0,
     vin = [\<lparr>prevout = \<lparr>outpoint_hash = replicate 32 7, outpoint_n = 1\<rparr>, scriptSig = [OP_1], nSequence = uint32_max\<rparr>],
     vout = [\<lparr>nValue = 5, scriptPubKey = [OP_1], nRounds = - 10\<rparr>], nLockTime = 0,
     sapData = Some SaplingTxData_default, extraPayload = None, walletSenderId = replicate 20 0\<rparr>"
  have "CTransaction_ok tx"
    by (simp add: tx_def CTransaction_ok_def CTxIn_ok_def CTxOut_ok_def COutPoint_ok_def SaplingTxData_ok_def
        SaplingTxData_default_def isSaplingVersion_def IsNormalType_def MAX_SIZE_def)
  with Transaction_roundtrip [OF this, of "[]"] show ?thesis
    by (intro exI [of _ tx]) (simp add: tx_def isSaplingVersion_def)
qed

text \<open>
  C27. A transaction that passes \<^verbatim>\<open>CheckTransaction\<close> has outputs in the money range, spends no outpoint
  twice, has no null input unless it is a coinbase or spends assets, respects the size limit, and
  \<^verbatim>\<open>GetValueOut\<close> does not throw on it: it returns the exact value taken from the transparent pool, which is
  in the money range.
\<close>

theorem CheckTransaction_sound:
  assumes "CheckTransaction nMaxMoneyOut g_newP2CSRules nTipHeight tx fColdStakingActive fSaplingActive = Inr ()"
    and "0 \<le> nMaxMoneyOut" and "nMaxMoneyOut < 2 ^ 63"
  shows "list_all (\<lambda>t. MoneyRange nMaxMoneyOut (nValue t)) (vout tx) \<and>
    distinct (map prevout (vin tx)) \<and>
    (IsCoinBase tx \<or> list_all (\<lambda>i. \<not> COutPoint_IsNull (prevout i) \<or> CTxIn_IsMultiMiningSpend i) (vin tx)) \<and>
    GetTotalSize tx \<le> (if IsShieldedTx tx then MAX_TX_SIZE_AFTER_SAPLING else MAX_STANDARD_TX_SIZE) \<and>
    GetValueOut tx = Some (value_out tx) \<and> MoneyRange nMaxMoneyOut (value_out tx)"
proof -
  obtain v v' where s: "SaplingValidation_CheckTransaction nMaxMoneyOut tx 0 fSaplingActive = Inr v"
    and o: "CheckTransaction_vout nMaxMoneyOut g_newP2CSRules nTipHeight tx fColdStakingActive (vout tx) v = Inr v'"
    and i: "CheckTransaction_vin tx = Inr ()"
    and z: "GetTotalSize tx \<le> (if IsShieldedTx tx then MAX_TX_SIZE_AFTER_SAPLING else MAX_STANDARD_TX_SIZE)"
    using assms(1)
    by (auto simp: CheckTransaction_def bindE_eq_Inr MAX_TX_SIZE_AFTER_SAPLING_def MAX_STANDARD_TX_SIZE_def
        split: if_splits)
  note vo = CheckTransaction_vout_ok [OF o]
  have v: "v' = value_out tx"
    using vo Sapling_check_value(1) [OF s] by (auto simp: value_out_def split: option.splits)
  have r: "0 \<le> value_out tx \<and> value_out tx \<le> nMaxMoneyOut"
    using vo Sapling_check_value(3) [OF s] assms(2) v by (cases "vout tx = []"; cases "v = 0") auto
  have "GetValueOut tx = Some (value_out tx)"
    using vo r assms(3) Sapling_check_value(2) [OF s]
    by (intro GetValueOut_value_out) (auto simp: list_all_iff)
  moreover have "distinct (map prevout (vin tx)) \<and>
      (IsCoinBase tx \<or> list_all (\<lambda>i. \<not> COutPoint_IsNull (prevout i) \<or> CTxIn_IsMultiMiningSpend i) (vin tx))"
    using i has_duplicates_distinct [of "map prevout (vin tx)" "{}"]
    by (auto simp: CheckTransaction_vin_def list_ex_iff list_all_iff split: if_splits)
  ultimately show ?thesis
    using vo r z by (auto simp: MoneyRange_def list_all_iff)
qed

theorem CheckTransaction_sound_witness:
  "\<exists>tx. CheckTransaction 1000000000000000 True 0 tx True True = Inr () \<and> GetValueOut tx = Some 5"
proof -
  define tx where "tx = \<lparr>nVersion = 1, nType = 0,
     vin = [\<lparr>prevout = \<lparr>outpoint_hash = replicate 32 7, outpoint_n = 1\<rparr>, scriptSig = [OP_1], nSequence = uint32_max\<rparr>],
     vout = [\<lparr>nValue = 5, scriptPubKey = [OP_1], nRounds = - 10\<rparr>], nLockTime = 0,
     sapData = Some SaplingTxData_default, extraPayload = None, walletSenderId = replicate 20 0\<rparr>"
  have "CheckTransaction 1000000000000000 True 0 tx True True = Inr ()"
    by (simp add: tx_def CheckTransaction_def SaplingValidation_CheckTransaction_def CheckSpecialTx_def
        CheckTransaction_vin_def isSaplingVersion_def hasSaplingData_def SaplingTxData_default_def hasBindingSig_def
        IsShieldedTx_def GetTotalSize_def SerializeTransaction_def MAX_STANDARD_TX_SIZE_def Serialize_vector_def
        Serialize_CTxIn_def Serialize_CTxOut_def Serialize_COutPoint_def Serialize_bytes_def Serialize_int16_def
        Serialize_uint32_def Serialize_int64_def length_WriteCompactSize GetSizeOfCompactSize_def read_defs
        length_le_encode CTxOut_IsEmpty_def IsPayToColdStaking_def MoneyRange_def hasExtraPayload_def
        IsCoinBase_def COutPoint_IsNull_def list_ex_iff)
  moreover have "value_out tx = 5"
    by (simp add: value_out_def tx_def SaplingTxData_default_def)
  ultimately show ?thesis
    using CheckTransaction_sound [of 1000000000000000 True 0 tx True True] by auto
qed

end
