(* ===== verification/Sig_Hash.thy ===== *)
theory Sig_Hash
  imports Transactions
begin

text \<open>
  Signature hashes and the checker that the interpreter calls back
  (\<^verbatim>\<open>src/script/interpreter.cpp\<close>, second half).  The BLAKE2b function of libsodium (with its
  personalization) and the signature verification of the curve library are arguments: \<open>blake2b\<close> and
  \<open>Verify\<close>.  \<open>None\<close> as a signature hash is the \<^verbatim>\<open>std::runtime_error\<close> that \<^verbatim>\<open>SignatureHash\<close> throws.  The hash
  type is a natural number, as it is read from a byte or passed as a constant.
\<close>

section \<open>The serializer of the original signature hash\<close>

abbreviation NOT_AN_INPUT :: nat where "NOT_AN_INPUT \<equiv> 0xffffffff"

definition UINT256_ZERO :: bytes where "UINT256_ZERO = replicate 32 0"
definition UINT256_ONE :: bytes where "UINT256_ONE = 1 # replicate 31 0"

text \<open>The first loop of \<^verbatim>\<open>SerializeScriptCode\<close> counts the separators, the second writes what lies between.\<close>

function count_separators :: "bytes \<Rightarrow> nat" where
  "count_separators it =
     (case GetOp2 it of
        (Some (opcode, _), it') \<Rightarrow> (if opcode = OP_CODESEPARATOR then 1 else 0) + count_separators it'
      | (None, _) \<Rightarrow> 0)"
  by pat_completeness auto
termination
  by (relation "measure length") (auto dest: GetOp2_shorter')

declare count_separators.simps [simp del]

function write_segments :: "bytes \<Rightarrow> bytes \<Rightarrow> bytes" where
  "write_segments itBegin it =
     (case GetOp2 it of
        (Some (opcode, _), it') \<Rightarrow>
          if opcode = OP_CODESEPARATOR
          then take (length itBegin - length it' - 1) itBegin @ write_segments it' it'
          else write_segments itBegin it'
      | (None, it') \<Rightarrow> if itBegin \<noteq> [] then take (length itBegin - length it') itBegin else [])"
  by pat_completeness auto
termination
  by (relation "measure (\<lambda>(b, it). length it)") (auto dest: GetOp2_shorter')

declare write_segments.simps [simp del]

definition SerializeScriptCode :: "bytes \<Rightarrow> bytes" where
  "SerializeScriptCode scriptCode =
     WriteCompactSize (length scriptCode - count_separators scriptCode) @
     write_segments scriptCode scriptCode"

definition fAnyoneCanPay :: "nat \<Rightarrow> bool" where
  "fAnyoneCanPay nHashType = (nHashType AND SIGHASH_ANYONECANPAY \<noteq> 0)"

definition fHashSingle :: "nat \<Rightarrow> bool" where
  "fHashSingle nHashType = (nHashType AND 0x1f = SIGHASH_SINGLE)"

definition fHashNone :: "nat \<Rightarrow> bool" where
  "fHashNone nHashType = (nHashType AND 0x1f = SIGHASH_NONE)"

definition SerializeInput :: "CTransaction \<Rightarrow> bytes \<Rightarrow> nat \<Rightarrow> nat \<Rightarrow> nat \<Rightarrow> bytes" where
  "SerializeInput txTo scriptCode nIn nHashType nInput0 =
     (let nInput = (if fAnyoneCanPay nHashType then nIn else nInput0) in
      Serialize_COutPoint (prevout (vin txTo ! nInput)) @
      (if nInput \<noteq> nIn then Serialize_bytes [] else SerializeScriptCode scriptCode) @
      (if nInput \<noteq> nIn \<and> (fHashSingle nHashType \<or> fHashNone nHashType)
       then Serialize_int32 0 else Serialize_uint32 (nSequence (vin txTo ! nInput))))"

definition SerializeOutput :: "CTransaction \<Rightarrow> nat \<Rightarrow> nat \<Rightarrow> nat \<Rightarrow> bytes" where
  "SerializeOutput txTo nIn nHashType nOutput =
     (if fHashSingle nHashType \<and> nOutput \<noteq> nIn then Serialize_CTxOut CTxOut_SetNull
      else Serialize_CTxOut (vout txTo ! nOutput))"

definition CTransactionSignatureSerializer :: "CTransaction \<Rightarrow> bytes \<Rightarrow> nat \<Rightarrow> nat \<Rightarrow> bytes" where
  "CTransactionSignatureSerializer txTo scriptCode nIn nHashType =
     (let nInputs = (if fAnyoneCanPay nHashType then 1 else length (vin txTo));
          nOutputs = (if fHashNone nHashType then 0
                      else if fHashSingle nHashType then nIn + 1 else length (vout txTo))
      in Serialize_int16 (nVersion txTo) @ Serialize_int16 (nType txTo) @
         WriteCompactSize nInputs @
         concat (map (SerializeInput txTo scriptCode nIn nHashType) [0..<nInputs]) @
         WriteCompactSize nOutputs @
         concat (map (SerializeOutput txTo nIn nHashType) [0..<nOutputs]) @
         Serialize_uint32 (nLockTime txTo))"

section \<open>The parts of the Sapling signature hash\<close>

definition chars :: "string \<Rightarrow> bytes" where
  "chars s = map (\<lambda>c. of_nat (of_char c)) s"

type_synonym blake2b = "bytes \<Rightarrow> bytes \<Rightarrow> bytes"

definition QRAX_PREVOUTS_HASH_PERSONALIZATION :: bytes where
  "QRAX_PREVOUTS_HASH_PERSONALIZATION = chars ''PIVXPrevoutHash'' @ [0]"

definition QRAX_SEQUENCE_HASH_PERSONALIZATION :: bytes where
  "QRAX_SEQUENCE_HASH_PERSONALIZATION = chars ''PIVXSequencHash'' @ [0]"

definition QRAX_OUTPUTS_HASH_PERSONALIZATION :: bytes where
  "QRAX_OUTPUTS_HASH_PERSONALIZATION = chars ''PIVXOutputsHash'' @ [0]"

definition QRAX_SHIELDED_SPENDS_HASH_PERSONALIZATION :: bytes where
  "QRAX_SHIELDED_SPENDS_HASH_PERSONALIZATION = chars ''PIVXSSpendsHash'' @ [0]"

definition QRAX_SHIELDED_OUTPUTS_HASH_PERSONALIZATION :: bytes where
  "QRAX_SHIELDED_OUTPUTS_HASH_PERSONALIZATION = chars ''PIVXSOutputHash'' @ [0]"

definition GetPrevoutHash :: "blake2b \<Rightarrow> CTransaction \<Rightarrow> bytes" where
  "GetPrevoutHash blake2b txTo =
     blake2b QRAX_PREVOUTS_HASH_PERSONALIZATION (concat (map (\<lambda>i. Serialize_COutPoint (prevout i)) (vin txTo)))"

definition GetSequenceHash :: "blake2b \<Rightarrow> CTransaction \<Rightarrow> bytes" where
  "GetSequenceHash blake2b txTo =
     blake2b QRAX_SEQUENCE_HASH_PERSONALIZATION (concat (map (\<lambda>i. Serialize_uint32 (nSequence i)) (vin txTo)))"

definition GetOutputsHash :: "blake2b \<Rightarrow> CTransaction \<Rightarrow> bytes" where
  "GetOutputsHash blake2b txTo =
     blake2b QRAX_OUTPUTS_HASH_PERSONALIZATION (concat (map Serialize_CTxOut (vout txTo)))"

definition GetShieldedSpendsHash :: "blake2b \<Rightarrow> SaplingTxData \<Rightarrow> bytes" where
  "GetShieldedSpendsHash blake2b d =
     blake2b QRAX_SHIELDED_SPENDS_HASH_PERSONALIZATION
       (concat (map (\<lambda>n. sd_cv n @ sd_anchor n @ sd_nullifier n @ sd_rk n @ sd_zkproof n) (vShieldedSpend d)))"

definition GetShieldedOutputsHash :: "blake2b \<Rightarrow> SaplingTxData \<Rightarrow> bytes" where
  "GetShieldedOutputsHash blake2b d =
     blake2b QRAX_SHIELDED_OUTPUTS_HASH_PERSONALIZATION
       (concat (map Serialize_OutputDescription (vShieldedOutput d)))"

record precomputed =
  hashPrevouts :: bytes
  hashSequence :: bytes
  hashOutputs :: bytes
  hashShieldedSpends :: bytes
  hashShieldedOutputs :: bytes

definition PrecomputedTransactionData :: "blake2b \<Rightarrow> CTransaction \<Rightarrow> precomputed" where
  "PrecomputedTransactionData blake2b txTo =
     \<lparr>hashPrevouts = GetPrevoutHash blake2b txTo, hashSequence = GetSequenceHash blake2b txTo,
      hashOutputs = GetOutputsHash blake2b txTo,
      hashShieldedSpends =
        (case sapData txTo of Some d \<Rightarrow> GetShieldedSpendsHash blake2b d | None \<Rightarrow> UINT256_ZERO),
      hashShieldedOutputs =
        (case sapData txTo of Some d \<Rightarrow> GetShieldedOutputsHash blake2b d | None \<Rightarrow> UINT256_ZERO)\<rparr>"

section \<open>SignatureHash\<close>

text \<open>\<^verbatim>\<open>cache ? cache->field : Compute(txTo)\<close>\<close>

definition cached :: "precomputed option \<Rightarrow> (precomputed \<Rightarrow> bytes) \<Rightarrow> bytes \<Rightarrow> bytes" where
  "cached cache field computed = (case cache of Some c \<Rightarrow> field c | None \<Rightarrow> computed)"

definition sapling_preimage ::
    "blake2b \<Rightarrow> bytes \<Rightarrow> CTransaction \<Rightarrow> nat \<Rightarrow> nat \<Rightarrow> int \<Rightarrow> precomputed option \<Rightarrow> bytes" where
  "sapling_preimage blake2b scriptCode txTo nIn nHashType amount cache =
     (let prevouts =
            (if \<not> fAnyoneCanPay nHashType then cached cache hashPrevouts (GetPrevoutHash blake2b txTo)
             else UINT256_ZERO);
          sequences =
            (if \<not> fAnyoneCanPay nHashType \<and> \<not> fHashSingle nHashType \<and> \<not> fHashNone nHashType
             then cached cache hashSequence (GetSequenceHash blake2b txTo) else UINT256_ZERO);
          outputs =
            (if \<not> fHashSingle nHashType \<and> \<not> fHashNone nHashType
             then cached cache hashOutputs (GetOutputsHash blake2b txTo)
             else if fHashSingle nHashType \<and> nIn < length (vout txTo)
             then blake2b QRAX_OUTPUTS_HASH_PERSONALIZATION (Serialize_CTxOut (vout txTo ! nIn))
             else UINT256_ZERO);
          shielded =
            (case sapData txTo of
               None \<Rightarrow> []
             | Some d \<Rightarrow>
                 if vShieldedSpend d = [] \<and> vShieldedOutput d = [] then []
                 else (if vShieldedSpend d \<noteq> []
                       then cached cache hashShieldedSpends (GetShieldedSpendsHash blake2b d) else UINT256_ZERO) @
                      (if vShieldedOutput d \<noteq> []
                       then cached cache hashShieldedOutputs (GetShieldedOutputsHash blake2b d) else UINT256_ZERO) @
                      Serialize_int64 (valueBalance d));
          inp =
            (if nIn \<noteq> NOT_AN_INPUT
             then Serialize_COutPoint (prevout (vin txTo ! nIn)) @ Serialize_bytes scriptCode @
                  Serialize_int64 amount @ Serialize_uint32 (nSequence (vin txTo ! nIn))
             else []);
          payload = (if IsSpecialTx txTo then Serialize_bytes (the (extraPayload txTo)) else [])
      in Serialize_int16 (nVersion txTo) @ Serialize_int16 (nType txTo) @ prevouts @ sequences @ outputs @
         shielded @ inp @ payload @ Serialize_uint32 (nLockTime txTo) @ Serialize_int32 (int nHashType))"

definition SignatureHash ::
    "blake2b \<Rightarrow> bytes \<Rightarrow> CTransaction \<Rightarrow> nat \<Rightarrow> nat \<Rightarrow> int \<Rightarrow> SigVersion \<Rightarrow> precomputed option \<Rightarrow> bytes option" where
  "SignatureHash blake2b scriptCode txTo nIn nHashType amount sigversion cache =
     (if nIn \<ge> length (vin txTo) \<and> nIn \<noteq> NOT_AN_INPUT then Some UINT256_ONE
      else if isSaplingVersion txTo \<and> sigversion \<noteq> SIGVERSION_SAPLING then None
      else if sigversion = SIGVERSION_SAPLING
      then Some (blake2b (chars ''QRAXSigHash'' @ [0] @ le_encode 4 0)
             (sapling_preimage blake2b scriptCode txTo nIn nHashType amount cache))
      else if fHashSingle nHashType \<and> nIn \<ge> length (vout txTo) then Some UINT256_ONE
      else Some (Hash256 (CTransactionSignatureSerializer txTo scriptCode nIn nHashType @
             Serialize_int32 (int nHashType))))"

section \<open>The transaction signature checker\<close>

definition GetLen :: "byte \<Rightarrow> nat" where
  "GetLen chHeader =
     (if chHeader = 2 \<or> chHeader = 3 then COMPRESSED_PUBLIC_KEY_SIZE
      else if chHeader = 4 \<or> chHeader = 6 \<or> chHeader = 7 then PUBLIC_KEY_SIZE
      else 0)"

text \<open>\<^verbatim>\<open>CPubKey(vch).IsValid()\<close>: the constructor invalidates a key of the wrong length.\<close>

definition CPubKey_IsValid :: "bytes \<Rightarrow> bool" where
  "CPubKey_IsValid vch =
     (let len = (case vch of [] \<Rightarrow> 0 | h # _ \<Rightarrow> GetLen h) in len \<noteq> 0 \<and> len = length vch)"

definition tx_CheckSig ::
    "blake2b \<Rightarrow> (bytes \<Rightarrow> bytes \<Rightarrow> bytes \<Rightarrow> bool) \<Rightarrow> CTransaction \<Rightarrow> nat \<Rightarrow> int \<Rightarrow> precomputed option \<Rightarrow>
     bytes \<Rightarrow> bytes \<Rightarrow> bytes \<Rightarrow> SigVersion \<Rightarrow> bool option" where
  "tx_CheckSig blake2b Verify txTo nIn amount precomTxData vchSigIn vchPubKey scriptCode sigversion =
     (if \<not> CPubKey_IsValid vchPubKey then Some False
      else if vchSigIn = [] then Some False
      else let nHashType = unat (last vchSigIn); vchSig = butlast vchSigIn in
        case SignatureHash blake2b scriptCode txTo nIn nHashType amount sigversion precomTxData of
          None \<Rightarrow> None
        | Some sighash \<Rightarrow> Some (Verify vchPubKey sighash vchSig))"

definition tx_CheckLockTime :: "CTransaction \<Rightarrow> nat \<Rightarrow> int \<Rightarrow> bool" where
  "tx_CheckLockTime txTo nIn lockTime =
     (if \<not> ((int (nLockTime txTo) < LOCKTIME_THRESHOLD \<and> lockTime < LOCKTIME_THRESHOLD) \<or>
            (int (nLockTime txTo) \<ge> LOCKTIME_THRESHOLD \<and> lockTime \<ge> LOCKTIME_THRESHOLD))
      then False
      else if lockTime > int (nLockTime txTo) then False
      else if CTxIn_IsFinal (vin txTo ! nIn) then False
      else True)"

text \<open>The loop over the outputs from index 1 on; \<open>outs\<close> is the number of outputs.\<close>

fun coldstake_outputs :: "bytes \<Rightarrow> nat \<Rightarrow> nat \<Rightarrow> CTxOut list \<Rightarrow> int \<Rightarrow> ScriptError + int" where
  "coldstake_outputs prevoutScript outs i [] outValue = Inr outValue"
| "coldstake_outputs prevoutScript outs i (txout # rest) outValue =
     (if scriptPubKey txout \<noteq> prevoutScript
      then if i \<noteq> outs - 1 \<or> outs < 3 then Inl SCRIPT_ERR_CHECKCOLDSTAKEVERIFY
           else coldstake_outputs prevoutScript outs (i + 1) rest outValue
      else coldstake_outputs prevoutScript outs (i + 1) rest (wrap64 (outValue + nValue txout)))"

text \<open>The checks on the stack under the new rules: \<^verbatim>\<open><sig> <pk> <pkh>\<close>, read from the bottom.\<close>

definition coldstake_stack :: "(bytes \<Rightarrow> bool) \<Rightarrow> stack \<Rightarrow> script_flags \<Rightarrow> ScriptError option" where
  "coldstake_stack CheckLowS st flags =
     (case st of
        [vchPubKeyHash, vchPubKey, vchSig] \<Rightarrow>
          (case CheckSignatureEncoding CheckLowS vchSig flags of
             Some e \<Rightarrow> Some e
           | None \<Rightarrow>
               (case CheckPubKeyEncoding vchPubKey flags of
                  Some e \<Rightarrow> Some e
                | None \<Rightarrow> if length vchPubKeyHash \<noteq> 20 then Some SCRIPT_ERR_SCRIPT_SIZE else None))
      | _ \<Rightarrow> Some SCRIPT_ERR_INVALID_STACK_OPERATION)"

definition tx_CheckColdStake ::
    "(bytes \<Rightarrow> bool) \<Rightarrow> bool \<Rightarrow> CTransaction \<Rightarrow> int \<Rightarrow> bytes \<Rightarrow> stack \<Rightarrow> script_flags \<Rightarrow> ScriptError option" where
  "tx_CheckColdStake CheckLowS g_newP2CSRules txTo amount prevoutScript st flags =
     (case (if g_newP2CSRules then coldstake_stack CheckLowS st flags else None) of
        Some e \<Rightarrow> Some e
      | None \<Rightarrow>
          if \<not> IsCoinStake txTo then Some SCRIPT_ERR_CHECKCOLDSTAKEVERIFY
          else if length (vin txTo) \<noteq> 1 then Some SCRIPT_ERR_CHECKCOLDSTAKEVERIFY
          else case coldstake_outputs prevoutScript (length (vout txTo)) 1 (drop 1 (vout txTo)) 0 of
            Inl e \<Rightarrow> Some e
          | Inr outValue \<Rightarrow> if outValue < amount then Some SCRIPT_ERR_CHECKCOLDSTAKEVERIFY else None)"

definition TransactionSignatureChecker ::
    "blake2b \<Rightarrow> (bytes \<Rightarrow> bytes \<Rightarrow> bytes \<Rightarrow> bool) \<Rightarrow> (bytes \<Rightarrow> bool) \<Rightarrow> bool \<Rightarrow> CTransaction \<Rightarrow> nat \<Rightarrow> int \<Rightarrow>
     precomputed option \<Rightarrow> sig_checker" where
  "TransactionSignatureChecker blake2b Verify CheckLowS g_newP2CSRules txTo nIn amount precomTxData =
     \<lparr>CheckSig = tx_CheckSig blake2b Verify txTo nIn amount precomTxData,
      CheckLockTime = tx_CheckLockTime txTo nIn,
      CheckColdStake = tx_CheckColdStake CheckLowS g_newP2CSRules txTo amount\<rparr>"

section \<open>The script code without its separators\<close>

function strip_separators :: "bytes \<Rightarrow> bytes" where
  "strip_separators it =
     (case GetOp2 it of
        (Some (opcode, _), it') \<Rightarrow>
          (if opcode = OP_CODESEPARATOR then [] else take (length it - length it') it) @ strip_separators it'
      | (None, _) \<Rightarrow> [])"
  by pat_completeness auto
termination
  by (relation "measure length") (auto dest: GetOp2_shorter')

declare strip_separators.simps [simp del]

lemma GetOp2_CODESEPARATOR: "GetOp2 it = (Some (OP_CODESEPARATOR, vch), it') \<Longrightarrow> it = OP_CODESEPARATOR # it'"
  by (cases it) (auto simp: GetOp2_def split: if_splits option.splits prod.splits)

lemma parse_ops_step:
  assumes "parse_ops it = Some ops" "it \<noteq> []"
  obtains opcode vch it' ops' where "GetOp2 it = (Some (opcode, vch), it')" "parse_ops it' = Some ops'"
  using assms by (auto simp: parse_ops.simps [of it] split: option.splits prod.splits)

lemma length_strip_separators:
  "parse_ops it = Some ops \<Longrightarrow> length (strip_separators it) + count_separators it = length it"
proof (induction it arbitrary: ops rule: strip_separators.induct)
  case (1 it)
  show ?case
  proof (cases "it = []")
    case True
    then show ?thesis
      by (simp add: strip_separators.simps [of "[]"] count_separators.simps [of "[]"])
  next
    case False
    then obtain opcode vch it' ops' where g: "GetOp2 it = (Some (opcode, vch), it')" "parse_ops it' = Some ops'"
      using parse_ops_step [OF "1.prems"] by blast
    have IH: "length (strip_separators it') + count_separators it' = length it'"
      using "1.IH" [OF g(1) [symmetric] refl refl g(2)] .
    show ?thesis
      using IH g(1) GetOp2_shorter [OF g(1)] GetOp2_CODESEPARATOR [of it vch it']
      by (auto simp: strip_separators.simps [of it] count_separators.simps [of it])
  qed
qed

lemma write_segments_strip:
  "parse_ops it = Some ops \<Longrightarrow> it = drop k b \<Longrightarrow> k \<le> length b \<Longrightarrow>
   write_segments b it = take k b @ strip_separators it"
proof (induction b it arbitrary: k ops rule: write_segments.induct)
  case (1 b it)
  show ?case
  proof (cases "it = []")
    case True
    with "1.prems" show ?thesis
      using write_segments.simps [of b "[]"] strip_separators.simps [of "[]"] by auto
  next
    case False
    then obtain opcode vch it' ops' where g: "GetOp2 it = (Some (opcode, vch), it')" "parse_ops it' = Some ops'"
      using parse_ops_step [OF "1.prems"(1)] by blast
    obtain j where j: "it' = drop j it" "j \<le> length it"
      using GetOp2_drop [OF g(1)] by blast
    have k: "k + length it = length b"
      using "1.prems" by simp
    show ?thesis
    proof (cases "opcode = OP_CODESEPARATOR")
      case True
      then have "length b - length it' - 1 = k"
        using g(1) GetOp2_CODESEPARATOR [of it vch it'] k by auto
      moreover have "write_segments it' it' = strip_separators it'"
        using "1.IH"(1) [OF g(1) [symmetric] refl refl True g(2), of 0] by simp
      ultimately show ?thesis
        using g(1) True by (simp add: write_segments.simps [of b it] strip_separators.simps [of it])
    next
      case no: False
      have "write_segments b it' = take (k + j) b @ strip_separators it'"
        using "1.prems" j k by (intro "1.IH"(2) [OF g(1) [symmetric] refl refl no g(2)]) (simp_all add: add.commute)
      moreover have "take (k + j) b = take k b @ take (length it - length it') it"
      proof -
        have "length it - length it' = j"
          using j by simp
        then show ?thesis
          using "1.prems"(2) by (simp add: take_add)
      qed
      ultimately show ?thesis
        using g(1) no by (simp add: write_segments.simps [of b it] strip_separators.simps [of it])
    qed
  qed
qed

lemma SerializeScriptCode_strip:
  assumes "parse_ops code = Some ops"
  shows "SerializeScriptCode code = Serialize_bytes (strip_separators code)"
proof -
  have "length code - count_separators code = length (strip_separators code)"
    using length_strip_separators [OF assms] by simp
  moreover have "write_segments code code = strip_separators code"
    using write_segments_strip [OF assms, of 0] by simp
  ultimately show ?thesis
    by (simp add: SerializeScriptCode_def Serialize_bytes_def)
qed

section \<open>What SIGHASH-ALL commits to\<close>

definition signed_inputs :: "CTransaction \<Rightarrow> bytes \<Rightarrow> nat \<Rightarrow> CTxIn list" where
  "signed_inputs tx code nIn =
     map (\<lambda>i. (vin tx ! i)\<lparr>scriptSig := if i = nIn then strip_separators code else []\<rparr>) [0..<length (vin tx)]"

lemma sighash_all_flags: "\<not> fAnyoneCanPay (Suc 0)" "\<not> fHashSingle (Suc 0)" "\<not> fHashNone (Suc 0)"
  by (simp_all add: fAnyoneCanPay_def fHashSingle_def fHashNone_def)

lemma length_signed_inputs [simp]: "length (signed_inputs tx code nIn) = length (vin tx)"
  by (simp add: signed_inputs_def)

lemma serializer_ALL:
  assumes "parse_ops code = Some ops"
  shows "CTransactionSignatureSerializer tx code nIn SIGHASH_ALL =
    Serialize_int16 (nVersion tx) @ Serialize_int16 (nType tx) @
    Serialize_vector Serialize_CTxIn (signed_inputs tx code nIn) @
    Serialize_vector Serialize_CTxOut (vout tx) @ Serialize_uint32 (nLockTime tx)"
proof -
  have "map (SerializeInput tx code nIn SIGHASH_ALL) [0..<length (vin tx)] =
      map Serialize_CTxIn (signed_inputs tx code nIn)"
    by (simp add: signed_inputs_def SerializeInput_def sighash_all_flags Serialize_CTxIn_def
        SerializeScriptCode_strip [OF assms] Let_def)
  moreover have "map (SerializeOutput tx nIn SIGHASH_ALL) [0..<length (vout tx)] = map Serialize_CTxOut (vout tx)"
    by (rule nth_equalityI) (simp_all add: SerializeOutput_def sighash_all_flags)
  ultimately show ?thesis
    by (simp add: CTransactionSignatureSerializer_def sighash_all_flags Serialize_vector_def Let_def)
qed

lemma vector_ser_inject:
  assumes "codec ser unser ok" "list_all ok xs" "list_all ok ys" "length xs \<le> MAX_SIZE" "length ys \<le> MAX_SIZE"
    "Serialize_vector ser xs @ s = Serialize_vector ser ys @ t"
  shows "xs = ys \<and> s = t"
  using codec.vector_unser_ser [OF assms(1,2,4), of s] codec.vector_unser_ser [OF assms(1,3,5), of t]
  unfolding assms(6) by (metis option.inject prod.inject)

lemma signed_inputs_ok:
  assumes "CTransaction_ok tx" "length code \<le> MAX_SIZE" "parse_ops code = Some ops"
  shows "list_all CTxIn_ok (signed_inputs tx code nIn)" "length (signed_inputs tx code nIn) \<le> MAX_SIZE"
proof -
  have "length (strip_separators code) \<le> MAX_SIZE"
    using length_strip_separators [OF assms(3)] assms(2) by simp
  then show "list_all CTxIn_ok (signed_inputs tx code nIn)"
    using assms(1) by (auto simp: signed_inputs_def CTransaction_ok_def list_all_iff CTxIn_ok_def)
  show "length (signed_inputs tx code nIn) \<le> MAX_SIZE"
    using assms(1) by (simp add: signed_inputs_def CTransaction_ok_def)
qed

lemma signed_inputs_eq:
  assumes "signed_inputs tx1 code1 n1 = signed_inputs tx2 code2 n2" "n1 < length (vin tx1)"
    "strip_separators code1 \<noteq> []"
  shows "map prevout (vin tx1) = map prevout (vin tx2) \<and> map nSequence (vin tx1) = map nSequence (vin tx2) \<and>
    n1 = n2 \<and> strip_separators code1 = strip_separators code2"
proof -
  have l: "length (vin tx1) = length (vin tx2)"
    using arg_cong [OF assms(1), of length] by (simp add: signed_inputs_def)
  have i: "(vin tx1 ! i)\<lparr>scriptSig := if i = n1 then strip_separators code1 else []\<rparr> =
      (vin tx2 ! i)\<lparr>scriptSig := if i = n2 then strip_separators code2 else []\<rparr>" if "i < length (vin tx1)" for i
    using arg_cong [OF assms(1), of "\<lambda>xs. xs ! i"] that l by (simp add: signed_inputs_def)
  have "prevout (vin tx1 ! i) = prevout (vin tx2 ! i)" "nSequence (vin tx1 ! i) = nSequence (vin tx2 ! i)"
    if "i < length (vin tx1)" for i
    using arg_cong [OF i [OF that], of prevout] arg_cong [OF i [OF that], of nSequence] by simp_all
  moreover have "n1 = n2 \<and> strip_separators code1 = strip_separators code2"
    using arg_cong [OF i [OF assms(2)], of scriptSig] assms(3) by (auto split: if_splits)
  ultimately show ?thesis
    using l by (auto simp: list_eq_iff_nth_eq)
qed

text \<open>A small transaction for the examples.\<close>

definition example_tx :: CTransaction where
  "example_tx = \<lparr>nVersion = 1, nType = 0,
     vin = [\<lparr>prevout = \<lparr>outpoint_hash = replicate 32 7, outpoint_n = 1\<rparr>, scriptSig = [], nSequence = 5\<rparr>],
     vout = [\<lparr>nValue = 5, scriptPubKey = [OP_1], nRounds = - 10\<rparr>], nLockTime = 600,
     sapData = Some SaplingTxData_default, extraPayload = None, walletSenderId = replicate 20 0\<rparr>"

lemma example_tx_ok: "CTransaction_ok example_tx"
  by (simp add: example_tx_def CTransaction_ok_def CTxIn_ok_def CTxOut_ok_def COutPoint_ok_def
      isSaplingVersion_def IsNormalType_def MAX_SIZE_def)

section \<open>Properties\<close>

text \<open>
  C29. What a \<^verbatim>\<open>SIGHASH_ALL\<close> signature of the original version commits to: two well-formed transactions with
  the same bytes under the hash, for script codes that parse to their end and have more than separators in them, have the
  same version, type, outpoints, sequence numbers, outputs and lock time, and sign the same input for script codes that
  are the same once every \<^verbatim>\<open>OP_CODESEPARATOR\<close> is removed.  The separators themselves are not committed to.
\<close>

theorem SIGHASH_ALL_commits:
  assumes "CTransactionSignatureSerializer tx1 code1 n1 SIGHASH_ALL = CTransactionSignatureSerializer tx2 code2 n2 SIGHASH_ALL"
    and "CTransaction_ok tx1" and "CTransaction_ok tx2"
    and "length code1 \<le> MAX_SIZE" and "length code2 \<le> MAX_SIZE"
    and "parse_ops code1 = Some ops1" and "parse_ops code2 = Some ops2"
    and "n1 < length (vin tx1)" and "strip_separators code1 \<noteq> []"
  shows "nVersion tx1 = nVersion tx2 \<and> nType tx1 = nType tx2 \<and> vout tx1 = vout tx2 \<and>
    nLockTime tx1 = nLockTime tx2 \<and> map prevout (vin tx1) = map prevout (vin tx2) \<and>
    map nSequence (vin tx1) = map nSequence (vin tx2) \<and> n1 = n2 \<and>
    strip_separators code1 = strip_separators code2"
proof -
  note ok1 = assms(2) [unfolded CTransaction_ok_def] and ok2 = assms(3) [unfolded CTransaction_ok_def]
  note eq = assms(1) [unfolded serializer_ALL [OF assms(6)] serializer_ALL [OF assms(7)]]
  from int16.ser_inject [OF _ _ eq] ok1 ok2
  have v: "nVersion tx1 = nVersion tx2" and eq2: "Serialize_int16 (nType tx1) @
      Serialize_vector Serialize_CTxIn (signed_inputs tx1 code1 n1) @
      Serialize_vector Serialize_CTxOut (vout tx1) @ Serialize_uint32 (nLockTime tx1) =
    Serialize_int16 (nType tx2) @ Serialize_vector Serialize_CTxIn (signed_inputs tx2 code2 n2) @
      Serialize_vector Serialize_CTxOut (vout tx2) @ Serialize_uint32 (nLockTime tx2)"
    by auto
  from int16.ser_inject [OF _ _ eq2] ok1 ok2
  have t: "nType tx1 = nType tx2" and eq3: "Serialize_vector Serialize_CTxIn (signed_inputs tx1 code1 n1) @
      Serialize_vector Serialize_CTxOut (vout tx1) @ Serialize_uint32 (nLockTime tx1) =
    Serialize_vector Serialize_CTxIn (signed_inputs tx2 code2 n2) @
      Serialize_vector Serialize_CTxOut (vout tx2) @ Serialize_uint32 (nLockTime tx2)"
    by auto
  from vector_ser_inject [OF txin.codec_axioms signed_inputs_ok(1) [OF assms(2,4,6)]
      signed_inputs_ok(1) [OF assms(3,5,7)] signed_inputs_ok(2) [OF assms(2,4,6)]
      signed_inputs_ok(2) [OF assms(3,5,7)] eq3]
  have i: "signed_inputs tx1 code1 n1 = signed_inputs tx2 code2 n2" and eq4:
    "Serialize_vector Serialize_CTxOut (vout tx1) @ Serialize_uint32 (nLockTime tx1) =
     Serialize_vector Serialize_CTxOut (vout tx2) @ Serialize_uint32 (nLockTime tx2)"
    by auto
  from vector_ser_inject [OF txout.codec_axioms _ _ _ _ eq4] ok1 ok2
  have o: "vout tx1 = vout tx2" "Serialize_uint32 (nLockTime tx1) = Serialize_uint32 (nLockTime tx2)"
    by auto
  have "nLockTime tx1 = nLockTime tx2"
    using uint32.ser_inject [of "nLockTime tx1" "nLockTime tx2" "[]" "[]"] o(2) ok1 ok2 by simp
  with v t o signed_inputs_eq [OF i assms(8,9)] show ?thesis
    by blast
qed

theorem SIGHASH_ALL_commits_witness:
  "CTransactionSignatureSerializer example_tx [OP_CODESEPARATOR, OP_CHECKSIG] 0 SIGHASH_ALL =
     CTransactionSignatureSerializer (example_tx\<lparr>walletSenderId := replicate 20 1\<rparr>) [OP_CHECKSIG] 0 SIGHASH_ALL \<and>
   strip_separators [OP_CODESEPARATOR, OP_CHECKSIG] = strip_separators [OP_CHECKSIG] \<and>
   vout example_tx = vout (example_tx\<lparr>walletSenderId := replicate 20 1\<rparr>)"
proof -
  let ?tx = "example_tx\<lparr>walletSenderId := replicate 20 1\<rparr>"
  have p: "\<exists>ops. parse_ops [OP_CODESEPARATOR, OP_CHECKSIG] = Some ops" "\<exists>ops. parse_ops [OP_CHECKSIG] = Some ops"
    by (simp_all add: parse_ops.simps GetOp2_def)
  have s: "strip_separators [OP_CODESEPARATOR, OP_CHECKSIG] = [OP_CHECKSIG]" "strip_separators [OP_CHECKSIG] = [OP_CHECKSIG]"
    by (simp_all add: strip_separators.simps GetOp2_def)
  have e: "CTransactionSignatureSerializer example_tx [OP_CODESEPARATOR, OP_CHECKSIG] 0 SIGHASH_ALL =
      CTransactionSignatureSerializer ?tx [OP_CHECKSIG] 0 SIGHASH_ALL"
    using p by (auto simp: serializer_ALL [simplified] signed_inputs_def s example_tx_def)
  have "CTransaction_ok ?tx"
    using example_tx_ok by (simp add: CTransaction_ok_def isSaplingVersion_def IsNormalType_def)
  with SIGHASH_ALL_commits [OF e example_tx_ok] p have "vout example_tx = vout ?tx"
    by (auto simp: MAX_SIZE_def s example_tx_def)
  then show ?thesis
    using e s by simp
qed

text \<open>
  Precomputing the hashes of a transaction changes no signature hash.
\<close>

theorem SignatureHash_cache:
  "SignatureHash blake2b scriptCode txTo nIn nHashType amount sigversion
     (Some (PrecomputedTransactionData blake2b txTo)) =
   SignatureHash blake2b scriptCode txTo nIn nHashType amount sigversion None"
  by (auto simp: SignatureHash_def sapling_preimage_def cached_def PrecomputedTransactionData_def
      split: option.split)

text \<open>
  C30. No signature hash, of either version and of any type, covers the \<^verbatim>\<open>scriptSig\<close> of an input or the
  \<^verbatim>\<open>walletSenderId\<close> that every transaction carries on the wire and in its id: both can be replaced in a
  signed transaction without invalidating a signature.
\<close>

theorem SignatureHash_ignores:
  assumes "nIn < length (vin txTo)"
  shows "SignatureHash blake2b scriptCode
      (txTo\<lparr>walletSenderId := sender, vin := map (\<lambda>i. i\<lparr>scriptSig := f i\<rparr>) (vin txTo)\<rparr>)
      nIn nHashType amount sigversion None =
    SignatureHash blake2b scriptCode txTo nIn nHashType amount sigversion None \<and>
    (\<exists>body. \<forall>s. SerializeTransaction (txTo\<lparr>walletSenderId := s\<rparr>) = body @ s)"
proof
  let ?tx = "txTo\<lparr>walletSenderId := sender, vin := map (\<lambda>i. i\<lparr>scriptSig := f i\<rparr>) (vin txTo)\<rparr>"
  have i: "map (SerializeInput ?tx scriptCode nIn nHashType) [0..<n] =
      map (SerializeInput txTo scriptCode nIn nHashType) [0..<n]" if "n \<le> length (vin txTo)" for n
    using that assms by (auto simp: SerializeInput_def Let_def)
  have o: "SerializeOutput ?tx nIn nHashType = SerializeOutput txTo nIn nHashType"
    by (simp add: SerializeOutput_def fun_eq_iff)
  have "1 \<le> length (vin txTo)"
    using assms by linarith
  then have s: "CTransactionSignatureSerializer ?tx scriptCode nIn nHashType =
      CTransactionSignatureSerializer txTo scriptCode nIn nHashType"
    by (simp add: CTransactionSignatureSerializer_def Let_def o i del: upt_Suc)
  have h: "GetPrevoutHash blake2b ?tx = GetPrevoutHash blake2b txTo"
    "GetSequenceHash blake2b ?tx = GetSequenceHash blake2b txTo" "GetOutputsHash blake2b ?tx = GetOutputsHash blake2b txTo"
    by (simp_all add: GetPrevoutHash_def GetSequenceHash_def GetOutputsHash_def comp_def)
  have "sapling_preimage blake2b scriptCode ?tx nIn nHashType amount None =
      sapling_preimage blake2b scriptCode txTo nIn nHashType amount None"
    unfolding sapling_preimage_def h using assms
    by (simp add: IsSpecialTx_def isSaplingVersion_def hasExtraPayload_def cong: if_cong)
  with s show "SignatureHash blake2b scriptCode ?tx nIn nHashType amount sigversion None =
      SignatureHash blake2b scriptCode txTo nIn nHashType amount sigversion None"
    by (simp add: SignatureHash_def isSaplingVersion_def)
  show "\<exists>body. \<forall>s. SerializeTransaction (txTo\<lparr>walletSenderId := s\<rparr>) = body @ s"
    by (rule exI [of _ "Serialize_int16 (nVersion txTo) @ Serialize_int16 (nType txTo) @
        Serialize_vector Serialize_CTxIn (vin txTo) @ Serialize_vector Serialize_CTxOut (vout txTo) @
        Serialize_uint32 (nLockTime txTo) @
        (if isSaplingVersion txTo
         then Serialize_optional Serialize_SaplingTxData (sapData txTo) @
              (if \<not> IsNormalType txTo then Serialize_optional Serialize_bytes (extraPayload txTo) else [])
         else [])"])
      (simp add: SerializeTransaction_def isSaplingVersion_def IsNormalType_def)
qed

theorem SignatureHash_ignores_witness:
  "SignatureHash (\<lambda>_ _. []) [OP_CHECKSIG] (example_tx\<lparr>walletSenderId := replicate 20 1\<rparr>) 0 SIGHASH_ALL 5
     SIGVERSION_BASE None =
   SignatureHash (\<lambda>_ _. []) [OP_CHECKSIG] example_tx 0 SIGHASH_ALL 5 SIGVERSION_BASE None \<and>
   CTransaction_ok (example_tx\<lparr>walletSenderId := replicate 20 1\<rparr>)"
proof -
  have "vin example_tx = map (\<lambda>i. i\<lparr>scriptSig := []\<rparr>) (vin example_tx)"
    by (simp add: example_tx_def)
  then have "example_tx\<lparr>walletSenderId := replicate 20 1, vin := map (\<lambda>i. i\<lparr>scriptSig := []\<rparr>) (vin example_tx)\<rparr> =
      example_tx\<lparr>walletSenderId := replicate 20 1\<rparr>"
    by (simp add: example_tx_def)
  moreover have "0 < length (vin example_tx)"
    by (simp add: example_tx_def)
  ultimately show ?thesis
    using SignatureHash_ignores [of 0 example_tx "\<lambda>_ _. []" "[OP_CHECKSIG]" "\<lambda>_. []" "replicate 20 1" SIGHASH_ALL 5
        SIGVERSION_BASE] example_tx_ok
    by (simp add: CTransaction_ok_def isSaplingVersion_def IsNormalType_def)
qed

text \<open>
  C31. \<^verbatim>\<open>OP_CHECKLOCKTIMEVERIFY\<close> does what it is for: when the checker accepts a lock time for an input, the
  transaction is final only in blocks above that height, or with a block time after that time.
\<close>

theorem CLTV_enforced:
  assumes "tx_CheckLockTime tx nIn lockTime" and "nIn < length (vin tx)" and "0 < lockTime"
    and "IsFinalTx adjustedTime tx nBlockHeight nBlockTime" and "nBlockTime \<noteq> 0"
  shows "if lockTime < LOCKTIME_THRESHOLD then lockTime < nBlockHeight else lockTime < nBlockTime"
proof -
  have l: "lockTime \<le> int (nLockTime tx)"
    "int (nLockTime tx) < LOCKTIME_THRESHOLD \<longleftrightarrow> lockTime < LOCKTIME_THRESHOLD"
    "\<not> CTxIn_IsFinal (vin tx ! nIn)"
    using assms(1) by (auto simp: tx_CheckLockTime_def split: if_splits)
  then have "\<not> list_all CTxIn_IsFinal (vin tx)" "nLockTime tx \<noteq> 0"
    using assms(2,3) by (auto simp: list_all_length)
  then show ?thesis
    using assms(4,5) l by (auto simp: IsFinalTx_def split: if_splits)
qed

theorem CLTV_enforced_witness:
  "tx_CheckLockTime example_tx 0 500 \<and> IsFinalTx 0 example_tx 601 7 \<and> (500 :: int) < 601"
proof -
  have "tx_CheckLockTime example_tx 0 500" "IsFinalTx 0 example_tx 601 7"
    by (simp_all add: tx_CheckLockTime_def IsFinalTx_def example_tx_def LOCKTIME_THRESHOLD_def CTxIn_IsFinal_def)
  with CLTV_enforced [of example_tx 0 500 0 601 7] show ?thesis
    by (simp add: example_tx_def LOCKTIME_THRESHOLD_def)
qed

end
