(* ===== verification/Script_Standard.thy ===== *)
theory Script_Standard
  imports Sig_Hash
begin

text \<open>
  The standard output scripts (\<^verbatim>\<open>src/script/standard.cpp\<close>): the templates, the solver that recognises them
  and the destinations they pay to; and what the interpreter makes of spends of the key-hash and of
  the cold-staking templates.  \<^verbatim>\<open>Solver\<close> returns \<open>None\<close> for \<^verbatim>\<open>false\<close>.
\<close>

section \<open>Templates\<close>

datatype txnouttype =
    TX_NONSTANDARD | TX_PUBKEY | TX_PUBKEYHASH | TX_SCRIPTHASH | TX_MULTISIG | TX_NULL_DATA
  | TX_COLDSTAKE | TX_ASSETSMINT | TX_DPOSASSETMINT

datatype CTxDestination = CNoDestination | CKeyID bytes | CScriptID bytes

fun GetTxnOutputType :: "txnouttype \<Rightarrow> string" where
  "GetTxnOutputType TX_NONSTANDARD = ''nonstandard''"
| "GetTxnOutputType TX_PUBKEY = ''pubkey''"
| "GetTxnOutputType TX_PUBKEYHASH = ''pubkeyhash''"
| "GetTxnOutputType TX_SCRIPTHASH = ''scripthash''"
| "GetTxnOutputType TX_MULTISIG = ''multisig''"
| "GetTxnOutputType TX_COLDSTAKE = ''coldstake''"
| "GetTxnOutputType TX_NULL_DATA = ''nulldata''"
| "GetTxnOutputType TX_ASSETSMINT = ''assetsmmint''"
| "GetTxnOutputType TX_DPOSASSETMINT = ''dposassetsmint''"

fun GetScriptForDestination :: "CTxDestination \<Rightarrow> bytes" where
  "GetScriptForDestination CNoDestination = []"
| "GetScriptForDestination (CKeyID keyID) =
     push_opcode (push_opcode (push_vch (push_opcode (push_opcode [] OP_DUP) OP_HASH160) keyID) OP_EQUALVERIFY)
       OP_CHECKSIG"
| "GetScriptForDestination (CScriptID scriptID) =
     push_opcode (push_vch (push_opcode [] OP_HASH160) scriptID) OP_EQUAL"

definition GetScriptForRawPubKey :: "bytes \<Rightarrow> bytes" where
  "GetScriptForRawPubKey pubKey = push_opcode (push_vch [] pubKey) OP_CHECKSIG"

definition stake_template :: "opcodetype \<Rightarrow> bytes \<Rightarrow> bytes \<Rightarrow> bytes" where
  "stake_template opcode stakingKey spendingKey =
     (let s1 = push_opcode (push_opcode (push_opcode [] OP_DUP) OP_HASH160) OP_ROT;
          s2 = push_vch (push_opcode (push_opcode s1 OP_IF) opcode) stakingKey;
          s3 = push_opcode (push_vch (push_opcode s2 OP_ELSE) spendingKey) OP_ENDIF
      in push_opcode (push_opcode s3 OP_EQUALVERIFY) OP_CHECKSIG)"

definition GetScriptForStakeDelegation :: "bytes \<Rightarrow> bytes \<Rightarrow> bytes" where
  "GetScriptForStakeDelegation stakingKey spendingKey =
     stake_template OP_CHECKCOLDSTAKEVERIFY stakingKey spendingKey"

definition GetScriptForMultiminingDestination :: "bytes \<Rightarrow> bytes" where
  "GetScriptForMultiminingDestination ownerKey =
     push_opcode (push_opcode (push_vch (push_opcode (push_opcode (push_opcode [] OP_DUP) OP_HASH160)
       OP_ASSETSMINT) ownerKey) OP_EQUALVERIFY) OP_CHECKSIG"

definition GetScriptForAssetsDposDestination :: "bytes \<Rightarrow> bytes \<Rightarrow> bytes" where
  "GetScriptForAssetsDposDestination owner staker = stake_template OP_DPOSASSETSMINT staker owner"

text \<open>\<open>None\<close> where an assertion of \<^verbatim>\<open>EncodeOP_N\<close> fails.\<close>

definition GetScriptForMultisig :: "int \<Rightarrow> bytes list \<Rightarrow> bytes option" where
  "GetScriptForMultisig nRequired keys =
     (case (EncodeOP_N nRequired, EncodeOP_N (int (length keys))) of
        (Some r, Some n) \<Rightarrow>
          Some (push_opcode (push_opcode (foldl push_vch (push_opcode [] r) keys) n) OP_CHECKMULTISIG)
      | _ \<Rightarrow> None)"

definition GetScriptForOpReturn :: "bytes \<Rightarrow> bytes" where
  "GetScriptForOpReturn message = push_vch (push_opcode [] OP_RETURN) message"

definition IsValidDestination :: "CTxDestination \<Rightarrow> bool" where
  "IsValidDestination dest = (dest \<noteq> CNoDestination)"

section \<open>The solver\<close>

definition ValidSize :: "bytes \<Rightarrow> bool" where
  "ValidSize vch = (case vch of [] \<Rightarrow> False | h # _ \<Rightarrow> GetLen h = length vch)"

definition slice :: "nat \<Rightarrow> nat \<Rightarrow> bytes \<Rightarrow> bytes" where
  "slice i j v = take (j - i) (drop i v)"

definition MatchPayToPubkey :: "bytes \<Rightarrow> bytes option" where
  "MatchPayToPubkey script =
     (if length script = PUBLIC_KEY_SIZE + 2 \<and> script ! 0 = of_nat PUBLIC_KEY_SIZE \<and> last script = OP_CHECKSIG
      then let pubkey = slice 1 (PUBLIC_KEY_SIZE + 1) script in if ValidSize pubkey then Some pubkey else None
      else if length script = COMPRESSED_PUBLIC_KEY_SIZE + 2 \<and>
              script ! 0 = of_nat COMPRESSED_PUBLIC_KEY_SIZE \<and> last script = OP_CHECKSIG
      then let pubkey = slice 1 (COMPRESSED_PUBLIC_KEY_SIZE + 1) script
           in if ValidSize pubkey then Some pubkey else None
      else None)"

definition MatchPayToPubkeyHash :: "bytes \<Rightarrow> bytes option" where
  "MatchPayToPubkeyHash script =
     (if length script = 25 \<and> script ! 0 = OP_DUP \<and> script ! 1 = OP_HASH160 \<and> script ! 2 = 20 \<and>
         script ! 23 = OP_EQUALVERIFY \<and> script ! 24 = OP_CHECKSIG
      then Some (slice 3 23 script) else None)"

definition MatchPayToColdStaking :: "bool \<Rightarrow> bytes \<Rightarrow> (bytes \<times> bytes) option" where
  "MatchPayToColdStaking g_newP2CSRules script =
     (if IsPayToColdStaking g_newP2CSRules script then Some (slice 6 26 script, slice 28 48 script) else None)"

definition MatchPayToDposAssets :: "bytes \<Rightarrow> (bytes \<times> bytes) option" where
  "MatchPayToDposAssets script =
     (if IsPayAssetDposScript script then Some (slice 6 26 script, slice 28 48 script) else None)"

definition IsSmallInteger :: "opcodetype \<Rightarrow> bool" where
  "IsSmallInteger opcode = (opcode \<ge> OP_1 \<and> opcode \<le> OP_16)"

text \<open>
  The loop \<^verbatim>\<open>while (script.GetOp(it, opcode, data) && CPubKey::ValidSize(data))\<close>: the keys, the opcode
  that ended it (\<^verbatim>\<open>OP_INVALIDOPCODE\<close> when \<^verbatim>\<open>GetOp\<close> failed) and the iterator.
\<close>

function multisig_keys :: "bytes \<Rightarrow> bytes list \<times> opcodetype \<times> bytes" where
  "multisig_keys it =
     (case GetOp2 it of
        (None, it') \<Rightarrow> ([], OP_INVALIDOPCODE, it')
      | (Some (opcode, data), it') \<Rightarrow>
          if ValidSize data
          then (case multisig_keys it' of (keys, op, it'') \<Rightarrow> (data # keys, op, it''))
          else ([], opcode, it'))"
  by pat_completeness auto
termination
  by (relation "measure length") (auto dest: GetOp2_shorter')

declare multisig_keys.simps [simp del]

definition MatchMultisig :: "bytes \<Rightarrow> (nat \<times> bytes list) option" where
  "MatchMultisig script =
     (if length script < 1 \<or> last script \<noteq> OP_CHECKMULTISIG then None
      else case GetOp2 script of
        (None, _) \<Rightarrow> None
      | (Some (opcode, _), it) \<Rightarrow>
          if \<not> IsSmallInteger opcode then None
          else let required = the (DecodeOP_N opcode) in
            case multisig_keys it of
              (pubkeys, opcode2, it2) \<Rightarrow>
                if \<not> IsSmallInteger opcode2 then None
                else let keys = the (DecodeOP_N opcode2) in
                  if length pubkeys \<noteq> keys \<or> keys < required then None
                  else if length it2 = 1 then Some (required, pubkeys) else None)"

definition Solver :: "bool \<Rightarrow> bytes \<Rightarrow> (txnouttype \<times> bytes list) option" where
  "Solver g_newP2CSRules spk =
     (if spk = [] then None
      else if IsPayToScriptHash spk then Some (TX_SCRIPTHASH, [slice 2 22 spk])
      else if IsPayAssetScriptHash spk then Some (TX_ASSETSMINT, [slice 4 24 spk])
      else if spk ! 0 = OP_RETURN \<and> IsPushOnly (drop 1 spk) then Some (TX_NULL_DATA, [])
      else case MatchPayToPubkey spk of
        Some data \<Rightarrow> Some (TX_PUBKEY, [data])
      | None \<Rightarrow>
          (case MatchPayToPubkeyHash spk of
             Some data \<Rightarrow> Some (TX_PUBKEYHASH, [data])
           | None \<Rightarrow>
               (case MatchPayToColdStaking g_newP2CSRules spk of
                  Some (data, data1) \<Rightarrow> Some (TX_COLDSTAKE, [data, data1])
                | None \<Rightarrow>
                    (case MatchPayToDposAssets spk of
                       Some (data, data1) \<Rightarrow> Some (TX_DPOSASSETMINT, [data, data1])
                     | None \<Rightarrow>
                         (case MatchMultisig spk of
                            Some (required, keys) \<Rightarrow>
                              Some (TX_MULTISIG, [of_nat required] # keys @ [[of_nat (length keys)]])
                          | None \<Rightarrow> None)))))"

definition ScriptSigArgsExpected :: "txnouttype \<Rightarrow> bytes list \<Rightarrow> int" where
  "ScriptSigArgsExpected t vSolutions =
     (case t of
        TX_NONSTANDARD \<Rightarrow> - 1
      | TX_NULL_DATA \<Rightarrow> - 1
      | TX_PUBKEY \<Rightarrow> 1
      | TX_ASSETSMINT \<Rightarrow> 2
      | TX_PUBKEYHASH \<Rightarrow> 2
      | TX_COLDSTAKE \<Rightarrow> 3
      | TX_DPOSASSETMINT \<Rightarrow> 3
      | TX_MULTISIG \<Rightarrow>
          if length vSolutions < 1 \<or> length (vSolutions ! 0) < 1 then - 1
          else int (unat (vSolutions ! 0 ! 0)) + 1
      | TX_SCRIPTHASH \<Rightarrow> 1)"

definition ExtractDestination :: "bool \<Rightarrow> bytes \<Rightarrow> bool \<Rightarrow> CTxDestination option" where
  "ExtractDestination g_newP2CSRules spk fColdStake =
     (case Solver g_newP2CSRules spk of
        None \<Rightarrow> None
      | Some (whichType, vSolutions) \<Rightarrow>
          if whichType = TX_PUBKEY
          then if \<not> CPubKey_IsValid (vSolutions ! 0) then None else Some (CKeyID (Hash160 (vSolutions ! 0)))
          else if whichType = TX_PUBKEYHASH \<or> whichType = TX_ASSETSMINT then Some (CKeyID (vSolutions ! 0))
          else if whichType = TX_SCRIPTHASH then Some (CScriptID (vSolutions ! 0))
          else if whichType = TX_COLDSTAKE \<or> whichType = TX_DPOSASSETMINT
          then Some (CKeyID (vSolutions ! (if fColdStake then 0 else 1)))
          else None)"

text \<open>The type, the addresses and \<^verbatim>\<open>nRequiredRet\<close>; \<open>None\<close> for \<^verbatim>\<open>false\<close>.\<close>

definition ExtractDestinations :: "bool \<Rightarrow> bytes \<Rightarrow> (txnouttype \<times> CTxDestination list \<times> nat) option" where
  "ExtractDestinations g_newP2CSRules spk =
     (case Solver g_newP2CSRules spk of
        None \<Rightarrow> None
      | Some (typeRet, vSolutions) \<Rightarrow>
          if typeRet = TX_NULL_DATA then None
          else if typeRet = TX_COLDSTAKE \<or> typeRet = TX_DPOSASSETMINT
          then if length vSolutions < 2 then None
               else Some (typeRet, [CKeyID (vSolutions ! 0), CKeyID (vSolutions ! 1)], 2)
          else case ExtractDestination g_newP2CSRules spk False of
            None \<Rightarrow> None
          | Some address \<Rightarrow> Some (typeRet, [address], 1))"

text \<open>\<^verbatim>\<open>CTxOut::GetKeyIDFromUTXO\<close>\<close>

definition GetKeyIDFromUTXO :: "bool \<Rightarrow> CTxOut \<Rightarrow> bytes option" where
  "GetKeyIDFromUTXO g_newP2CSRules txout =
     (if scriptPubKey txout = [] then None
      else case Solver g_newP2CSRules (scriptPubKey txout) of
        None \<Rightarrow> None
      | Some (whichType, vSolutions) \<Rightarrow>
          if whichType = TX_PUBKEY then Some (Hash160 (vSolutions ! 0))
          else if whichType = TX_PUBKEYHASH \<or> whichType = TX_ASSETSMINT then Some (vSolutions ! 0)
          else if whichType = TX_COLDSTAKE \<or> whichType = TX_DPOSASSETMINT then Some (vSolutions ! 1)
          else None)"


section \<open>Running the templates\<close>

definition plain_op :: "opcodetype \<Rightarrow> bool" where
  "plain_op opcode \<longleftrightarrow> opcode > OP_16 \<and> opcode \<notin> set disabled_opcodes \<and>
     opcode \<notin> {OP_IF, OP_NOTIF, OP_ELSE, OP_ENDIF, OP_TOALTSTACK, OP_FROMALTSTACK, OP_CODESEPARATOR,
       OP_CHECKMULTISIG, OP_CHECKMULTISIGVERIFY, OP_CHECKCOLDSTAKEVERIFY}"

lemma EvalScript_loop_plain:
  assumes "es_pc st = opcode # rest" "plain_op opcode" "fExec st" "es_nOpCount st < 201"
  shows "EvalScript_loop env st =
     (case stack_switch env opcode (es_pbegincodehash st) (es_stack st) of
        Inl e \<Rightarrow> EvalFalse e
      | Inr s \<Rightarrow>
          if length s + length (es_altstack st) > 1000 then EvalFalse SCRIPT_ERR_STACK_SIZE
          else EvalScript_loop env (st\<lparr>es_pc := rest, es_nOpCount := es_nOpCount st + 1, es_stack := s\<rparr>))"
proof -
  have o: "opcode > OP_16" "\<not> opcode \<le> OP_PUSHDATA4" "opcode > OP_PUSHDATA4" "opcode \<notin> set disabled_opcodes"
    using assms(2) by (auto simp: plain_op_def word_less_nat_alt word_le_nat_alt)
  have s: "eval_switch env True opcode st' = stack_result st' (stack_switch env opcode (es_pbegincodehash st') (es_stack st'))" for st'
    using assms(2) by (simp add: plain_op_def eval_switch_def)
  show ?thesis
    using assms(3,4) o
    by (simp add: EvalScript_loop_op [OF assms(1)] eval_step_def eval_exec_def fExec_def s stack_result_def Let_def
        split: sum.split)
qed

lemma plain_ops [simp]: "plain_op OP_DUP" "plain_op OP_HASH160" "plain_op OP_EQUALVERIFY" "plain_op OP_CHECKSIG" "plain_op OP_ROT"
  by (simp_all add: plain_op_def disabled_opcodes_def)

lemma EvalScript_loop_IF:
  assumes "es_pc st = OP_IF # rest" "es_vfExec st = []" "es_nOpCount st < 201" "es_stack st = vch # s"
     "length s + length (es_altstack st) \<le> 1000"
  shows "EvalScript_loop env st = EvalScript_loop env
     (st\<lparr>es_pc := rest, es_nOpCount := es_nOpCount st + 1, es_stack := s, es_vfExec := [CastToBool vch]\<rparr>)"
  using assms
  by (simp add: EvalScript_loop_op [OF assms(1)] step_simps op_IF_NOTIF_def fExec_def)

lemma EvalScript_loop_COLDSTAKE:
  assumes "es_pc st = OP_CHECKCOLDSTAKEVERIFY # rest" "es_nOpCount st < 201"
    "length (es_stack st) + length (es_altstack st) \<le> 1000"
  shows "EvalScript_loop env st =
     (if fExec st
      then case CheckColdStake (env_checker env) (env_script env) (es_stack st) (env_flags env) of
             Some e \<Rightarrow> EvalFalse e | None \<Rightarrow> EvalTrue SCRIPT_ERR_UNKNOWN_ERROR (es_stack st)
      else EvalScript_loop env (st\<lparr>es_pc := rest, es_nOpCount := es_nOpCount st + 1\<rparr>))"
  using assms
  by (simp add: EvalScript_loop_op [OF assms(1)] step_simps op_CHECKCOLDSTAKEVERIFY_def fExec_def split: option.split)

lemma EvalScript_loop_ELSE:
  assumes "es_pc st = OP_ELSE # rest" "es_vfExec st = [f]" "es_nOpCount st < 201"
     "length (es_stack st) + length (es_altstack st) \<le> 1000"
  shows "EvalScript_loop env st = EvalScript_loop env
     (st\<lparr>es_pc := rest, es_nOpCount := es_nOpCount st + 1, es_vfExec := [\<not> f]\<rparr>)"
  using assms
  by (simp add: EvalScript_loop_op [OF assms(1)] step_simps op_ELSE_def fExec_def)

lemma EvalScript_loop_ENDIF:
  assumes "es_pc st = OP_ENDIF # rest" "es_vfExec st = [f]" "es_nOpCount st < 201"
     "length (es_stack st) + length (es_altstack st) \<le> 1000"
  shows "EvalScript_loop env st = EvalScript_loop env
     (st\<lparr>es_pc := rest, es_nOpCount := es_nOpCount st + 1, es_vfExec := []\<rparr>)"
  using assms
  by (simp add: EvalScript_loop_op [OF assms(1)] step_simps op_ENDIF_def fExec_def)

lemma EvalScript_loop_push_skip:
  assumes "es_pc st = push_vch [] vch @ rest" "\<not> fExec st" "length vch \<le> MAX_SCRIPT_ELEMENT_SIZE"
     "length (es_stack st) + length (es_altstack st) \<le> 1000"
  shows "EvalScript_loop env st = EvalScript_loop env (st\<lparr>es_pc := rest\<rparr>)"
proof -
  have g: "GetOp2 (push_vch [] vch @ rest) = (Some (push_op vch, vch), rest)"
    using assms(3) by (intro GetOp2_push_vch) (simp add: MAX_SCRIPT_ELEMENT_SIZE_def)
  have o: "push_op vch \<le> OP_PUSHDATA4" "\<not> push_op vch > OP_16" "push_op vch \<notin> set disabled_opcodes"
     "\<not> OP_IF \<le> push_op vch"
    using push_op_le [of vch] by (auto simp: disabled_opcodes_def word_le_nat_alt word_less_nat_alt)
  have ne: "push_vch [] vch \<noteq> []"
    by (simp add: push_vch_def)
  have "eval_step env (push_op vch) vch (st\<lparr>es_pc := rest\<rparr>) = Continue (st\<lparr>es_pc := rest\<rparr>)"
    using o assms(2,3,4) by (simp add: eval_step_def eval_exec_def fExec_def Let_def)
  then show ?thesis
    by (simp add: EvalScript_loop.simps [of env st] assms(1) g ne)
qed

lemma stack_switch_template:
  "stack_switch env OP_DUP code s = op_DUP s"
  "stack_switch env OP_HASH160 code s = op_hash OP_HASH160 s"
  "stack_switch env OP_ROT code s = op_ROT s"
  "stack_switch env OP_EQUALVERIFY code s = op_EQUAL OP_EQUALVERIFY s"
  "stack_switch env OP_CHECKSIG code s = op_CHECKSIG env OP_CHECKSIG code s"
  by (simp_all add: stack_switch_def)

lemma push_opcode_append: "push_opcode s x = s @ [x]"
  by (simp add: push_opcode_def)

declare GetScriptForDestination.simps [simp del]

lemma P2PKH_script:
  "GetScriptForDestination (CKeyID h) = OP_DUP # OP_HASH160 # push_vch [] h @ [OP_EQUALVERIFY, OP_CHECKSIG]"
  by (simp add: GetScriptForDestination.simps push_opcode_append push_vch_append [of "[_, _]"])

lemma stake_script:
  "stake_template opcode staker owner =
     OP_DUP # OP_HASH160 # OP_ROT # OP_IF # opcode # push_vch [] staker @ OP_ELSE # push_vch [] owner @
     [OP_ENDIF, OP_EQUALVERIFY, OP_CHECKSIG]"
  by (simp add: stake_template_def push_opcode_append Let_def push_vch_append [of "_ # _"] push_vch_append [of "_ @ _"])

definition template_env :: "bytes \<Rightarrow> script_flags \<Rightarrow> sig_checker \<Rightarrow> SigVersion \<Rightarrow> (bytes \<Rightarrow> bool) \<Rightarrow> eval_env" where
  "template_env script flags checker sigversion CheckLowS =
     \<lparr>env_script = script, env_flags = flags, env_checker = checker, env_sigversion = sigversion,
      env_CheckLowS = CheckLowS\<rparr>"

definition sig_ok :: "eval_env \<Rightarrow> bytes \<Rightarrow> bytes \<Rightarrow> ScriptError + bool" where
  "sig_ok env vchSig vchPubKey =
     checked_sig env (fst (FindAndDelete (env_script env) (push_vch [] vchSig))) vchSig vchPubKey"

lemmas template_run = EvalScript_loop_plain [of _ OP_DUP] EvalScript_loop_plain [of _ OP_HASH160]
  EvalScript_loop_plain [of _ OP_ROT] EvalScript_loop_plain [of _ OP_EQUALVERIFY] EvalScript_loop_plain [of _ OP_CHECKSIG]
  EvalScript_loop_IF EvalScript_loop_COLDSTAKE EvalScript_loop_ELSE EvalScript_loop_ENDIF
  EvalScript_loop_push EvalScript_loop_push_skip EvalScript_loop_end minimal_push_long stack_switch_template
  op_DUP_def op_hash_def op_ROT_def op_EQUAL_def op_CHECKSIG_def MAX_SCRIPT_ELEMENT_SIZE_def

lemma EvalScript_P2PKH:
  assumes "length h = 20" "length rest < 997"
  shows "EvalScript CheckLowS (vchPubKey # vchSig # rest) (GetScriptForDestination (CKeyID h)) flags checker sigversion =
     (if Hash160 vchPubKey \<noteq> h then EvalFalse SCRIPT_ERR_EQUALVERIFY
      else case sig_ok (template_env (GetScriptForDestination (CKeyID h)) flags checker sigversion CheckLowS) vchSig vchPubKey of
             Inl e \<Rightarrow> EvalFalse e
           | Inr fSuccess \<Rightarrow> EvalTrue SCRIPT_ERR_OK (vchBool fSuccess # rest))"
proof -
  let ?s = "GetScriptForDestination (CKeyID h)"
  have l: "length ?s = 25"
    using assms(1) by (simp add: P2PKH_script push_vch_20)
  have "EvalScript CheckLowS (vchPubKey # vchSig # rest) ?s flags checker sigversion =
      EvalScript_loop (template_env ?s flags checker sigversion CheckLowS) (eval_init (vchPubKey # vchSig # rest) ?s)"
    by (simp add: EvalScript_def l MAX_SCRIPT_SIZE_def template_env_def)
  also have "\<dots> = (if Hash160 vchPubKey \<noteq> h then EvalFalse SCRIPT_ERR_EQUALVERIFY
      else case sig_ok (template_env ?s flags checker sigversion CheckLowS) vchSig vchPubKey of
             Inl e \<Rightarrow> EvalFalse e
           | Inr fSuccess \<Rightarrow> EvalTrue SCRIPT_ERR_OK (vchBool fSuccess # rest))"
    using assms
    by (simp add: eval_init_def P2PKH_script template_run sig_ok_def template_env_def fExec_def bindE_def
        split: sum.split)
  finally show ?thesis .
qed

lemma EvalScript_P2CS_loop:
  assumes "length staker = 20" "length owner = 20"
  shows "EvalScript CheckLowS st (GetScriptForStakeDelegation staker owner) flags checker sigversion =
     EvalScript_loop (template_env (GetScriptForStakeDelegation staker owner) flags checker sigversion CheckLowS)
       (eval_init st (GetScriptForStakeDelegation staker owner))"
  using assms
  by (simp add: EvalScript_def MAX_SCRIPT_SIZE_def template_env_def GetScriptForStakeDelegation_def stake_script push_vch_20)

lemma EvalScript_P2CS_staker:
  assumes "length staker = 20" "length owner = 20" "length rest \<le> 997" "CastToBool flag"
  shows "EvalScript CheckLowS (vchPubKey # flag # rest) (GetScriptForStakeDelegation staker owner) flags checker sigversion =
     (case CheckColdStake checker (GetScriptForStakeDelegation staker owner) (Hash160 vchPubKey # vchPubKey # rest) flags of
        Some e \<Rightarrow> EvalFalse e
      | None \<Rightarrow> EvalTrue SCRIPT_ERR_UNKNOWN_ERROR (Hash160 vchPubKey # vchPubKey # rest))"
  unfolding EvalScript_P2CS_loop [OF assms(1,2)]
  using assms
  by (simp add: eval_init_def GetScriptForStakeDelegation_def stake_script template_run template_env_def fExec_def
      split: option.split)

lemma EvalScript_P2CS_owner:
  assumes "length staker = 20" "length owner = 20" "length rest \<le> 997" "\<not> CastToBool flag"
  shows "EvalScript CheckLowS (vchPubKey # flag # rest) (GetScriptForStakeDelegation staker owner) flags checker sigversion =
     (if Hash160 vchPubKey \<noteq> owner then EvalFalse SCRIPT_ERR_EQUALVERIFY
      else case rest of
        [] \<Rightarrow> EvalFalse SCRIPT_ERR_INVALID_STACK_OPERATION
      | vchSig # s \<Rightarrow>
          (case sig_ok (template_env (GetScriptForStakeDelegation staker owner) flags checker sigversion CheckLowS) vchSig vchPubKey of
             Inl e \<Rightarrow> EvalFalse e
           | Inr fSuccess \<Rightarrow> EvalTrue SCRIPT_ERR_OK (vchBool fSuccess # s)))"
  unfolding EvalScript_P2CS_loop [OF assms(1,2)]
  using assms
  by (cases rest) (simp_all add: eval_init_def GetScriptForStakeDelegation_def stake_script template_run sig_ok_def
      template_env_def fExec_def bindE_def split: sum.split)

lemma EvalScript_P2PKH_stack:
  assumes "EvalScript CheckLowS st (GetScriptForDestination (CKeyID h)) flags checker sigversion = EvalTrue e s"
    and "length h = 20"
  obtains vchPubKey vchSig rest where "st = vchPubKey # vchSig # rest" "length rest < 997"
proof -
  let ?s = "GetScriptForDestination (CKeyID h)"
  have l: "length ?s = 25"
    using assms(2) by (simp add: P2PKH_script push_vch_20)
  have run: "EvalScript_loop (template_env ?s flags checker sigversion CheckLowS) (eval_init st ?s) = EvalTrue e s"
    using assms(1) by (simp add: EvalScript_def l MAX_SCRIPT_SIZE_def template_env_def split: if_splits)
  note simps = eval_init_def P2PKH_script template_run template_env_def fExec_def
  consider "st = []" | x where "st = [x]" | x y r where "st = x # y # r"
    by (metis neq_Nil_conv)
  then show ?thesis
  proof cases
    case 3
    then show ?thesis
      using run that assms(2) by (cases "length r < 997") (auto simp: simps split: if_splits)
  qed (use run assms(2) in \<open>auto simp: simps split: if_splits\<close>)
qed

lemma EvalScript_P2CS_stack:
  assumes "EvalScript CheckLowS st (GetScriptForStakeDelegation staker owner) flags checker sigversion = EvalTrue e s"
    and l: "length staker = 20" "length owner = 20"
  obtains vchPubKey flag rest where "st = vchPubKey # flag # rest" "length rest \<le> 997"
proof -
  note run = assms(1) [unfolded EvalScript_P2CS_loop [OF l]]
  note simps = eval_init_def GetScriptForStakeDelegation_def stake_script template_run template_env_def fExec_def
  consider "st = []" | x where "st = [x]" | x y r where "st = x # y # r"
    by (metis neq_Nil_conv)
  then show ?thesis
  proof cases
    case (3 x y r)
    show ?thesis
      using run that [OF 3] 3 by (cases "length r \<le> 997") (auto simp: simps)
  qed (use run in \<open>auto simp: simps\<close>)
qed

lemma VerifyScript_plain:
  assumes "\<not> IsPayToScriptHash spk"
  shows "VerifyScript CheckLowS sigScript spk flags checker sigversion = Some (True, e) \<longleftrightarrow>
    e = SCRIPT_ERR_OK \<and> (flag_set flags SCRIPT_VERIFY_SIGPUSHONLY \<longrightarrow> IsPushOnly sigScript) \<and>
    (\<exists>e1 st e2 v s. EvalScript CheckLowS [] sigScript flags checker sigversion = EvalTrue e1 st \<and>
       EvalScript CheckLowS st spk flags checker sigversion = EvalTrue e2 (v # s) \<and> CastToBool v)"
  using assms by (auto simp: VerifyScript_def split: if_splits eval_result.splits list.splits)

text \<open>What a key and a signature must satisfy to authorise an input, in terms of the transaction alone.\<close>

definition authorises ::
    "blake2b \<Rightarrow> (bytes \<Rightarrow> bytes \<Rightarrow> bytes \<Rightarrow> bool) \<Rightarrow> (bytes \<Rightarrow> bool) \<Rightarrow> script_flags \<Rightarrow> CTransaction \<Rightarrow> nat \<Rightarrow> int \<Rightarrow>
     precomputed option \<Rightarrow> SigVersion \<Rightarrow> bytes \<Rightarrow> bytes \<Rightarrow> bytes \<Rightarrow> bool" where
  "authorises blake2b Verify CheckLowS flags txTo nIn amount cache sigversion script vchPubKey vchSig \<longleftrightarrow>
     CheckSignatureEncoding CheckLowS vchSig flags = None \<and> CheckPubKeyEncoding vchPubKey flags = None \<and>
     CPubKey_IsValid vchPubKey \<and> vchSig \<noteq> [] \<and>
     (case SignatureHash blake2b (fst (FindAndDelete script (push_vch [] vchSig))) txTo nIn (unat (last vchSig)) amount
         sigversion cache of
        None \<Rightarrow> False
      | Some sighash \<Rightarrow> Verify vchPubKey sighash (butlast vchSig))"

lemma sig_ok_tx:
  "sig_ok (template_env script flags (TransactionSignatureChecker blake2b Verify CheckLowS g txTo nIn amount cache) sigversion CheckLowS)
     vchSig vchPubKey = Inr True \<longleftrightarrow>
   authorises blake2b Verify CheckLowS flags txTo nIn amount cache sigversion script vchPubKey vchSig"
  by (auto simp: sig_ok_def template_env_def checked_sig_def check_encodings_def TransactionSignatureChecker_def
      tx_CheckSig_def authorises_def Let_def split: option.splits)

lemma VerifyScript_plain':
  assumes "\<not> IsPayToScriptHash spk"
    and "\<And>st. (\<exists>e v s. EvalScript CheckLowS st spk flags checker sigversion = EvalTrue e (v # s) \<and> CastToBool v) \<longleftrightarrow> P st"
  shows "VerifyScript CheckLowS sigScript spk flags checker sigversion = Some (True, e) \<longleftrightarrow>
    e = SCRIPT_ERR_OK \<and> (flag_set flags SCRIPT_VERIFY_SIGPUSHONLY \<longrightarrow> IsPushOnly sigScript) \<and>
    (\<exists>e1 st. EvalScript CheckLowS [] sigScript flags checker sigversion = EvalTrue e1 st \<and> P st)"
  unfolding assms(2) [symmetric] using VerifyScript_plain [OF assms(1), of CheckLowS sigScript flags checker sigversion e]
  by blast

lemma CastToBool_vchBool [simp]: "CastToBool (vchBool b) = b"
  by (simp add: vchBool_def vchTrue_def vchFalse_def)

lemma P2PKH_true_iff:
  assumes "length h = 20"
  shows "(\<exists>e v s. EvalScript CheckLowS st (GetScriptForDestination (CKeyID h)) flags checker sigversion = EvalTrue e (v # s) \<and>
       CastToBool v) \<longleftrightarrow>
    (\<exists>vchPubKey vchSig rest. st = vchPubKey # vchSig # rest \<and> length rest < 997 \<and> Hash160 vchPubKey = h \<and>
       sig_ok (template_env (GetScriptForDestination (CKeyID h)) flags checker sigversion CheckLowS) vchSig vchPubKey = Inr True)"
    (is "?L \<longleftrightarrow> ?R")
proof
  assume ?L
  then obtain e v s where 1: "EvalScript CheckLowS st (GetScriptForDestination (CKeyID h)) flags checker sigversion = EvalTrue e (v # s)"
    "CastToBool v" by blast
  obtain pk sg r where "st = pk # sg # r" "length r < 997"
    using EvalScript_P2PKH_stack [OF 1(1) assms] .
  with 1 show ?R
    by (auto simp: EvalScript_P2PKH [OF assms] split: if_splits sum.splits)
next
  assume ?R
  then obtain pk sg r where 1: "st = pk # sg # r" "length r < 997" "Hash160 pk = h"
    "sig_ok (template_env (GetScriptForDestination (CKeyID h)) flags checker sigversion CheckLowS) sg pk = Inr True" by blast
  show ?L
    unfolding 1(1) EvalScript_P2PKH [OF assms 1(2)] using 1(3,4) by simp
qed

lemma P2CS_true_iff:
  assumes "length staker = 20" "length owner = 20"
  shows "(\<exists>e v s. EvalScript CheckLowS st (GetScriptForStakeDelegation staker owner) flags checker sigversion =
       EvalTrue e (v # s) \<and> CastToBool v) \<longleftrightarrow>
    (\<exists>vchPubKey flag rest. st = vchPubKey # flag # rest \<and> length rest \<le> 997 \<and>
       (if CastToBool flag
        then CheckColdStake checker (GetScriptForStakeDelegation staker owner) (Hash160 vchPubKey # vchPubKey # rest) flags = None \<and>
          CastToBool (Hash160 vchPubKey)
        else Hash160 vchPubKey = owner \<and> rest \<noteq> [] \<and>
          sig_ok (template_env (GetScriptForStakeDelegation staker owner) flags checker sigversion CheckLowS)
            (hd rest) vchPubKey = Inr True))"
    (is "?L \<longleftrightarrow> ?R")
proof
  assume ?L
  then obtain e v s where 1: "EvalScript CheckLowS st (GetScriptForStakeDelegation staker owner) flags checker sigversion =
      EvalTrue e (v # s)" "CastToBool v" by blast
  obtain pk f r where st: "st = pk # f # r" "length r \<le> 997"
    using EvalScript_P2CS_stack [OF 1(1) assms] .
  show ?R
  proof (cases "CastToBool f")
    case True
    with 1 st show ?thesis
      by (auto simp: EvalScript_P2CS_staker [OF assms] split: option.splits)
  next
    case False
    with 1 st show ?thesis
      by (auto simp: EvalScript_P2CS_owner [OF assms] split: if_splits list.splits sum.splits)
  qed
next
  assume ?R
  then obtain pk f r where st: "st = pk # f # r" "length r \<le> 997"
    and 1: "if CastToBool f
        then CheckColdStake checker (GetScriptForStakeDelegation staker owner) (Hash160 pk # pk # r) flags = None \<and>
          CastToBool (Hash160 pk)
        else Hash160 pk = owner \<and> r \<noteq> [] \<and>
          sig_ok (template_env (GetScriptForStakeDelegation staker owner) flags checker sigversion CheckLowS)
            (hd r) pk = Inr True" by blast
  show ?L
  proof (cases "CastToBool f")
    case True
    show ?thesis
      unfolding st(1) EvalScript_P2CS_staker [OF assms st(2) True] using 1 True by simp
  next
    case False
    show ?thesis
      unfolding st(1) EvalScript_P2CS_owner [OF assms st(2) False] using 1 False by (cases r) simp_all
  qed
qed

lemma EvalScript_loop_pushes:
  assumes "es_pc st = concat (map (push_vch []) vs)" "es_vfExec st = []"
    "list_all (\<lambda>v. length v \<le> 520 \<and> CheckMinimalPush v (push_op v)) vs"
    "length (es_stack st) + length (es_altstack st) + length vs \<le> 1000"
  shows "EvalScript_loop env st = EvalTrue SCRIPT_ERR_OK (rev vs @ es_stack st)"
  using assms
proof (induction vs arbitrary: st)
  case (Cons v vs)
  have "EvalScript_loop env st = EvalScript_loop env (st\<lparr>es_pc := concat (map (push_vch []) vs), es_stack := v # es_stack st\<rparr>)"
    using Cons.prems by (subst EvalScript_loop_push [of _ v]) (auto simp: MAX_SCRIPT_ELEMENT_SIZE_def)
  then show ?case
    using Cons.prems by (simp add: Cons.IH)
qed (simp add: EvalScript_loop_end)

lemma EvalScript_pushes:
  assumes "list_all (\<lambda>v. length v \<le> 520 \<and> CheckMinimalPush v (push_op v)) vs"
    "length (concat (map (push_vch []) vs)) \<le> 10000" "length vs \<le> 1000"
  shows "EvalScript CheckLowS [] (concat (map (push_vch []) vs)) flags checker sigversion = EvalTrue SCRIPT_ERR_OK (rev vs)"
  using assms by (simp add: EvalScript_def MAX_SCRIPT_SIZE_def eval_init_def EvalScript_loop_pushes [of _ vs])

text \<open>
  C6. Spends of a pay-to-pubkey-hash output: \<^verbatim>\<open>VerifyScript\<close> with a transaction's checker accepts exactly when the
  \<^verbatim>\<open>scriptSig\<close> leaves a public key with the hash of the output on top and below it a signature that
  authorises the input: well-encoded and, after its hash type byte is removed, verified by that key for the
  signature hash of the transaction.
\<close>

theorem P2PKH_spend:
  assumes "length keyID = 20"
    and "checker = TransactionSignatureChecker blake2b Verify CheckLowS g_newP2CSRules txTo nIn amount cache"
  shows "VerifyScript CheckLowS sigScript (GetScriptForDestination (CKeyID keyID)) flags checker sigversion = Some (True, e) \<longleftrightarrow>
    e = SCRIPT_ERR_OK \<and> (flag_set flags SCRIPT_VERIFY_SIGPUSHONLY \<longrightarrow> IsPushOnly sigScript) \<and>
    (\<exists>e1 vchPubKey vchSig rest.
       EvalScript CheckLowS [] sigScript flags checker sigversion = EvalTrue e1 (vchPubKey # vchSig # rest) \<and>
       length rest < 997 \<and> Hash160 vchPubKey = keyID \<and>
       authorises blake2b Verify CheckLowS flags txTo nIn amount cache sigversion
         (GetScriptForDestination (CKeyID keyID)) vchPubKey vchSig)"
proof -
  have n: "\<not> IsPayToScriptHash (GetScriptForDestination (CKeyID keyID))"
    using assms by (simp add: P2PKH_script push_vch_20 IsPayToScriptHash_def)
  show ?thesis
    unfolding VerifyScript_plain' [OF n P2PKH_true_iff [OF assms(1)]] assms(2) sig_ok_tx by blast
qed

theorem P2PKH_spend_witness:
  "\<exists>vchPubKey vchSig checker. VerifyScript (\<lambda>_. True) (concat (map (push_vch []) [vchSig, vchPubKey]))
     (GetScriptForDestination (CKeyID (Hash160 vchPubKey))) 0 checker SIGVERSION_BASE = Some (True, SCRIPT_ERR_OK)"
proof -
  define pk sg :: bytes where "pk = 2 # replicate 32 0" and "sg = [1, 1]"
  define c where "c = TransactionSignatureChecker (\<lambda>_ _. []) (\<lambda>_ _ _. True) (\<lambda>_. True) False example_tx 0 0 None"
  let ?s = "GetScriptForDestination (CKeyID (Hash160 pk))"
  have "EvalScript (\<lambda>_. True) [] (concat (map (push_vch []) [sg, pk])) 0 c SIGVERSION_BASE = EvalTrue SCRIPT_ERR_OK (rev [sg, pk])"
    by (rule EvalScript_pushes) (simp_all add: pk_def sg_def minimal_push_long push_vch_def)
  moreover have "authorises (\<lambda>_ _. []) (\<lambda>_ _ _. True) (\<lambda>_. True) 0 example_tx 0 0 None SIGVERSION_BASE ?s pk sg"
    by (simp add: authorises_def pk_def sg_def CPubKey_IsValid_def GetLen_def CheckSignatureEncoding_def CheckPubKeyEncoding_def
      flag_set_def SignatureHash_def example_tx_def isSaplingVersion_def fHashSingle_def)
  ultimately have "VerifyScript (\<lambda>_. True) (concat (map (push_vch []) [sg, pk])) ?s 0 c SIGVERSION_BASE = Some (True, SCRIPT_ERR_OK)"
    using P2PKH_spend [OF _ c_def, of "Hash160 pk"] by (simp add: flag_set_def)
  then show ?thesis by blast
qed

text \<open>
  C7. Spends of a cold-staking output.  With a false flag the owner's key and signature are checked as for
  pay-to-pubkey-hash.  With a true flag the script returns at \<^verbatim>\<open>OP_CHECKCOLDSTAKEVERIFY\<close>: it is accepted exactly
  when \<^verbatim>\<open>CheckColdStake\<close> accepts the transaction and the hash of the given key is not zero; neither the staking
  key of the output nor any signature is compared with anything.
\<close>

theorem P2CS_spend:
  assumes "length stakingKey = 20" and "length spendingKey = 20"
    and "checker = TransactionSignatureChecker blake2b Verify CheckLowS g_newP2CSRules txTo nIn amount cache"
    and "script = GetScriptForStakeDelegation stakingKey spendingKey"
  shows "VerifyScript CheckLowS sigScript script flags checker sigversion = Some (True, e) \<longleftrightarrow>
    e = SCRIPT_ERR_OK \<and> (flag_set flags SCRIPT_VERIFY_SIGPUSHONLY \<longrightarrow> IsPushOnly sigScript) \<and>
    (\<exists>e1 vchPubKey flag rest.
       EvalScript CheckLowS [] sigScript flags checker sigversion = EvalTrue e1 (vchPubKey # flag # rest) \<and>
       length rest \<le> 997 \<and>
       (if CastToBool flag
        then tx_CheckColdStake CheckLowS g_newP2CSRules txTo amount script (Hash160 vchPubKey # vchPubKey # rest) flags = None \<and>
          CastToBool (Hash160 vchPubKey)
        else Hash160 vchPubKey = spendingKey \<and> rest \<noteq> [] \<and>
          authorises blake2b Verify CheckLowS flags txTo nIn amount cache sigversion script vchPubKey (hd rest)))"
proof -
  have n: "\<not> IsPayToScriptHash script"
    using assms by (simp add: GetScriptForStakeDelegation_def stake_script push_vch_20 IsPayToScriptHash_def)
  have c: "CheckColdStake checker = tx_CheckColdStake CheckLowS g_newP2CSRules txTo amount"
    by (simp add: assms(3) TransactionSignatureChecker_def)
  show ?thesis
    unfolding VerifyScript_plain' [OF n P2CS_true_iff [OF assms(1,2), folded assms(4)]] c
    unfolding assms(3) sig_ok_tx by blast
qed

theorem P2CS_spend_witness:
  "\<exists>vchPubKey vchSig checker. VerifyScript (\<lambda>_. True) (concat (map (push_vch []) [vchSig, [], vchPubKey]))
     (GetScriptForStakeDelegation (replicate 20 3) (Hash160 vchPubKey)) 0 checker SIGVERSION_BASE = Some (True, SCRIPT_ERR_OK)"
proof -
  define pk sg :: bytes where "pk = 2 # replicate 32 0" and "sg = [1, 1]"
  define c where "c = TransactionSignatureChecker (\<lambda>_ _. []) (\<lambda>_ _ _. True) (\<lambda>_. True) False example_tx 0 0 None"
  define s where "s = GetScriptForStakeDelegation (replicate 20 3) (Hash160 pk)"
  let ?sig = "concat (map (push_vch []) [sg, [], pk])"
  have "EvalScript (\<lambda>_. True) [] ?sig 0 c SIGVERSION_BASE = EvalTrue SCRIPT_ERR_OK (rev [sg, [], pk])"
    by (rule EvalScript_pushes) (simp_all add: pk_def sg_def minimal_push_long push_vch_def CheckMinimalPush_push_op)
  moreover have "authorises (\<lambda>_ _. []) (\<lambda>_ _ _. True) (\<lambda>_. True) 0 example_tx 0 0 None SIGVERSION_BASE s pk sg"
    by (simp add: authorises_def pk_def sg_def CPubKey_IsValid_def GetLen_def CheckSignatureEncoding_def CheckPubKeyEncoding_def
      flag_set_def SignatureHash_def example_tx_def isSaplingVersion_def fHashSingle_def)
  ultimately have "VerifyScript (\<lambda>_. True) ?sig s 0 c SIGVERSION_BASE = Some (True, SCRIPT_ERR_OK)"
    using P2CS_spend [OF _ _ c_def s_def] by (simp add: flag_set_def)
  then show ?thesis unfolding s_def by blast
qed

section \<open>What a cold staker can do with the coins\<close>

lemma coldstake_outputs_ok:
  assumes "coldstake_outputs script outs i txouts v = Inr v'"
    and "list_all (\<lambda>t. 0 \<le> nValue t) txouts" "0 \<le> v" "v + sum_list (map nValue txouts) < 2 ^ 63"
  shows "v' = v + sum_list (map nValue (filter (\<lambda>t. scriptPubKey t = script) txouts)) \<and>
    (\<forall>k < length txouts. scriptPubKey (txouts ! k) = script \<or> i + k = outs - 1 \<and> 3 \<le> outs)"
  using assms
proof (induction txouts arbitrary: i v)
  case (Cons t ts)
  have n: "0 \<le> sum_list (map nValue ts)" "0 \<le> nValue t"
    using Cons.prems(2) by (auto simp: list_all_iff intro!: sum_list_nonneg)
  have w: "wrap64 (v + nValue t) = v + nValue t"
    using n Cons.prems(3,4) by (intro wrap64_id) auto
  show ?case
  proof (cases "scriptPubKey t = script")
    case True
    then have "coldstake_outputs script outs (i + 1) ts (v + nValue t) = Inr v'"
      using Cons.prems(1) w by simp
    from Cons.IH [OF this] Cons.prems n True show ?thesis
      by (auto simp: nth_Cons add.assoc split: nat.split)
  next
    case False
    then have "coldstake_outputs script outs (i + 1) ts v = Inr v'" "i = outs - 1" "3 \<le> outs"
      using Cons.prems(1) by (auto split: if_splits)
    with Cons.IH [OF this(1)] Cons.prems n False show ?thesis
      by (auto simp: nth_Cons split: nat.split)
  qed
qed simp

lemma CheckTransaction_values:
  assumes "CheckTransaction nMaxMoneyOut g nTipHeight tx fColdStakingActive fSaplingActive = Inr ()" "0 \<le> nMaxMoneyOut"
  shows "list_all (\<lambda>t. 0 \<le> nValue t) (vout tx)" "sum_list (map nValue (vout tx)) \<le> nMaxMoneyOut"
proof -
  obtain v v' where s: "SaplingValidation_CheckTransaction nMaxMoneyOut tx 0 fSaplingActive = Inr v"
    and o: "CheckTransaction_vout nMaxMoneyOut g nTipHeight tx fColdStakingActive (vout tx) v = Inr v'"
    using assms(1) by (auto simp: CheckTransaction_def bindE_eq_Inr split: if_splits)
  note vo = CheckTransaction_vout_ok [OF o]
  then show "list_all (\<lambda>t. 0 \<le> nValue t) (vout tx)"
    by (auto simp: list_all_iff)
  show "sum_list (map nValue (vout tx)) \<le> nMaxMoneyOut"
    using vo Sapling_check_value(3) [OF s] assms(2) by (cases "vout tx = []"; cases "v = 0") auto
qed

text \<open>
  C8. What \<^verbatim>\<open>CheckColdStake\<close> guarantees of a transaction that passes \<^verbatim>\<open>CheckTransaction\<close>: it is a coinstake with one
  input, at least the spent amount goes back to the spent script, and every output but the first and, from three
  outputs on, the last pays to that script.
\<close>

theorem coldstake_keeps_funds:
  assumes "tx_CheckColdStake CheckLowS g_newP2CSRules tx amount script st flags = None"
    and "CheckTransaction nMaxMoneyOut g_newP2CSRules nTipHeight tx fColdStakingActive fSaplingActive = Inr ()"
    and "0 \<le> nMaxMoneyOut" and "nMaxMoneyOut < 2 ^ 63"
  shows "IsCoinStake tx \<and> length (vin tx) = 1 \<and>
    amount \<le> sum_list (map nValue (filter (\<lambda>t. scriptPubKey t = script) (drop 1 (vout tx)))) \<and>
    (\<forall>i < length (vout tx). i = 0 \<or> scriptPubKey (vout tx ! i) = script \<or> i = length (vout tx) - 1 \<and> 3 \<le> length (vout tx))"
proof -
  obtain v where v: "coldstake_outputs script (length (vout tx)) 1 (drop 1 (vout tx)) 0 = Inr v" "amount \<le> v"
    and c: "IsCoinStake tx" "length (vin tx) = 1"
    using assms(1) by (auto simp: tx_CheckColdStake_def split: option.splits if_splits sum.splits)
  note val = CheckTransaction_values [OF assms(2,3)]
  have "sum_list (map nValue (drop 1 (vout tx))) \<le> sum_list (map nValue (vout tx))"
    using val(1) by (cases "vout tx") auto
  then have s: "0 + sum_list (map nValue (drop 1 (vout tx))) < 2 ^ 63"
    using val(2) assms(4) by linarith
  have l: "list_all (\<lambda>t. 0 \<le> nValue t) (drop 1 (vout tx))"
    using val(1) by (auto simp: list_all_iff dest: in_set_dropD)
  note k = coldstake_outputs_ok [OF v(1) l order_refl s]
  have "scriptPubKey (vout tx ! i) = script \<or> i = length (vout tx) - 1 \<and> 3 \<le> length (vout tx)"
    if "i < length (vout tx)" "i \<noteq> 0" for i
  proof -
    have "i - 1 < length (drop 1 (vout tx))" "drop 1 (vout tx) ! (i - 1) = vout tx ! i"
      using that by (auto simp: nth_drop)
    moreover from this(1) k have "scriptPubKey (drop 1 (vout tx) ! (i - 1)) = script \<or>
        1 + (i - 1) = length (vout tx) - 1 \<and> 3 \<le> length (vout tx)" by blast
    ultimately show ?thesis using that by auto
  qed
  with k v c show ?thesis by auto
qed

theorem coldstake_keeps_funds_witness:
  "\<exists>tx script. tx_CheckColdStake (\<lambda>_. True) False tx 5 script [] 0 = None \<and>
     CheckTransaction 1000000 False 0 tx True True = Inr () \<and> IsCoinStake tx \<and>
     5 \<le> sum_list (map nValue (filter (\<lambda>t. scriptPubKey t = script) (drop 1 (vout tx))))"
proof -
  define script where "script = GetScriptForStakeDelegation (replicate 20 3) (replicate 20 4)"
  have script: "script = [0x76, 0xa9, 0x7b, 0x63, 0xd1, 0x14] @ replicate 20 3 @ [0x67, 0x14] @ replicate 20 4 @ [0x68, 0x88, 0xac]"
    by (simp add: script_def GetScriptForStakeDelegation_def stake_script push_vch_20)
  define tx where "tx = \<lparr>nVersion = 1, nType = 0,
     vin = [\<lparr>prevout = \<lparr>outpoint_hash = replicate 32 7, outpoint_n = 1\<rparr>, scriptSig = [OP_1], nSequence = uint32_max\<rparr>],
     vout = [\<lparr>nValue = 0, scriptPubKey = [], nRounds = - 10\<rparr>, \<lparr>nValue = 6, scriptPubKey = script, nRounds = - 10\<rparr>], nLockTime = 0,
     sapData = Some SaplingTxData_default, extraPayload = None, walletSenderId = replicate 20 0\<rparr>"
  have i: "IsCoinStake tx"
    by (simp add: IsCoinStake_def tx_def COutPoint_IsNull_def uint256_IsNull_def CTxOut_IsEmpty_def)
  have w: "wrap64 6 = 6"
    by (rule wrap64_id) simp_all
  have c: "tx_CheckColdStake (\<lambda>_. True) False tx 5 script [] 0 = None"
    using i w by (simp add: tx_CheckColdStake_def) (simp add: tx_def)
  have "\<not> IsCoinBase tx"
    by (simp add: IsCoinBase_def tx_def COutPoint_IsNull_def uint256_IsNull_def)
  moreover have "length script = 51"
    by (simp add: script)
  ultimately have t: "CheckTransaction 1000000 False 0 tx True True = Inr ()"
    using i
    by (simp add: CheckTransaction_def SaplingValidation_CheckTransaction_def CheckSpecialTx_def CheckTransaction_vin_def)
      (simp add: tx_def isSaplingVersion_def hasSaplingData_def SaplingTxData_default_def hasBindingSig_def
        IsShieldedTx_def GetTotalSize_def SerializeTransaction_def MAX_STANDARD_TX_SIZE_def Serialize_vector_def
        Serialize_CTxIn_def Serialize_CTxOut_def Serialize_COutPoint_def Serialize_bytes_def Serialize_int16_def
        Serialize_uint32_def Serialize_int64_def length_WriteCompactSize GetSizeOfCompactSize_def read_defs
        length_le_encode CTxOut_IsEmpty_def MoneyRange_def hasExtraPayload_def COutPoint_IsNull_def uint256_IsNull_def list_ex_iff)
  show ?thesis
    using coldstake_keeps_funds [OF c t] c t by auto
qed

section \<open>The solver and the templates\<close>

lemma slice_shape:
  assumes "length l = n" "i \<le> j" "j \<le> n"
  shows "l = take i l @ slice i j l @ drop j l"
proof -
  have "drop i l = slice i j l @ drop j l"
    using assms append_take_drop_id [of "j - i" "drop i l"] by (simp add: slice_def)
  then show ?thesis
    using append_take_drop_id [of i l] by simp
qed

lemma length_slice: "j \<le> length l \<Longrightarrow> length (slice i j l) = j - i"
  by (simp add: slice_def)

lemma take_list: "length l \<ge> n \<Longrightarrow> take n l = map (\<lambda>i. l ! i) [0..<n]"
  by (simp add: list_eq_iff_nth_eq)

lemma drop_list: "drop n l = map (\<lambda>i. l ! i) [n..<length l]"
  by (simp add: list_eq_iff_nth_eq)

lemma upt_two: "[n..<Suc (Suc n)] = [n, Suc n]" "[n..<Suc n] = [n]"
  by simp_all

lemma MatchPayToPubkeyHash_iff:
  "MatchPayToPubkeyHash spk = Some h \<longleftrightarrow> length h = 20 \<and> spk = GetScriptForDestination (CKeyID h)"
proof
  assume m: "MatchPayToPubkeyHash spk = Some h"
  then have l: "length spk = 25" and b: "spk ! 0 = OP_DUP" "spk ! 1 = OP_HASH160" "spk ! 2 = 20"
    "spk ! 23 = OP_EQUALVERIFY" "spk ! 24 = OP_CHECKSIG" and h: "h = slice 3 23 spk"
    by (auto simp: MatchPayToPubkeyHash_def split: if_splits)
  have "take 3 spk = [spk ! 0, spk ! 1, spk ! 2]" "drop 23 spk = [spk ! 23, spk ! 24]"
    using l by (simp_all add: take_list drop_list numeral_eq_Suc)
  with slice_shape [OF l, of 3 23] b h l show "length h = 20 \<and> spk = GetScriptForDestination (CKeyID h)"
    by (simp add: length_slice P2PKH_script push_vch_20)
next
  assume "length h = 20 \<and> spk = GetScriptForDestination (CKeyID h)"
  then show "MatchPayToPubkeyHash spk = Some h"
    by (simp add: MatchPayToPubkeyHash_def P2PKH_script push_vch_20 nth_append slice_def)
qed

lemma P2SH_script: "GetScriptForDestination (CScriptID h) = OP_HASH160 # push_vch [] h @ [OP_EQUAL]"
  by (simp add: GetScriptForDestination.simps push_opcode_append push_vch_append [of "[_]"])

lemma IsPayToScriptHash_iff:
  "IsPayToScriptHash spk \<longleftrightarrow> length (slice 2 22 spk) = 20 \<and> spk = GetScriptForDestination (CScriptID (slice 2 22 spk))"
proof
  assume "IsPayToScriptHash spk"
  from IsPayToScriptHash_shape [OF this] show "length (slice 2 22 spk) = 20 \<and> spk = GetScriptForDestination (CScriptID (slice 2 22 spk))"
    by (simp add: P2SH_script slice_def)
next
  assume s: "length (slice 2 22 spk) = 20 \<and> spk = GetScriptForDestination (CScriptID (slice 2 22 spk))"
  have "IsPayToScriptHash (GetScriptForDestination (CScriptID h))" if "length h = 20" for h
    using that by (simp add: P2SH_script push_vch_20 IsPayToScriptHash_def nth_append)
  with s show "IsPayToScriptHash spk" by metis
qed

lemma ValidSize_cases: "ValidSize pk \<Longrightarrow> length pk = 33 \<or> length pk = 65"
  by (auto simp: ValidSize_def GetLen_def split: list.splits if_splits)

lemma RawPubKey_script: "GetScriptForRawPubKey pk = push_vch [] pk @ [OP_CHECKSIG]"
  by (simp add: GetScriptForRawPubKey_def push_opcode_append)

lemma MatchPayToPubkey_iff:
  "MatchPayToPubkey spk = Some pk \<longleftrightarrow> ValidSize pk \<and> spk = GetScriptForRawPubKey pk"
proof
  have shape: "spk = of_nat n # slice 1 (n + 1) spk @ [OP_CHECKSIG] \<and> length (slice 1 (n + 1) spk) = n"
    if "length spk = n + 2" "spk ! 0 = of_nat n" "last spk = OP_CHECKSIG" for n
  proof -
    have "drop (n + 1) spk = [last spk]"
      using that(1) last_conv_nth [of spk] by (cases "spk = []") (simp_all add: drop_list)
    moreover have "take 1 spk = [spk ! 0]"
      using that(1) by (simp add: take_list)
    ultimately show ?thesis
      using slice_shape [OF that(1), of 1 "n + 1"] that by (simp add: length_slice)
  qed
  assume "MatchPayToPubkey spk = Some pk"
  then consider "length spk = 65 + 2" "spk ! 0 = of_nat 65" "last spk = OP_CHECKSIG" "ValidSize pk" "pk = slice 1 (65 + 1) spk"
    | "length spk = 33 + 2" "spk ! 0 = of_nat 33" "last spk = OP_CHECKSIG" "ValidSize pk" "pk = slice 1 (33 + 1) spk"
    unfolding MatchPayToPubkey_def by (auto simp: Let_def simp del: of_nat_numeral split: if_splits)
  then show "ValidSize pk \<and> spk = GetScriptForRawPubKey pk"
  proof cases
    case 1
    with shape [OF 1(1-3)] show ?thesis by (simp add: RawPubKey_script push_vch_def)
  next
    case 2
    with shape [OF 2(1-3)] show ?thesis by (simp add: RawPubKey_script push_vch_def)
  qed
next
  assume "ValidSize pk \<and> spk = GetScriptForRawPubKey pk"
  then show "MatchPayToPubkey spk = Some pk"
    using ValidSize_cases [of pk] by (auto simp: MatchPayToPubkey_def RawPubKey_script push_vch_def slice_def)
qed

lemma IsPayToColdStaking_template:
  assumes "length s = 20" "length w = 20"
  shows "IsPayToColdStaking g (GetScriptForStakeDelegation s w)"
    "slice 6 26 (GetScriptForStakeDelegation s w) = s" "slice 28 48 (GetScriptForStakeDelegation s w) = w"
  using assms
  by (simp_all add: IsPayToColdStaking_def GetScriptForStakeDelegation_def stake_script push_vch_20 nth_append slice_def)

lemma IsPayToColdStaking_shape:
  assumes "IsPayToColdStaking True spk"
  shows "spk = GetScriptForStakeDelegation (slice 6 26 spk) (slice 28 48 spk)"
    "length (slice 6 26 spk) = 20" "length (slice 28 48 spk) = 20"
proof -
  have l: "length spk = 51"
    using assms by (simp add: IsPayToColdStaking_def)
  then show ls: "length (slice 6 26 spk) = 20" "length (slice 28 48 spk) = 20"
    by (simp_all add: length_slice)
  have "spk = take 6 spk @ slice 6 26 spk @ drop 26 spk"
    by (rule slice_shape [OF l]) simp_all
  also have "drop 26 spk = take 2 (drop 26 spk) @ slice 2 22 (drop 26 spk) @ drop 22 (drop 26 spk)"
    by (rule slice_shape [of _ 25]) (simp_all add: l)
  finally have d: "spk = take 6 spk @ slice 6 26 spk @ take 2 (drop 26 spk) @ slice 28 48 spk @ drop 48 spk"
    by (simp add: slice_def)
  have "take 6 spk = [spk ! 0, spk ! 1, spk ! 2, spk ! 3, spk ! 4, spk ! 5]"
    "take 2 (drop 26 spk) = [spk ! 26, spk ! 27]" "drop 48 spk = [spk ! 48, spk ! 49, spk ! 50]"
    using l by (simp_all add: take_list drop_list numeral_eq_Suc)
  with d assms ls show "spk = GetScriptForStakeDelegation (slice 6 26 spk) (slice 28 48 spk)"
    by (simp add: IsPayToColdStaking_def GetScriptForStakeDelegation_def stake_script push_vch_20)
qed

lemma Solver_P2PKH: "length h = 20 \<Longrightarrow> Solver g (GetScriptForDestination (CKeyID h)) = Some (TX_PUBKEYHASH, [h])"
  using MatchPayToPubkeyHash_iff [of "GetScriptForDestination (CKeyID h)" h]
  by (simp add: Solver_def P2PKH_script push_vch_20 IsPayToScriptHash_def IsPayAssetScriptHash_def MatchPayToPubkey_def)

lemma Solver_P2SH: "length h = 20 \<Longrightarrow> Solver g (GetScriptForDestination (CScriptID h)) = Some (TX_SCRIPTHASH, [h])"
  by (simp add: Solver_def P2SH_script push_vch_20 IsPayToScriptHash_def nth_append slice_def)

lemma Solver_P2PK:
  assumes "ValidSize pk"
  shows "Solver g (GetScriptForRawPubKey pk) = Some (TX_PUBKEY, [pk])"
proof -
  have "MatchPayToPubkey (GetScriptForRawPubKey pk) = Some pk"
    using assms by (simp add: MatchPayToPubkey_iff)
  then show ?thesis
    using ValidSize_cases [OF assms]
    by (auto simp: Solver_def RawPubKey_script push_vch_def IsPayToScriptHash_def IsPayAssetScriptHash_def)
qed

lemma Solver_P2CS:
  assumes "length s = 20" "length w = 20"
  shows "Solver g (GetScriptForStakeDelegation s w) = Some (TX_COLDSTAKE, [s, w])"
proof -
  have "MatchPayToColdStaking g (GetScriptForStakeDelegation s w) = Some (s, w)"
    using IsPayToColdStaking_template [OF assms] by (simp add: MatchPayToColdStaking_def)
  then show ?thesis
    using assms by (simp add: Solver_def GetScriptForStakeDelegation_def stake_script push_vch_20 IsPayToScriptHash_def
        IsPayAssetScriptHash_def MatchPayToPubkey_def MatchPayToPubkeyHash_def)
qed

lemma Solver_cases:
  assumes "Solver g spk = Some (t, sols)"
  shows "t = TX_PUBKEYHASH \<Longrightarrow> \<exists>h. MatchPayToPubkeyHash spk = Some h \<and> sols = [h]"
    "t = TX_SCRIPTHASH \<Longrightarrow> IsPayToScriptHash spk \<and> sols = [slice 2 22 spk]"
    "t = TX_PUBKEY \<Longrightarrow> \<exists>pk. MatchPayToPubkey spk = Some pk \<and> sols = [pk]"
    "t = TX_COLDSTAKE \<Longrightarrow> IsPayToColdStaking g spk \<and> sols = [slice 6 26 spk, slice 28 48 spk]"
  using assms by (auto simp: Solver_def MatchPayToColdStaking_def split: if_splits option.splits prod.splits)

text \<open>
  C37. For four kinds of output the solver recognises exactly the scripts that the template functions build,
  with the data they were built from: key-hash, script-hash and raw-key outputs, and cold-staking outputs once the new
  rules (\<^verbatim>\<open>g_newP2CSRules\<close>) are active.  It is not so for the asset templates, nor for cold staking under the old rules.
\<close>

theorem Solver_iff_template:
  "(Solver g spk = Some (TX_PUBKEYHASH, sols) \<longleftrightarrow>
     (\<exists>keyID. length keyID = 20 \<and> sols = [keyID] \<and> spk = GetScriptForDestination (CKeyID keyID))) \<and>
   (Solver g spk = Some (TX_SCRIPTHASH, sols) \<longleftrightarrow>
     (\<exists>scriptID. length scriptID = 20 \<and> sols = [scriptID] \<and> spk = GetScriptForDestination (CScriptID scriptID))) \<and>
   (Solver g spk = Some (TX_PUBKEY, sols) \<longleftrightarrow>
     (\<exists>pubKey. ValidSize pubKey \<and> sols = [pubKey] \<and> spk = GetScriptForRawPubKey pubKey)) \<and>
   (Solver True spk = Some (TX_COLDSTAKE, sols) \<longleftrightarrow>
     (\<exists>staker owner. length staker = 20 \<and> length owner = 20 \<and> sols = [staker, owner] \<and>
        spk = GetScriptForStakeDelegation staker owner))"
proof (intro conjI iffI)
  assume "Solver g spk = Some (TX_PUBKEYHASH, sols)"
  from Solver_cases(1) [OF this] show "\<exists>keyID. length keyID = 20 \<and> sols = [keyID] \<and> spk = GetScriptForDestination (CKeyID keyID)"
    by (auto simp: MatchPayToPubkeyHash_iff)
next
  assume "Solver g spk = Some (TX_SCRIPTHASH, sols)"
  from Solver_cases(2) [OF this] show "\<exists>scriptID. length scriptID = 20 \<and> sols = [scriptID] \<and> spk = GetScriptForDestination (CScriptID scriptID)"
    using IsPayToScriptHash_iff [of spk] by auto
next
  assume "Solver g spk = Some (TX_PUBKEY, sols)"
  from Solver_cases(3) [OF this] show "\<exists>pubKey. ValidSize pubKey \<and> sols = [pubKey] \<and> spk = GetScriptForRawPubKey pubKey"
    by (auto simp: MatchPayToPubkey_iff)
next
  assume "Solver True spk = Some (TX_COLDSTAKE, sols)"
  from Solver_cases(4) [OF this] show "\<exists>staker owner. length staker = 20 \<and> length owner = 20 \<and> sols = [staker, owner] \<and>
        spk = GetScriptForStakeDelegation staker owner"
    using IsPayToColdStaking_shape [of spk] by auto
qed (auto simp: Solver_P2PKH Solver_P2SH Solver_P2PK Solver_P2CS)

lemma multisig_keys_pushes:
  assumes "list_all ValidSize keys" "IsSmallInteger n"
  shows "multisig_keys (concat (map (push_vch []) keys) @ [n, OP_CHECKMULTISIG]) = (keys, n, [OP_CHECKMULTISIG])"
  using assms(1)
proof (induction keys)
  case Nil
  have "n > OP_PUSHDATA4"
    using assms(2) by (auto simp: IsSmallInteger_def word_less_nat_alt word_le_nat_alt)
  then show ?case
    using GetOp2_opcode [of n "[OP_CHECKMULTISIG]"] by (simp add: multisig_keys.simps ValidSize_def)
next
  case (Cons k keys)
  then have "length k < 2 ^ 32"
    using ValidSize_cases [of k] by auto
  from GetOp2_push_vch [OF this] Cons show ?case
    by (simp add: multisig_keys.simps [of "push_vch [] k @ _"])
qed

lemma EncodeOP_N_small:
  assumes "1 \<le> m" "m \<le> 16"
  shows "\<exists>r. EncodeOP_N (int m) = Some r \<and> IsSmallInteger r \<and> DecodeOP_N r = Some m"
proof -
  have "m \<in> {1..16}"
    using assms by simp
  also have "{1..16} = {1, 2, 3, 4, 5, 6, 7, 8, 9, 10, 11, 12, 13, 14, 15, 16 :: nat}"
    by (simp add: atLeastAtMost_insertL [symmetric] set_eq_iff numeral_eq_Suc atLeastAtMostSuc_conv)
  finally show ?thesis
    by (auto simp: EncodeOP_N_def DecodeOP_N_def IsSmallInteger_def)
qed

lemma foldl_push_vch: "foldl push_vch s keys = s @ concat (map (push_vch []) keys)"
proof (induction keys arbitrary: s)
  case (Cons k keys)
  show ?case
    using push_vch_append [of s k] by (simp add: Cons)
qed simp

text \<open>
  Bare multisignature scripts: what \<^verbatim>\<open>GetScriptForMultisig\<close> builds for up to 16 keys is solved to the same keys
  and number of required signatures; no destinations are extracted from it.
\<close>

theorem Multisig_roundtrip:
  assumes "1 \<le> nRequired" and "nRequired \<le> length keys" and "length keys \<le> 16" and "list_all ValidSize keys"
  shows "\<exists>script. GetScriptForMultisig (int nRequired) keys = Some script \<and>
    Solver g_newP2CSRules script = Some (TX_MULTISIG, [of_nat nRequired] # keys @ [[of_nat (length keys)]]) \<and>
    ScriptSigArgsExpected TX_MULTISIG ([of_nat nRequired] # keys @ [[of_nat (length keys)]]) = int nRequired + 1 \<and>
    ExtractDestinations g_newP2CSRules script = None"
proof -
  obtain r where r: "EncodeOP_N (int nRequired) = Some r" "IsSmallInteger r" "DecodeOP_N r = Some nRequired"
    using EncodeOP_N_small [of nRequired] assms by auto
  obtain n where n: "EncodeOP_N (int (length keys)) = Some n" "IsSmallInteger n" "DecodeOP_N n = Some (length keys)"
    using EncodeOP_N_small [of "length keys"] assms by auto
  define script where "script = r # concat (map (push_vch []) keys) @ [n, OP_CHECKMULTISIG]"
  have g: "GetScriptForMultisig (int nRequired) keys = Some script"
    by (simp add: GetScriptForMultisig_def r n script_def push_opcode_append foldl_push_vch)
  have rr: "OP_1 \<le> r" "r \<le> OP_16"
    using r(2) by (simp_all add: IsSmallInteger_def)
  then have "r > OP_PUSHDATA4"
    by (auto simp: word_less_nat_alt word_le_nat_alt)
  then have m: "MatchMultisig script = Some (nRequired, keys)"
    using assms r n GetOp2_opcode [of r] multisig_keys_pushes [OF assms(4) n(2)]
    by (simp add: MatchMultisig_def script_def Let_def)
  have "last script = OP_CHECKMULTISIG" "script \<noteq> []"
    by (simp_all add: script_def)
  then have "length script = 51 \<Longrightarrow> script ! 50 = OP_CHECKMULTISIG"
    by (metis last_conv_nth diff_Suc_1 eval_nat_numeral(3) semiring_norm(26) semiring_norm(27) semiring_norm(28))
  moreover have "script ! 0 = r" "r \<notin> {OP_HASH160, OP_DUP, OP_RETURN}"
    using rr by (auto simp: script_def word_le_nat_alt)
  ultimately have s: "Solver g_newP2CSRules script = Some (TX_MULTISIG, [of_nat nRequired] # keys @ [[of_nat (length keys)]])"
    using m \<open>script \<noteq> []\<close> \<open>last script = OP_CHECKMULTISIG\<close>
    by (auto simp: Solver_def IsPayToScriptHash_def IsPayAssetScriptHash_def MatchPayToPubkey_def
        MatchPayToPubkeyHash_def MatchPayToColdStaking_def IsPayToColdStaking_def MatchPayToDposAssets_def IsPayAssetDposScript_def)
  have "nRequired mod 256 = nRequired"
    using assms by (intro mod_less) linarith
  then show ?thesis
    using g s by (intro exI [of _ script]) (simp add: ScriptSigArgsExpected_def ExtractDestinations_def ExtractDestination_def)
qed

theorem Multisig_roundtrip_witness:
  "\<exists>script. GetScriptForMultisig 1 [2 # replicate 32 5, 4 # replicate 64 6] = Some script \<and>
    Solver True script = Some (TX_MULTISIG, [[1], 2 # replicate 32 5, 4 # replicate 64 6, [2]])"
  using Multisig_roundtrip [of 1 "[2 # replicate 32 5, 4 # replicate 64 6]" True]
  by (auto simp: ValidSize_def GetLen_def)

end
