(* ===== verification/Arith_Uint256.thy ===== *)
theory Arith_Uint256
  imports Script_Code
begin

text \<open>
  Unsigned big integers (\<^verbatim>\<open>base_uint\<close> of \<^verbatim>\<open>src/arith_uint256.h\<close>, \<^verbatim>\<open>src/arith_uint256.cpp\<close>) on their limb arrays, and
  the compact format of difficulty targets (\<^verbatim>\<open>src/uint256.cpp\<close>).  A number is the list of its 32-bit limbs
  \<^verbatim>\<open>pn[0], pn[1], \<dots>\<close>; its length is \<^verbatim>\<open>WIDTH\<close>.  The loops that run over all limbs are recursions on the lists, with
  the 64-bit carry as an argument.
\<close>

type_synonym base_uint = "32 word list"

section \<open>Construction\<close>

definition base_uint_zero :: "nat \<Rightarrow> base_uint" where
  "base_uint_zero WIDTH = replicate WIDTH 0"

definition base_uint_of64 :: "nat \<Rightarrow> 64 word \<Rightarrow> base_uint" where
  "base_uint_of64 WIDTH b = ucast b # ucast (drop_bit 32 b) # replicate (WIDTH - 2) 0"

definition base_uint_of_vch :: "nat \<Rightarrow> bytes \<Rightarrow> base_uint option" where
  "base_uint_of_vch WIDTH vch =
     (if length vch \<noteq> 4 * WIDTH then None
      else Some (map (\<lambda>i. of_nat (ReadLE32 (drop (4 * i) vch))) [0..<WIDTH]))"

section \<open>Operators\<close>

fun uint_add_loop :: "64 word \<Rightarrow> base_uint \<Rightarrow> base_uint \<Rightarrow> base_uint" where
  "uint_add_loop carry (p # ps) (q # qs) =
     (let n = carry + ucast p + ucast q
      in ucast (n AND 0xffffffff) # uint_add_loop (drop_bit 32 n) ps qs)"
| "uint_add_loop carry _ _ = []"

definition uint_add :: "base_uint \<Rightarrow> base_uint \<Rightarrow> base_uint" where
  "uint_add a b = uint_add_loop 0 a b"

definition uint_not :: "base_uint \<Rightarrow> base_uint" where
  "uint_not a = map (\<lambda>p. NOT p) a"

fun uint_inc :: "base_uint \<Rightarrow> base_uint" where
  "uint_inc [] = []"
| "uint_inc (p # ps) = (if p + 1 = 0 \<and> ps \<noteq> [] then (p + 1) # uint_inc ps else (p + 1) # ps)"

fun uint_dec :: "base_uint \<Rightarrow> base_uint" where
  "uint_dec [] = []"
| "uint_dec (p # ps) = (if p - 1 = - 1 \<and> ps \<noteq> [] then (p - 1) # uint_dec ps else (p - 1) # ps)"

definition uint_neg :: "base_uint \<Rightarrow> base_uint" where
  "uint_neg a = uint_inc (uint_not a)"

definition uint_sub :: "base_uint \<Rightarrow> base_uint \<Rightarrow> base_uint" where
  "uint_sub a b = uint_add a (uint_neg b)"

fun uint_mul32_loop :: "64 word \<Rightarrow> 32 word \<Rightarrow> base_uint \<Rightarrow> base_uint" where
  "uint_mul32_loop carry b32 [] = []"
| "uint_mul32_loop carry b32 (p # ps) =
     (let n = carry + ucast b32 * ucast p
      in ucast (n AND 0xffffffff) # uint_mul32_loop (drop_bit 32 n) b32 ps)"

definition uint_mul32 :: "base_uint \<Rightarrow> 32 word \<Rightarrow> base_uint" where
  "uint_mul32 a b32 = uint_mul32_loop 0 b32 a"

text \<open>
  The two loops of the full multiplication.  Round \<^verbatim>\<open>j\<close> only touches the limbs from \<^verbatim>\<open>j\<close> on, which are the
  argument \<open>ps\<close>.
\<close>

fun uint_mul_inner :: "64 word \<Rightarrow> 32 word \<Rightarrow> base_uint \<Rightarrow> base_uint \<Rightarrow> base_uint" where
  "uint_mul_inner carry x (p # ps) (q # qs) =
     (let n = carry + ucast p + ucast x * ucast q
      in ucast (n AND 0xffffffff) # uint_mul_inner (drop_bit 32 n) x ps qs)"
| "uint_mul_inner carry x ps _ = ps"

fun uint_mul_outer :: "base_uint \<Rightarrow> base_uint \<Rightarrow> base_uint \<Rightarrow> base_uint" where
  "uint_mul_outer [] ps b = ps"
| "uint_mul_outer (x # xs) ps b =
     (case uint_mul_inner 0 x ps b of [] \<Rightarrow> [] | p # ps' \<Rightarrow> p # uint_mul_outer xs ps' b)"

definition uint_mul :: "base_uint \<Rightarrow> base_uint \<Rightarrow> base_uint" where
  "uint_mul a b = uint_mul_outer a (base_uint_zero (length a)) b"

definition or_limb :: "base_uint \<Rightarrow> nat \<Rightarrow> 32 word \<Rightarrow> base_uint" where
  "or_limb pn i x = pn[i := pn ! i OR x]"

text \<open>The bodies of the two shift loops.\<close>

definition shl_step :: "base_uint \<Rightarrow> nat \<Rightarrow> nat \<Rightarrow> base_uint \<Rightarrow> nat \<Rightarrow> base_uint" where
  "shl_step a k shift pn i =
     (let pn1 = (if i + k + 1 < length a \<and> shift \<noteq> 0 then or_limb pn (i + k + 1) (drop_bit (32 - shift) (a ! i)) else pn)
      in if i + k < length a then or_limb pn1 (i + k) (push_bit shift (a ! i)) else pn1)"

definition shr_step :: "base_uint \<Rightarrow> nat \<Rightarrow> nat \<Rightarrow> base_uint \<Rightarrow> nat \<Rightarrow> base_uint" where
  "shr_step a k shift pn i =
     (let pn1 = (if k + 1 \<le> i \<and> shift \<noteq> 0 then or_limb pn (i - k - 1) (push_bit (32 - shift) (a ! i)) else pn)
      in if k \<le> i then or_limb pn1 (i - k) (drop_bit shift (a ! i)) else pn1)"

definition uint_shl :: "base_uint \<Rightarrow> nat \<Rightarrow> base_uint" where
  "uint_shl a shift = foldl (shl_step a (shift div 32) (shift mod 32)) (base_uint_zero (length a)) [0..<length a]"

definition uint_shr :: "base_uint \<Rightarrow> nat \<Rightarrow> base_uint" where
  "uint_shr a shift = foldl (shr_step a (shift div 32) (shift mod 32)) (base_uint_zero (length a)) [0..<length a]"

text \<open>\<^verbatim>\<open>CompareTo\<close> runs from the highest limb down: on the reversed lists.\<close>

fun CompareTo_loop :: "base_uint \<Rightarrow> base_uint \<Rightarrow> int" where
  "CompareTo_loop (p # ps) (q # qs) =
     (if p < q then - 1 else if p > q then 1 else CompareTo_loop ps qs)"
| "CompareTo_loop _ _ = 0"

definition CompareTo :: "base_uint \<Rightarrow> base_uint \<Rightarrow> int" where
  "CompareTo a b = CompareTo_loop (rev a) (rev b)"

definition EqualTo :: "base_uint \<Rightarrow> 64 word \<Rightarrow> bool" where
  "EqualTo a b \<longleftrightarrow> list_all (\<lambda>p. p = 0) (drop 2 a) \<and> ucast (a ! 1) = drop_bit 32 b \<and> ucast (a ! 0) = b AND 0xffffffff"

definition base_uint_IsNull :: "base_uint \<Rightarrow> bool" where
  "base_uint_IsNull a = list_all (\<lambda>p. p = 0) a"

text \<open>\<^verbatim>\<open>bits()\<close>: the inner loop searches a limb from bit 31 down to bit 1.\<close>

fun limb_bits :: "nat \<Rightarrow> 32 word \<Rightarrow> nat" where
  "limb_bits 0 p = 1"
| "limb_bits (Suc n) p = (if bit p (Suc n) then Suc n + 1 else limb_bits n p)"

fun uint_bits_loop :: "base_uint \<Rightarrow> nat" where
  "uint_bits_loop [] = 0"
| "uint_bits_loop (p # ps) = (if p \<noteq> 0 then 32 * length ps + limb_bits 31 p else uint_bits_loop ps)"

definition uint_bits :: "base_uint \<Rightarrow> nat" where
  "uint_bits a = uint_bits_loop (rev a)"

definition GetLow64 :: "base_uint \<Rightarrow> 64 word" where
  "GetLow64 a = ucast (a ! 0) OR push_bit 32 (ucast (a ! 1))"

text \<open>The division loop; \<open>n\<close> is \<^verbatim>\<open>shift + 1\<close>.  Division by zero throws.\<close>

fun uint_div_loop :: "nat \<Rightarrow> base_uint \<Rightarrow> base_uint \<Rightarrow> base_uint \<Rightarrow> base_uint" where
  "uint_div_loop 0 num dv pn = pn"
| "uint_div_loop (Suc shift) num dv pn =
     (if CompareTo num dv \<ge> 0
      then uint_div_loop shift (uint_sub num dv) (uint_shr dv 1)
             (or_limb pn (shift div 32) (push_bit (shift mod 32) 1))
      else uint_div_loop shift num (uint_shr dv 1) pn)"

definition uint_div :: "base_uint \<Rightarrow> base_uint \<Rightarrow> base_uint option" where
  "uint_div a b =
     (let num_bits = uint_bits a; div_bits = uint_bits b; pn = base_uint_zero (length a) in
      if div_bits = 0 then None
      else if div_bits > num_bits then Some pn
      else let shift = num_bits - div_bits in Some (uint_div_loop (Suc shift) a (uint_shl b shift) pn))"

section \<open>The compact format\<close>

text \<open>The number with \<^verbatim>\<open>*pfNegative\<close> and \<^verbatim>\<open>*pfOverflow\<close>.\<close>

definition SetCompact :: "32 word \<Rightarrow> base_uint \<times> bool \<times> bool" where
  "SetCompact nCompact =
     (let nSize = unat (drop_bit 24 nCompact);
          nWord0 = nCompact AND 0x007fffff;
          nWord = (if nSize \<le> 3 then drop_bit (8 * (3 - nSize)) nWord0 else nWord0);
          bn = (if nSize \<le> 3 then base_uint_of64 8 (ucast nWord)
                else uint_shl (base_uint_of64 8 (ucast nWord)) (8 * (nSize - 3)))
      in (bn, nWord \<noteq> 0 \<and> nCompact AND 0x00800000 \<noteq> 0,
          nWord \<noteq> 0 \<and> (nSize > 34 \<or> nWord > 0xff \<and> nSize > 33 \<or> nWord > 0xffff \<and> nSize > 32)))"

text \<open>\<open>None\<close> where an assertion fails.\<close>

definition GetCompact :: "base_uint \<Rightarrow> bool \<Rightarrow> 32 word option" where
  "GetCompact a fNegative =
     (let nSize = (uint_bits a + 7) div 8;
          nCompact = (if nSize \<le> 3 then ucast (push_bit (8 * (3 - nSize)) (GetLow64 a))
                      else ucast (GetLow64 (uint_shr a (8 * (nSize - 3))))) :: 32 word;
          (nCompact1, nSize1) = (if nCompact AND 0x00800000 \<noteq> 0 then (drop_bit 8 nCompact, nSize + 1) else (nCompact, nSize))
      in if nCompact1 AND NOT 0x007fffff \<noteq> 0 \<or> nSize1 \<ge> 256 then None
         else let nCompact2 = nCompact1 OR push_bit 24 (of_nat nSize1)
              in Some (nCompact2 OR (if fNegative \<and> nCompact2 AND 0x007fffff \<noteq> 0 then 0x00800000 else 0)))"

section \<open>The value of a limb array\<close>

primrec uval :: "base_uint \<Rightarrow> nat" where
  "uval [] = 0"
| "uval (p # ps) = unat p + 2 ^ 32 * uval ps"

lemma uval_bound: "uval a < 2 ^ (32 * length a)"
proof (induction a)
  case (Cons p ps)
  have "unat p + 2 ^ 32 * uval ps < 2 ^ 32 * (uval ps + 1)"
    using unsigned_less [of p] by simp
  also have "\<dots> \<le> 2 ^ 32 * 2 ^ (32 * length ps)"
    using Cons by (intro mult_le_mono2) simp
  finally show ?case
    by (simp add: power_add)
qed simp

lemma uval_append: "uval (a @ b) = uval a + 2 ^ (32 * length a) * uval b"
  by (induction a) (simp_all add: algebra_simps power_add)

lemma uval_zero [simp]: "uval (replicate n 0) = 0"
  by (induction n) simp_all

lemma unat_limb [simp]: "unat (p :: 32 word) < 2 ^ 32"
  using unsigned_less [of p] by simp

lemma unat_limb_of_nat: "unat (of_nat n :: 32 word) = n mod 2 ^ 32"
  by (simp add: unat_of_nat)

lemma lo32: "unat (ucast (n AND 0xffffffff) :: 32 word) = unat (n :: 64 word) mod 2 ^ 32"
proof -
  have "n AND 0xffffffff = take_bit 32 n"
    by (simp add: take_bit_eq_mask mask_eq_exp_minus_1)
  moreover have "unat (take_bit 32 n) = unat n mod 2 ^ 32"
    by (simp add: take_bit_eq_mod unat_mod)
  ultimately show ?thesis
    by (simp only: unsigned_ucast_eq) (simp add: take_bit_eq_mod)
qed

lemma hi32: "unat (drop_bit 32 (n :: 64 word)) = unat n div 2 ^ 32"
  by (simp add: drop_bit_eq_div unat_div)

lemma u64 [simp]: "unat (ucast (p :: 32 word) :: 64 word) = unat p"
  using unat_limb [of p] by (simp add: unsigned_ucast_eq take_bit_eq_mod)

section \<open>Addition, negation, multiplication\<close>

text \<open>One column: a 64-bit sum that does not overflow is split into limb and carry.\<close>

lemma column:
  assumes "unat c + x + y < 2 ^ 64" "unat p = x" "unat q = y"
  shows "unat (c + p + q :: 64 word) = unat c + x + y"
  using assms by (simp add: unat_word_ariths)

lemma digit_mod:
  fixes n m v :: nat
  shows "(n mod 2 ^ 32 + 2 ^ 32 * ((n div 2 ^ 32 + v) mod 2 ^ m)) = (n + 2 ^ 32 * v) mod 2 ^ (32 + m)"
proof -
  have "(n + 2 ^ 32 * v) mod (2 ^ 32 * 2 ^ m) =
      2 ^ 32 * ((n + 2 ^ 32 * v) div 2 ^ 32 mod 2 ^ m) + (n + 2 ^ 32 * v) mod 2 ^ 32"
    by (rule mod_mult2_eq)
  moreover have "(n + 2 ^ 32 * v) div 2 ^ 32 = n div 2 ^ 32 + v" "(n + 2 ^ 32 * v) mod 2 ^ 32 = n mod 2 ^ 32"
    by simp_all
  ultimately show ?thesis
    by (metis add.commute power_add)
qed

lemma length_add_loop [simp]: "length (uint_add_loop c a b) = min (length a) (length b)"
  by (induction c a b rule: uint_add_loop.induct) (simp_all add: Let_def)

lemma uint_add_loop_val:
  "length a = length b \<Longrightarrow> unat c \<le> 1 \<Longrightarrow> uval (uint_add_loop c a b) = (unat c + uval a + uval b) mod 2 ^ (32 * length a)"
proof (induction c a b rule: uint_add_loop.induct)
  case (1 c p ps q qs)
  define n where "n = c + ucast p + ucast q"
  have n: "unat n = unat c + unat p + unat q"
    unfolding n_def using 1(3) unat_limb [of p] unat_limb [of q] by (intro column) simp_all
  then have "unat (drop_bit 32 n) \<le> 1"
    using 1(3) unat_limb [of p] unat_limb [of q] by (simp add: hi32)
  from "1.IH" [OF n_def _ this] 1(2)
  have "uval (uint_add_loop (drop_bit 32 n) ps qs) = (unat n div 2 ^ 32 + (uval ps + uval qs)) mod 2 ^ (32 * length ps)"
    by (simp add: hi32 add.assoc)
  then have "uval (uint_add_loop c (p # ps) (q # qs)) = (unat n + 2 ^ 32 * (uval ps + uval qs)) mod 2 ^ (32 + 32 * length ps)"
    by (simp only: digit_mod [symmetric]) (simp add: Let_def n_def [symmetric] lo32)
  then show ?case
    by (simp add: n algebra_simps)
qed simp_all

lemma uval_add: "length a = length b \<Longrightarrow> uval (uint_add a b) = (uval a + uval b) mod 2 ^ (32 * length a)"
  by (simp add: uint_add_def uint_add_loop_val)

lemma length_uint_add [simp]: "length (uint_add a b) = min (length a) (length b)"
  by (simp add: uint_add_def)

lemma length_uint_not [simp]: "length (uint_not a) = length a"
  by (simp add: uint_not_def)

lemma unat_not: "unat (NOT (p :: 32 word)) = 2 ^ 32 - 1 - unat p"
proof -
  have "NOT p = - 1 - p"
    by (simp add: not_eq_complement)
  moreover have "unat (- 1 - p) = unat (- 1 :: 32 word) - unat p"
    by (rule unat_sub) simp
  ultimately show ?thesis
    by (simp add: unsigned_minus_1_eq_mask mask_eq_exp_minus_1)
qed

lemma uval_not: "uval (uint_not a) + uval a + 1 = 2 ^ (32 * length a)"
proof (induction a)
  case (Cons p ps)
  have "unat (NOT p) + unat p + 1 = 2 ^ 32"
    using unat_limb [of p] by (simp add: unat_not)
  then have "uval (uint_not (p # ps)) + uval (p # ps) + 1 = 2 ^ 32 * (uval (uint_not ps) + uval ps + 1)"
    by (simp add: uint_not_def)
  also have "\<dots> = 2 ^ 32 * 2 ^ (32 * length ps)"
    by (simp only: Cons)
  finally show ?case
    by (simp add: power_add)
qed (simp add: uint_not_def)

lemma length_uint_inc [simp]: "length (uint_inc a) = length a"
  by (induction a) simp_all

lemma uval_inc: "uval (uint_inc a) = (uval a + 1) mod 2 ^ (32 * length a)"
proof (induction a)
  case (Cons p ps)
  have u: "unat (p + 1) = (unat p + 1) mod 2 ^ 32"
    by (simp add: unat_word_ariths)
  show ?case
  proof (cases "p + 1 = 0")
    case True
    then have "unat p + 1 = 2 ^ 32"
      using u unat_limb [of p] by (metis Suc_eq_plus1 Suc_leI mod_less nat_neq_iff not_less unsigned_0 zero_neq_one add_is_0 order_le_less)
    with Cons True digit_mod [of "unat p + 1" "uval ps" "32 * length ps"] show ?thesis
      by (cases ps) (simp_all add: algebra_simps)
  next
    case False
    then have "unat p + 1 < 2 ^ 32"
      using u unat_limb [of p] by (metis Suc_eq_plus1 Suc_lessI mod_self unsigned_eq_0_iff)
    moreover have "unat p + 1 + 2 ^ 32 * uval ps < 2 ^ (32 * length (p # ps))"
      using uval_bound [of "(p + 1) # ps"] calculation u by simp
    ultimately show ?thesis
      using False u by simp
  qed
qed simp

lemma uval_neg: "uval (uint_neg a) = (2 ^ (32 * length a) - uval a) mod 2 ^ (32 * length a)"
proof -
  have "uval (uint_not a) + 1 = 2 ^ (32 * length a) - uval a"
    using uval_not [of a] by linarith
  then show ?thesis
    by (simp only: uint_neg_def uval_inc length_uint_not)
qed

lemma length_uint_neg [simp]: "length (uint_neg a) = length a"
  by (simp add: uint_neg_def)

lemma uval_sub:
  assumes "length a = length b"
  shows "uval (uint_sub a b) = (uval a + (2 ^ (32 * length a) - uval b)) mod 2 ^ (32 * length a)"
  using assms by (simp add: uint_sub_def uval_add uval_neg mod_add_right_eq)

lemma length_uint_sub [simp]: "length (uint_sub a b) = min (length a) (length b)"
  by (simp add: uint_sub_def)

lemma uval_sub_le:
  assumes "length a = length b" "uval b \<le> uval a"
  shows "uval (uint_sub a b) = uval a - uval b"
proof -
  have "uval a + (2 ^ (32 * length a) - uval b) = (uval a - uval b) + 2 ^ (32 * length a)"
    using assms uval_bound [of b] by simp
  moreover have "(uval a - uval b) mod 2 ^ (32 * length a) = uval a - uval b"
    using uval_bound [of a] by (intro mod_less) linarith
  ultimately show ?thesis
    by (simp only: uval_sub [OF assms(1)] mod_add_self2)
qed

lemma length_mul32_loop [simp]: "length (uint_mul32_loop c b a) = length a"
  by (induction c b a rule: uint_mul32_loop.induct) (simp_all add: Let_def)

lemma limb_product:
  fixes x y c :: nat
  assumes "x < 2 ^ 32" "y < 2 ^ 32"
  shows "x * y \<le> (2 ^ 32 - 1) * (2 ^ 32 - 1)"
  using assms by (intro mult_le_mono) simp_all

lemma unat_product: "unat (ucast (x :: 32 word) * ucast (y :: 32 word) :: 64 word) = unat x * unat y"
proof -
  have "unat x * unat y < 2 ^ 64"
    using limb_product [of "unat x" "unat y"] unat_limb [of x] unat_limb [of y] by simp
  then show ?thesis
    by (simp add: unat_word_ariths)
qed

lemma uint_mul32_loop_val:
  "unat c < 2 ^ 32 \<Longrightarrow> uval (uint_mul32_loop c b a) = (unat c + unat b * uval a) mod 2 ^ (32 * length a)"
proof (induction c b a rule: uint_mul32_loop.induct)
  case (2 c b p ps)
  define n where "n = c + ucast b * ucast p"
  have pr: "unat b * unat p \<le> (2 ^ 32 - 1) * (2 ^ 32 - 1)"
    by (rule limb_product) (rule unat_limb)+
  then have n: "unat n = unat c + unat b * unat p"
    unfolding n_def using 2(2) by (simp add: unat_word_ariths unat_product)
  then have "unat (drop_bit 32 n) < 2 ^ 32"
    using pr 2(2) unfolding hi32 by (intro less_mult_imp_div_less) simp
  from "2.IH" [OF n_def this]
  have "uval (uint_mul32_loop (drop_bit 32 n) b ps) = (unat n div 2 ^ 32 + unat b * uval ps) mod 2 ^ (32 * length ps)"
    by (simp add: hi32)
  then have "uval (uint_mul32_loop c b (p # ps)) = (unat n + 2 ^ 32 * (unat b * uval ps)) mod 2 ^ (32 + 32 * length ps)"
    by (simp only: digit_mod [symmetric]) (simp add: Let_def n_def [symmetric] lo32)
  then show ?case
    by (simp add: n algebra_simps)
qed simp

lemma uval_mul32: "uval (uint_mul32 a b) = (uval a * unat b) mod 2 ^ (32 * length a)"
  by (simp add: uint_mul32_def uint_mul32_loop_val mult.commute)

lemma length_mul32 [simp]: "length (uint_mul32 a b) = length a"
  by (simp add: uint_mul32_def)

lemma length_mul_inner [simp]: "length (uint_mul_inner c x ps qs) = length ps"
  by (induction c x ps qs rule: uint_mul_inner.induct) (simp_all add: Let_def)

lemma uint_mul_inner_val:
  "unat c < 2 ^ 32 \<Longrightarrow> length ps \<le> length qs \<Longrightarrow>
   uval (uint_mul_inner c x ps qs) = (unat c + uval ps + unat x * uval qs) mod 2 ^ (32 * length ps)"
proof (induction c x ps qs rule: uint_mul_inner.induct)
  case (1 c x p ps q qs)
  define n where "n = c + ucast p + ucast x * ucast q"
  have pr: "unat x * unat q \<le> (2 ^ 32 - 1) * (2 ^ 32 - 1)"
    by (rule limb_product) (rule unat_limb)+
  have n: "unat n = unat c + unat p + unat x * unat q"
    unfolding n_def using 1(2) pr unat_limb [of p] by (intro column) (simp_all add: unat_product)
  then have "unat (drop_bit 32 n) < 2 ^ 32"
    using pr 1(2) unat_limb [of p] unfolding hi32 by (intro less_mult_imp_div_less) simp
  from "1.IH" [OF n_def this] 1(3)
  have "uval (uint_mul_inner (drop_bit 32 n) x ps qs) = (unat n div 2 ^ 32 + (uval ps + unat x * uval qs)) mod 2 ^ (32 * length ps)"
    by (simp add: hi32 add.assoc)
  then have "uval (uint_mul_inner c x (p # ps) (q # qs)) = (unat n + 2 ^ 32 * (uval ps + unat x * uval qs)) mod 2 ^ (32 + 32 * length ps)"
    by (simp only: digit_mod [symmetric]) (simp add: Let_def n_def [symmetric] lo32)
  then show ?case
    by (simp add: n algebra_simps)
qed simp_all

lemma length_mul_outer [simp]: "length (uint_mul_outer xs ps b) = length ps"
proof (induction xs ps b rule: uint_mul_outer.induct)
  case (2 x xs ps b)
  have "length (uint_mul_inner 0 x ps b) = length ps" by simp
  with 2 show ?case
    by (cases "uint_mul_inner 0 x ps b") auto
qed simp

lemma uint_mul_outer_val:
  "length xs = length ps \<Longrightarrow> length ps \<le> length b \<Longrightarrow>
   uval (uint_mul_outer xs ps b) = (uval ps + uval xs * uval b) mod 2 ^ (32 * length ps)"
proof (induction xs ps b rule: uint_mul_outer.induct)
  case (2 x xs ps b)
  then obtain p ps' where i: "uint_mul_inner 0 x ps b = p # ps'"
    by (metis Zero_not_Suc length_Cons length_mul_inner list.size(3) neq_Nil_conv)
  have l: "length ps = Suc (length ps')"
    using length_mul_inner [of 0 x ps b] i by simp
  have v: "uval (p # ps') = (uval ps + unat x * uval b) mod 2 ^ (32 * length ps)"
    using uint_mul_inner_val [of 0 ps b x] 2(3) i by simp
  have "uval (uint_mul_outer (x # xs) ps b) = unat p + 2 ^ 32 * ((uval ps' + uval xs * uval b) mod 2 ^ (32 * length ps'))"
    using "2.IH" [OF i] 2(2,3) l i by simp
  also have "\<dots> = (uval (p # ps') + 2 ^ 32 * (uval xs * uval b)) mod 2 ^ (32 * length ps)"
    using digit_mod [of "unat p" "uval ps' + uval xs * uval b" "32 * length ps'"] unat_limb [of p] l
    by (simp add: algebra_simps)
  also have "\<dots> = (uval ps + unat x * uval b + 2 ^ 32 * (uval xs * uval b)) mod 2 ^ (32 * length ps)"
    unfolding v by (rule mod_add_left_eq)
  finally show ?case
    by (simp add: algebra_simps)
qed simp

lemma uval_mul: "length a = length b \<Longrightarrow> uval (uint_mul a b) = (uval a * uval b) mod 2 ^ (32 * length a)"
  by (simp add: uint_mul_def base_uint_zero_def uint_mul_outer_val)

lemma length_uint_mul [simp]: "length (uint_mul a b) = length a"
  by (simp add: uint_mul_def base_uint_zero_def)

lemma length_uint_dec [simp]: "length (uint_dec a) = length a"
  by (induction a) simp_all

lemma uval_dec:
  "a \<noteq> [] \<Longrightarrow> uval (uint_dec a) = (if uval a = 0 then 2 ^ (32 * length a) - 1 else uval a - 1)"
proof (induction a)
  case (Cons p ps)
  show ?case
  proof (cases "p = 0")
    case True
    have m: "unat (- 1 :: 32 word) = 2 ^ 32 - 1"
      by (simp add: unsigned_minus_1_eq_mask mask_eq_exp_minus_1)
    show ?thesis
    proof (cases "ps = []")
      case False
      have "2 ^ 32 - 1 + 2 ^ 32 * (v - 1) = 2 ^ 32 * v - (1 :: nat)" if "1 \<le> v" for v
        using that by (simp add: algebra_simps)
      from this [of "2 ^ (32 * length ps)"] this [of "uval ps"] Cons.IH [OF False] True False m show ?thesis
        by (auto simp: power_add)
    qed (simp add: True m)
  next
    case False
    then have "unat (p - 1) = unat p - 1" "0 < unat p"
      by (simp_all add: unat_gt_0 unat_minus_one)
    then show ?thesis
      using False by (auto simp: diff_eq_eq)
  qed
qed simp

section \<open>Bits and shifts\<close>

lemma bit_digit: "bit (x + 2 ^ k * v) m = (if m < k then bit x m else bit v (m - k))" if "x < 2 ^ k" for x v :: nat
proof (cases "m < k")
  case True
  then have "(2 :: nat) ^ k = 2 ^ m * 2 ^ (k - m)"
    by (simp add: power_add [symmetric])
  then have "(x + 2 ^ k * v) div 2 ^ m = (x + 2 ^ m * (2 ^ (k - m) * v)) div 2 ^ m"
    by (simp only: mult.assoc)
  also have "\<dots> = 2 ^ (k - m) * v + x div 2 ^ m"
    by (rule div_mult_self2) simp
  finally have "(x + 2 ^ k * v) div 2 ^ m = x div 2 ^ m + 2 ^ (k - m) * v"
    by simp
  with True show ?thesis
    by (simp add: bit_iff_odd)
next
  case False
  then have "(2 :: nat) ^ m = 2 ^ k * 2 ^ (m - k)"
    by (metis le_add_diff_inverse not_less power_add)
  moreover have "(x + 2 ^ k * v) div 2 ^ k = v"
    using that by simp
  ultimately have "(x + 2 ^ k * v) div 2 ^ m = v div 2 ^ (m - k)"
    by (simp only: div_mult2_eq)
  with False show ?thesis
    by (simp add: bit_iff_odd)
qed

lemma bit_uval: "bit (uval a) m \<longleftrightarrow> m < 32 * length a \<and> bit (a ! (m div 32)) (m mod 32)"
proof (induction a arbitrary: m)
  case (Cons p ps)
  have "bit (uval (p # ps)) m = (if m < 32 then bit (unat p) m else bit (uval ps) (m - 32))"
    using bit_digit [of "unat p" 32 "uval ps" m] unat_limb [of p] by simp
  also have "\<dots> = (m < 32 * length (p # ps) \<and> bit ((p # ps) ! (m div 32)) (m mod 32))"
    using Cons.IH [of "m - 32"] by (auto simp: bit_unsigned_iff le_div_geq le_mod_geq)
  finally show ?case .
qed simp

lemma length_or_limb [simp]: "length (or_limb pn i x) = length pn"
  by (simp add: or_limb_def)

lemma nth_or_limb: "j < length pn \<Longrightarrow> or_limb pn i x ! j = (if i = j then pn ! j OR x else pn ! j)"
  by (auto simp: or_limb_def nth_list_update)

lemma length_shl_step [simp]: "length (shl_step a k s pn i) = length pn"
  by (simp add: shl_step_def Let_def)

lemma length_shr_step [simp]: "length (shr_step a k s pn i) = length pn"
  by (simp add: shr_step_def Let_def)

lemma shl_fold:
  assumes "n \<le> length a"
  shows "length (foldl (shl_step a k s) (base_uint_zero (length a)) [0..<n]) = length a \<and>
    (\<forall>j < length a. foldl (shl_step a k s) (base_uint_zero (length a)) [0..<n] ! j =
       (if k \<le> j \<and> j - k < n then push_bit s (a ! (j - k)) else 0) OR
       (if s \<noteq> 0 \<and> k + 1 \<le> j \<and> j - k - 1 < n then drop_bit (32 - s) (a ! (j - k - 1)) else 0))"
  using assms
proof (induction n)
  case (Suc n)
  let ?pn = "foldl (shl_step a k s) (base_uint_zero (length a)) [0..<n]"
  have l: "length ?pn = length a" and v: "\<And>j. j < length a \<Longrightarrow> ?pn ! j =
       (if k \<le> j \<and> j - k < n then push_bit s (a ! (j - k)) else 0) OR
       (if s \<noteq> 0 \<and> k + 1 \<le> j \<and> j - k - 1 < n then drop_bit (32 - s) (a ! (j - k - 1)) else 0)"
    using Suc by auto
  have "shl_step a k s ?pn n ! j =
       (if k \<le> j \<and> j - k < Suc n then push_bit s (a ! (j - k)) else 0) OR
       (if s \<noteq> 0 \<and> k + 1 \<le> j \<and> j - k - 1 < Suc n then drop_bit (32 - s) (a ! (j - k - 1)) else 0)"
    if "j < length a" for j
  proof -
    consider "j = n + k" | "j = n + k + 1" | "j \<noteq> n + k" "j \<noteq> n + k + 1" by blast
    then show ?thesis
      by cases (use that v [OF that] l in \<open>auto simp: shl_step_def Let_def nth_or_limb or.commute\<close>)
  qed
  with l show ?case by simp
qed (simp add: base_uint_zero_def)

lemma length_uint_shl [simp]: "length (uint_shl a n) = length a"
  using shl_fold [of "length a" a "n div 32" "n mod 32"] by (simp add: uint_shl_def)

lemma div_mod_32: "t < 32 \<Longrightarrow> (32 * q + t) div 32 = q" "t < 32 \<Longrightarrow> (32 * q + t) mod 32 = t" for q t :: nat
  by simp_all

lemma shift_index:
  fixes m n :: nat
  shows "n \<le> m \<longleftrightarrow> (if n mod 32 \<le> m mod 32 then n div 32 \<le> m div 32 else n div 32 + 1 \<le> m div 32)"
    and "n \<le> m \<Longrightarrow> (m - n) div 32 = (if n mod 32 \<le> m mod 32 then m div 32 - n div 32 else m div 32 - n div 32 - 1)"
    and "n \<le> m \<Longrightarrow> (m - n) mod 32 = (if n mod 32 \<le> m mod 32 then m mod 32 - n mod 32 else m mod 32 + (32 - n mod 32))"
proof -
  define j k r s where "j = m div 32" and "k = n div 32" and "r = m mod 32" and "s = n mod 32"
  have m: "m = 32 * j + r" "r < 32" and n: "n = 32 * k + s" "s < 32"
    by (simp_all add: j_def k_def r_def s_def)
  show le: "n \<le> m \<longleftrightarrow> (if s \<le> r then k \<le> j else k + 1 \<le> j)"
    using m n by auto
  have d: "m - n = (if s \<le> r then 32 * (j - k) + (r - s) else 32 * (j - k - 1) + (r + (32 - s)))" if "n \<le> m"
  proof (cases "s \<le> r")
    case True
    with that le obtain i where "j = k + i" by (auto simp: le_iff_add)
    with True m n show ?thesis by simp
  next
    case False
    with that le obtain i where "j = k + 1 + i" by (auto simp: le_iff_add)
    with False m n show ?thesis by simp
  qed
  have b: "s \<le> r \<Longrightarrow> r - s < 32" "\<not> s \<le> r \<Longrightarrow> r + (32 - s) < 32"
    using m n by auto
  show "(m - n) div 32 = (if s \<le> r then j - k else j - k - 1)" if "n \<le> m"
    by (cases "s \<le> r") (simp_all only: d [OF that] if_True if_False div_mod_32(1) [OF b(1)] div_mod_32(1) [OF b(2)] not_False_eq_True)
  show "(m - n) mod 32 = (if s \<le> r then r - s else r + (32 - s))" if "n \<le> m"
    by (cases "s \<le> r") (simp_all only: d [OF that] if_True if_False div_mod_32(2) [OF b(1)] div_mod_32(2) [OF b(2)] not_False_eq_True)
qed

lemma uval_shl: "uval (uint_shl a n) = (uval a * 2 ^ n) mod 2 ^ (32 * length a)"
proof -
  let ?k = "n div 32" and ?s = "n mod 32"
  have "bit (uval (uint_shl a n)) m \<longleftrightarrow> bit (take_bit (32 * length a) (push_bit n (uval a))) m" for m
  proof (cases "m < 32 * length a")
    case True
    define j r where "j = m div 32" and "r = m mod 32"
    have j: "j < length a" and r: "r < 32"
      using True by (simp_all add: j_def r_def)
    note si = shift_index [of n m, folded j_def r_def]
    have in_range: "m - n < 32 * length a"
      using True by linarith
    have "bit (uval (uint_shl a n)) m \<longleftrightarrow> bit (uint_shl a n ! j) r"
      using True by (simp add: bit_uval j_def r_def)
    also have "\<dots> \<longleftrightarrow> (?k \<le> j \<and> ?s \<le> r \<and> bit (a ! (j - ?k)) (r - ?s)) \<or>
        (?s \<noteq> 0 \<and> ?k + 1 \<le> j \<and> r + (32 - ?s) < 32 \<and> bit (a ! (j - ?k - 1)) (r + (32 - ?s)))"
      using shl_fold [of "length a" a ?k ?s] j r
      by (auto simp: uint_shl_def bit_or_iff bit_push_bit_iff bit_drop_bit_eq less_imp_diff_less add.commute dest: bit_imp_le_length)
    also have "\<dots> \<longleftrightarrow> n \<le> m \<and> bit (uval a) (m - n)"
    proof (cases "?s \<le> r")
      case s: True
      then show ?thesis
        using si by (auto simp: bit_uval in_range)
    next
      case False
      then have "r + (32 - ?s) < 32"
        using r by arith
      with False show ?thesis
        using si r by (auto simp: bit_uval in_range)
    qed
    finally show ?thesis
      using True by (simp add: bit_take_bit_iff bit_push_bit_iff)
  qed (simp add: bit_uval bit_take_bit_iff)
  then have "uval (uint_shl a n) = take_bit (32 * length a) (push_bit n (uval a))"
    by (rule bit_eqI)
  then show ?thesis
    by (simp add: take_bit_eq_mod push_bit_eq_mult)
qed

lemma shr_fold:
  assumes "n \<le> length a"
  shows "length (foldl (shr_step a k s) (base_uint_zero (length a)) [0..<n]) = length a \<and>
    (\<forall>j < length a. foldl (shr_step a k s) (base_uint_zero (length a)) [0..<n] ! j =
       (if j + k < n then drop_bit s (a ! (j + k)) else 0) OR
       (if s \<noteq> 0 \<and> j + k + 1 < n then push_bit (32 - s) (a ! (j + k + 1)) else 0))"
  using assms
proof (induction n)
  case (Suc n)
  let ?pn = "foldl (shr_step a k s) (base_uint_zero (length a)) [0..<n]"
  have l: "length ?pn = length a" and v: "\<And>j. j < length a \<Longrightarrow> ?pn ! j =
       (if j + k < n then drop_bit s (a ! (j + k)) else 0) OR
       (if s \<noteq> 0 \<and> j + k + 1 < n then push_bit (32 - s) (a ! (j + k + 1)) else 0)"
    using Suc by auto
  have "shr_step a k s ?pn n ! j =
       (if j + k < Suc n then drop_bit s (a ! (j + k)) else 0) OR
       (if s \<noteq> 0 \<and> j + k + 1 < Suc n then push_bit (32 - s) (a ! (j + k + 1)) else 0)"
    if "j < length a" for j
  proof -
    consider "n = j + k" | "n = j + k + 1" | "n \<noteq> j + k" "n \<noteq> j + k + 1" by blast
    then show ?thesis
      by cases (use that v [OF that] l in \<open>auto simp: shr_step_def Let_def nth_or_limb or.commute\<close>)
  qed
  with l show ?case by simp
qed (simp add: base_uint_zero_def)

lemma length_uint_shr [simp]: "length (uint_shr a n) = length a"
  using shr_fold [of "length a" a "n div 32" "n mod 32"] by (simp add: uint_shr_def)

lemma uval_shr: "uval (uint_shr a n) = uval a div 2 ^ n"
proof -
  define k s where "k = n div 32" and "s = n mod 32"
  have n: "n = 32 * k + s" "s < 32"
    by (simp_all add: k_def s_def)
  have "bit (uval (uint_shr a n)) m \<longleftrightarrow> bit (drop_bit n (uval a)) m" for m
  proof (cases "m < 32 * length a")
    case True
    define j r where "j = m div 32" and "r = m mod 32"
    have j: "j < length a" and r: "r < 32" and m: "m = 32 * j + r"
      using True by (simp_all add: j_def r_def)
    have mn: "m + n = 32 * (j + k) + (r + s)"
      using m n(1) by simp
    have rs: "r + s < 64"
      using r n(2) by linarith
    have "bit (uval (uint_shr a n)) m \<longleftrightarrow> bit (uint_shr a n ! j) r"
      using True by (simp add: bit_uval j_def r_def)
    also have "\<dots> \<longleftrightarrow> (j + k < length a \<and> r + s < 32 \<and> bit (a ! (j + k)) (r + s)) \<or>
        (s \<noteq> 0 \<and> j + k + 1 < length a \<and> 32 - s \<le> r \<and> bit (a ! (j + k + 1)) (r - (32 - s)))"
      using shr_fold [of "length a" a k s] j r
      by (auto simp: uint_shr_def k_def [symmetric] s_def [symmetric] bit_or_iff bit_push_bit_iff bit_drop_bit_eq add.commute dest: bit_imp_le_length)
    also have "\<dots> \<longleftrightarrow> bit (uval a) (m + n)"
    proof (cases "r + s < 32")
      case t: True
      then have "(m + n) div 32 = j + k" "(m + n) mod 32 = r + s"
        unfolding mn by (simp_all only: div_mod_32)
      with t n(2) show ?thesis
        by (auto simp: bit_uval)
    next
      case False
      then have e: "m + n = 32 * (j + k + 1) + (r + s - 32)"
        using mn by simp
      have "r + s - 32 < 32"
        using rs by linarith
      then have "(m + n) div 32 = j + k + 1" "(m + n) mod 32 = r + s - 32"
        unfolding e by (simp_all only: div_mod_32)
      with False n(2) r show ?thesis
        by (auto simp: bit_uval)
    qed
    finally show ?thesis
      by (simp add: bit_drop_bit_eq add.commute)
  qed (simp add: bit_uval bit_drop_bit_eq)
  then have "uval (uint_shr a n) = drop_bit n (uval a)"
    by (rule bit_eqI)
  then show ?thesis
    by (simp add: drop_bit_eq_div)
qed

section \<open>Comparison and bit length\<close>

lemma uval_rev_Cons: "uval (rev (p # ps)) = uval (rev ps) + 2 ^ (32 * length ps) * unat p"
  by (simp add: uval_append)

lemma digit_less:
  fixes x y p q M :: nat
  assumes "x < M" "y < M" "p < q"
  shows "x + M * p < y + M * q"
proof -
  have "x + M * p < M * (p + 1)" using assms(1) by simp
  also have "\<dots> \<le> M * q" using assms(3) by (intro mult_le_mono2) simp
  finally show ?thesis by simp
qed

lemma digit_eq:
  fixes x y p q M :: nat
  assumes "x < M" "y < M"
  shows "x + M * p = y + M * q \<longleftrightarrow> x = y \<and> p = q"
  using digit_less [OF assms, of p q] digit_less [OF assms(2,1), of q p] by (cases p q rule: linorder_cases) auto

lemma CompareTo_loop_val:
  "length ps = length qs \<Longrightarrow> CompareTo_loop ps qs =
     (if uval (rev ps) < uval (rev qs) then - 1 else if uval (rev ps) > uval (rev qs) then 1 else 0)"
proof (induction ps qs rule: list_induct2)
  case (Cons p ps q qs)
  let ?M = "2 ^ (32 * length ps) :: nat"
  have b: "uval (rev ps) < ?M" "uval (rev qs) < ?M"
    using uval_bound [of "rev ps"] uval_bound [of "rev qs"] Cons by simp_all
  consider "p < q" | "p = q" | "q < p" by (rule linorder_cases)
  then show ?case
  proof cases
    case 1
    then have "uval (rev (p # ps)) < uval (rev (q # qs))"
      unfolding uval_rev_Cons Cons(1) [symmetric] using b by (intro digit_less) (simp_all add: word_less_nat_alt)
    with 1 show ?thesis by simp
  next
    case 2
    then show ?thesis
      using Cons by (simp add: uval_rev_Cons del: rev.simps)
  next
    case 3
    then have "uval (rev (q # qs)) < uval (rev (p # ps))"
      unfolding uval_rev_Cons Cons(1) [symmetric] using b by (intro digit_less) (simp_all add: word_less_nat_alt)
    with 3 show ?thesis by simp
  qed
qed simp

lemma CompareTo_val:
  "length a = length b \<Longrightarrow> CompareTo a b = (if uval a < uval b then - 1 else if uval a > uval b then 1 else 0)"
  using CompareTo_loop_val [of "rev a" "rev b"] by (simp add: CompareTo_def)

lemma uval_eq_0: "uval a = 0 \<longleftrightarrow> list_all (\<lambda>p. p = 0) a"
  by (induction a) (auto simp: unsigned_eq_0_iff)

lemma uval_inj: "length a = length b \<Longrightarrow> uval a = uval b \<Longrightarrow> a = b"
proof (induction a b rule: list_induct2)
  case (Cons p ps q qs)
  have "unat p = uval (p # ps) mod 2 ^ 32" "uval ps = uval (p # ps) div 2 ^ 32"
    "unat q = uval (q # qs) mod 2 ^ 32" "uval qs = uval (q # qs) div 2 ^ 32"
    using unat_limb [of p] unat_limb [of q] by simp_all
  with Cons show ?case
    by (metis word_unat_eq_iff)
qed simp

lemma base_uint_IsNull_val: "base_uint_IsNull a \<longleftrightarrow> uval a = 0"
  by (simp add: base_uint_IsNull_def uval_eq_0)

lemma uval_of64 [simp]: "2 \<le> W \<Longrightarrow> uval (base_uint_of64 W b) = unat b"
proof -
  have "unat (ucast b :: 32 word) = unat b mod 2 ^ 32"
    by (simp add: unsigned_ucast_eq take_bit_eq_mod)
  moreover have "unat (ucast (drop_bit 32 b) :: 32 word) = unat b div 2 ^ 32"
  proof -
    have "unat b div 2 ^ 32 < 2 ^ 32"
      using unsigned_less [of b] by (intro less_mult_imp_div_less) simp
    then show ?thesis
      by (simp add: unsigned_ucast_eq take_bit_eq_mod hi32 [simplified])
  qed
  ultimately show ?thesis
    by (simp add: base_uint_of64_def)
qed

lemma length_of64 [simp]: "2 \<le> W \<Longrightarrow> length (base_uint_of64 W b) = W"
  by (simp add: base_uint_of64_def)

lemma EqualTo_val: "2 \<le> length a \<Longrightarrow> EqualTo a b \<longleftrightarrow> uval a = unat b"
proof -
  assume "2 \<le> length a"
  then obtain p q r where a: "a = p # q # r"
    by (metis One_nat_def Suc_le_length_iff numeral_2_eq_2)
  have h: "unat b div 2 ^ 32 < 2 ^ 32"
    using unsigned_less [of b] by (intro less_mult_imp_div_less) simp
  have m: "b AND 0xffffffff = take_bit 32 b"
    by (simp add: take_bit_eq_mask mask_eq_exp_minus_1)
  have "EqualTo a b \<longleftrightarrow> uval r = 0 \<and> unat q = unat b div 2 ^ 32 \<and> unat p = unat b mod 2 ^ 32"
    unfolding EqualTo_def m word_unat_eq_iff [where 'a = 64]
    by (simp add: a uval_eq_0 hi32 [simplified] take_bit_eq_mod unat_mod)
  also have "\<dots> \<longleftrightarrow> unat p + 2 ^ 32 * (unat q + 2 ^ 32 * uval r) = unat b mod 2 ^ 32 + 2 ^ 32 * (unat b div 2 ^ 32 + 2 ^ 32 * 0)"
    using h unat_limb [of p] unat_limb [of q] by (simp only: digit_eq mod_less_divisor zero_less_power zero_less_numeral) auto
  finally show ?thesis
    by (simp add: a)
qed

lemma bit_of_nat_word: "bit (of_nat v :: 'a::len word) m \<longleftrightarrow> m < LENGTH('a) \<and> bit v m"
proof (cases "m < LENGTH('a)")
  case True
  then have "bit (of_nat v :: 'a word) m \<longleftrightarrow> bit (unat (of_nat v :: 'a word)) m"
    by (simp add: bit_unsigned_iff)
  also have "unat (of_nat v :: 'a word) = take_bit LENGTH('a) v"
    by (simp add: unat_of_nat take_bit_eq_mod)
  finally show ?thesis
    using True by (simp add: bit_take_bit_iff)
qed (auto dest: bit_imp_le_length)

lemma GetLow64_val: "2 \<le> length a \<Longrightarrow> GetLow64 a = of_nat (uval a)"
proof (rule bit_word_eqI)
  fix m assume a: "2 \<le> length a" and m: "m < LENGTH(64)"
  have "bit (GetLow64 a) m \<longleftrightarrow> bit (a ! (m div 32)) (m mod 32)"
  proof (cases "m < 32")
    case False
    then have "m div 32 = 1" "m mod 32 = m - 32"
      using m by (simp_all add: div_nat_eqI mod_if)
    moreover have "\<not> bit (a ! 0) m"
      using False by (auto dest: bit_imp_le_length)
    ultimately show ?thesis
      using False m by (auto simp: GetLow64_def bit_or_iff bit_push_bit_iff bit_ucast_iff)
  qed (simp add: GetLow64_def bit_or_iff bit_push_bit_iff bit_ucast_iff)
  also have "\<dots> \<longleftrightarrow> bit (uval a) m"
    using a m by (simp add: bit_uval)
  also have "\<dots> \<longleftrightarrow> bit (of_nat (uval a) :: 64 word) m"
    using m by (simp add: bit_of_nat_word)
  finally show "bit (GetLow64 a) m \<longleftrightarrow> bit (of_nat (uval a) :: 64 word) m" .
qed

lemma limb_bits_val:
  assumes "p \<noteq> 0" "unat p < 2 ^ Suc n"
  shows "1 \<le> limb_bits n p \<and> 2 ^ (limb_bits n p - 1) \<le> unat p \<and> unat p < 2 ^ limb_bits n p"
  using assms(2)
proof (induction n)
  case 0
  moreover have "unat p \<noteq> 0"
    using assms(1) by (simp add: unsigned_eq_0_iff)
  ultimately have "unat p = 1"
    by simp
  then show ?case by simp
next
  case (Suc n)
  have bit: "bit p (Suc n) \<longleftrightarrow> 2 ^ Suc n \<le> unat p"
  proof -
    have "bit p (Suc n) \<longleftrightarrow> bit (unat p) (Suc n)"
      by (auto simp: bit_unsigned_iff dest: bit_imp_le_length)
    also have "\<dots> \<longleftrightarrow> odd (unat p div 2 ^ Suc n)"
      by (rule bit_iff_odd)
    also have "unat p div 2 ^ Suc n < 2"
      using Suc.prems by (intro less_mult_imp_div_less) (simp add: mult.commute)
    then have "odd (unat p div 2 ^ Suc n) \<longleftrightarrow> 0 < unat p div 2 ^ Suc n"
      by (auto simp: less_2_cases_iff)
    finally show ?thesis
      by (simp add: div_greater_zero_iff del: power_Suc)
  qed
  then show ?case
    using Suc by (cases "bit p (Suc n)") (simp_all add: not_le)
qed

lemma uint_bits_loop_val:
  "uval (rev ps) < 2 ^ uint_bits_loop ps \<and>
   (if uval (rev ps) = 0 then uint_bits_loop ps = 0
    else 1 \<le> uint_bits_loop ps \<and> 2 ^ (uint_bits_loop ps - 1) \<le> uval (rev ps)) \<and> uint_bits_loop ps \<le> 32 * length ps"
proof (induction ps)
  case (Cons p ps)
  show ?case
  proof (cases "p = 0")
    case True
    then show ?thesis
      using Cons by (auto simp: uval_rev_Cons simp del: rev.simps split: if_splits)
  next
    case False
    let ?b = "limb_bits 31 p" and ?M = "2 ^ (32 * length ps) :: nat"
    have b: "1 \<le> ?b" "2 ^ (?b - 1) \<le> unat p" "unat p < 2 ^ ?b"
      using limb_bits_val [OF False, of 31] unat_limb [of p] by simp_all
    have "?b \<le> 32"
    proof (rule ccontr)
      assume "\<not> ?b \<le> 32"
      then have "(2 :: nat) ^ 32 \<le> 2 ^ (?b - 1)" by (intro power_increasing) simp_all
      with b(2) unat_limb [of p] show False by linarith
    qed
    have "uval (rev (p # ps)) < ?M * (unat p + 1)"
      using uval_bound [of "rev ps"] by (simp add: uval_rev_Cons del: rev.simps)
    also have "\<dots> \<le> ?M * 2 ^ ?b"
      using b by (intro mult_le_mono2) simp
    finally have u: "uval (rev (p # ps)) < 2 ^ (32 * length ps + ?b)"
      by (simp add: power_add)
    have "2 ^ (32 * length ps + ?b - 1) = ?M * 2 ^ (?b - 1)"
      using b(1) by (simp add: power_add [symmetric])
    also have "\<dots> \<le> ?M * unat p"
      using b by (intro mult_le_mono2)
    finally have l: "2 ^ (32 * length ps + ?b - 1) \<le> uval (rev (p # ps))"
      by (simp add: uval_rev_Cons del: rev.simps)
    then have "uval (rev (p # ps)) \<noteq> 0"
      by (metis not_le zero_less_numeral zero_less_power)
    with u l b \<open>?b \<le> 32\<close> False show ?thesis
      by (simp del: rev.simps)
  qed
qed simp

lemma uint_bits_val:
  "uval a < 2 ^ uint_bits a" "uint_bits a = 0 \<longleftrightarrow> uval a = 0" "uval a \<noteq> 0 \<Longrightarrow> 2 ^ (uint_bits a - 1) \<le> uval a"
  "uint_bits a \<le> 32 * length a"
  using uint_bits_loop_val [of "rev a"] by (auto simp: uint_bits_def split: if_splits)

section \<open>Division\<close>

lemma uval_set_limb_bit:
  assumes "i < 32 * length pn" "\<not> bit (uval pn) i"
  shows "uval (or_limb pn (i div 32) (push_bit (i mod 32) 1)) = uval pn + 2 ^ i"
proof -
  have "bit (uval (or_limb pn (i div 32) (push_bit (i mod 32) 1))) m \<longleftrightarrow> bit (set_bit i (uval pn)) m" for m
  proof (cases "m < 32 * length pn")
    case True
    have "m = i \<longleftrightarrow> m div 32 = i div 32 \<and> m mod 32 = i mod 32"
      by (metis mult_div_mod_eq)
    moreover have "bit (push_bit (i mod 32) 1 :: 32 word) r \<longleftrightarrow> r = i mod 32" for r
      by (auto simp: push_bit_eq_mult bit_exp_iff)
    ultimately show ?thesis
      using True by (auto simp: bit_uval nth_or_limb bit_or_iff bit_set_bit_iff)
  next
    case False
    with assms(1) show ?thesis
      by (auto simp: bit_uval bit_set_bit_iff)
  qed
  then have "uval (or_limb pn (i div 32) (push_bit (i mod 32) 1)) = set_bit i (uval pn)"
    by (rule bit_eqI)
  with assms(2) show ?thesis
    by (simp add: set_bit_eq)
qed

lemma uint_div_loop_val:
  assumes "length num = length pn" "length dv = length pn" "n \<le> 32 * length pn" "0 < b"
    "n \<noteq> 0 \<Longrightarrow> uval dv = b * 2 ^ (n - 1)" "uval num < b * 2 ^ n" "\<And>i. i < n \<Longrightarrow> \<not> bit (uval pn) i"
  shows "uval (uint_div_loop n num dv pn) = uval pn + uval num div b \<and> length (uint_div_loop n num dv pn) = length pn"
  using assms
proof (induction n arbitrary: num dv pn)
  case (Suc n)
  have dv: "uval dv = b * 2 ^ n"
    using Suc.prems(5) by simp
  have shr: "n \<noteq> 0 \<Longrightarrow> uval (uint_shr dv 1) = b * 2 ^ (n - 1)"
    by (cases n) (simp_all add: uval_shr dv)
  show ?case
  proof (cases "uval dv \<le> uval num")
    case True
    then have c: "CompareTo num dv \<ge> 0"
      using Suc.prems by (simp add: CompareTo_val)
    let ?pn = "or_limb pn (n div 32) (push_bit (n mod 32) 1)"
    have pn: "uval ?pn = uval pn + 2 ^ n"
      using Suc.prems by (intro uval_set_limb_bit) auto
    have num: "uval (uint_sub num dv) = uval num - uval dv"
      using True Suc.prems by (intro uval_sub_le) simp_all
    have nb: "\<not> bit (uval ?pn) i" if "i < n" for i
    proof -
      have "uval ?pn = set_bit n (uval pn)"
        using Suc.prems(7) [of n] pn by (simp add: set_bit_eq)
      with that Suc.prems(7) [of i] show ?thesis
        by (simp add: bit_set_bit_iff)
    qed
    have lt: "uval (uint_sub num dv) < b * 2 ^ n"
      using Suc.prems(6) num dv True by simp
    have "uval (uint_div_loop n (uint_sub num dv) (uint_shr dv 1) ?pn) = uval ?pn + uval (uint_sub num dv) div b \<and>
        length (uint_div_loop n (uint_sub num dv) (uint_shr dv 1) ?pn) = length ?pn"
      by (rule Suc.IH [OF _ _ _ Suc.prems(4) shr lt nb]) (use Suc.prems in simp_all)
    moreover have "uval num div b = (uval num - uval dv) div b + 2 ^ n"
    proof -
      have "uval num = uval num - uval dv + b * 2 ^ n"
        using True dv by simp
      then have "uval num div b = (uval num - uval dv + b * 2 ^ n) div b" by simp
      also have "\<dots> = (uval num - uval dv) div b + 2 ^ n"
        using Suc.prems(4) by simp
      finally show ?thesis .
    qed
    ultimately show ?thesis
      using c pn num by simp
  next
    case False
    then have "\<not> CompareTo num dv \<ge> 0"
      using Suc.prems by (simp add: CompareTo_val)
    then show ?thesis
      using Suc.prems shr False dv by (simp add: Suc.IH)
  qed
qed simp

lemma uval_div:
  assumes "length a = length b" "uval b \<noteq> 0"
  shows "\<exists>q. uint_div a b = Some q \<and> length q = length a \<and> uval q = uval a div uval b"
proof -
  note ba = uint_bits_val [of a] and bb = uint_bits_val [of b]
  show ?thesis
  proof (cases "uint_bits b > uint_bits a")
    case True
    have "uval a < 2 ^ uint_bits a" by (rule ba)
    also have "\<dots> \<le> 2 ^ (uint_bits b - 1)"
      using True by (intro power_increasing) simp_all
    also have "\<dots> \<le> uval b"
      using bb(3) assms(2) by simp
    finally show ?thesis
      using True assms bb(2) by (simp add: uint_div_def base_uint_zero_def Let_def)
  next
    case False
    define s where "s = uint_bits a - uint_bits b"
    have "uval b * 2 ^ s < 2 ^ uint_bits b * 2 ^ s"
      using bb(1) by simp
    also have "\<dots> = 2 ^ uint_bits a"
      using False by (simp add: s_def power_add [symmetric])
    finally have lt: "uval b * 2 ^ s < 2 ^ uint_bits a" .
    also have "\<dots> \<le> 2 ^ (32 * length b)"
      using ba(4) assms(1) by (intro power_increasing) simp_all
    finally have dv: "uval (uint_shl b s) = uval b * 2 ^ s"
      by (simp add: uval_shl)
    have "uval a < 2 ^ uint_bits a" by (rule ba)
    also have "\<dots> = 2 ^ (uint_bits b - 1) * 2 ^ Suc s"
      using False bb(2) assms(2) by (simp add: s_def power_add [symmetric] del: power_Suc)
    also have "\<dots> \<le> uval b * 2 ^ Suc s"
      using bb(3) assms(2) by (intro mult_le_mono1) simp
    finally have num: "uval a < uval b * 2 ^ Suc s" .
    have s: "Suc s \<le> 32 * length a"
      using ba(4) bb(2) assms(2) False by (simp add: s_def)
    have "uval (uint_div_loop (Suc s) a (uint_shl b s) (base_uint_zero (length a))) = uval (base_uint_zero (length a)) + uval a div uval b \<and>
       length (uint_div_loop (Suc s) a (uint_shl b s) (base_uint_zero (length a))) = length (base_uint_zero (length a))"
      by (rule uint_div_loop_val [OF _ _ _ _ _ num]) (use assms s dv in \<open>simp_all add: base_uint_zero_def\<close>)
    then show ?thesis
      using False assms bb(2) by (simp add: uint_div_def s_def Let_def base_uint_zero_def)
  qed
qed

lemma uint_div_zero: "uval b = 0 \<Longrightarrow> uint_div a b = None"
  using uint_bits_val(2) [of b] by (simp add: uint_div_def)

lemma uval_chunks:
  "length vch = 4 * W \<Longrightarrow> uval (map (\<lambda>i. of_nat (ReadLE32 (drop (4 * i) vch))) [0..<W]) = le_decode vch"
proof (induction W arbitrary: vch)
  case (Suc W)
  let ?f = "\<lambda>v i. of_nat (ReadLE32 (drop (4 * i) v)) :: 32 word"
  have m: "map (?f vch) [0..<Suc W] = ?f vch 0 # map (?f (drop 4 vch)) [0..<W]"
    by (simp add: upt_conv_Cons map_Suc_upt [symmetric] add.commute del: upt_Suc)
  have l: "le_decode (take 4 vch) < 2 ^ 32"
    using le_decode_bound [of "take 4 vch"] Suc.prems by simp
  have "le_decode vch = le_decode (take 4 vch @ drop 4 vch)" by simp
  also have "\<dots> = le_decode (take 4 vch) + 2 ^ 32 * le_decode (drop 4 vch)"
    using Suc.prems by (simp only: le_decode_append) simp
  finally show ?case
    using Suc.IH [of "drop 4 vch"] Suc.prems l unfolding m by (simp add: ReadLE32_def unat_limb_of_nat [simplified])
qed simp

lemma base_uint_of_vch_val:
  "base_uint_of_vch W vch = Some a \<Longrightarrow> length a = W \<and> uval a = le_decode vch"
  using uval_chunks [of vch W] by (auto simp: base_uint_of_vch_def split: if_splits)

section \<open>The compact format\<close>

text \<open>Mantissa and exponent that \<^verbatim>\<open>GetCompact\<close> computes for a number of \<open>n\<close> bytes.\<close>

definition compact_parts :: "nat \<Rightarrow> nat \<Rightarrow> nat \<times> nat" where
  "compact_parts n v =
     (let m = (if n \<le> 3 then v * 256 ^ (3 - n) else v div 256 ^ (n - 3))
      in if m \<ge> 2 ^ 23 then (m div 256, n + 1) else (m, n))"

lemma pow256: "(256 :: nat) ^ k = 2 ^ (8 * k)"
  by (simp add: power_mult)

lemma compact_mantissa:
  fixes v :: nat
  assumes "v < 256 ^ n"
  shows "(if n \<le> 3 then v * 256 ^ (3 - n) else v div 256 ^ (n - 3)) < 2 ^ 24"
proof (cases "n \<le> 3")
  case True
  have "v * 256 ^ (3 - n) < 256 ^ n * 256 ^ (3 - n)"
    using assms by simp
  also have "\<dots> = 256 ^ 3"
    using True by (simp only: power_add [symmetric]) simp
  finally show ?thesis
    using True by simp
next
  case False
  have "(256 :: nat) ^ n = 256 ^ 3 * 256 ^ (n - 3)"
    using False by (simp only: power_add [symmetric]) simp
  then have "v div 256 ^ (n - 3) < 256 ^ 3"
    using assms by (intro less_mult_imp_div_less) simp
  with False show ?thesis
    by simp
qed

lemma compact_parts_bound: "v < 256 ^ n \<Longrightarrow> compact_parts n v = (cm, cs) \<Longrightarrow> cm < 2 ^ 23 \<and> cs \<le> n + 1"
  using compact_mantissa [of v n] by (auto simp: compact_parts_def Let_def split: if_splits)

text \<open>Decoding gives back the number with its low bytes cleared.\<close>

definition compact_value :: "nat \<Rightarrow> nat \<Rightarrow> nat" where
  "compact_value cm cs = (if cs \<le> 3 then cm div 256 ^ (3 - cs) else cm * 256 ^ (cs - 3))"

lemma compact_value_parts:
  assumes "v < 256 ^ n" "n \<noteq> 0 \<Longrightarrow> 256 ^ (n - 1) \<le> v" "compact_parts n v = (cm, cs)"
  shows "\<exists>k. compact_value cm cs = v div 256 ^ k * 256 ^ k \<and> (k = 0 \<or> 256 ^ k * 2 ^ 15 \<le> v) \<and>
    compact_parts n (compact_value cm cs) = (cm, cs)"
proof -
  let ?m = "if n \<le> 3 then v * 256 ^ (3 - n) else v div 256 ^ (n - 3)"
  consider (small) "n \<le> 3" "?m < 2 ^ 23" | (small_sign) "n \<le> 2" "?m \<ge> 2 ^ 23" | (three) "n = 3" "?m \<ge> 2 ^ 23"
    | (large) "n > 3" "?m < 2 ^ 23" | (large_sign) "n > 3" "?m \<ge> 2 ^ 23"
    by linarith
  then show ?thesis
  proof cases
    case small
    then have "compact_value cm cs = v"
      using assms(3) by (auto simp: compact_parts_def compact_value_def)
    then show ?thesis
      using assms(3) by (intro exI [of _ 0]) simp
  next
    case small_sign
    then consider "n = 0" | "n = 1" | "n = 2" by linarith
    then have "?m div 256 = v * 256 ^ (2 - n)"
      by cases simp_all
    with small_sign have "cm = v * 256 ^ (2 - n)" "cs = n + 1"
      using assms(3) by (auto simp: compact_parts_def Let_def)
    then have "compact_value cm cs = v"
      using small_sign by (simp add: compact_value_def)
    then show ?thesis
      using assms(3) by (intro exI [of _ 0]) simp
  next
    case three
    then have c: "cm = v div 256" "cs = 4"
      using assms(3) by (auto simp: compact_parts_def Let_def)
    have "2 ^ 15 \<le> v div 256"
      using three by (simp add: less_eq_div_iff_mult_less_eq)
    then have "2 ^ 23 \<le> v div 256 * 256"
      by simp
    with three c show ?thesis
      by (intro exI [of _ 1]) (simp add: compact_parts_def compact_value_def Let_def)
  next
    case large
    have "(256 :: nat) ^ (n - 3) * 2 ^ 15 \<le> 256 ^ (n - 3) * 256 ^ 2"
      by simp
    also have "\<dots> = 256 ^ (n - 3 + 2)"
      by (rule power_add [symmetric])
    also have "n - 3 + 2 = n - 1"
      using large by simp
    also have "256 ^ (n - 1) \<le> v"
      using assms(2) large by simp
    finally have "256 ^ (n - 3) * 2 ^ 15 \<le> v" .
    moreover have "cm = v div 256 ^ (n - 3)" "cs = n"
      using large assms(3) by (auto simp: compact_parts_def Let_def)
    ultimately show ?thesis
      using large by (intro exI [of _ "n - 3"]) (simp add: compact_value_def compact_parts_def)
  next
    case large_sign
    then obtain q where n: "n = q + 4"
      by (intro that [of "n - 4"]) simp
    have p: "(256 :: nat) ^ (q + 2) = 256 ^ (q + 1) * 256"
      by simp
    have d: "v div 256 ^ (q + 1) div 256 = v div 256 ^ (q + 2)"
      unfolding p by (rule div_mult2_eq [symmetric])
    have "2 ^ 23 * 256 ^ (q + 1) \<le> v"
      using large_sign n by (simp add: less_eq_div_iff_mult_less_eq)
    then have "256 ^ (q + 2) * 2 ^ 15 \<le> v"
      by simp
    moreover have "cm = v div 256 ^ (q + 2)" "cs = q + 5"
      using large_sign assms(3) n d by (auto simp: compact_parts_def Let_def)
    moreover have "2 ^ 15 \<le> v div 256 ^ (q + 2)"
      using calculation(1) by (simp add: less_eq_div_iff_mult_less_eq mult.commute)
    moreover have "v div 256 ^ (q + 2) * 256 ^ (q + 2) div 256 ^ (q + 1) = v div 256 ^ (q + 2) * 256"
    proof -
      have "v div 256 ^ (q + 2) * 256 ^ (q + 2) = v div 256 ^ (q + 2) * 256 * 256 ^ (q + 1)"
        unfolding p by (simp only: mult_ac)
      then show ?thesis by (simp only:) simp
    qed
    ultimately show ?thesis
      using n by (intro exI [of _ "q + 2"]) (simp add: compact_value_def compact_parts_def Let_def)
  qed
qed

lemma unat_mod_pow: "unat (take_bit k w) = unat w mod 2 ^ k" for w :: "'a::len word"
  by (simp only: unsigned_take_bit_eq) (simp only: take_bit_eq_mod)

lemma unat_div_pow: "unat (drop_bit k w) = unat w div 2 ^ k" for w :: "'a::len word"
proof -
  have "take_bit LENGTH('a) (unat w) = unat w"
    by (simp add: take_bit_nat_eq_self_iff unsigned_less)
  then show ?thesis
    by (simp only: unsigned_drop_bit_eq) (simp add: drop_bit_eq_div)
qed

lemma compact_word:
  assumes "cm < 2 ^ 23" "cs < 256"
  defines "c \<equiv> of_nat (cm + 2 ^ 24 * cs) :: 32 word"
  shows "unat (drop_bit 24 c) = cs" "unat (c AND 0x007fffff) = cm" "c AND 0x00800000 = 0"
proof -
  have u: "unat c = cm + 2 ^ 24 * cs"
    using assms(1,2) unfolding c_def by (simp add: unat_of_nat del: of_nat_add of_nat_mult)
  have "unat (drop_bit 24 c) = unat c div 2 ^ 24"
    by (simp add: drop_bit_eq_div unat_div)
  then show "unat (drop_bit 24 c) = cs"
    using assms(1) by (simp add: u)
  have "c AND 0x007fffff = take_bit 23 c"
    by (simp add: take_bit_eq_mask mask_eq_exp_minus_1)
  then have "unat (c AND 0x007fffff) = unat c mod 2 ^ 23"
    by (simp only: unat_mod_pow)
  also have "\<dots> = cm"
  proof -
    have "cm + 2 ^ 24 * cs = cm + 2 ^ 23 * (2 * cs)" by simp
    then show ?thesis
      using assms(1) unfolding u by (simp only: mod_mult_self2 mod_less)
  qed
  finally show "unat (c AND 0x007fffff) = cm" .
  have "\<not> bit c 23"
  proof -
    have "bit c 23 \<longleftrightarrow> bit (unat c) 23"
      by (simp add: bit_unsigned_iff)
    also have "\<dots> \<longleftrightarrow> odd ((cm + 2 ^ 23 * (2 * cs)) div 2 ^ 23)"
      by (simp add: bit_iff_odd u)
    also have "(cm + 2 ^ 23 * (2 * cs)) div 2 ^ 23 = 2 * cs"
      using assms(1) by simp
    finally show ?thesis by simp
  qed
  then show "c AND 0x00800000 = 0"
  proof -
    assume n: "\<not> bit c 23"
    have "(0x00800000 :: 32 word) = 2 ^ 23" by simp
    then have "bit (c AND 0x00800000) m = False" for m
      using n by (simp only: bit_and_iff bit_exp_iff) auto
    then show ?thesis
      by (intro bit_eqI) simp
  qed
qed

lemma compact_no_overflow:
  assumes "cm * 256 ^ (cs - 3) < 2 ^ 256" "B \<le> cm" "B * 256 ^ (n - 3) = (2 :: nat) ^ 256"
  shows "cs < n"
proof (rule ccontr)
  assume "\<not> cs < n"
  then have "B * 256 ^ (n - 3) \<le> cm * 256 ^ (cs - 3)"
    using assms(2) by (intro mult_le_mono power_increasing) simp_all
  with assms show False by simp
qed

lemma SetCompact_value:
  assumes "cm < 2 ^ 23" "cs < 256" "compact_value cm cs < 2 ^ 256"
  shows "\<exists>t. SetCompact (of_nat (cm + 2 ^ 24 * cs)) = (t, False, False) \<and> length t = 8 \<and> uval t = compact_value cm cs"
proof -
  define c where "c = (of_nat (cm + 2 ^ 24 * cs) :: 32 word)"
  note cw = compact_word [OF assms(1,2), folded c_def]
  show ?thesis
  proof (cases "cs \<le> 3")
    case True
    have "unat (drop_bit (8 * (3 - cs)) (c AND 0x007fffff)) = cm div 256 ^ (3 - cs)"
      by (simp only: unat_div_pow cw(2) pow256)
    with True cw show ?thesis
      unfolding c_def [symmetric] by (simp add: SetCompact_def Let_def compact_value_def)
  next
    case False
    have lt: "cm * 256 ^ (cs - 3) < 2 ^ 256"
      using False assms(3) by (simp add: compact_value_def)
    have g: "0xff < c AND 0x007fffff \<longleftrightarrow> 0xff < cm" "0xffff < c AND 0x007fffff \<longleftrightarrow> 0xffff < cm"
      by (simp_all add: word_less_nat_alt cw(2))
    have z: "c AND 0x007fffff = 0 \<longleftrightarrow> cm = 0"
      using cw(2) by (metis unsigned_eq_0_iff)
    have ov: "\<not> (cm \<noteq> 0 \<and> (34 < cs \<or> 0xff < cm \<and> 33 < cs \<or> 0xffff < cm \<and> 32 < cs))"
      using compact_no_overflow [OF lt, of 1 35] compact_no_overflow [OF lt, of 256 34]
        compact_no_overflow [OF lt, of 65536 33] by auto
    have "uval (uint_shl (base_uint_of64 8 (ucast (c AND 0x007fffff))) (8 * (cs - 3))) = compact_value cm cs"
      using False lt by (simp add: uval_shl cw(2) compact_value_def pow256)
    then show ?thesis
      unfolding c_def [symmetric] using False cw ov by (simp add: SetCompact_def Let_def g z)
  qed
qed

lemma high_mantissa_bit:
  assumes "m < 2 ^ 24"
  shows "(of_nat m :: 32 word) AND 0x00800000 \<noteq> 0 \<longleftrightarrow> 2 ^ 23 \<le> m"
proof -
  have e: "(0x00800000 :: 32 word) = 2 ^ 23" by simp
  have "(of_nat m :: 32 word) AND 0x00800000 \<noteq> 0 \<longleftrightarrow> bit (of_nat m :: 32 word) 23"
  proof -
    have b: "bit ((of_nat m :: 32 word) AND 0x00800000) i \<longleftrightarrow> i = 23 \<and> bit (of_nat m :: 32 word) 23" for i
      by (simp only: e bit_and_iff bit_exp_iff) (auto dest: bit_imp_le_length)
    have "(of_nat m :: 32 word) AND 0x00800000 = 0" if "\<not> bit (of_nat m :: 32 word) 23"
      using that by (intro bit_eqI) (simp only: b, simp)
    with b [of 23] show ?thesis
      by (metis bit_0_eq bot_apply bot_bool_def)
  qed
  also have "\<dots> \<longleftrightarrow> odd (m div 2 ^ 23)"
    unfolding bit_of_nat_word by (simp add: bit_iff_odd)
  also have "m div 2 ^ 23 < 2"
    using assms by (intro less_mult_imp_div_less) simp
  then have "odd (m div 2 ^ 23) \<longleftrightarrow> 0 < m div 2 ^ 23"
    by (auto simp: less_2_cases_iff)
  finally show ?thesis
    by (simp add: div_greater_zero_iff)
qed

lemma compact_join:
  assumes "cm < 2 ^ 23" "cs < 256"
  shows "(of_nat cm :: 32 word) AND NOT 0x007fffff = 0"
    "(of_nat cm OR push_bit 24 (of_nat cs) :: 32 word) = of_nat (cm + 2 ^ 24 * cs)"
proof -
  have m: "i < 23" if b: "bit cm i" for i
  proof (rule ccontr)
    assume "\<not> i < 23"
    then have that: "23 \<le> i" by simp
    have "cm < 2 ^ i"
      using assms(1) power_increasing [OF that, of "2 :: nat"] by simp
    with b show False
      by (simp add: bit_iff_odd)
  qed
  have e: "(0x007fffff :: 32 word) = mask 23"
    by (simp add: mask_eq_exp_minus_1)
  show "(of_nat cm :: 32 word) AND NOT 0x007fffff = 0"
    unfolding e using m by (force simp: bit_eq_iff bit_and_iff bit_not_iff bit_mask_iff bit_of_nat_word)
  have c: "cm < 2 ^ 24"
    using assms(1) by simp
  show "(of_nat cm OR push_bit 24 (of_nat cs) :: 32 word) = of_nat (cm + 2 ^ 24 * cs)"
  proof (rule bit_word_eqI)
    fix i assume "i < LENGTH(32)"
    with m [of i] show "bit (of_nat cm OR push_bit 24 (of_nat cs) :: 32 word) i = bit (of_nat (cm + 2 ^ 24 * cs) :: 32 word) i"
      unfolding bit_of_nat_word bit_digit [OF c] by (auto simp: bit_or_iff bit_push_bit_iff bit_of_nat_word)
  qed
qed

definition byte_size :: "base_uint \<Rightarrow> nat" where
  "byte_size a = (uint_bits a + 7) div 8"

lemma byte_size_val:
  assumes "length a = 8"
  shows "uval a < 256 ^ byte_size a" "byte_size a \<noteq> 0 \<Longrightarrow> 256 ^ (byte_size a - 1) \<le> uval a" "byte_size a \<le> 32"
proof -
  note b = uint_bits_val [of a]
  have "uval a < 2 ^ uint_bits a" by (rule b)
  also have "\<dots> \<le> 2 ^ (8 * byte_size a)"
    by (intro power_increasing) (simp_all add: byte_size_def)
  finally show "uval a < 256 ^ byte_size a"
    by (simp add: pow256)
  show "byte_size a \<le> 32"
    using b(4) assms by (simp add: byte_size_def)
  assume "byte_size a \<noteq> 0"
  then have "uint_bits a \<noteq> 0"
    by (auto simp: byte_size_def)
  then have "2 ^ (uint_bits a - 1) \<le> uval a"
    using b(2,3) by simp
  moreover have "8 * (byte_size a - 1) \<le> uint_bits a - 1"
    using \<open>uint_bits a \<noteq> 0\<close> by (simp add: byte_size_def)
  then have "(2 :: nat) ^ (8 * (byte_size a - 1)) \<le> 2 ^ (uint_bits a - 1)"
    by (intro power_increasing) simp_all
  ultimately show "256 ^ (byte_size a - 1) \<le> uval a"
    unfolding pow256 by (rule order_trans [rotated])
qed

lemma byte_size_unique:
  fixes v :: nat
  assumes "v < 256 ^ n" "n \<noteq> 0 \<Longrightarrow> 256 ^ (n - 1) \<le> v" "v < 256 ^ n'" "n' \<noteq> 0 \<Longrightarrow> 256 ^ (n' - 1) \<le> v"
  shows "n = n'"
proof -
  have "x \<le> y" if "x \<noteq> 0 \<Longrightarrow> 256 ^ (x - 1) \<le> v" "v < 256 ^ y" for x y
  proof (rule ccontr)
    assume "\<not> x \<le> y"
    then have "(256 :: nat) ^ y \<le> 256 ^ (x - 1)" by (intro power_increasing) simp_all
    with that \<open>\<not> x \<le> y\<close> show False
      by (metis leD le0 order_trans)
  qed
  from this [of n n'] this [of n' n] assms show ?thesis by simp
qed

lemma ucast_of_nat_down: "ucast (of_nat x :: 64 word) = (of_nat x :: 32 word)"
  by (rule bit_word_eqI) (simp add: bit_ucast_iff bit_of_nat_word)

lemma push_bit_of_nat: "push_bit k (of_nat v) = (of_nat (v * 2 ^ k) :: 64 word)"
  by (simp add: push_bit_eq_mult)

lemma drop_bit_of_nat_32: "m < 2 ^ 32 \<Longrightarrow> drop_bit k (of_nat m :: 32 word) = of_nat (m div 2 ^ k)"
proof -
  assume m: "m < 2 ^ 32"
  have "m div 2 ^ k < 2 ^ 32"
    using m by (meson div_le_dividend le_less_trans)
  with m show ?thesis
    by (simp only: word_unat_eq_iff unat_div_pow) (simp add: unat_of_nat)
qed

lemma GetCompact_parts:
  assumes "length a = 8" "compact_parts (byte_size a) (uval a) = (cm, cs)"
  shows "GetCompact a False = Some (of_nat (cm + 2 ^ 24 * cs)) \<and> cm < 2 ^ 23 \<and> cs < 256"
proof -
  let ?n = "byte_size a" and ?v = "uval a"
  note bs = byte_size_val [OF assms(1)]
  define m where "m = (if ?n \<le> 3 then ?v * 256 ^ (3 - ?n) else ?v div 256 ^ (?n - 3))"
  have m: "m < 2 ^ 24"
    unfolding m_def by (rule compact_mantissa [OF bs(1)])
  have w: "(if ?n \<le> 3 then ucast (push_bit (8 * (3 - ?n)) (GetLow64 a))
      else ucast (GetLow64 (uint_shr a (8 * (?n - 3))))) = (of_nat m :: 32 word)"
    using assms(1) by (simp only: GetLow64_val length_uint_shr uval_shr m_def pow256 push_bit_of_nat ucast_of_nat_down split: if_split) simp
  have c: "cm < 2 ^ 23" "cs < 256"
    using compact_parts_bound [OF bs(1) assms(2)] bs(3) by auto
  have d: "drop_bit 8 (of_nat m :: 32 word) = of_nat (m div 256)"
    using m drop_bit_of_nat_32 [of m 8] by simp
  have p: "(if (of_nat m :: 32 word) AND 0x00800000 \<noteq> 0 then (drop_bit 8 (of_nat m), ?n + 1) else (of_nat m :: 32 word, ?n)) = (of_nat cm, cs)"
    using assms(2) unfolding high_mantissa_bit [OF m] d by (auto simp: compact_parts_def m_def [symmetric] Let_def split: if_splits)
  show ?thesis
    using c unfolding GetCompact_def byte_size_def [symmetric] Let_def w p prod.case compact_join [OF c] by simp
qed

section \<open>Properties\<close>

text \<open>
  C32. The limb arithmetic implements arithmetic modulo \<open>2 ^ (32 * WIDTH)\<close>: sum, difference, complement, products, shifts,
  comparison and bit length are those of the value, and division returns the exact quotient and throws
  exactly for a zero divisor.
\<close>

theorem base_uint_refines:
  assumes "length a = WIDTH" and "length b = WIDTH"
  shows "uval (uint_add a b) = (uval a + uval b) mod 2 ^ (32 * WIDTH) \<and>
    uval (uint_sub a b) = (uval a + (2 ^ (32 * WIDTH) - uval b)) mod 2 ^ (32 * WIDTH) \<and>
    uval (uint_not a) = 2 ^ (32 * WIDTH) - 1 - uval a \<and>
    uval (uint_mul a b) = (uval a * uval b) mod 2 ^ (32 * WIDTH) \<and>
    uval (uint_mul32 a b32) = (uval a * unat b32) mod 2 ^ (32 * WIDTH) \<and>
    uval (uint_shl a shift) = (uval a * 2 ^ shift) mod 2 ^ (32 * WIDTH) \<and>
    uval (uint_shr a shift) = uval a div 2 ^ shift \<and>
    (case uint_div a b of None \<Rightarrow> uval b = 0
     | Some q \<Rightarrow> uval b \<noteq> 0 \<and> length q = WIDTH \<and> uval q = uval a div uval b) \<and>
    CompareTo a b = (if uval a < uval b then - 1 else if uval a > uval b then 1 else 0) \<and>
    uval a < 2 ^ uint_bits a \<and> (uval a = 0 \<or> 2 ^ (uint_bits a - 1) \<le> uval a)"
proof -
  have "uval (uint_not a) = 2 ^ (32 * WIDTH) - 1 - uval a"
    using uval_not [of a] assms(1) by simp
  moreover have "case uint_div a b of None \<Rightarrow> uval b = 0
      | Some q \<Rightarrow> uval b \<noteq> 0 \<and> length q = WIDTH \<and> uval q = uval a div uval b"
    using uval_div [of a b] uint_div_zero [of b a] assms by (cases "uval b = 0") auto
  ultimately show ?thesis
    using assms uint_bits_val [of a]
    by (auto simp: uval_add uval_sub uval_mul uval_mul32 uval_shl uval_shr CompareTo_val)
qed

theorem base_uint_refines_witness:
  "uval (uint_add [0xffffffff, 1] [1, 2]) = 0x400000000 \<and> uval (uint_shl [0x80000001, 0] 4) = 0x800000010"
proof -
  have "length ([0xffffffff, 1] :: base_uint) = 2" "length ([1, 2] :: base_uint) = 2" "length ([0x80000001, 0] :: base_uint) = 2"
    by simp_all
  with base_uint_refines [of "[0xffffffff, 1]" 2 "[1, 2]"] base_uint_refines [of "[0x80000001, 0]" 2 "[1, 2]" _ 4] show ?thesis
    by simp
qed

lemma Compact_rounds:
  assumes "length a = 8"
  shows "\<exists>c t. GetCompact a False = Some c \<and> SetCompact c = (t, False, False) \<and> length t = 8 \<and>
    uval t \<le> uval a \<and> (uval a - uval t) * 2 ^ 15 \<le> uval a \<and> (2 ^ 23 \<le> uval a \<or> uval t = uval a) \<and>
    GetCompact t False = Some c"
proof -
  obtain cm cs where p: "compact_parts (byte_size a) (uval a) = (cm, cs)"
    by fastforce
  note g = GetCompact_parts [OF assms p] and bs = byte_size_val [OF assms]
  obtain k where k: "compact_value cm cs = uval a div 256 ^ k * 256 ^ k" "k = 0 \<or> 256 ^ k * 2 ^ 15 \<le> uval a"
    and again: "compact_parts (byte_size a) (compact_value cm cs) = (cm, cs)"
    using compact_value_parts [OF bs(1,2) p] by blast
  have le: "compact_value cm cs \<le> uval a"
    unfolding k(1) by (rule div_times_less_eq_dividend)
  then have "compact_value cm cs < 2 ^ 256"
    using uval_bound [of a] assms by simp
  then obtain t where t: "SetCompact (of_nat (cm + 2 ^ 24 * cs)) = (t, False, False)" "length t = 8" "uval t = compact_value cm cs"
    using SetCompact_value [of cm cs] g by auto
  have d: "uval a - uval t = uval a mod 256 ^ k"
    unfolding t(3) k(1) by (rule minus_div_mult_eq_mod)
  have e: "(uval a - uval t) * 2 ^ 15 \<le> uval a"
  proof (cases "k = 0")
    case False
    have "(uval a - uval t) * 2 ^ 15 \<le> 256 ^ k * 2 ^ 15"
      unfolding d by (intro mult_le_mono1 less_imp_le mod_less_divisor) simp
    with False k(2) show ?thesis by linarith
  qed (simp add: d)
  have x: "uval t = uval a" if "uval a < 2 ^ 23"
  proof (cases k)
    case (Suc k')
    then have "2 ^ 23 \<le> 256 ^ k * (2 :: nat) ^ 15" by simp
    with that Suc k(2) show ?thesis by linarith
  qed (simp add: t k)
  then have x': "2 ^ 23 \<le> uval a \<or> uval t = uval a"
    by (cases "uval a < 2 ^ 23") simp_all
  have "256 ^ (byte_size a - 1) \<le> uval t" if "byte_size a \<noteq> 0"
  proof (cases "k = 0")
    case False
    have "(256 :: nat) ^ k < 256 ^ byte_size a"
    proof -
      have "(256 :: nat) ^ k \<le> 256 ^ k * 2 ^ 15" by simp
      also have "\<dots> \<le> uval a" using k(2) False by simp
      also note bs(1)
      finally show ?thesis .
    qed
    then have "k \<le> byte_size a - 1" by simp
    then have "(256 :: nat) ^ (byte_size a - 1) = 256 ^ (byte_size a - 1) div 256 ^ k * 256 ^ k"
      by (metis dvd_div_mult_self le_imp_power_dvd)
    also have "\<dots> \<le> uval a div 256 ^ k * 256 ^ k"
      using bs(2) [OF that] by (intro mult_le_mono1 div_le_mono)
    finally show ?thesis
      by (simp add: t k)
  qed (use bs(2) [OF that] in \<open>simp add: t k\<close>)
  then have b: "byte_size t = byte_size a"
    using byte_size_val [OF t(2)] bs(1) le t(3) by (intro byte_size_unique [of "uval t"]) simp_all
  have i: "GetCompact t False = Some (of_nat (cm + 2 ^ 24 * cs))"
    using GetCompact_parts [OF t(2), unfolded t(3) b, OF again] by (rule conjunct1)
  show ?thesis
    using g t(1,2) le [folded t(3)] e x' i
    by (intro exI [of _ "of_nat (cm + 2 ^ 24 * cs)"] exI [of _ t] conjI) (auto simp only: not_le)
qed

lemma length_SetCompact: "length (fst (SetCompact c)) = 8"
  by (simp add: SetCompact_def Let_def)

lemma SetCompact_not_max: "uval (fst (SetCompact c)) + 1 < 2 ^ 256"
proof (cases "unat (drop_bit 24 c) \<le> 3")
  case True
  define w where "w = drop_bit (8 * (3 - unat (drop_bit 24 c))) (c AND 0x007fffff)"
  have "uval (fst (SetCompact c)) = unat w"
    using True by (simp add: SetCompact_def Let_def w_def)
  then show ?thesis
    using unat_limb [of w] by simp
next
  case False
  define k where "k = unat (drop_bit 24 c) - 4"
  have k: "8 * (unat (drop_bit 24 c) - 3) = 8 * k + 8"
    using False by (simp add: k_def)
  let ?v = "uval (fst (SetCompact c))"
  have "?v = (unat (c AND 0x007fffff) * 2 ^ (8 * k + 8)) mod 2 ^ 256"
    using False by (simp add: SetCompact_def Let_def uval_shl k)
  also have "\<dots> = (unat (c AND 0x007fffff) * 2 ^ (8 * k) * 2 ^ 8) mod (2 ^ 248 * 2 ^ 8)"
    by (simp only: power_add mult.assoc flip: power_add) simp
  also have "\<dots> = (unat (c AND 0x007fffff) * 2 ^ (8 * k)) mod 2 ^ 248 * 2 ^ 8"
    by (rule mod_mult_mult2)
  finally have "?v \<le> (2 ^ 248 - 1) * 2 ^ 8"
    by (simp only:) (intro mult_le_mono1, simp add: less_Suc_eq_le [symmetric])
  then show ?thesis
    by simp
qed

text \<open>
  C33. The compact format of a target: the assertions of \<^verbatim>\<open>GetCompact\<close> hold for every 256-bit number; decoding its result
  gives a number that is neither negative nor overflowed and differs from the original by less than one part in
  \<open>2 ^ 15\<close>, downwards, and not at all below \<open>2 ^ 23\<close>; and encoding that number again gives the same compact form.
\<close>

theorem Compact_roundtrip:
  assumes "length a = 8"
  shows "\<exists>c t. GetCompact a False = Some c \<and> SetCompact c = (t, False, False) \<and> length t = 8 \<and>
    uval t \<le> uval a \<and> (uval a - uval t) * 2 ^ 15 \<le> uval a \<and> (2 ^ 23 \<le> uval a \<or> uval t = uval a) \<and>
    GetCompact t False = Some c"
  using assms by (rule Compact_rounds)

theorem Compact_roundtrip_witness:
  "\<exists>c t. GetCompact (base_uint_of64 8 0x1234567890) False = Some c \<and> SetCompact c = (t, False, False) \<and>
     uval t \<le> 0x1234567890 \<and> (0x1234567890 - uval t) * 2 ^ 15 \<le> 0x1234567890"
  using Compact_roundtrip [of "base_uint_of64 8 0x1234567890"] by auto

end
