(* ===== verification/Chain_Params.thy ===== *)
theory Chain_Params
  imports Arith_Uint256 Transactions "HOL-Library.Signed_Division"
begin

text \<open>
  Consensus parameters (\<^verbatim>\<open>src/consensus/params.h\<close>, \<^verbatim>\<open>src/consensus/upgrades.cpp\<close>, \<^verbatim>\<open>src/chainparams.cpp\<close>) and the block
  reward (\<^verbatim>\<open>src/validation.cpp\<close>).  The parameters that no modelled function reads (keys, seeds, address prefixes, budget
  and pool settings) are left out of the record.
\<close>

section \<open>Network upgrades\<close>

datatype UpgradeIndex =
  BASE_NETWORK | ACTIVATE_POS | ACTIVATE_NEW_COLDSTAKE | ACTIVATE_NEW_FEE_RULES | ACTIVATE_ASSET_VALIDATION |
  ACTIVATE_HUSH | UPGRADE_TESTDUMMY

definition upgrades :: "UpgradeIndex list" where
  "upgrades = [BASE_NETWORK, ACTIVATE_POS, ACTIVATE_NEW_COLDSTAKE, ACTIVATE_NEW_FEE_RULES, ACTIVATE_ASSET_VALIDATION,
     ACTIVATE_HUSH, UPGRADE_TESTDUMMY]"

definition ALWAYS_ACTIVE :: int where "ALWAYS_ACTIVE = 0"

definition NO_ACTIVATION_HEIGHT :: int where "NO_ACTIVATION_HEIGHT = - 1"

record Consensus_Params =
  hashGenesisBlock :: bytes
  powLimit :: base_uint
  posLimitV1 :: base_uint
  posLimitV2 :: base_uint
  nBudgetCycleBlocks :: int
  nCoinbaseMaturity :: int
  nFutureTimeDriftPoW :: int
  nFutureTimeDriftPoS :: int
  nMaxMoneyOut :: int
  nStakeMinAge :: int
  nStakeMinDepth :: int
  nTargetTimespan :: int
  nTargetTimespanV2 :: int
  nTargetSpacing :: int
  nTimeSlotLength :: int
  vUpgrades :: "UpgradeIndex \<Rightarrow> int"

datatype UpgradeState = UPGRADE_DISABLED | UPGRADE_PENDING | UPGRADE_ACTIVE

text \<open>\<open>None\<close> where the assertion on the height fails.\<close>

definition NetworkUpgradeState :: "int \<Rightarrow> Consensus_Params \<Rightarrow> UpgradeIndex \<Rightarrow> UpgradeState option" where
  "NetworkUpgradeState nHeight params idx =
     (if nHeight < 0 then None
      else if vUpgrades params idx = NO_ACTIVATION_HEIGHT then Some UPGRADE_DISABLED
      else if nHeight \<ge> vUpgrades params idx then Some UPGRADE_ACTIVE
      else Some UPGRADE_PENDING)"

definition NetworkUpgradeActive :: "Consensus_Params \<Rightarrow> int \<Rightarrow> UpgradeIndex \<Rightarrow> bool" where
  "NetworkUpgradeActive params nHeight idx =
     (if nHeight < 0 then False else NetworkUpgradeState nHeight params idx = Some UPGRADE_ACTIVE)"

definition CurrentEpoch :: "int \<Rightarrow> Consensus_Params \<Rightarrow> UpgradeIndex option" where
  "CurrentEpoch nHeight params =
     (if nHeight < 0 then None
      else case List.find (\<lambda>idx. NetworkUpgradeState nHeight params idx = Some UPGRADE_ACTIVE) (rev (tl upgrades)) of
        None \<Rightarrow> Some BASE_NETWORK
      | Some idx \<Rightarrow> Some idx)"

definition IsActivationHeight :: "int \<Rightarrow> Consensus_Params \<Rightarrow> UpgradeIndex \<Rightarrow> bool" where
  "IsActivationHeight nHeight params idx =
     (if idx = BASE_NETWORK then False else nHeight \<ge> 0 \<and> nHeight = vUpgrades params idx)"

definition IsActivationHeightForAnyUpgrade :: "int \<Rightarrow> Consensus_Params \<Rightarrow> bool" where
  "IsActivationHeightForAnyUpgrade nHeight params =
     (if nHeight < 0 then False else list_ex (\<lambda>idx. nHeight = vUpgrades params idx) (tl upgrades))"

definition NextEpoch :: "int \<Rightarrow> Consensus_Params \<Rightarrow> UpgradeIndex option" where
  "NextEpoch nHeight params =
     (if nHeight < 0 then None
      else List.find (\<lambda>idx. NetworkUpgradeState nHeight params idx = Some UPGRADE_PENDING) (tl upgrades))"

definition NextActivationHeight :: "int \<Rightarrow> Consensus_Params \<Rightarrow> int option" where
  "NextActivationHeight nHeight params = map_option (vUpgrades params) (NextEpoch nHeight params)"

section \<open>Rules that depend on the parameters\<close>

definition TargetTimespan :: "Consensus_Params \<Rightarrow> bool \<Rightarrow> int" where
  "TargetTimespan params fV2 = (if fV2 then nTargetTimespanV2 params else nTargetTimespan params)"

definition ProofOfStakeLimit :: "Consensus_Params \<Rightarrow> bool \<Rightarrow> base_uint" where
  "ProofOfStakeLimit params fV2 = (if fV2 then posLimitV2 params else posLimitV1 params)"

definition IsTimeProtocolV2 :: "Consensus_Params \<Rightarrow> int \<Rightarrow> bool" where
  "IsTimeProtocolV2 params nHeight = NetworkUpgradeActive params nHeight ACTIVATE_POS"

definition FutureBlockTimeDrift :: "Consensus_Params \<Rightarrow> int \<Rightarrow> int" where
  "FutureBlockTimeDrift params nHeight =
     (if IsTimeProtocolV2 params nHeight then nTimeSlotLength params - 1
      else if NetworkUpgradeActive params nHeight ACTIVATE_POS then nFutureTimeDriftPoS params
      else nFutureTimeDriftPoW params)"

definition IsValidBlockTimeStamp :: "Consensus_Params \<Rightarrow> int \<Rightarrow> int \<Rightarrow> bool" where
  "IsValidBlockTimeStamp params nTime nHeight =
     (if \<not> IsTimeProtocolV2 params nHeight then True else nTime smod nTimeSlotLength params = 0)"

definition HasStakeMinAgeOrDepth :: "Consensus_Params \<Rightarrow> int \<Rightarrow> int \<Rightarrow> int \<Rightarrow> int \<Rightarrow> bool" where
  "HasStakeMinAgeOrDepth params contextHeight contextTime utxoFromBlockHeight utxoFromBlockTime \<longleftrightarrow>
     contextHeight - utxoFromBlockHeight \<ge> nStakeMinDepth params"

section \<open>The networks\<close>

datatype network = MAIN | TESTNET | REGTEST

record CChainParams =
  networkID :: network
  consensus :: Consensus_Params

definition IsRegTestNet :: "CChainParams \<Rightarrow> bool" where
  "IsRegTestNet params \<longleftrightarrow> networkID params = REGTEST"

definition IsTestnet :: "CChainParams \<Rightarrow> bool" where
  "IsTestnet params \<longleftrightarrow> networkID params = TESTNET"

definition uint256_limit :: "nat \<Rightarrow> base_uint" where
  "uint256_limit n = uint_shr (uint_not (base_uint_zero 8)) n"

text \<open>The hash of the genesis block, which the constructors compute, is an argument.\<close>

definition CMainParams :: "bytes \<Rightarrow> CChainParams" where
  "CMainParams genesis =
     \<lparr>networkID = MAIN,
      consensus = \<lparr>hashGenesisBlock = genesis, powLimit = uint256_limit 20, posLimitV1 = uint256_limit 24,
        posLimitV2 = uint256_limit 20, nBudgetCycleBlocks = 44000, nCoinbaseMaturity = 20,
        nFutureTimeDriftPoW = 7200, nFutureTimeDriftPoS = 180, nMaxMoneyOut = 10000000 * COIN,
        nStakeMinAge = 60 * 60, nStakeMinDepth = 100, nTargetTimespan = 40 * 60, nTargetTimespanV2 = 30 * 60,
        nTargetSpacing = 1 * 60, nTimeSlotLength = 15,
        vUpgrades = (\<lambda>idx. case idx of BASE_NETWORK \<Rightarrow> ALWAYS_ACTIVE | ACTIVATE_POS \<Rightarrow> 44000
          | ACTIVATE_NEW_COLDSTAKE \<Rightarrow> 512000 | ACTIVATE_NEW_FEE_RULES \<Rightarrow> 512000 | _ \<Rightarrow> NO_ACTIVATION_HEIGHT)\<rparr>\<rparr>"

definition CTestNetParams :: "bytes \<Rightarrow> CChainParams" where
  "CTestNetParams genesis =
     \<lparr>networkID = TESTNET,
      consensus = \<lparr>hashGenesisBlock = genesis, powLimit = uint256_limit 20, posLimitV1 = uint256_limit 24,
        posLimitV2 = uint256_limit 20, nBudgetCycleBlocks = 1440, nCoinbaseMaturity = 15,
        nFutureTimeDriftPoW = 7200, nFutureTimeDriftPoS = 180, nMaxMoneyOut = 20000000 * COIN,
        nStakeMinAge = 60 * 60, nStakeMinDepth = 100, nTargetTimespan = 40 * 60, nTargetTimespanV2 = 30 * 60,
        nTargetSpacing = 1 * 60, nTimeSlotLength = 15,
        vUpgrades = (\<lambda>idx. case idx of BASE_NETWORK \<Rightarrow> ALWAYS_ACTIVE | ACTIVATE_POS \<Rightarrow> 200
          | ACTIVATE_NEW_COLDSTAKE \<Rightarrow> 2000 | ACTIVATE_NEW_FEE_RULES \<Rightarrow> 306500 | _ \<Rightarrow> NO_ACTIVATION_HEIGHT)\<rparr>\<rparr>"

definition CRegTestParams :: "bytes \<Rightarrow> CChainParams" where
  "CRegTestParams genesis =
     \<lparr>networkID = REGTEST,
      consensus = \<lparr>hashGenesisBlock = genesis, powLimit = uint256_limit 20, posLimitV1 = uint256_limit 24,
        posLimitV2 = uint256_limit 20, nBudgetCycleBlocks = 144, nCoinbaseMaturity = 100,
        nFutureTimeDriftPoW = 7200, nFutureTimeDriftPoS = 180, nMaxMoneyOut = 43199500 * COIN,
        nStakeMinAge = 0, nStakeMinDepth = 2, nTargetTimespan = 40 * 60, nTargetTimespanV2 = 30 * 60,
        nTargetSpacing = 1 * 60, nTimeSlotLength = 15,
        vUpgrades = (\<lambda>idx. case idx of BASE_NETWORK \<Rightarrow> ALWAYS_ACTIVE | ACTIVATE_POS \<Rightarrow> 360
          | ACTIVATE_NEW_COLDSTAKE \<Rightarrow> 360 * 2 | ACTIVATE_NEW_FEE_RULES \<Rightarrow> 360 * 2 | _ \<Rightarrow> NO_ACTIVATION_HEIGHT)\<rparr>\<rparr>"

section \<open>The block reward\<close>

definition GetBlockValue :: "CChainParams \<Rightarrow> int \<Rightarrow> int" where
  "GetBlockValue params nHeight =
     (let isPoSActive = NetworkUpgradeActive (consensus params) nHeight ACTIVATE_POS in
      if IsRegTestNet params then 3500 * COIN
      else if nHeight = 1 \<and> networkID params = MAIN then 1200400 * COIN
      else if nHeight = 1 \<and> networkID params = TESTNET then 12004000 * COIN
      else if nHeight > 1 \<and> \<not> isPoSActive
      then if nHeight \<ge> 30000 \<and> nHeight < 35000 then 2200 * COIN else 200 * COIN
      else let count = nHeight sdiv nBudgetCycleBlocks (consensus params) - 1 in
        if count \<le> 0 then 10 * COIN
        else if count \<ge> 10 then 1 * COIN
        else (10 - count) * COIN)"

definition GetMasternodePayment :: "CChainParams \<Rightarrow> int \<Rightarrow> int" where
  "GetMasternodePayment params nHeight =
     (let count = nHeight sdiv nBudgetCycleBlocks (consensus params) - 1 in
      if count \<le> 0 then 50 * COIN
      else if count \<ge> 10 then 5 * COIN
      else (50 - count * 5) * COIN)"

section \<open>Lemmas\<close>

lemma upgrade_stays_active:
  "NetworkUpgradeActive params h idx \<Longrightarrow> h \<le> h' \<Longrightarrow> NetworkUpgradeActive params h' idx"
  by (auto simp: NetworkUpgradeActive_def NetworkUpgradeState_def split: if_splits)

lemma FutureBlockTimeDrift_PoS: "NetworkUpgradeActive params h ACTIVATE_POS \<Longrightarrow> FutureBlockTimeDrift params h = nTimeSlotLength params - 1"
  by (simp add: FutureBlockTimeDrift_def IsTimeProtocolV2_def)

lemma GetBlockValue_main_PoW:
  assumes "1 < h" and "h < 44000"
  shows "GetBlockValue (CMainParams g) h = (if 30000 \<le> h \<and> h < 35000 then 2200 * COIN else 200 * COIN)"
  using assms
  by (simp add: GetBlockValue_def CMainParams_def IsRegTestNet_def NetworkUpgradeActive_def NetworkUpgradeState_def
      NO_ACTIVATION_HEIGHT_def)

lemma GetBlockValue_main_PoS:
  assumes "44000 \<le> h"
  shows "GetBlockValue (CMainParams g) h = (11 - min 10 (max 1 (h div 44000))) * COIN"
proof -
  have "GetBlockValue (CMainParams g) h = (let count = h div 44000 - 1 in
        if count \<le> 0 then 10 * COIN else if count \<ge> 10 then 1 * COIN else (10 - count) * COIN)"
    using assms
    by (simp add: GetBlockValue_def CMainParams_def IsRegTestNet_def NetworkUpgradeActive_def NetworkUpgradeState_def
        NO_ACTIVATION_HEIGHT_def signed_divide_int_def)
  then show ?thesis
    by (simp add: Let_def min_def max_def COIN_def split: if_splits)
qed

lemma sum_const_range: "(\<And>i. a \<le> i \<Longrightarrow> i \<le> b \<Longrightarrow> f i = c) \<Longrightarrow> a \<le> b + 1 \<Longrightarrow> (\<Sum>i = a..b::int. f i) = (b - a + 1) * (c::int)"
  by (simp add: sum.cong [of "{a..b}" "{a..b}" f "\<lambda>_. c"])

lemma sum_split_range:
  fixes f :: "int \<Rightarrow> int"
  assumes "a \<le> b + 1" and "b \<le> c"
  shows "(\<Sum>i = a..c. f i) = (\<Sum>i = a..b. f i) + (\<Sum>i = b + 1..c. f i)"
proof -
  have "{a..c} = {a..b} \<union> {b + 1..c}"
    using assms by auto
  then show ?thesis
    by (simp add: sum.union_disjoint)
qed

lemma GetBlockValue_main_first: "GetBlockValue (CMainParams g) 1 = 1200400 * COIN"
  by (simp add: GetBlockValue_def CMainParams_def IsRegTestNet_def)

lemma main_PoW_supply: "(\<Sum>i = 1..43999. GetBlockValue (CMainParams g) i) = 20000000 * COIN"
proof -
  let ?f = "GetBlockValue (CMainParams g)"
  have "(\<Sum>i = 1..1. ?f i) = 1200400 * COIN"
    by (simp add: GetBlockValue_main_first)
  moreover have "(\<Sum>i = 1 + 1..29999. ?f i) = (29999 - (1 + 1) + 1) * (200 * COIN)"
    by (rule sum_const_range) (simp_all add: GetBlockValue_main_PoW)
  moreover have "(\<Sum>i = 29999 + 1..34999. ?f i) = (34999 - (29999 + 1) + 1) * (2200 * COIN)"
    by (rule sum_const_range) (simp_all add: GetBlockValue_main_PoW)
  moreover have "(\<Sum>i = 34999 + 1..43999. ?f i) = (43999 - (34999 + 1) + 1) * (200 * COIN)"
    by (rule sum_const_range) (simp_all add: GetBlockValue_main_PoW)
  moreover have "(\<Sum>i = 1..43999. ?f i) =
      (\<Sum>i = 1..1. ?f i) + ((\<Sum>i = 1 + 1..29999. ?f i) + ((\<Sum>i = 29999 + 1..34999. ?f i) + (\<Sum>i = 34999 + 1..43999. ?f i)))"
    by (subst sum_split_range [of 1 1 43999], simp, simp, subst sum_split_range [of "1 + 1" 29999 43999], simp, simp,
        subst sum_split_range [of "29999 + 1" 34999 43999], simp, simp, rule refl)
  ultimately show ?thesis
    by simp
qed

lemma GetBlockValue_main_bounds:
  assumes "1 \<le> h"
  shows "COIN \<le> GetBlockValue (CMainParams g) h \<and> GetBlockValue (CMainParams g) h \<le> 1200400 * COIN"
proof -
  consider "h = 1" | "1 < h" "h < 44000" | "44000 \<le> h"
    using assms by linarith
  then show ?thesis
  proof cases
    case 1
    then show ?thesis by (simp add: GetBlockValue_main_first COIN_def)
  next
    case 2
    then show ?thesis by (simp add: GetBlockValue_main_PoW COIN_def)
  next
    case 3
    then show ?thesis by (simp add: GetBlockValue_main_PoS COIN_def min_def max_def)
  qed
qed

lemma GetBlockValue_main_mono:
  assumes "44000 \<le> h" and "h \<le> h'"
  shows "GetBlockValue (CMainParams g) h' \<le> GetBlockValue (CMainParams g) h"
proof -
  have "h div 44000 \<le> h' div 44000"
    using assms by (simp add: zdiv_mono1)
  then show ?thesis
    using assms by (simp add: GetBlockValue_main_PoS COIN_def min_def max_def)
qed

text \<open>
  The reward on the main network is between 1 coin and the 1200400 coins of the first block, is in the money range,
  and does not grow once proof of stake is active; the rewards before that sum up to 20 million coins, which is twice
  the limit \<^verbatim>\<open>nMaxMoneyOut\<close> of the money range.
\<close>

theorem main_reward_schedule:
  assumes "1 \<le> h" and "h \<le> h'"
  shows "COIN \<le> GetBlockValue (CMainParams g) h \<and> GetBlockValue (CMainParams g) h \<le> 1200400 * COIN \<and>
    MoneyRange (nMaxMoneyOut (consensus (CMainParams g))) (GetBlockValue (CMainParams g) h) \<and>
    (h < vUpgrades (consensus (CMainParams g)) ACTIVATE_POS \<or>
       GetBlockValue (CMainParams g) h' \<le> GetBlockValue (CMainParams g) h) \<and>
    (\<Sum>i = 1..vUpgrades (consensus (CMainParams g)) ACTIVATE_POS - 1. GetBlockValue (CMainParams g) i) =
      2 * nMaxMoneyOut (consensus (CMainParams g))"
proof -
  note b = GetBlockValue_main_bounds [OF assms(1), of g]
  have m: "nMaxMoneyOut (consensus (CMainParams g)) = 10000000 * COIN"
    and u: "vUpgrades (consensus (CMainParams g)) ACTIVATE_POS = 44000"
    by (simp_all add: CMainParams_def)
  have "MoneyRange (10000000 * COIN) (GetBlockValue (CMainParams g) h)"
    using b by (simp add: MoneyRange_def COIN_def)
  moreover have "h < 44000 \<or> GetBlockValue (CMainParams g) h' \<le> GetBlockValue (CMainParams g) h"
    using GetBlockValue_main_mono [of h h' g] assms(2) by linarith
  ultimately show ?thesis
    unfolding m u using b main_PoW_supply [of g] by simp
qed

theorem main_reward_schedule_witness:
  "GetBlockValue (CMainParams []) 88000 = 9 * COIN \<and> GetBlockValue (CMainParams []) 600000 \<le> 9 * COIN"
proof -
  have "GetBlockValue (CMainParams []) 88000 = 9 * COIN"
    by (simp add: GetBlockValue_main_PoS)
  then show ?thesis
    using main_reward_schedule [of 88000 600000 "[]"] by (simp add: CMainParams_def)
qed

end
