(* ===== verification/Block_Data.thy ===== *)
theory Block_Data
  imports Transactions
begin

text \<open>
  Blocks (\<^verbatim>\<open>src/primitives/block.h\<close>, \<^verbatim>\<open>src/primitives/block.cpp\<close>): headers, asset registrations, blocks and block
  locators, with their wire formats.
\<close>

section \<open>Data\<close>

record CAssetRegistration =
  reg_owner :: bytes
  reg_key :: bytes
  reg_type :: int

record CBlockHeader =
  hd_nVersion :: int
  hd_hashPrevBlock :: bytes
  hd_hashMerkleRoot :: bytes
  hd_nTime :: nat
  hd_nBits :: nat
  hd_nNonce :: nat
  hd_hashFinalSaplingRoot :: bytes
  hd_assetRootHash :: bytes

record CBlock = CBlockHeader +
  vtx :: "CTransaction list"
  vReg :: "CAssetRegistration list"
  vchBlockSig :: bytes
  fChecked :: bool

abbreviation null256 :: bytes where "null256 \<equiv> replicate 32 0"

definition CURRENT_VERSION :: int where "CURRENT_VERSION = 5"

definition CBlockHeader_SetNull :: CBlockHeader where
  "CBlockHeader_SetNull =
     \<lparr>hd_nVersion = CURRENT_VERSION, hd_hashPrevBlock = null256, hd_hashMerkleRoot = null256, hd_nTime = 0,
      hd_nBits = 0, hd_nNonce = 0, hd_hashFinalSaplingRoot = null256, hd_assetRootHash = null256\<rparr>"

definition CBlockHeader_IsNull :: "'a CBlockHeader_scheme \<Rightarrow> bool" where
  "CBlockHeader_IsNull h \<longleftrightarrow> hd_nBits h = 0"

definition CBlockHeader_GetBlockTime :: "'a CBlockHeader_scheme \<Rightarrow> int" where
  "CBlockHeader_GetBlockTime h = int (hd_nTime h)"

definition CBlock_IsProofOfStake :: "CBlock \<Rightarrow> bool" where
  "CBlock_IsProofOfStake b \<longleftrightarrow> length (vtx b) > 1 \<and> IsCoinStake (vtx b ! 1)"

definition CBlock_IsProofOfWork :: "CBlock \<Rightarrow> bool" where
  "CBlock_IsProofOfWork b \<longleftrightarrow> \<not> CBlock_IsProofOfStake b"

definition CBlock_GetBlockHeader :: "CBlock \<Rightarrow> CBlockHeader" where
  "CBlock_GetBlockHeader b =
     CBlockHeader_SetNull\<lparr>hd_nVersion := hd_nVersion b, hd_hashPrevBlock := hd_hashPrevBlock b,
       hd_hashMerkleRoot := hd_hashMerkleRoot b, hd_nTime := hd_nTime b, hd_nBits := hd_nBits b, hd_nNonce := hd_nNonce b,
       hd_hashFinalSaplingRoot := if hd_nVersion b \<ge> 2 then hd_hashFinalSaplingRoot b else null256,
       hd_assetRootHash := if hd_nVersion b \<ge> 3 then hd_assetRootHash b else null256\<rparr>"

definition CBlock_of_header :: "CBlockHeader \<Rightarrow> CBlock" where
  "CBlock_of_header h = CBlockHeader.extend h \<lparr>vtx = [], vReg = [], vchBlockSig = [], fChecked = False\<rparr>"

section \<open>Wire format\<close>

definition Serialize_CAssetRegistration :: "CAssetRegistration \<Rightarrow> bytes" where
  "Serialize_CAssetRegistration r = reg_owner r @ reg_key r @ Serialize_int16 (reg_type r)"

definition Unserialize_CAssetRegistration :: "bytes \<Rightarrow> (CAssetRegistration \<times> bytes) option" where
  "Unserialize_CAssetRegistration s = do {
     (owner, s1) \<leftarrow> stream_read 20 s;
     (key, s2) \<leftarrow> stream_read 20 s1;
     (typ, s3) \<leftarrow> Unserialize_int16 s2;
     Some (\<lparr>reg_owner = owner, reg_key = key, reg_type = typ\<rparr>, s3)
   }"

definition Serialize_CBlockHeader :: "'a CBlockHeader_scheme \<Rightarrow> bytes" where
  "Serialize_CBlockHeader h =
     Serialize_int32 (hd_nVersion h) @ hd_hashPrevBlock h @ hd_hashMerkleRoot h @ Serialize_uint32 (hd_nTime h) @
     Serialize_uint32 (hd_nBits h) @ Serialize_uint32 (hd_nNonce h) @
     (if hd_nVersion h \<ge> 2 then hd_hashFinalSaplingRoot h else []) @
     (if hd_nVersion h \<ge> 3 then hd_assetRootHash h else [])"

definition Unserialize_CBlockHeader :: "bytes \<Rightarrow> (CBlockHeader \<times> bytes) option" where
  "Unserialize_CBlockHeader s = do {
     (ver, s1) \<leftarrow> Unserialize_int32 s;
     (prev, s2) \<leftarrow> stream_read 32 s1;
     (root, s3) \<leftarrow> stream_read 32 s2;
     (time, s4) \<leftarrow> Unserialize_uint32 s3;
     (bits, s5) \<leftarrow> Unserialize_uint32 s4;
     (nonce, s6) \<leftarrow> Unserialize_uint32 s5;
     (sap, s7) \<leftarrow> (if ver \<ge> 2 then stream_read 32 s6 else Some (null256, s6));
     (asset, s8) \<leftarrow> (if ver \<ge> 3 then stream_read 32 s7 else Some (null256, s7));
     Some (\<lparr>hd_nVersion = ver, hd_hashPrevBlock = prev, hd_hashMerkleRoot = root, hd_nTime = time, hd_nBits = bits,
            hd_nNonce = nonce, hd_hashFinalSaplingRoot = sap, hd_assetRootHash = asset\<rparr>, s8)
   }"

definition Serialize_CBlock :: "CBlock \<Rightarrow> bytes" where
  "Serialize_CBlock b =
     Serialize_CBlockHeader b @ Serialize_vector SerializeTransaction (vtx b) @
     Serialize_vector Serialize_CAssetRegistration (vReg b) @
     (if length (vtx b) > 1 \<and> IsCoinStake (vtx b ! 1) then Serialize_bytes (vchBlockSig b) else [])"

definition Unserialize_CBlock :: "bytes \<Rightarrow> (CBlock \<times> bytes) option" where
  "Unserialize_CBlock s = do {
     (h, s1) \<leftarrow> Unserialize_CBlockHeader s;
     (txs, s2) \<leftarrow> Unserialize_vector UnserializeTransaction s1;
     (regs, s3) \<leftarrow> Unserialize_vector Unserialize_CAssetRegistration s2;
     (sig, s4) \<leftarrow> (if length txs > 1 \<and> IsCoinStake (txs ! 1) then Unserialize_bytes s3 else Some ([], s3));
     Some (CBlockHeader.extend h \<lparr>vtx = txs, vReg = regs, vchBlockSig = sig, fChecked = False\<rparr>, s4)
   }"

definition CBlockHeader_GetHash :: "'a CBlockHeader_scheme \<Rightarrow> bytes" where
  "CBlockHeader_GetHash h = Hash256 (Serialize_CBlockHeader h)"

record CBlockLocator =
  vHave :: "bytes list"

definition CBlockLocator_IsNull :: "CBlockLocator \<Rightarrow> bool" where
  "CBlockLocator_IsNull l \<longleftrightarrow> vHave l = []"

text \<open>Outside of hashing the stream's version comes first.\<close>

definition Serialize_CBlockLocator :: "int \<Rightarrow> CBlockLocator \<Rightarrow> bytes" where
  "Serialize_CBlockLocator version l = Serialize_int32 version @ Serialize_vector (\<lambda>h. h) (vHave l)"

definition Unserialize_CBlockLocator :: "bytes \<Rightarrow> (CBlockLocator \<times> bytes) option" where
  "Unserialize_CBlockLocator s = do {
     (version, s1) \<leftarrow> Unserialize_int32 s;
     (have, s2) \<leftarrow> Unserialize_vector (stream_read 32) s1;
     Some (\<lparr>vHave = have\<rparr>, s2)
   }"

section \<open>Well-formed blocks\<close>

definition CAssetRegistration_ok :: "CAssetRegistration \<Rightarrow> bool" where
  "CAssetRegistration_ok r \<longleftrightarrow> length (reg_owner r) = 20 \<and> length (reg_key r) = 20 \<and>
     - (2 ^ 15) \<le> reg_type r \<and> reg_type r < 2 ^ 15"

definition CBlockHeader_ok :: "'a CBlockHeader_scheme \<Rightarrow> bool" where
  "CBlockHeader_ok h \<longleftrightarrow> - (2 ^ 31) \<le> hd_nVersion h \<and> hd_nVersion h < 2 ^ 31 \<and> length (hd_hashPrevBlock h) = 32 \<and>
     length (hd_hashMerkleRoot h) = 32 \<and> hd_nTime h < 2 ^ 32 \<and> hd_nBits h < 2 ^ 32 \<and> hd_nNonce h < 2 ^ 32 \<and>
     (if hd_nVersion h \<ge> 2 then length (hd_hashFinalSaplingRoot h) = 32 else hd_hashFinalSaplingRoot h = null256) \<and>
     (if hd_nVersion h \<ge> 3 then length (hd_assetRootHash h) = 32 else hd_assetRootHash h = null256)"

definition CBlock_ok :: "CBlock \<Rightarrow> bool" where
  "CBlock_ok b \<longleftrightarrow> CBlockHeader_ok b \<and> list_all CTransaction_ok (vtx b) \<and> length (vtx b) \<le> MAX_SIZE \<and>
     list_all CAssetRegistration_ok (vReg b) \<and> length (vReg b) \<le> MAX_SIZE \<and>
     (if CBlock_IsProofOfStake b then length (vchBlockSig b) \<le> MAX_SIZE else vchBlockSig b = []) \<and> \<not> fChecked b"

interpretation assetreg: codec Serialize_CAssetRegistration Unserialize_CAssetRegistration CAssetRegistration_ok
  by unfold_locales
    (simp add: Serialize_CAssetRegistration_def Unserialize_CAssetRegistration_def CAssetRegistration_ok_def
      stream_read_append int16.unser_ser)

interpretation blockheader: codec "Serialize_CBlockHeader :: CBlockHeader \<Rightarrow> bytes" Unserialize_CBlockHeader CBlockHeader_ok
  by unfold_locales
    (auto simp: Serialize_CBlockHeader_def Unserialize_CBlockHeader_def CBlockHeader_ok_def stream_read_append
      int32.unser_ser uint32.unser_ser split: if_splits)

lemma Serialize_CBlockHeader_truncate: "Serialize_CBlockHeader (CBlockHeader.truncate b) = Serialize_CBlockHeader b"
  by (simp add: Serialize_CBlockHeader_def CBlockHeader.truncate_def)

lemma CBlockHeader_ok_truncate: "CBlockHeader_ok (CBlockHeader.truncate b) = CBlockHeader_ok b"
  by (simp add: CBlockHeader_ok_def CBlockHeader.truncate_def)

lemma CBlock_extend_truncate:
  "CBlockHeader.extend (CBlockHeader.truncate b) \<lparr>vtx = vtx b, vReg = vReg b, vchBlockSig = vchBlockSig b, fChecked = fChecked b\<rparr> = b"
  by (simp add: CBlockHeader.extend_def CBlockHeader.truncate_def)

interpretation block: codec Serialize_CBlock Unserialize_CBlock CBlock_ok
proof unfold_locales
  fix b s
  assume ok: "CBlock_ok b"
  have h: "Unserialize_CBlockHeader (Serialize_CBlockHeader b @ t) = Some (CBlockHeader.truncate b, t)" for t
    using blockheader.unser_ser [of "CBlockHeader.truncate b" t] ok
    by (simp add: Serialize_CBlockHeader_truncate CBlockHeader_ok_truncate CBlock_ok_def)
  have e: "CBlockHeader.extend (CBlockHeader.truncate b)
      \<lparr>vtx = vtx b, vReg = vReg b, vchBlockSig = vchBlockSig b, fChecked = False\<rparr> = b"
    using CBlock_extend_truncate [of b] ok by (simp add: CBlock_ok_def)
  show "Unserialize_CBlock (Serialize_CBlock b @ s) = Some (b, s)"
    using ok e
    by (auto simp: Serialize_CBlock_def Unserialize_CBlock_def CBlock_ok_def h transaction.vector_unser_ser
        assetreg.vector_unser_ser bytevec.unser_ser CBlock_IsProofOfStake_def)
qed

interpretation hash256: codec "\<lambda>h. h" "stream_read 32" "\<lambda>h. length h = 32"
  by unfold_locales (simp add: stream_read_append)

lemma locator_roundtrip:
  "list_all (\<lambda>h. length h = 32) (vHave l) \<Longrightarrow> length (vHave l) \<le> MAX_SIZE \<Longrightarrow> - (2 ^ 31) \<le> v \<Longrightarrow> v < 2 ^ 31 \<Longrightarrow>
   Unserialize_CBlockLocator (Serialize_CBlockLocator v l @ s) = Some (l, s)"
  by (simp add: Serialize_CBlockLocator_def Unserialize_CBlockLocator_def int32.unser_ser hash256.vector_unser_ser)

text \<open>
  C34. \<^verbatim>\<open>CBlock\<close> reads back what it wrote for every well-formed block: header by version, transactions, asset
  registrations, and the signature exactly for proof-of-stake blocks.  The block hash only depends on the header, and
  two headers that are not equal have different bytes under it.
\<close>

theorem Block_roundtrip:
  assumes "CBlock_ok b" and "CBlock_ok b'"
  shows "Unserialize_CBlock (Serialize_CBlock b @ s) = Some (b, s) \<and>
    CBlockHeader_GetHash b = Hash256 (Serialize_CBlockHeader (CBlock_GetBlockHeader b)) \<and>
    (Serialize_CBlockHeader b = Serialize_CBlockHeader b' \<longleftrightarrow> CBlock_GetBlockHeader b = CBlock_GetBlockHeader b')"
proof -
  have g: "CBlock_GetBlockHeader c = CBlockHeader.truncate c" if "CBlock_ok c" for c
    using that
    by (auto simp: CBlock_GetBlockHeader_def CBlockHeader_SetNull_def CBlock_ok_def CBlockHeader_ok_def
        CBlockHeader.truncate_def split: if_splits)
  have "Serialize_CBlockHeader b = Serialize_CBlockHeader b' \<longleftrightarrow> CBlockHeader.truncate b = CBlockHeader.truncate b'"
    using blockheader.ser_inject [of "CBlockHeader.truncate b" "CBlockHeader.truncate b'" "[]" "[]"] assms
    by (metis CBlock_ok_def CBlockHeader_ok_truncate Serialize_CBlockHeader_truncate)
  then show ?thesis
    using block.unser_ser [OF assms(1)] assms
    by (simp add: g Serialize_CBlockHeader_truncate CBlockHeader_GetHash_def)
qed

theorem Block_roundtrip_witness:
  "let b = CBlock_of_header (CBlockHeader_SetNull\<lparr>hd_nTime := 7\<rparr>)
   in Unserialize_CBlock (Serialize_CBlock b @ [1]) = Some (b, [1])"
proof -
  let ?b = "CBlock_of_header (CBlockHeader_SetNull\<lparr>hd_nTime := 7\<rparr>)"
  have "CBlock_ok ?b"
    by (simp add: CBlock_ok_def CBlockHeader_ok_def CBlock_of_header_def CBlockHeader_SetNull_def CURRENT_VERSION_def
        CBlock_IsProofOfStake_def CBlockHeader.extend_def)
  from Block_roundtrip [OF this this, of "[1]"] show ?thesis
    by simp
qed

end
