(* ===== verification/Block_Index.thy ===== *)
theory Block_Index
  imports Chain_Params Block_Data
begin

text \<open>
  The block index (\<^verbatim>\<open>src/chain.h\<close>, \<^verbatim>\<open>src/chain.cpp\<close>): the entries, the skip list through their ancestors, and the
  active chain.  Entries live in a heap, a map from addresses to entries; a null pointer is \<open>None\<close>.  An operation that
  dereferences a null or dangling pointer, reads a vector out of range, fails an assertion or does not return has no
  result (\<open>None\<close>), so a theorem that gives its result also says that none of this happens.
\<close>

unbundle bit_operations_syntax

type_synonym ptr = nat

record CBlockIndex =
  phashBlock :: "bytes option"
  pprev :: "ptr option"
  pskip :: "ptr option"
  nHeight :: int
  nFile :: int
  nDataPos :: nat
  nUndoPos :: nat
  nChainWork :: base_uint
  nTx :: nat
  nChainTx :: nat
  nStatus :: "32 word"
  vStakeModifier :: bytes
  nFlags :: "32 word"
  nSaplingValue :: int
  nChainSaplingValue :: "int option"
  bi_nVersion :: int
  bi_hashMerkleRoot :: bytes
  bi_hashFinalSaplingRoot :: bytes
  bi_assetRootHash :: bytes
  bi_nTime :: nat
  bi_nBits :: nat
  bi_nNonce :: nat
  nSequenceId :: nat

type_synonym heap = "ptr \<rightharpoonup> CBlockIndex"

definition deref :: "heap \<Rightarrow> ptr option \<Rightarrow> CBlockIndex option" where
  "deref h p = Option.bind p h"

section \<open>Status and flags\<close>

definition BLOCK_VALID_UNKNOWN :: "32 word" where "BLOCK_VALID_UNKNOWN = 0"
definition BLOCK_VALID_HEADER :: "32 word" where "BLOCK_VALID_HEADER = 1"
definition BLOCK_VALID_TREE :: "32 word" where "BLOCK_VALID_TREE = 2"
definition BLOCK_VALID_TRANSACTIONS :: "32 word" where "BLOCK_VALID_TRANSACTIONS = 3"
definition BLOCK_VALID_CHAIN :: "32 word" where "BLOCK_VALID_CHAIN = 4"
definition BLOCK_VALID_SCRIPTS :: "32 word" where "BLOCK_VALID_SCRIPTS = 5"
definition BLOCK_VALID_MASK :: "32 word" where
  "BLOCK_VALID_MASK = BLOCK_VALID_HEADER OR BLOCK_VALID_TREE OR BLOCK_VALID_TRANSACTIONS OR BLOCK_VALID_CHAIN OR BLOCK_VALID_SCRIPTS"
definition BLOCK_HAVE_DATA :: "32 word" where "BLOCK_HAVE_DATA = 8"
definition BLOCK_HAVE_UNDO :: "32 word" where "BLOCK_HAVE_UNDO = 16"
definition BLOCK_FAILED_VALID :: "32 word" where "BLOCK_FAILED_VALID = 32"
definition BLOCK_FAILED_CHILD :: "32 word" where "BLOCK_FAILED_CHILD = 64"
definition BLOCK_FAILED_MASK :: "32 word" where "BLOCK_FAILED_MASK = BLOCK_FAILED_VALID OR BLOCK_FAILED_CHILD"

definition BLOCK_PROOF_OF_STAKE :: "32 word" where "BLOCK_PROOF_OF_STAKE = push_bit 0 1"
definition BLOCK_STAKE_ENTROPY :: "32 word" where "BLOCK_STAKE_ENTROPY = push_bit 1 1"
definition BLOCK_STAKE_MODIFIER :: "32 word" where "BLOCK_STAKE_MODIFIER = push_bit 2 1"

definition CBlockIndex_IsProofOfStake :: "CBlockIndex \<Rightarrow> bool" where
  "CBlockIndex_IsProofOfStake b \<longleftrightarrow> nFlags b AND BLOCK_PROOF_OF_STAKE \<noteq> 0"

definition SetProofOfStake :: "CBlockIndex \<Rightarrow> CBlockIndex" where
  "SetProofOfStake b = b\<lparr>nFlags := nFlags b OR BLOCK_PROOF_OF_STAKE\<rparr>"

definition GeneratedStakeModifier :: "CBlockIndex \<Rightarrow> bool" where
  "GeneratedStakeModifier b \<longleftrightarrow> nFlags b AND BLOCK_STAKE_MODIFIER \<noteq> 0"

definition CBlockIndex_IsValid :: "CBlockIndex \<Rightarrow> 32 word \<Rightarrow> bool option" where
  "CBlockIndex_IsValid b nUpTo =
     (if nUpTo AND NOT BLOCK_VALID_MASK \<noteq> 0 then None
      else if nStatus b AND BLOCK_FAILED_MASK \<noteq> 0 then Some False
      else Some (nStatus b AND BLOCK_VALID_MASK \<ge> nUpTo))"

definition RaiseValidity :: "CBlockIndex \<Rightarrow> 32 word \<Rightarrow> (CBlockIndex \<times> bool) option" where
  "RaiseValidity b nUpTo =
     (if nUpTo AND NOT BLOCK_VALID_MASK \<noteq> 0 then None
      else if nStatus b AND BLOCK_FAILED_MASK \<noteq> 0 then Some (b, False)
      else if nStatus b AND BLOCK_VALID_MASK < nUpTo
      then Some (b\<lparr>nStatus := (nStatus b AND NOT BLOCK_VALID_MASK) OR nUpTo\<rparr>, True)
      else Some (b, False))"

section \<open>Construction and header\<close>

definition CBlockIndex_default :: CBlockIndex where
  "CBlockIndex_default =
     \<lparr>phashBlock = None, pprev = None, pskip = None, nHeight = 0, nFile = 0, nDataPos = 0, nUndoPos = 0,
      nChainWork = base_uint_zero 8, nTx = 0, nChainTx = 0, nStatus = 0, vStakeModifier = [], nFlags = 0,
      nSaplingValue = 0, nChainSaplingValue = None, bi_nVersion = 0, bi_hashMerkleRoot = null256,
      bi_hashFinalSaplingRoot = null256, bi_assetRootHash = null256, bi_nTime = 0, bi_nBits = 0, bi_nNonce = 0,
      nSequenceId = 0\<rparr>"

definition CBlockIndex_of_block :: "CBlock \<Rightarrow> CBlockIndex" where
  "CBlockIndex_of_block block =
     (let b = CBlockIndex_default\<lparr>bi_nVersion := hd_nVersion block, bi_hashMerkleRoot := hd_hashMerkleRoot block,
            bi_hashFinalSaplingRoot := hd_hashFinalSaplingRoot block, bi_assetRootHash := hd_assetRootHash block,
            bi_nTime := hd_nTime block, bi_nBits := hd_nBits block, bi_nNonce := hd_nNonce block\<rparr>
      in if CBlock_IsProofOfStake block then SetProofOfStake b else b)"

record CDiskBlockPos =
  pos_nFile :: int
  pos_nPos :: nat

definition CDiskBlockPos_SetNull :: CDiskBlockPos where
  "CDiskBlockPos_SetNull = \<lparr>pos_nFile = - 1, pos_nPos = 0\<rparr>"

definition GetBlockPos :: "CBlockIndex \<Rightarrow> CDiskBlockPos" where
  "GetBlockPos b =
     (if nStatus b AND BLOCK_HAVE_DATA \<noteq> 0 then \<lparr>pos_nFile = nFile b, pos_nPos = nDataPos b\<rparr> else CDiskBlockPos_SetNull)"

definition GetUndoPos :: "CBlockIndex \<Rightarrow> CDiskBlockPos" where
  "GetUndoPos b =
     (if nStatus b AND BLOCK_HAVE_UNDO \<noteq> 0 then \<lparr>pos_nFile = nFile b, pos_nPos = nUndoPos b\<rparr> else CDiskBlockPos_SetNull)"

definition CBlockIndex_GetBlockHeader :: "heap \<Rightarrow> CBlockIndex \<Rightarrow> CBlockHeader option" where
  "CBlockIndex_GetBlockHeader h b = do {
     prev \<leftarrow> (case pprev b of None \<Rightarrow> Some null256 | Some q \<Rightarrow> Option.bind (h q) phashBlock);
     Some (CBlockHeader_SetNull\<lparr>hd_nVersion := bi_nVersion b, hd_hashPrevBlock := prev,
       hd_hashMerkleRoot := bi_hashMerkleRoot b, hd_nTime := bi_nTime b, hd_nBits := bi_nBits b, hd_nNonce := bi_nNonce b,
       hd_hashFinalSaplingRoot := if bi_nVersion b \<ge> 2 then bi_hashFinalSaplingRoot b else null256,
       hd_assetRootHash := if bi_nVersion b \<ge> 3 then bi_assetRootHash b else null256\<rparr>)
   }"

definition CBlockIndex_GetBlockTime :: "CBlockIndex \<Rightarrow> int" where
  "CBlockIndex_GetBlockTime b = int (bi_nTime b)"

text \<open>Block times: the clock is the argument \<open>adjustedTime\<close>.\<close>

definition MaxFutureBlockTime :: "Consensus_Params \<Rightarrow> int \<Rightarrow> CBlockIndex \<Rightarrow> int" where
  "MaxFutureBlockTime params adjustedTime b = adjustedTime + FutureBlockTimeDrift params (nHeight b + 1)"

fun median_times :: "heap \<Rightarrow> nat \<Rightarrow> ptr option \<Rightarrow> int list \<Rightarrow> int list option" where
  "median_times h 0 pindex ts = Some ts"
| "median_times h (Suc n) None ts = Some ts"
| "median_times h (Suc n) (Some p) ts =
     Option.bind (h p) (\<lambda>b. median_times h n (pprev b) (CBlockIndex_GetBlockTime b # ts))"

definition nMedianTimeSpan :: nat where "nMedianTimeSpan = 11"

definition GetMedianTimePast :: "heap \<Rightarrow> ptr \<Rightarrow> int option" where
  "GetMedianTimePast h p =
     map_option (\<lambda>ts. sort ts ! (length ts div 2)) (median_times h nMedianTimeSpan (Some p) [])"

definition MinPastBlockTime :: "Consensus_Params \<Rightarrow> heap \<Rightarrow> ptr \<Rightarrow> int option" where
  "MinPastBlockTime params h p = Option.bind (h p) (\<lambda>b.
     if \<not> IsTimeProtocolV2 params (nHeight b + 1) then GetMedianTimePast h p
     else if nHeight b + 1 = vUpgrades params ACTIVATE_POS
     then Some (CBlockIndex_GetBlockTime b - FutureBlockTimeDrift params (nHeight b) + FutureBlockTimeDrift params (nHeight b + 1))
     else Some (CBlockIndex_GetBlockTime b))"

section \<open>The skip list\<close>

definition InvertLowestOne :: "int \<Rightarrow> int" where
  "InvertLowestOne n = n AND (n - 1)"

definition GetSkipHeight :: "int \<Rightarrow> int" where
  "GetSkipHeight height =
     (if height < 2 then 0
      else if height AND 1 \<noteq> 0 then InvertLowestOne (InvertLowestOne (height - 1)) + 1
      else InvertLowestOne height)"

partial_function (option) GetAncestor_loop :: "heap \<Rightarrow> int \<Rightarrow> ptr option \<Rightarrow> int \<Rightarrow> ptr option option" where
  "GetAncestor_loop h height pindexWalk heightWalk =
     (if heightWalk > height
      then let heightSkip = GetSkipHeight heightWalk; heightSkipPrev = GetSkipHeight (heightWalk - 1) in
        Option.bind (deref h pindexWalk) (\<lambda>b.
          if heightSkip = height \<or>
             (heightSkip > height \<and> \<not> (heightSkipPrev < heightSkip - 2 \<and> heightSkipPrev \<ge> height))
          then GetAncestor_loop h height (pskip b) heightSkip
          else GetAncestor_loop h height (pprev b) (heightWalk - 1))
      else Some pindexWalk)"

definition GetAncestor :: "heap \<Rightarrow> ptr \<Rightarrow> int \<Rightarrow> ptr option option" where
  "GetAncestor h p height = Option.bind (h p) (\<lambda>b.
     if height > nHeight b \<or> height < 0 then Some None else GetAncestor_loop h height (Some p) (nHeight b))"

definition BuildSkip :: "heap \<Rightarrow> CBlockIndex \<Rightarrow> CBlockIndex option" where
  "BuildSkip h b =
     (case pprev b of None \<Rightarrow> Some b
      | Some q \<Rightarrow> map_option (\<lambda>r. b\<lparr>pskip := r\<rparr>) (GetAncestor h q (GetSkipHeight (nHeight b))))"

partial_function (option) LastCommonAncestor_loop :: "heap \<Rightarrow> ptr option \<Rightarrow> ptr option \<Rightarrow> (ptr option \<times> ptr option) option" where
  "LastCommonAncestor_loop h pa pb =
     (if pa \<noteq> pb \<and> pa \<noteq> None \<and> pb \<noteq> None
      then Option.bind (deref h pa) (\<lambda>a. Option.bind (deref h pb) (\<lambda>b. LastCommonAncestor_loop h (pprev a) (pprev b)))
      else Some (pa, pb))"

definition LastCommonAncestor :: "heap \<Rightarrow> ptr \<Rightarrow> ptr \<Rightarrow> ptr option option" where
  "LastCommonAncestor h pa pb = do {
     a \<leftarrow> h pa;
     b \<leftarrow> h pb;
     pa1 \<leftarrow> (if nHeight a > nHeight b then GetAncestor h pa (nHeight b) else Some (Some pa));
     pb1 \<leftarrow> (if \<not> nHeight a > nHeight b \<and> nHeight b > nHeight a then GetAncestor h pb (nHeight a) else Some (Some pb));
     (pa2, pb2) \<leftarrow> LastCommonAncestor_loop h pa1 pb1;
     if pa2 = pb2 then Some pa2 else None
   }"

section \<open>The active chain\<close>

type_synonym CChain = "ptr option list"

definition Genesis :: "CChain \<Rightarrow> ptr option" where
  "Genesis vChain = (if length vChain > 0 then vChain ! 0 else None)"

partial_function (option) Tip_PoS :: "heap \<Rightarrow> ptr option \<Rightarrow> ptr option option" where
  "Tip_PoS h pindex =
     (if pindex = None then Some None
      else Option.bind (deref h pindex) (\<lambda>b.
        if pprev b \<noteq> None \<and> \<not> CBlockIndex_IsProofOfStake b then Tip_PoS h (pprev b) else Some pindex))"

definition Tip :: "heap \<Rightarrow> CChain \<Rightarrow> bool \<Rightarrow> ptr option option" where
  "Tip h vChain fProofOfStake =
     (if length vChain < 1 then Some None
      else if fProofOfStake then Tip_PoS h (vChain ! (length vChain - 1)) else Some (vChain ! (length vChain - 1)))"

definition chain_at :: "CChain \<Rightarrow> int \<Rightarrow> ptr option" where
  "chain_at vChain n = (if n < 0 \<or> n \<ge> int (length vChain) then None else vChain ! nat n)"

definition Contains :: "heap \<Rightarrow> CChain \<Rightarrow> ptr \<Rightarrow> bool option" where
  "Contains h vChain p = map_option (\<lambda>b. chain_at vChain (nHeight b) = Some p) (h p)"

definition Next :: "heap \<Rightarrow> CChain \<Rightarrow> ptr \<Rightarrow> ptr option option" where
  "Next h vChain p = do {
     b \<leftarrow> h p;
     c \<leftarrow> Contains h vChain p;
     Some (if c then chain_at vChain (nHeight b + 1) else None)
   }"

definition Height :: "CChain \<Rightarrow> int" where
  "Height vChain = int (length vChain) - 1"

definition vector_resize :: "CChain \<Rightarrow> nat \<Rightarrow> CChain" where
  "vector_resize v n = take n v @ replicate (n - length v) None"

partial_function (option) SetTip_loop :: "heap \<Rightarrow> CChain \<Rightarrow> ptr option \<Rightarrow> CChain option" where
  "SetTip_loop h vChain pindex =
     (case pindex of None \<Rightarrow> Some vChain
      | Some p \<Rightarrow> Option.bind (h p) (\<lambda>b.
          if nHeight b < 0 \<or> nHeight b \<ge> int (length vChain) then None
          else if vChain ! nat (nHeight b) \<noteq> Some p
          then SetTip_loop h (vChain[nat (nHeight b) := Some p]) (pprev b)
          else Some vChain))"

definition SetTip :: "heap \<Rightarrow> CChain \<Rightarrow> ptr option \<Rightarrow> CChain option" where
  "SetTip h vChain pindex =
     (case pindex of None \<Rightarrow> Some []
      | Some p \<Rightarrow> Option.bind (h p) (\<lambda>b. SetTip_loop h (vector_resize vChain (nat (nHeight b + 1))) pindex))"

text \<open>The step doubles at most once per entry, so it stays below $2^{31}$ for heights below $2^{30}$.\<close>

partial_function (option) GetLocator_loop :: "heap \<Rightarrow> CChain \<Rightarrow> ptr option \<Rightarrow> int \<Rightarrow> bytes list \<Rightarrow> bytes list option" where
  "GetLocator_loop h vChain pindex nStep have =
     (case pindex of None \<Rightarrow> Some have
      | Some p \<Rightarrow> Option.bind (h p) (\<lambda>b. Option.bind (phashBlock b) (\<lambda>hash.
          let have1 = have @ [hash] in
          if nHeight b = 0 then Some have1
          else let height = max (nHeight b - nStep) 0 in
            Option.bind (Contains h vChain p) (\<lambda>c.
              Option.bind (if c then Some (chain_at vChain height) else GetAncestor h p height) (\<lambda>next.
                GetLocator_loop h vChain next (if length have1 > 10 then nStep * 2 else nStep) have1)))))"

definition GetLocator :: "heap \<Rightarrow> CChain \<Rightarrow> ptr option \<Rightarrow> CBlockLocator option" where
  "GetLocator h vChain pindex =
     Option.bind (if pindex = None then Tip h vChain False else Some pindex) (\<lambda>start.
       map_option (\<lambda>have. \<lparr>vHave = have\<rparr>) (GetLocator_loop h vChain start 1 []))"

partial_function (option) FindFork_loop :: "heap \<Rightarrow> CChain \<Rightarrow> ptr option \<Rightarrow> ptr option option" where
  "FindFork_loop h vChain pindex =
     (case pindex of None \<Rightarrow> Some None
      | Some p \<Rightarrow> Option.bind (Contains h vChain p) (\<lambda>c.
          if c then Some pindex else Option.bind (h p) (\<lambda>b. FindFork_loop h vChain (pprev b))))"

definition FindFork :: "heap \<Rightarrow> CChain \<Rightarrow> ptr option \<Rightarrow> ptr option option" where
  "FindFork h vChain pindex =
     (case pindex of None \<Rightarrow> Some None
      | Some p \<Rightarrow> do {
          b \<leftarrow> h p;
          start \<leftarrow> (if nHeight b > Height vChain then GetAncestor h p (Height vChain) else Some pindex);
          FindFork_loop h vChain start
        })"

section \<open>The tree of entries\<close>

primrec prev_n :: "heap \<Rightarrow> nat \<Rightarrow> ptr \<Rightarrow> ptr option" where
  "prev_n h 0 p = Some p"
| "prev_n h (Suc n) p = Option.bind (Option.bind (h p) pprev) (prev_n h n)"

lemma bind_prev_0 [simp]: "Option.bind x (prev_n h 0) = x"
  by (cases x) simp_all

definition ancestors :: "heap \<Rightarrow> ptr \<Rightarrow> ptr set" where
  "ancestors h p = {q. \<exists>n. prev_n h n p = Some q}"

text \<open>Heights count from the root, and the skip pointers lead to the ancestor at the skip height.\<close>

definition entry_ok :: "heap \<Rightarrow> ptr \<Rightarrow> CBlockIndex \<Rightarrow> bool" where
  "entry_ok h p b \<longleftrightarrow> 0 \<le> nHeight b \<and>
     (case pprev b of None \<Rightarrow> nHeight b = 0
      | Some q \<Rightarrow> (\<exists>c. h q = Some c \<and> nHeight b = nHeight c + 1) \<and>
          pskip b = prev_n h (nat (nHeight b - GetSkipHeight (nHeight b))) p)"

definition index_ok :: "heap \<Rightarrow> bool" where
  "index_ok h \<longleftrightarrow> (\<forall>p b. h p = Some b \<longrightarrow> entry_ok h p b)"

lemma index_okD: "index_ok h \<Longrightarrow> h p = Some b \<Longrightarrow> entry_ok h p b"
  by (simp add: index_ok_def)

lemma height_nonneg: "index_ok h \<Longrightarrow> h p = Some b \<Longrightarrow> 0 \<le> nHeight b"
  by (auto dest!: index_okD simp: entry_ok_def)

lemma pprev_None_height: "index_ok h \<Longrightarrow> h p = Some b \<Longrightarrow> pprev b = None \<longleftrightarrow> nHeight b = 0"
  using index_okD [of h p b] by (auto simp: entry_ok_def dest: height_nonneg split: option.splits)

lemma pprev_entry:
  "index_ok h \<Longrightarrow> h p = Some b \<Longrightarrow> pprev b = Some q \<Longrightarrow> \<exists>c. h q = Some c \<and> nHeight c = nHeight b - 1"
  by (auto dest!: index_okD simp: entry_ok_def)

lemma pprev_exists:
  assumes "index_ok h" and "h p = Some b" and "0 < nHeight b"
  obtains q c where "pprev b = Some q" and "h q = Some c" and "nHeight c = nHeight b - 1"
proof -
  obtain q where "pprev b = Some q"
    using pprev_None_height [OF assms(1,2)] assms(3) by (cases "pprev b") auto
  with pprev_entry [OF assms(1,2)] that show thesis
    by blast
qed

lemma pskip_eq:
  "index_ok h \<Longrightarrow> h p = Some b \<Longrightarrow> 0 < nHeight b \<Longrightarrow> pskip b = prev_n h (nat (nHeight b - GetSkipHeight (nHeight b))) p"
  using pprev_None_height [of h p b] index_okD [of h p b] by (auto simp: entry_ok_def split: option.splits)

lemma back_add: "prev_n h (m + n) p = Option.bind (prev_n h m p) (prev_n h n)"
proof (induction m arbitrary: p)
  case (Suc m)
  then have "prev_n h (m + n) = (\<lambda>p. Option.bind (prev_n h m p) (prev_n h n))"
    by (rule ext)
  then show ?case
    by (simp add: Option.bind_assoc)
qed simp

lemma back_total:
  assumes "index_ok h" and "h p = Some b" and "int n \<le> nHeight b"
  shows "\<exists>q c. prev_n h n p = Some q \<and> h q = Some c \<and> nHeight c = nHeight b - int n"
  using assms(2,3)
proof (induction n arbitrary: p b)
  case (Suc n)
  obtain q c where q: "pprev b = Some q" "h q = Some c" "nHeight c = nHeight b - 1"
    using pprev_exists [OF assms(1) Suc.prems(1)] Suc.prems(2) by auto
  with Suc.IH [of q c] Suc.prems show ?case
    by (auto simp: algebra_simps)
qed simp

lemma back_beyond:
  assumes "index_ok h" and "h p = Some b" and "nHeight b < int n"
  shows "prev_n h n p = None"
  using assms(2,3)
proof (induction n arbitrary: p b)
  case 0
  with height_nonneg [OF assms(1)] show ?case by fastforce
next
  case (Suc n)
  show ?case
  proof (cases "pprev b")
    case (Some q)
    obtain c where c: "h q = Some c" "nHeight c = nHeight b - 1"
      using pprev_entry [OF assms(1) Suc.prems(1) Some] by blast
    have "prev_n h n q = None"
      using Suc.IH [OF c(1)] Suc.prems(2) c(2) by simp
    then show ?thesis
      using Suc.prems(1) Some by simp
  qed (simp add: Suc.prems)
qed

lemma InvertLowestOne_bounds: "0 \<le> n \<Longrightarrow> 0 \<le> InvertLowestOne n \<and> InvertLowestOne n \<le> n"
  by (simp add: InvertLowestOne_def and_nonnegative_int_iff AND_upper1)

lemma InvertLowestOne_less: "0 < n \<Longrightarrow> InvertLowestOne n < n"
  using AND_upper2 [of "n - 1" n] by (simp add: InvertLowestOne_def)

lemma GetSkipHeight_nonneg: "0 \<le> GetSkipHeight n"
  using InvertLowestOne_bounds [of n] InvertLowestOne_bounds [of "n - 1"] InvertLowestOne_bounds [of "InvertLowestOne (n - 1)"]
  by (simp add: GetSkipHeight_def)

lemma GetSkipHeight_less: "0 < n \<Longrightarrow> GetSkipHeight n < n"
proof (cases "n < 2")
  case False
  then have "InvertLowestOne (n - 1) < n - 1" and "0 \<le> InvertLowestOne (n - 1)" and "InvertLowestOne n < n"
    using InvertLowestOne_less [of "n - 1"] InvertLowestOne_bounds [of "n - 1"] InvertLowestOne_less [of n] by simp_all
  moreover have "InvertLowestOne (InvertLowestOne (n - 1)) \<le> InvertLowestOne (n - 1)"
    using InvertLowestOne_bounds [of "InvertLowestOne (n - 1)"] calculation(2) by simp
  ultimately show ?thesis
    using False by (simp add: GetSkipHeight_def)
qed (simp add: GetSkipHeight_def)

lemma GetAncestor_loop_back:
  assumes "index_ok h" and "h p = Some b" and "0 \<le> height" and "height \<le> nHeight b"
  shows "GetAncestor_loop h height (Some p) (nHeight b) = Some (prev_n h (nat (nHeight b - height)) p)"
  using assms(2,4)
proof (induction "nat (nHeight b)" arbitrary: p b rule: less_induct)
  case less
  show ?case
  proof (cases "height < nHeight b")
    case True
    then have pos: "0 < nHeight b" using assms(3) by simp
    let ?s = "GetSkipHeight (nHeight b)"
    note s = GetSkipHeight_nonneg [of "nHeight b"] GetSkipHeight_less [OF pos]
    obtain r c where r: "prev_n h (nat (nHeight b - ?s)) p = Some r" "h r = Some c" "nHeight c = ?s"
      using back_total [OF assms(1) less.prems(1), of "nat (nHeight b - ?s)"] s by auto
    obtain q d where q: "pprev b = Some q" "h q = Some d" "nHeight d = nHeight b - 1"
      using pprev_exists [OF assms(1) less.prems(1) pos] by blast
    have skip: "GetAncestor_loop h height (pskip b) ?s = Some (prev_n h (nat (nHeight b - height)) p)" if "height \<le> ?s"
    proof -
      have "GetAncestor_loop h height (Some r) ?s = Some (prev_n h (nat (?s - height)) r)"
        using less.hyps [of c r] r s that by simp
      moreover have "nat (nHeight b - height) = nat (nHeight b - ?s) + nat (?s - height)"
        using that s by simp
      ultimately show ?thesis
        using pskip_eq [OF assms(1) less.prems(1) pos] r(1) by (simp add: back_add)
    qed
    have prev: "GetAncestor_loop h height (pprev b) (nHeight b - 1) = Some (prev_n h (nat (nHeight b - height)) p)"
    proof -
      have "GetAncestor_loop h height (Some q) (nHeight b - 1) = Some (prev_n h (nat (nHeight b - 1 - height)) q)"
        using less.hyps [of d q] q True pos by simp
      moreover have "nat (nHeight b - height) = Suc (nat (nHeight b - 1 - height))"
        using True by simp
      ultimately show ?thesis
        using q(1) less.prems(1) by simp
    qed
    show ?thesis
      using True skip prev less.prems(1)
      by (subst GetAncestor_loop.simps) (auto simp: Let_def deref_def)
  next
    case False
    then show ?thesis
      using less.prems(2) by (subst GetAncestor_loop.simps) simp
  qed
qed

lemma GetAncestor_back:
  assumes "index_ok h" and "h p = Some b"
  shows "GetAncestor h p height =
    Some (if 0 \<le> height \<and> height \<le> nHeight b then prev_n h (nat (nHeight b - height)) p else None)"
  using GetAncestor_loop_back [OF assms, of height] assms by (auto simp: GetAncestor_def)

lemma prev_n_height:
  assumes "index_ok h" and "h p = Some b" and "prev_n h n p = Some q"
  shows "\<exists>c. h q = Some c \<and> nHeight c = nHeight b - int n \<and> int n \<le> nHeight b"
  using back_total [OF assms(1,2), of n] back_beyond [OF assms(1,2), of n] assms(3) by (cases "int n \<le> nHeight b") auto

lemma prev_n_diff: "prev_n h n p = Some r \<Longrightarrow> prev_n h m p = Some q \<Longrightarrow> n \<le> m \<Longrightarrow> prev_n h (m - n) r = Some q"
  using back_add [of h n "m - n" p] by simp

lemma self_ancestor [simp]: "p \<in> ancestors h p"
  by (auto simp: ancestors_def intro: exI [of _ 0])

lemma ancestors_trans: "q \<in> ancestors h p \<Longrightarrow> ancestors h q \<subseteq> ancestors h p"
  by (auto simp: ancestors_def) (metis back_add Option.bind.bind_lunit)

lemma ancestors_pprev:
  assumes "h p = Some b"
  shows "ancestors h p = insert p (case pprev b of None \<Rightarrow> {} | Some q \<Rightarrow> ancestors h q)"
proof -
  have "(\<exists>n. prev_n h n p = Some x) \<longleftrightarrow> x = p \<or> (\<exists>n. Option.bind (pprev b) (prev_n h n) = Some x)" for x
  proof
    assume "\<exists>n. prev_n h n p = Some x"
    then obtain n where "prev_n h n p = Some x" ..
    then show "x = p \<or> (\<exists>n. Option.bind (pprev b) (prev_n h n) = Some x)"
      using assms by (cases n) auto
  next
    assume "x = p \<or> (\<exists>n. Option.bind (pprev b) (prev_n h n) = Some x)"
    then show "\<exists>n. prev_n h n p = Some x"
      using assms by (metis Option.bind.bind_lunit prev_n.simps)
  qed
  then show ?thesis
    by (auto simp: ancestors_def split: option.splits)
qed

lemma ancestors_below:
  assumes "index_ok h" and "h p = Some b" and "prev_n h n p = Some r"
  shows "ancestors h r = {q \<in> ancestors h p. \<exists>c. h q = Some c \<and> nHeight c \<le> nHeight b - int n}"
proof (intro set_eqI iffI)
  fix q
  assume "q \<in> ancestors h r"
  then obtain m where "prev_n h m r = Some q"
    by (auto simp: ancestors_def)
  with assms(3) have "prev_n h (n + m) p = Some q"
    by (simp add: back_add)
  with prev_n_height [OF assms(1,2) this] show "q \<in> {q \<in> ancestors h p. \<exists>c. h q = Some c \<and> nHeight c \<le> nHeight b - int n}"
    by (auto simp: ancestors_def)
next
  fix q
  assume "q \<in> {q \<in> ancestors h p. \<exists>c. h q = Some c \<and> nHeight c \<le> nHeight b - int n}"
  then obtain m c where m: "prev_n h m p = Some q" "h q = Some c" "nHeight c \<le> nHeight b - int n"
    by (auto simp: ancestors_def)
  with prev_n_height [OF assms(1,2) m(1)] have "n \<le> m"
    by auto
  from prev_n_diff [OF assms(3) m(1) this] show "q \<in> ancestors h r"
    by (auto simp: ancestors_def)
qed

lemma LastCommonAncestor_loop_ok:
  assumes "index_ok h"
  shows "h pa = Some a \<Longrightarrow> h pb = Some b \<Longrightarrow> nHeight a = nHeight b \<Longrightarrow>
    \<exists>r. LastCommonAncestor_loop h (Some pa) (Some pb) = Some (r, r) \<and>
      ancestors h pa \<inter> ancestors h pb = (case r of None \<Rightarrow> {} | Some q \<Rightarrow> ancestors h q)"
proof (induction "nat (nHeight a)" arbitrary: pa pb a b rule: less_induct)
  case less
  show ?case
  proof (cases "pa = pb")
    case True
    then show ?thesis
      by (subst LastCommonAncestor_loop.simps) simp
  next
    case False
    have np: "pa \<notin> ancestors h pb" "pb \<notin> ancestors h pa"
      using prev_n_height [OF assms less.prems(2)] prev_n_height [OF assms less.prems(1)] less.prems False
      by (fastforce simp: ancestors_def)+
    show ?thesis
    proof (cases "nHeight a = 0")
      case True
      then have "pprev a = None" "pprev b = None"
        using pprev_None_height [OF assms] less.prems by auto
      then show ?thesis
        using less.prems False ancestors_pprev [of h pa a] ancestors_pprev [of h pb b]
        by (subst LastCommonAncestor_loop.simps) (simp add: deref_def LastCommonAncestor_loop.simps [of h None])
    next
      case nz: False
      then have pos: "0 < nHeight a" "0 < nHeight b"
        using height_nonneg [OF assms less.prems(1)] less.prems(3) by auto
      obtain qa ca where qa: "pprev a = Some qa" "h qa = Some ca" "nHeight ca = nHeight a - 1"
        using pprev_exists [OF assms less.prems(1) pos(1)] by blast
      obtain qb cb where qb: "pprev b = Some qb" "h qb = Some cb" "nHeight cb = nHeight b - 1"
        using pprev_exists [OF assms less.prems(2) pos(2)] by blast
      obtain r where "LastCommonAncestor_loop h (Some qa) (Some qb) = Some (r, r)"
        and "ancestors h qa \<inter> ancestors h qb = (case r of None \<Rightarrow> {} | Some q \<Rightarrow> ancestors h q)"
        using less.hyps [of ca qa qb cb] qa qb less.prems(3) pos by auto
      moreover have "ancestors h pa \<inter> ancestors h pb = ancestors h qa \<inter> ancestors h qb"
        using ancestors_pprev [of h pa, OF less.prems(1)] ancestors_pprev [of h pb, OF less.prems(2)] qa(1) qb(1) np False by auto
      ultimately show ?thesis
        using less.prems False qa(1) qb(1) by (subst LastCommonAncestor_loop.simps) (simp add: deref_def)
    qed
  qed
qed

lemma LastCommonAncestor_ok:
  assumes "index_ok h" and "h pa = Some a" and "h pb = Some b"
  shows "\<exists>r. LastCommonAncestor h pa pb = Some r \<and>
    ancestors h pa \<inter> ancestors h pb = (case r of None \<Rightarrow> {} | Some q \<Rightarrow> ancestors h q)"
proof -
  let ?m = "min (nHeight a) (nHeight b)"
  have nn: "0 \<le> nHeight a" "0 \<le> nHeight b"
    using height_nonneg [OF assms(1)] assms by auto
  obtain qa ca where qa: "prev_n h (nat (nHeight a - ?m)) pa = Some qa" "h qa = Some ca" "nHeight ca = ?m"
    using back_total [OF assms(1,2), of "nat (nHeight a - ?m)"] nn by auto
  obtain qb cb where qb: "prev_n h (nat (nHeight b - ?m)) pb = Some qb" "h qb = Some cb" "nHeight cb = ?m"
    using back_total [OF assms(1,3), of "nat (nHeight b - ?m)"] nn by auto
  obtain r where r: "LastCommonAncestor_loop h (Some qa) (Some qb) = Some (r, r)"
    "ancestors h qa \<inter> ancestors h qb = (case r of None \<Rightarrow> {} | Some q \<Rightarrow> ancestors h q)"
    using LastCommonAncestor_loop_ok [OF assms(1) qa(2) qb(2)] qa(3) qb(3) by auto
  have "ancestors h pa \<inter> ancestors h pb = ancestors h qa \<inter> ancestors h qb"
    unfolding ancestors_below [OF assms(1,2) qa(1)] ancestors_below [OF assms(1,3) qb(1)]
    using prev_n_height [OF assms(1,2)] prev_n_height [OF assms(1,3)] nn by (fastforce simp: ancestors_def)
  moreover have "LastCommonAncestor h pa pb = Some r"
    using qa(1) qb(1) r(1) assms nn
    by (auto simp: LastCommonAncestor_def GetAncestor_back [OF assms(1)] min_def split: if_splits)
  ultimately show ?thesis
    using r(2) by simp
qed

section \<open>The active chain is a branch of the tree\<close>

definition chain_ok :: "heap \<Rightarrow> CChain \<Rightarrow> bool" where
  "chain_ok h c \<longleftrightarrow> (\<forall>i < length c. \<exists>p b. c ! i = Some p \<and> h p = Some b \<and> nHeight b = int i \<and>
     pprev b = (if i = 0 then None else c ! (i - 1)))"

definition chain_set :: "CChain \<Rightarrow> ptr set" where
  "chain_set c = {p. Some p \<in> set c}"

lemma chain_okE:
  assumes "chain_ok h c" and "i < length c"
  obtains p b where "c ! i = Some p" and "h p = Some b" and "nHeight b = int i"
    and "pprev b = (if i = 0 then None else c ! (i - 1))"
  using assms by (auto simp: chain_ok_def)

lemma chain_ok_Some: "chain_ok h c \<Longrightarrow> i < length c \<Longrightarrow> \<exists>p. c ! i = Some p"
  by (auto simp: chain_ok_def)

lemma chain_setI: "i < length c \<Longrightarrow> c ! i = Some p \<Longrightarrow> p \<in> chain_set c"
  unfolding chain_set_def by (metis mem_Collect_eq nth_mem)

lemma chain_entry:
  assumes "chain_ok h c" and "p \<in> chain_set c"
  obtains b where "h p = Some b" and "0 \<le> nHeight b" and "nHeight b < int (length c)" and "c ! nat (nHeight b) = Some p"
proof -
  obtain i where i: "i < length c" "c ! i = Some p"
    using assms(2) by (auto simp: chain_set_def in_set_conv_nth)
  with chain_okE [OF assms(1) i(1)] that show thesis
    by force
qed

lemma Contains_iff:
  assumes "chain_ok h c" and "h p = Some b"
  shows "Contains h c p = Some (p \<in> chain_set c)"
proof -
  have "chain_at c (nHeight b) = Some p \<longleftrightarrow> p \<in> chain_set c"
  proof
    assume "chain_at c (nHeight b) = Some p"
    then have "\<not> (nHeight b < 0 \<or> int (length c) \<le> nHeight b)" and "c ! nat (nHeight b) = Some p"
      by (simp_all add: chain_at_def split: if_splits)
    moreover from this(1) have "nat (nHeight b) < length c"
      by linarith
    ultimately have "nat (nHeight b) < length c" and "c ! nat (nHeight b) = Some p"
      by simp_all
    then show "p \<in> chain_set c"
      by (rule chain_setI)
  next
    assume "p \<in> chain_set c"
    then obtain b' where "h p = Some b'" "0 \<le> nHeight b'" "nHeight b' < int (length c)" "c ! nat (nHeight b') = Some p"
      by (rule chain_entry [OF assms(1)])
    then show "chain_at c (nHeight b) = Some p"
      using assms(2) by (simp add: chain_at_def)
  qed
  then show ?thesis
    using assms(2) by (simp add: Contains_def)
qed

lemma chain_prev_n:
  assumes "chain_ok h c" and "i < length c" and "c ! i = Some p"
  shows "n \<le> i \<Longrightarrow> prev_n h n p = c ! (i - n)"
  using assms(2,3)
proof (induction n arbitrary: i p)
  case (Suc n)
  obtain b where b: "h p = Some b" "pprev b = c ! (i - 1)"
    using chain_okE [OF assms(1) Suc.prems(2)] Suc.prems(1,3) by (auto split: if_splits)
  obtain q where q: "c ! (i - 1) = Some q"
    using chain_ok_Some [OF assms(1), of "i - 1"] Suc.prems(2) by force
  have "prev_n h n q = c ! (i - 1 - n)"
    using Suc.IH [of "i - 1" q] Suc.prems q by simp
  then show ?case
    using b q by simp
qed simp

lemma chain_set_closed:
  assumes "index_ok h" and "chain_ok h c" and "p \<in> chain_set c"
  shows "ancestors h p \<subseteq> chain_set c"
proof
  fix q
  assume "q \<in> ancestors h p"
  then obtain n where n: "prev_n h n p = Some q"
    by (auto simp: ancestors_def)
  obtain b where b: "h p = Some b" "0 \<le> nHeight b" "nHeight b < int (length c)" "c ! nat (nHeight b) = Some p"
    using chain_entry [OF assms(2,3)] by blast
  have "int n \<le> nHeight b"
    using prev_n_height [OF assms(1) b(1) n] by auto
  then have "c ! (nat (nHeight b) - n) = Some q"
    using chain_prev_n [OF assms(2) _ b(4), of n] n b by simp
  moreover have "nat (nHeight b) - n < length c"
    using b by linarith
  ultimately show "q \<in> chain_set c"
    by (rule chain_setI [rotated])
qed

lemma FindFork_loop_ok:
  assumes "index_ok h" and "chain_ok h c"
  shows "h p = Some b \<Longrightarrow> \<exists>r. FindFork_loop h c (Some p) = Some r \<and>
    ancestors h p \<inter> chain_set c = (case r of None \<Rightarrow> {} | Some q \<Rightarrow> ancestors h q)"
proof (induction "nat (nHeight b)" arbitrary: p b rule: less_induct)
  case less
  note con = Contains_iff [OF assms(2) less.prems]
  show ?case
  proof (cases "p \<in> chain_set c")
    case True
    then show ?thesis
      using chain_set_closed [OF assms True] con by (subst FindFork_loop.simps) auto
  next
    case False
    show ?thesis
    proof (cases "pprev b")
      case None
      then show ?thesis
        using False con less.prems ancestors_pprev [of h p, OF less.prems]
        by (subst FindFork_loop.simps) (simp add: FindFork_loop.simps [of h c None])
    next
      case (Some q)
      obtain d where d: "h q = Some d" "nHeight d = nHeight b - 1"
        using pprev_entry [OF assms(1) less.prems Some] by blast
      then obtain r where "FindFork_loop h c (Some q) = Some r"
        "ancestors h q \<inter> chain_set c = (case r of None \<Rightarrow> {} | Some q \<Rightarrow> ancestors h q)"
        using less.hyps [of d q] height_nonneg [OF assms(1) d(1)] by auto
      then show ?thesis
        using False con less.prems Some ancestors_pprev [of h p, OF less.prems]
        by (subst FindFork_loop.simps) auto
    qed
  qed
qed

lemma FindFork_ok:
  assumes "index_ok h" and "chain_ok h c" and "h p = Some b"
  shows "\<exists>r. FindFork h c (Some p) = Some r \<and>
    ancestors h p \<inter> chain_set c = (case r of None \<Rightarrow> {} | Some q \<Rightarrow> ancestors h q)"
proof (cases "nHeight b > Height c")
  case False
  then show ?thesis
    using FindFork_loop_ok [OF assms] assms(3) by (simp add: FindFork_def)
next
  case True
  show ?thesis
  proof (cases "c = []")
    case True
    then have "FindFork h c (Some p) = Some None"
      using assms(3) height_nonneg [OF assms(1,3)]
      by (simp add: FindFork_def Height_def GetAncestor_back [OF assms(1,3)] FindFork_loop.simps)
    then show ?thesis
      using True by (simp add: chain_set_def)
  next
    case ne: False
    then have "0 \<le> Height c"
      by (cases c) (simp_all add: Height_def)
    then obtain q d where q: "prev_n h (nat (nHeight b - Height c)) p = Some q" "h q = Some d" "nHeight d = Height c"
      using back_total [OF assms(1,3), of "nat (nHeight b - Height c)"] True by auto
    have "x \<in> ancestors h q" if x: "x \<in> ancestors h p" "x \<in> chain_set c" for x
    proof -
      obtain e where "h x = Some e" "nHeight e < int (length c)"
        by (rule chain_entry [OF assms(2) x(2)])
      then show ?thesis
        unfolding ancestors_below [OF assms(1,3) q(1)] using x(1) True by (simp add: Height_def)
    qed
    moreover have "q \<in> ancestors h p"
      unfolding ancestors_def using q(1) by blast
    ultimately have "ancestors h p \<inter> chain_set c = ancestors h q \<inter> chain_set c"
      using ancestors_trans [of q h p] by blast
    then show ?thesis
      using FindFork_loop_ok [OF assms(1,2) q(2)] True \<open>0 \<le> Height c\<close> assms(3) q(1)
      by (simp add: FindFork_def GetAncestor_back [OF assms(1,3)])
  qed
qed

subsection \<open>Setting the tip\<close>

text \<open>The branch that ends in an entry, from its root.\<close>

definition branch :: "heap \<Rightarrow> ptr \<Rightarrow> nat \<Rightarrow> CChain" where
  "branch h p n = map (\<lambda>i. prev_n h (n - i) p) [0..<Suc n]"

lemma length_branch [simp]: "length (branch h p n) = Suc n"
  by (simp add: branch_def)

lemma branch_nth: "i \<le> n \<Longrightarrow> branch h p n ! i = prev_n h (n - i) p"
  by (simp add: branch_def del: upt_Suc)

lemma branch_chain_ok:
  assumes "index_ok h" and "h p = Some b" and "nHeight b = int n"
  shows "chain_ok h (branch h p n)"
proof -
  have "\<exists>q d. branch h p n ! i = Some q \<and> h q = Some d \<and> nHeight d = int i \<and>
      pprev d = (if i = 0 then None else branch h p n ! (i - 1))" if "i < Suc n" for i
  proof -
    have "int n - int (n - i) = int i" and "int (n - i) \<le> nHeight b"
      using that assms(3) by simp_all
    then obtain q d where q: "prev_n h (n - i) p = Some q" "h q = Some d" "nHeight d = int i"
      using back_total [OF assms(1,2), of "n - i"] assms(3) by auto
    have "pprev d = (if i = 0 then None else prev_n h (n - (i - 1)) p)"
    proof (cases i)
      case 0
      then show ?thesis using pprev_None_height [OF assms(1) q(2)] q(3) by simp
    next
      case (Suc j)
      then have "n - j = (n - i) + 1"
        using that by simp
      then have "prev_n h (n - j) p = Option.bind (prev_n h (n - i) p) (prev_n h 1)"
        by (simp only: back_add)
      then show ?thesis
        using q Suc by simp
    qed
    then show ?thesis
      using q that by (auto simp: branch_nth)
  qed
  then show ?thesis
    by (simp add: chain_ok_def)
qed

lemma vector_resize_nth: "i < n \<Longrightarrow> vector_resize v n ! i = (if i < length v then v ! i else None)"
  by (simp add: vector_resize_def nth_append)

lemma length_vector_resize [simp]: "length (vector_resize v n) = n"
  by (simp add: vector_resize_def)

lemma SetTip_loop_ok:
  assumes ok: "index_ok h" "chain_ok h c" and p: "h p = Some b" "nHeight b = int n"
  shows "k \<le> n \<Longrightarrow> prev_n h (n - k) p = Some x \<Longrightarrow>
    SetTip_loop h (take (Suc k) (vector_resize c (Suc n)) @ drop (Suc k) (branch h p n)) (Some x) = Some (branch h p n)"
proof (induction k arbitrary: x)
  let ?v = "vector_resize c (Suc n)" and ?T = "branch h p n"
  have body: "SetTip_loop h (take (Suc k) ?v @ drop (Suc k) ?T) (Some x) = Some ?T"
    if k: "k \<le> n" "prev_n h (n - k) p = Some x"
      and rec: "\<And>d. h x = Some d \<Longrightarrow> SetTip_loop h (take k ?v @ drop k ?T) (pprev d) = Some ?T" for k x
  proof -
    obtain d where d: "h x = Some d" "nHeight d = int k"
      using prev_n_height [OF ok(1) p(1) k(2)] k(1) p(2) by auto
    have nth: "(take (Suc k) ?v @ drop (Suc k) ?T) ! k = ?v ! k"
      using k(1) by (simp add: nth_append)
    show ?thesis
    proof (cases "?v ! k = Some x")
      case True
      then have c: "k < length c" "c ! k = Some x"
        using vector_resize_nth [of k "Suc n" c] k(1) by (auto split: if_splits)
      have "?v ! i = ?T ! i" if "i \<le> k" for i
      proof -
        have "prev_n h (n - i) p = prev_n h ((n - k) + (k - i)) p"
          using that k(1) by simp
        also have "\<dots> = prev_n h (k - i) x"
          using k(2) by (simp only: back_add) simp
        also have "\<dots> = c ! i"
          using chain_prev_n [OF ok(2) c, of "k - i"] that by simp
        finally show ?thesis
          using that k(1) c(1) by (simp add: vector_resize_nth branch_nth)
      qed
      then have "take (Suc k) ?v = take (Suc k) ?T"
        using k(1) by (intro nth_equalityI) simp_all
      then show ?thesis
        using d nth True k(1) by (subst SetTip_loop.simps) simp
    next
      case False
      have "(take (Suc k) ?v @ drop (Suc k) ?T)[k := Some x] = take k ?v @ drop k ?T"
        using k by (intro nth_equalityI) (auto simp: nth_append nth_list_update branch_nth min_def)
      then show ?thesis
        using d nth False k(1) rec [OF d(1)] by (subst SetTip_loop.simps) simp
    qed
  qed
  {
    case 0
    show ?case
    proof (rule body [OF 0])
      fix d assume "h x = Some d"
      then have "pprev d = None"
        using prev_n_height [OF ok(1) p(1) 0(2)] pprev_None_height [OF ok(1)] p(2) by auto
      then show "SetTip_loop h (take 0 ?v @ drop 0 ?T) (pprev d) = Some ?T"
        by (simp add: SetTip_loop.simps)
    qed
  next
    case (Suc k)
    show ?case
    proof (rule body [OF Suc.prems])
      fix d assume d: "h x = Some d"
      then have "nHeight d = int (Suc k)"
        using prev_n_height [OF ok(1) p(1) Suc.prems(2)] Suc.prems(1) p(2) by auto
      then obtain q where q: "pprev d = Some q"
        using pprev_exists [OF ok(1) d] by auto
      have "n - k = (n - Suc k) + 1"
        using Suc.prems(1) by simp
      then have "prev_n h (n - k) p = Some q"
        using Suc.prems(2) d q by (simp only: back_add) simp
      then show "SetTip_loop h (take (Suc k) ?v @ drop (Suc k) ?T) (pprev d) = Some ?T"
        using Suc.IH [of q] Suc.prems(1) q by simp
    qed
  }
qed

lemma SetTip_ok:
  assumes "index_ok h" and "chain_ok h c" and "h p = Some b"
  shows "SetTip h c (Some p) = Some (branch h p (nat (nHeight b)))"
proof -
  have n: "nHeight b = int (nat (nHeight b))" "nat (nHeight b + 1) = Suc (nat (nHeight b))"
    using height_nonneg [OF assms(1,3)] by auto
  show ?thesis
    using SetTip_loop_ok [OF assms n(1), of "nat (nHeight b)" p] assms(3) n(2) by (simp add: SetTip_def)
qed

subsection \<open>Locators\<close>

definition height_of :: "heap \<Rightarrow> ptr \<Rightarrow> int" where
  "height_of h p = (case h p of None \<Rightarrow> - 1 | Some b \<Rightarrow> nHeight b)"

definition hash_of :: "heap \<Rightarrow> ptr \<Rightarrow> bytes option" where
  "hash_of h p = Option.bind (h p) phashBlock"

definition hashed :: "heap \<Rightarrow> bool" where
  "hashed h \<longleftrightarrow> (\<forall>p b. h p = Some b \<longrightarrow> phashBlock b \<noteq> None)"

text \<open>The number of entries: ten single steps, then steps that double.\<close>

definition locator_bound :: "nat \<Rightarrow> nat \<Rightarrow> int \<Rightarrow> int \<Rightarrow> bool" where
  "locator_bound L K s height \<longleftrightarrow> L \<le> K + 1 \<or> s * (2 ^ (L - K - 2) - 1) < height"

lemma locator_bound_step:
  assumes "locator_bound L K' s' height'" and "1 \<le> s" and "0 < height" and "height' = max (height - s) 0"
    and "K = Suc K' \<and> s' = s \<or> K = 0 \<and> K' = 0 \<and> s' = s * 2" and "height' = 0 \<longrightarrow> L = 1"
  shows "locator_bound (Suc L) K s height"
proof (cases "height' = 0")
  case True
  then have "Suc L = 2"
    using assms(6) by simp
  then have "Suc L - K - 2 = 0"
    by simp
  then show ?thesis
    using assms(3) unfolding locator_bound_def by simp
next
  case False
  then have h: "height' = height - s"
    using assms(4) by (simp add: max_def split: if_splits)
  show ?thesis
  proof (cases "L \<le> K' + 1")
    case True
    then have "Suc L - K - 2 = 0"
      using assms(5) by auto
    then show ?thesis
      using assms(3) unfolding locator_bound_def by simp
  next
    case gt: False
    then have b: "s' * (2 ^ (L - K' - 2) - 1) < height - s"
      using assms(1) h by (simp add: locator_bound_def)
    from assms(5) show ?thesis
    proof
      assume K: "K = Suc K' \<and> s' = s"
      then have "Suc L - K - 2 = L - K' - 2"
        by simp
      then show ?thesis
        using b K assms(2) unfolding locator_bound_def by simp
    next
      assume K: "K = 0 \<and> K' = 0 \<and> s' = s * 2"
      then have "Suc L - K - 2 = Suc (L - K' - 2)"
        using gt by simp
      then have "s * (2 ^ (Suc L - K - 2) - 1) = s' * (2 ^ (L - K' - 2) - 1) + s"
        using K by (simp add: algebra_simps)
      then show ?thesis
        using b unfolding locator_bound_def by simp
    qed
  qed
qed

lemma GetLocator_next:
  assumes "index_ok h" and "chain_ok h c" and "h p = Some b" and "0 \<le> k" and "k \<le> nHeight b"
  shows "Option.bind (Contains h c p) (\<lambda>m. Option.bind (if m then Some (chain_at c k) else GetAncestor h p k) f) =
    f (prev_n h (nat (nHeight b - k)) p)"
proof (cases "p \<in> chain_set c")
  case True
  then obtain b' where "h p = Some b'" "0 \<le> nHeight b'" "nHeight b' < int (length c)" "c ! nat (nHeight b') = Some p"
    by (rule chain_entry [OF assms(2)])
  then have b': "nHeight b < int (length c)" "c ! nat (nHeight b) = Some p"
    using assms(3) by simp_all
  have "prev_n h (nat (nHeight b - k)) p = c ! (nat (nHeight b) - nat (nHeight b - k))"
    using chain_prev_n [OF assms(2) _ b'(2), of "nat (nHeight b - k)"] b'(1) assms(4,5) by simp
  moreover have "nat (nHeight b) - nat (nHeight b - k) = nat k"
    using assms(4,5) by simp
  ultimately have "chain_at c k = prev_n h (nat (nHeight b - k)) p"
    using assms(4,5) b'(1) by (simp add: chain_at_def)
  then show ?thesis
    using True by (simp add: Contains_iff [OF assms(2,3)])
next
  case False
  then show ?thesis
    using assms(4,5) by (simp add: Contains_iff [OF assms(2,3)] GetAncestor_back [OF assms(1,3)])
qed

lemma GetLocator_loop_ok:
  assumes "index_ok h" and "chain_ok h c" and "hashed h"
  shows "h p = Some b \<Longrightarrow> 1 \<le> s \<Longrightarrow>
    \<exists>qs hs. GetLocator_loop h c (Some p) s have = Some (have @ hs) \<and> map Some hs = map (hash_of h) qs \<and>
      qs \<noteq> [] \<and> hd qs = p \<and> set qs \<subseteq> ancestors h p \<and> sorted_wrt (\<lambda>x y. height_of h y < height_of h x) qs \<and>
      height_of h (last qs) = 0 \<and> locator_bound (length qs) (10 - length have) s (nHeight b) \<and>
      (nHeight b = 0 \<longrightarrow> length qs = 1)"
proof (induction "nat (nHeight b)" arbitrary: p b s "have" rule: less_induct)
  case less
  obtain hash where hash: "phashBlock b = Some hash"
    using assms(3) less.prems(1) by (auto simp: hashed_def)
  show ?case
  proof (cases "nHeight b = 0")
    case True
    then show ?thesis
      using less.prems hash
      by (subst GetLocator_loop.simps)
        (auto simp: Let_def hash_of_def height_of_def locator_bound_def intro!: exI [of _ "[p]"] exI [of _ "[hash]"])
  next
    case False
    let ?k = "max (nHeight b - s) 0" and ?s = "if length (have @ [hash]) > 10 then s * 2 else s"
    have k: "0 \<le> ?k" "?k < nHeight b"
      using height_nonneg [OF assms(1) less.prems(1)] False less.prems(2) by auto
    obtain q d where q: "prev_n h (nat (nHeight b - ?k)) p = Some q" "h q = Some d" "nHeight d = ?k"
      using back_total [OF assms(1) less.prems(1), of "nat (nHeight b - ?k)"] k by auto
    have st: "1 \<le> ?s" and lt: "nat (nHeight d) < nat (nHeight b)"
      using less.prems(2) q(3) k by auto
    obtain qs hs where IH: "GetLocator_loop h c (Some q) ?s (have @ [hash]) = Some ((have @ [hash]) @ hs)"
      "map Some hs = map (hash_of h) qs" "qs \<noteq> []" "hd qs = q" "set qs \<subseteq> ancestors h q"
      "sorted_wrt (\<lambda>x y. height_of h y < height_of h x) qs" "height_of h (last qs) = 0"
      "locator_bound (length qs) (10 - length (have @ [hash])) ?s ?k" "?k = 0 \<longrightarrow> length qs = 1"
      using less.hyps [OF lt q(2) st, of "have @ [hash]"] unfolding q(3) by blast
    have loop: "GetLocator_loop h c (Some p) s have = GetLocator_loop h c (Some q) ?s (have @ [hash])"
      using less.prems(1) hash False q(1) GetLocator_next [OF assms(1,2) less.prems(1) k(1) less_imp_le [OF k(2)],
          of "\<lambda>next. GetLocator_loop h c next ?s (have @ [hash])"]
      by (subst GetLocator_loop.simps) (simp add: Let_def split del: if_split)
    have "q \<in> ancestors h p"
      unfolding ancestors_def using q(1) by blast
    then have anc: "set qs \<subseteq> ancestors h p"
      using IH(5) ancestors_trans [of q h p] by blast
    have below: "height_of h x < height_of h p" if "x \<in> set qs" for x
    proof -
      have "x \<in> ancestors h q" using IH(5) that by blast
      then obtain n where "prev_n h n q = Some x" by (auto simp: ancestors_def)
      from prev_n_height [OF assms(1) q(2) this] q(3) k less.prems(1) show ?thesis
        by (auto simp: height_of_def)
    qed
    have "locator_bound (Suc (length qs)) (10 - length have) s (nHeight b)"
      by (rule locator_bound_step [OF IH(8) less.prems(2)])
        (use k IH(9) in \<open>auto simp: Suc_diff_le numeral_eq_Suc\<close>)
    then show ?thesis
      using IH loop anc below less.prems(1) hash False
      by (intro exI [of _ "p # qs"] exI [of _ "hash # hs"]) (auto simp: hash_of_def)
  qed
qed

lemma GetLocator_ok:
  assumes "index_ok h" and "chain_ok h c" and "hashed h" and "h p = Some b"
  shows "\<exists>qs hs. GetLocator h c (Some p) = Some \<lparr>vHave = hs\<rparr> \<and> map Some hs = map (hash_of h) qs \<and>
      qs \<noteq> [] \<and> hd qs = p \<and> set qs \<subseteq> ancestors h p \<and> sorted_wrt (\<lambda>x y. height_of h y < height_of h x) qs \<and>
      height_of h (last qs) = 0 \<and> (length hs \<le> 11 \<or> 2 ^ (length hs - 12) \<le> nHeight b)"
proof -
  obtain qs hs where l: "GetLocator_loop h c (Some p) 1 [] = Some ([] @ hs)" "map Some hs = map (hash_of h) qs"
      "qs \<noteq> []" "hd qs = p" "set qs \<subseteq> ancestors h p" "sorted_wrt (\<lambda>x y. height_of h y < height_of h x) qs"
      "height_of h (last qs) = 0" "locator_bound (length qs) (10 - length ([] :: bytes list)) 1 (nHeight b)"
    using GetLocator_loop_ok [OF assms, of 1 "[]"] by auto
  have "length hs = length qs"
    using l(2) by (metis length_map)
  then have "length hs \<le> 11 \<or> 2 ^ (length hs - 12) \<le> nHeight b"
    using l(8) by (auto simp: locator_bound_def)
  then show ?thesis
    using l by (intro exI [of _ qs] exI [of _ hs]) (simp add: GetLocator_def)
qed

section \<open>A sample index\<close>

text \<open>A chain of \<open>n\<close> blocks at one-minute intervals, with the skip pointers that \<^verbatim>\<open>BuildSkip\<close> sets.\<close>

definition sample_entry :: "nat \<Rightarrow> CBlockIndex" where
  "sample_entry p = CBlockIndex_default\<lparr>phashBlock := Some [of_nat p], nHeight := int p,
     pprev := (if p = 0 then None else Some (p - 1)),
     pskip := (if p = 0 then None else Some (nat (GetSkipHeight (int p)))),
     bi_nTime := 1600000000 + 60 * p, bi_nBits := 0x1e0fffff\<rparr>"

definition sample_index :: "nat \<Rightarrow> heap" where
  "sample_index n = (\<lambda>p. if p < n then Some (sample_entry p) else None)"

lemma sample_height [simp]: "nHeight (sample_entry p) = int p"
  by (simp add: sample_entry_def)

lemma sample_pprev [simp]: "pprev (sample_entry p) = (if p = 0 then None else Some (p - 1))"
  by (simp add: sample_entry_def)

lemma sample_pskip [simp]: "pskip (sample_entry p) = (if p = 0 then None else Some (nat (GetSkipHeight (int p))))"
  by (simp add: sample_entry_def)

lemma sample_index_Some [simp]: "sample_index n p = Some b \<longleftrightarrow> p < n \<and> b = sample_entry p"
  by (auto simp: sample_index_def)

lemma sample_prev_n: "p < n \<Longrightarrow> prev_n (sample_index n) k p = (if k \<le> p then Some (p - k) else None)"
proof (induction k arbitrary: p)
  case (Suc k)
  then have "Option.bind (sample_index n p) pprev = (if p = 0 then None else Some (p - 1))"
    by (simp add: sample_index_def)
  then show ?case
    using Suc.IH [of "p - 1"] Suc.prems by (cases p) (simp_all add: Option.bind_assoc [symmetric] del: Option.bind_assoc)
qed simp

lemma sample_index_ok: "index_ok (sample_index n)"
proof -
  have "entry_ok (sample_index n) p (sample_entry p)" if "p < n" for p
  proof (cases p)
    case (Suc q)
    have "nat (int p - GetSkipHeight (int p)) \<le> p" and "p - nat (int p - GetSkipHeight (int p)) = nat (GetSkipHeight (int p))"
      using GetSkipHeight_nonneg [of "int p"] GetSkipHeight_less [of "int p"] Suc by simp_all
    then have "prev_n (sample_index n) (nat (int p - GetSkipHeight (int p))) p = Some (nat (GetSkipHeight (int p)))"
      by (simp add: sample_prev_n [OF that])
    then show ?thesis
      using that Suc by (simp add: entry_ok_def)
  qed (simp add: entry_ok_def)
  then show ?thesis
    by (simp add: index_ok_def)
qed

lemma sample_hashed: "hashed (sample_index n)"
  by (simp add: hashed_def sample_entry_def)

lemma sample_chain_ok: "m \<le> n \<Longrightarrow> chain_ok (sample_index n) (map Some [0..<m])"
  by (auto simp: chain_ok_def)

text \<open>The same chain with a fork: entry \<open>p\<close> stands on entry \<open>q\<close>.\<close>

definition sample_fork :: "nat \<Rightarrow> ptr \<Rightarrow> nat \<Rightarrow> heap" where
  "sample_fork n p q = (sample_index n)(p \<mapsto> (sample_entry (Suc q))\<lparr>phashBlock := Some [of_nat p], pprev := Some q\<rparr>)"

lemma prev_n_extend:
  assumes "index_ok h" and "h p = None" and "h q = Some b"
  shows "prev_n (h(p \<mapsto> e)) k q = prev_n h k q"
  using assms(3)
proof (induction k arbitrary: q b)
  case (Suc k)
  have "q \<noteq> p"
    using Suc.prems assms(2) by auto
  show ?case
  proof (cases "pprev b")
    case None
    then show ?thesis
      using Suc.prems \<open>q \<noteq> p\<close> by simp
  next
    case (Some r)
    then obtain c where "h r = Some c"
      using pprev_entry [OF assms(1) Suc.prems] by blast
    from Suc.IH [OF this] show ?thesis
      using Suc.prems \<open>q \<noteq> p\<close> Some by simp
  qed
qed simp

lemma index_ok_extend:
  assumes "index_ok h" and "h p = None" and "0 \<le> nHeight e"
    and "case pprev e of None \<Rightarrow> nHeight e = 0
      | Some q \<Rightarrow> (\<exists>c. h q = Some c \<and> nHeight e = nHeight c + 1 \<and>
          pskip e = prev_n h (nat (nHeight c - GetSkipHeight (nHeight e))) q)"
  shows "index_ok (h(p \<mapsto> e))"
proof -
  let ?h = "h(p \<mapsto> e)"
  note ext = prev_n_extend [OF assms(1,2)]
  have old: "entry_ok ?h q b" if "h q = Some b" for q b
  proof -
    have ok: "entry_ok h q b" and "q \<noteq> p"
      using index_okD [OF assms(1) that] that assms(2) by auto
    then show ?thesis
      using ext [OF that] assms(2) by (auto simp: entry_ok_def split: option.splits)
  qed
  have new: "entry_ok ?h p e"
  proof (cases "pprev e")
    case None
    then show ?thesis
      using assms(3,4) by (simp add: entry_ok_def)
  next
    case (Some q)
    then obtain c where c: "h q = Some c" "nHeight e = nHeight c + 1"
      "pskip e = prev_n h (nat (nHeight c - GetSkipHeight (nHeight e))) q"
      using assms(4) by auto
    have "0 \<le> nHeight c" and "q \<noteq> p"
      using height_nonneg [OF assms(1) c(1)] c(1) assms(2) by auto
    then have "GetSkipHeight (nHeight e) < nHeight e"
      using GetSkipHeight_less [of "nHeight e"] c(2) by simp
    then have n: "nat (nHeight e - GetSkipHeight (nHeight e)) = Suc (nat (nHeight c - GetSkipHeight (nHeight e)))"
      using c(2) by simp
    have "pskip e = prev_n ?h (nat (nHeight e - GetSkipHeight (nHeight e))) p"
      using c(3) Some ext [OF c(1)] by (simp add: n)
    then show ?thesis
      using c Some assms(3) \<open>q \<noteq> p\<close> by (auto simp: entry_ok_def)
  qed
  show ?thesis
    unfolding index_ok_def using old new by (auto simp: fun_upd_apply split: if_splits)
qed

lemma sample_fork_ok: "q < n \<Longrightarrow> n \<le> p \<Longrightarrow> index_ok (sample_fork n p q)"
  unfolding sample_fork_def
proof (rule index_ok_extend [OF sample_index_ok])
  assume "q < n" "n \<le> p"
  let ?e = "(sample_entry (Suc q))\<lparr>phashBlock := Some [of_nat p], pprev := Some q\<rparr>"
  have "GetSkipHeight (int (Suc q)) \<le> int q" and "0 \<le> GetSkipHeight (int (Suc q))"
    using GetSkipHeight_less [of "int (Suc q)"] GetSkipHeight_nonneg by simp_all
  then have "nat (int q - GetSkipHeight (int (Suc q))) \<le> q"
    and "q - nat (int q - GetSkipHeight (int (Suc q))) = nat (GetSkipHeight (int (Suc q)))"
    by simp_all
  then have "prev_n (sample_index n) (nat (int q - GetSkipHeight (int (Suc q)))) q = Some (nat (GetSkipHeight (int (Suc q))))"
    by (simp add: sample_prev_n [OF \<open>q < n\<close>])
  then show "case pprev ?e of None \<Rightarrow> nHeight ?e = 0
      | Some r \<Rightarrow> \<exists>c. sample_index n r = Some c \<and> nHeight ?e = nHeight c + 1 \<and>
          pskip ?e = prev_n (sample_index n) (nat (nHeight c - GetSkipHeight (nHeight ?e))) r"
    using \<open>q < n\<close> by (simp add: sample_entry_def)
  show "sample_index n p = None"
    using \<open>n \<le> p\<close> by (simp add: sample_index_def)
qed (simp add: sample_entry_def)

section \<open>Correctness of the block index\<close>

lemma branch_set:
  assumes "index_ok h" and "h p = Some b"
  shows "chain_set (branch h p (nat (nHeight b))) = ancestors h p"
proof -
  let ?n = "nat (nHeight b)"
  have "(\<exists>i \<le> ?n. prev_n h (?n - i) p = Some x) \<longleftrightarrow> (\<exists>m. prev_n h m p = Some x)" for x
  proof
    assume "\<exists>m. prev_n h m p = Some x"
    then obtain m where m: "prev_n h m p = Some x" ..
    then have "m \<le> ?n"
      using prev_n_height [OF assms m] by auto
    then have "?n - (?n - m) = m" by simp
    with m show "\<exists>i \<le> ?n. prev_n h (?n - i) p = Some x"
      by (intro exI [of _ "?n - m"]) simp
  qed blast
  moreover have "Some x \<in> set (branch h p ?n) \<longleftrightarrow> (\<exists>i \<le> ?n. prev_n h (?n - i) p = Some x)" for x
    unfolding branch_def set_map set_upt by (auto simp: image_iff less_Suc_eq_le Bex_def eq_commute [of "Some x"])
  ultimately show ?thesis
    by (simp add: chain_set_def ancestors_def)
qed

text \<open>
  C11. \<^verbatim>\<open>GetAncestor\<close> on a well-formed block index returns for every entry and height, and never follows a null or dangling
  pointer: the walk over skip pointers ends at the entry that is reached by following \<^verbatim>\<open>pprev\<close> down to the height, and
  out of range the result is null.
\<close>

theorem GetAncestor_terminates:
  assumes "index_ok h" and "h p = Some b"
  shows "GetAncestor h p height =
      Some (if 0 \<le> height \<and> height \<le> nHeight b then prev_n h (nat (nHeight b - height)) p else None) \<and>
    (height < 0 \<or> nHeight b < height \<or>
       (\<exists>q c. GetAncestor h p height = Some (Some q) \<and> h q = Some c \<and> nHeight c = height \<and> q \<in> ancestors h p))"
proof -
  note g = GetAncestor_back [OF assms, of height]
  have "\<exists>q c. GetAncestor h p height = Some (Some q) \<and> h q = Some c \<and> nHeight c = height \<and> q \<in> ancestors h p"
    if "0 \<le> height" "height \<le> nHeight b"
    using back_total [OF assms, of "nat (nHeight b - height)"] that g by (auto simp: ancestors_def)
  then show ?thesis
    using g by (intro conjI) (simp, meson not_le)
qed

theorem GetAncestor_terminates_witness:
  "GetAncestor (sample_index 100) 99 (int 37) = Some (Some 37) \<and> GetAncestor (sample_index 100) 99 (- 1) = Some None"
  using GetAncestor_terminates [OF sample_index_ok, of 100 99 "sample_entry 99" "int 37"]
    GetAncestor_terminates [OF sample_index_ok, of 100 99 "sample_entry 99" "- 1"]
  by (simp add: sample_prev_n)

text \<open>
  C13. Fork points.  On a well-formed index \<^verbatim>\<open>LastCommonAncestor\<close> of two entries and \<^verbatim>\<open>FindFork\<close> of an entry and the active
  chain return, without failing an assertion, the entry whose ancestors are exactly the common ones, or null if there is
  none.
\<close>

theorem fork_points:
  assumes "index_ok h" and "chain_ok h c" and "h pa = Some a" and "h pb = Some b"
  shows "\<exists>r s. LastCommonAncestor h pa pb = Some r \<and>
      ancestors h pa \<inter> ancestors h pb = (case r of None \<Rightarrow> {} | Some q \<Rightarrow> ancestors h q) \<and>
    FindFork h c (Some pa) = Some s \<and>
      {q \<in> ancestors h pa. Contains h c q = Some True} = (case s of None \<Rightarrow> {} | Some q \<Rightarrow> ancestors h q)"
proof -
  obtain r where r: "LastCommonAncestor h pa pb = Some r"
    "ancestors h pa \<inter> ancestors h pb = (case r of None \<Rightarrow> {} | Some q \<Rightarrow> ancestors h q)"
    using LastCommonAncestor_ok [OF assms(1,3,4)] by blast
  obtain s where s: "FindFork h c (Some pa) = Some s"
    "ancestors h pa \<inter> chain_set c = (case s of None \<Rightarrow> {} | Some q \<Rightarrow> ancestors h q)"
    using FindFork_ok [OF assms(1-3)] by blast
  have "{q \<in> ancestors h pa. Contains h c q = Some True} = ancestors h pa \<inter> chain_set c"
  proof (intro set_eqI iffI)
    fix q
    assume q: "q \<in> {q \<in> ancestors h pa. Contains h c q = Some True}"
    then obtain e where "h q = Some e"
      by (auto simp: Contains_def)
    with Contains_iff [OF assms(2) this] q show "q \<in> ancestors h pa \<inter> chain_set c"
      by simp
  next
    fix q
    assume q: "q \<in> ancestors h pa \<inter> chain_set c"
    then obtain e where "h q = Some e"
      using chain_entry [OF assms(2), of q] by blast
    with Contains_iff [OF assms(2) this] q show "q \<in> {q \<in> ancestors h pa. Contains h c q = Some True}"
      by simp
  qed
  then show ?thesis
    using r s by auto
qed

theorem fork_points_witness:
  "\<exists>r s. LastCommonAncestor (sample_fork 9 20 5) 20 8 = Some r \<and>
      ancestors (sample_fork 9 20 5) 20 \<inter> ancestors (sample_fork 9 20 5) 8 =
        (case r of None \<Rightarrow> {} | Some q \<Rightarrow> ancestors (sample_fork 9 20 5) q) \<and>
    FindFork (sample_fork 9 20 5) [] (Some 20) = Some s \<and>
      {q \<in> ancestors (sample_fork 9 20 5) 20. Contains (sample_fork 9 20 5) [] q = Some True} =
        (case s of None \<Rightarrow> {} | Some q \<Rightarrow> ancestors (sample_fork 9 20 5) q)"
proof -
  have "\<exists>a. sample_fork 9 20 5 20 = Some a" "sample_fork 9 20 5 8 = Some (sample_entry 8)"
    by (simp_all add: sample_fork_def sample_index_def)
  then obtain a where "sample_fork 9 20 5 20 = Some a" "sample_fork 9 20 5 8 = Some (sample_entry 8)"
    by blast
  then show ?thesis
    by (intro fork_points [of "sample_fork 9 20 5" "[]"] sample_fork_ok) (simp_all add: chain_ok_def)
qed

text \<open>
  C12. \<^verbatim>\<open>SetTip\<close> turns the active chain, whatever branch it followed, into the branch that ends in the new tip: afterwards
  the chain holds exactly the tip and its ancestors, each at its height.
\<close>

theorem SetTip_branch:
  assumes "index_ok h" and "chain_ok h c" and "h p = Some b"
  shows "\<exists>c'. SetTip h c (Some p) = Some c' \<and> chain_ok h c' \<and> Tip h c' False = Some (Some p) \<and>
    Height c' = nHeight b \<and> chain_set c' = ancestors h p"
proof -
  let ?c = "branch h p (nat (nHeight b))"
  have n: "nHeight b = int (nat (nHeight b))"
    using height_nonneg [OF assms(1,3)] by simp
  have "Tip h ?c False = Some (Some p)"
    by (simp add: Tip_def branch_nth)
  then show ?thesis
    using SetTip_ok [OF assms] branch_chain_ok [OF assms(1,3) n] branch_set [OF assms(1,3)] n by (simp add: Height_def)
qed

theorem SetTip_branch_witness:
  "\<exists>c'. SetTip (sample_fork 9 20 5) (map Some [0..<9]) (Some 20) = Some c' \<and> chain_ok (sample_fork 9 20 5) c' \<and>
     Height c' = 6 \<and> chain_set c' = ancestors (sample_fork 9 20 5) 20"
proof -
  have h: "sample_fork 9 20 5 i = Some (sample_entry i)" if "i < 9" for i
    using that by (simp add: sample_fork_def sample_index_def)
  have "chain_ok (sample_fork 9 20 5) (map Some [0..<9])"
    by (auto simp: chain_ok_def h)
  moreover have "\<exists>a. sample_fork 9 20 5 20 = Some a \<and> nHeight a = 6"
    by (simp add: sample_fork_def)
  ultimately show ?thesis
    using SetTip_branch [OF sample_fork_ok, of 5 9 20 "map Some [0..<9]" 20] by fastforce
qed

text \<open>
  C36. \<^verbatim>\<open>GetLocator\<close> returns a list that starts with the given block, goes strictly down through its ancestors and ends with a
  block at height 0.  It has at most 11 entries, or at most 12 plus the binary logarithm of the height.
\<close>

theorem GetLocator_reaches_genesis:
  assumes "index_ok h" and "chain_ok h c" and "hashed h" and "h p = Some b"
  shows "\<exists>qs hs. GetLocator h c (Some p) = Some \<lparr>vHave = hs\<rparr> \<and> map Some hs = map (hash_of h) qs \<and>
      qs \<noteq> [] \<and> hd qs = p \<and> set qs \<subseteq> ancestors h p \<and> sorted_wrt (\<lambda>x y. height_of h y < height_of h x) qs \<and>
      height_of h (last qs) = 0 \<and> (length hs \<le> 11 \<or> 2 ^ (length hs - 12) \<le> nHeight b)"
  using assms by (rule GetLocator_ok)

theorem GetLocator_reaches_genesis_witness:
  "\<exists>hs. GetLocator (sample_index 5000) (map Some [0..<4000]) (Some 4999) = Some \<lparr>vHave = hs\<rparr> \<and>
     (length hs \<le> 11 \<or> 2 ^ (length hs - 12) \<le> (4999 :: int))"
  using GetLocator_reaches_genesis [OF sample_index_ok sample_chain_ok sample_hashed, of 4000 5000 4999 "sample_entry 4999"]
  by auto

end
