(* ===== verification/Proof_Of_Work.thy ===== *)
theory Proof_Of_Work
  imports Block_Index
begin

text \<open>
  Proof of work and the difficulty of the next block (\<^verbatim>\<open>src/pow.cpp\<close>).  The operators on \<^verbatim>\<open>uint256\<close> are those of the
  overloads the compiler selects: multiplication by a 64-bit integer converts it to 32 bits, division converts it to a
  \<^verbatim>\<open>base_uint\<close> by way of \<^verbatim>\<open>uint64_t\<close>.  A result is \<open>None\<close> where a division by zero throws, a null pointer is
  dereferenced or an assertion fails.
\<close>

section \<open>Definitions\<close>

definition uint256_of_int64 :: "int \<Rightarrow> base_uint" where
  "uint256_of_int64 n = base_uint_of64 8 (of_int n)"

definition CheckProofOfWork :: "CChainParams \<Rightarrow> base_uint \<Rightarrow> nat \<Rightarrow> bool" where
  "CheckProofOfWork params hash nBits =
     (if IsRegTestNet params then True
      else case SetCompact (of_nat nBits) of (bnTarget, fNegative, fOverflow) \<Rightarrow>
        if fNegative \<or> base_uint_IsNull bnTarget \<or> fOverflow \<or> CompareTo bnTarget (powLimit (consensus params)) > 0
        then False
        else if CompareTo hash bnTarget > 0 then False
        else True)"

definition GetBlockProof :: "nat \<Rightarrow> base_uint option" where
  "GetBlockProof nBits =
     (case SetCompact (of_nat nBits) of (bnTarget, fNegative, fOverflow) \<Rightarrow>
        if fNegative \<or> fOverflow \<or> base_uint_IsNull bnTarget then Some (base_uint_zero 8)
        else map_option (\<lambda>q. uint_add q (uint256_of_int64 1))
               (uint_div (uint_not bnTarget) (uint_add bnTarget (uint256_of_int64 1))))"

subsection \<open>The retargeting of proof of stake\<close>

definition PoS_spacing :: "Consensus_Params \<Rightarrow> heap \<Rightarrow> CBlockIndex \<Rightarrow> bool \<Rightarrow> int option" where
  "PoS_spacing params h blk fTimeV2 =
     map_option (\<lambda>nActualSpacing0.
         let nActualSpacing1 = (if nActualSpacing0 < 0 then 1 else nActualSpacing0)
         in if fTimeV2 \<and> nActualSpacing1 > nTargetSpacing params * 10 then nTargetSpacing params * 10 else nActualSpacing1)
       (if nHeight blk \<noteq> 0
        then map_option (\<lambda>prev. CBlockIndex_GetBlockTime blk - CBlockIndex_GetBlockTime prev) (deref h (pprev blk))
        else Some 0)"

definition GetNextWorkRequired_PoS :: "CChainParams \<Rightarrow> heap \<Rightarrow> CBlockIndex \<Rightarrow> 32 word option" where
  "GetNextWorkRequired_PoS chainparams h blk =
     (let params = consensus chainparams;
          fTimeV2 = (\<not> IsRegTestNet chainparams \<and> IsTimeProtocolV2 params (nHeight blk + 1));
          bnTargetLimit = ProofOfStakeLimit params fTimeV2;
          timespan = TargetTimespan params fTimeV2
      in do {
        nActualSpacing \<leftarrow> PoS_spacing params h blk fTimeV2;
        let bn0 = fst (SetCompact (of_nat (bi_nBits blk)));
        let bn1 = (if fTimeV2 \<and> \<not> IsTimeProtocolV2 params (nHeight blk) then uint_shl bn0 4 else bn0);
        let nInterval = timespan sdiv nTargetSpacing params;
        let bn2 = uint_mul32 bn1 (of_int ((nInterval - 1) * nTargetSpacing params + nActualSpacing + nActualSpacing));
        bn3 \<leftarrow> uint_div bn2 (uint256_of_int64 ((nInterval + 1) * nTargetSpacing params));
        let bnNew = (if CompareTo bn3 (uint256_of_int64 0) \<le> 0 \<or> CompareTo bn3 bnTargetLimit > 0 then bnTargetLimit else bn3);
        GetCompact bnNew False
      })"

subsection \<open>Dark Gravity Wave\<close>

record dgw_state =
  CountBlocks :: int
  PastDifficultyAverage :: base_uint
  PastDifficultyAveragePrev :: base_uint
  LastBlockTime :: int
  nActualTimespan :: int

definition PastBlocksMin :: int where "PastBlocksMin = 24"
definition PastBlocksMax :: nat where "PastBlocksMax = 24"

definition dgw_step :: "CBlockIndex \<Rightarrow> dgw_state \<Rightarrow> dgw_state option" where
  "dgw_step BlockReading st =
     (let count = CountBlocks st + 1;
          target = fst (SetCompact (of_nat (bi_nBits BlockReading)));
          time = CBlockIndex_GetBlockTime BlockReading
      in do {
        average \<leftarrow>
          (if count \<le> PastBlocksMin
           then if count = 1 then Some target
                else uint_div (uint_add (uint_mul32 (PastDifficultyAveragePrev st) (of_int count)) target)
                       (uint256_of_int64 (count + 1))
           else Some (PastDifficultyAverage st));
        Some \<lparr>CountBlocks = count, PastDifficultyAverage = average,
          PastDifficultyAveragePrev = (if count \<le> PastBlocksMin then average else PastDifficultyAveragePrev st),
          LastBlockTime = time,
          nActualTimespan = (if LastBlockTime st > 0 then nActualTimespan st + (LastBlockTime st - time) else nActualTimespan st)\<rparr>
      })"

text \<open>The first argument counts the rounds that are left of \<^verbatim>\<open>PastBlocksMax\<close>.\<close>

fun dgw_loop :: "nat \<Rightarrow> heap \<Rightarrow> ptr option \<Rightarrow> dgw_state \<Rightarrow> dgw_state option" where
  "dgw_loop 0 h BlockReading st = Some st"
| "dgw_loop (Suc n) h None st = Some st"
| "dgw_loop (Suc n) h (Some p) st = Option.bind (h p) (\<lambda>b.
     if nHeight b > 0
     then Option.bind (dgw_step b st) (\<lambda>st'. if pprev b = None then Some st' else dgw_loop n h (pprev b) st')
     else Some st)"

definition dgw_init :: dgw_state where
  "dgw_init = \<lparr>CountBlocks = 0, PastDifficultyAverage = base_uint_zero 8, PastDifficultyAveragePrev = base_uint_zero 8,
     LastBlockTime = 0, nActualTimespan = 0\<rparr>"

definition dgw_retarget :: "Consensus_Params \<Rightarrow> dgw_state \<Rightarrow> 32 word option" where
  "dgw_retarget params st =
     (let target = CountBlocks st * nTargetSpacing params;
          span1 = (if nActualTimespan st < target sdiv 3 then target sdiv 3 else nActualTimespan st);
          span2 = (if span1 > target * 3 then target * 3 else span1)
      in do {
        bn \<leftarrow> uint_div (uint_mul32 (PastDifficultyAverage st) (of_int span2)) (uint256_of_int64 target);
        GetCompact (if CompareTo bn (powLimit params) > 0 then powLimit params else bn) False
      })"

definition GetNextWorkRequired :: "CChainParams \<Rightarrow> heap \<Rightarrow> ptr option \<Rightarrow> 32 word option" where
  "GetNextWorkRequired chainparams h pindexLast =
     (let params = consensus chainparams in
      if IsRegTestNet chainparams then map_option (\<lambda>blk. of_nat (bi_nBits blk)) (deref h pindexLast)
      else case pindexLast of
        None \<Rightarrow> GetCompact (powLimit params) False
      | Some p \<Rightarrow> Option.bind (h p) (\<lambda>blk.
          if nHeight blk = 0 \<or> nHeight blk < PastBlocksMin then GetCompact (powLimit params) False
          else if NetworkUpgradeActive params (nHeight blk + 1) ACTIVATE_POS
          then GetNextWorkRequired_PoS chainparams h blk
          else Option.bind (dgw_loop PastBlocksMax h pindexLast dgw_init) (dgw_retarget params)))"

section \<open>Arithmetic modulo a power of two, as an interface\<close>

text \<open>
  What \<^verbatim>\<open>pow.cpp\<close> relies on of the big integers: values below a modulus, sums and complements modulo it, and exact
  quotients.
\<close>

locale modular_uint =
  fixes ok :: "'u \<Rightarrow> bool"
    and val :: "'u \<Rightarrow> nat"
    and M :: nat
    and add :: "'u \<Rightarrow> 'u \<Rightarrow> 'u"
    and compl :: "'u \<Rightarrow> 'u"
    and divide :: "'u \<Rightarrow> 'u \<Rightarrow> 'u option"
    and one :: 'u
  assumes val_less: "ok a \<Longrightarrow> val a < M"
    and val_add: "ok a \<Longrightarrow> ok b \<Longrightarrow> ok (add a b) \<and> val (add a b) = (val a + val b) mod M"
    and val_compl: "ok a \<Longrightarrow> ok (compl a) \<and> val (compl a) + val a + 1 = M"
    and val_divide: "ok a \<Longrightarrow> ok b \<Longrightarrow> val b \<noteq> 0 \<Longrightarrow> \<exists>q. divide a b = Some q \<and> ok q \<and> val q = val a div val b"
    and val_one: "ok one" "val one = 1"
begin

lemma proof_quotient:
  assumes "ok t" and "0 < val t" and "val t + 1 < M"
  shows "\<exists>q. divide (compl t) (add t one) = Some q \<and> ok (add q one) \<and> val (add q one) = M div (val t + 1)"
proof -
  have t1: "ok (add t one)" "val (add t one) = val t + 1"
    using val_add [OF assms(1) val_one(1)] val_one(2) assms(3) by simp_all
  note c = val_compl [OF assms(1)]
  obtain q where q: "divide (compl t) (add t one) = Some q" "ok q" "val q = val (compl t) div (val t + 1)"
    using val_divide [of "compl t" "add t one"] c t1 by auto
  have "M = val (compl t) + (val t + 1)"
    using c by simp
  then have m: "M div (val t + 1) = val q + 1"
    using q(3) by (simp only:) (simp only: div_add_self2)
  have "M div (val t + 1) < M"
    using assms by (intro div_less_dividend) simp_all
  then have "val (add q one) = val q + 1"
    using val_add [OF q(2) val_one(1)] val_one(2) m by simp
  then show ?thesis
    using q(1,2) m val_add [OF q(2) val_one(1)] by simp
qed

end

interpretation u256: modular_uint "\<lambda>a. length a = 8" uval "2 ^ 256" uint_add uint_not uint_div "uint256_of_int64 1"
proof unfold_locales
  show "uval a < 2 ^ 256" if "length a = 8" for a
    using uval_bound [of a] that by simp
  show "\<exists>q. uint_div a b = Some q \<and> length q = 8 \<and> uval q = uval a div uval b"
    if "length a = 8" "length b = 8" "uval b \<noteq> 0" for a b
    using uval_div [of a b] that by simp
  show "length (uint_not a) = 8 \<and> uval (uint_not a) + uval a + 1 = 2 ^ 256" if "length a = 8" for a
    using uval_not [of a] that by simp
qed (simp_all add: uval_add uint256_of_int64_def)

lemma GetBlockProof_value:
  "\<exists>w. GetBlockProof nBits = Some w \<and> length w = 8 \<and>
    (case SetCompact (of_nat nBits) of (t, neg, ovf) \<Rightarrow>
       uval w = (if neg \<or> ovf \<or> uval t = 0 then 0 else 2 ^ 256 div (uval t + 1)))"
proof -
  obtain t neg ovf where t: "SetCompact (of_nat nBits) = (t, neg, ovf)"
    by (cases "SetCompact (of_nat nBits)")
  have l: "length t = 8" "uval t + 1 < 2 ^ 256"
    using length_SetCompact [of "of_nat nBits"] SetCompact_not_max [of "of_nat nBits"] t by simp_all
  show ?thesis
  proof (cases "neg \<or> ovf \<or> uval t = 0")
    case True
    then show ?thesis
      using t by (auto simp: GetBlockProof_def base_uint_IsNull_val base_uint_zero_def)
  next
    case False
    then obtain q where "uint_div (uint_not t) (uint_add t (uint256_of_int64 1)) = Some q"
      "length (uint_add q (uint256_of_int64 1)) = 8" "uval (uint_add q (uint256_of_int64 1)) = 2 ^ 256 div (uval t + 1)"
      using u256.proof_quotient [OF l(1) _ l(2)] by auto
    then show ?thesis
      using t False by (simp add: GetBlockProof_def base_uint_IsNull_val)
  qed
qed

lemma CheckProofOfWork_iff:
  assumes "length hash = 8" and "length (powLimit (consensus params)) = 8" and "\<not> IsRegTestNet params"
  shows "CheckProofOfWork params hash nBits \<longleftrightarrow>
    (\<exists>t. SetCompact (of_nat nBits) = (t, False, False) \<and> 0 < uval t \<and> uval t \<le> uval (powLimit (consensus params)) \<and>
       uval hash \<le> uval t)"
proof -
  obtain t neg ovf where t: "SetCompact (of_nat nBits) = (t, neg, ovf)"
    by (cases "SetCompact (of_nat nBits)")
  have "length t = 8"
    using length_SetCompact [of "of_nat nBits"] t by simp
  then show ?thesis
    using assms t by (auto simp: CheckProofOfWork_def base_uint_IsNull_val CompareTo_val)
qed

section \<open>Retargeting without wrap-around\<close>

definition target_of :: "CBlockIndex \<Rightarrow> nat" where
  "target_of b = uval (fst (SetCompact (of_nat (bi_nBits b))))"

primrec window :: "heap \<Rightarrow> nat \<Rightarrow> ptr \<Rightarrow> CBlockIndex list" where
  "window h 0 p = []"
| "window h (Suc n) p =
     (case h p of None \<Rightarrow> []
      | Some b \<Rightarrow> b # (case pprev b of None \<Rightarrow> [] | Some q \<Rightarrow> window h n q))"

fun dgw_steps :: "CBlockIndex list \<Rightarrow> dgw_state \<Rightarrow> dgw_state option" where
  "dgw_steps [] st = Some st"
| "dgw_steps (b # bs) st = Option.bind (dgw_step b st) (dgw_steps bs)"

lemma dgw_loop_window:
  assumes "index_ok h"
  shows "h p = Some b \<Longrightarrow> int n \<le> nHeight b \<Longrightarrow> dgw_loop n h (Some p) st = dgw_steps (window h n p) st \<and> length (window h n p) = n"
proof (induction n arbitrary: p b st)
  case (Suc n)
  then have "0 < nHeight b" by simp
  then obtain q c where q: "pprev b = Some q" "h q = Some c" "nHeight c = nHeight b - 1"
    by (rule pprev_exists [OF assms Suc.prems(1)])
  have "dgw_loop n h (Some q) st' = dgw_steps (window h n q) st' \<and> length (window h n q) = n" for st'
    using Suc.IH [OF q(2)] q(3) Suc.prems(2) by simp
  then show ?case
    using Suc.prems \<open>0 < nHeight b\<close> q(1) by simp
qed simp

text \<open>The running average: the target of the newest block, then \<open>k + 1\<close> times the average plus the next target over \<open>k + 2\<close>.\<close>

fun dgw_average :: "nat \<Rightarrow> nat \<Rightarrow> nat list \<Rightarrow> nat" where
  "dgw_average k a [] = a"
| "dgw_average k a (t # ts) = dgw_average (Suc k) ((a * (k + 1) + t) div (k + 2)) ts"

lemma dgw_average_le: "a \<le> L \<Longrightarrow> list_all (\<lambda>t. t \<le> L) ts \<Longrightarrow> dgw_average k a ts \<le> L"
proof (induction k a ts rule: dgw_average.induct)
  case (2 k a t ts)
  have "a * (k + 1) + t \<le> L * (k + 1) + L"
    using 2 by (intro add_mono mult_le_mono1) simp_all
  then have "(a * (k + 1) + t) div (k + 2) \<le> (L * (k + 2)) div (k + 2)"
    by (intro div_le_mono) (simp add: algebra_simps)
  also have "\<dots> = L"
    by (rule nonzero_mult_div_cancel_right) simp
  finally show ?case
    using 2 by simp
qed simp

definition dgw_rel :: "nat \<Rightarrow> nat \<Rightarrow> int \<Rightarrow> int \<Rightarrow> dgw_state \<Rightarrow> bool" where
  "dgw_rel k a first prev st \<longleftrightarrow> CountBlocks st = int k \<and> uval (PastDifficultyAverage st) = a \<and>
     length (PastDifficultyAverage st) = 8 \<and> PastDifficultyAveragePrev st = PastDifficultyAverage st \<and>
     LastBlockTime st = prev \<and> 0 < prev \<and> nActualTimespan st = first - prev"

lemma unat_int64: "0 \<le> n \<Longrightarrow> n < 2 ^ 64 \<Longrightarrow> unat (of_int n :: 64 word) = nat n"
  by (simp add: unsigned_of_int take_bit_int_eq_self)

lemma unat_of_int32: "0 \<le> n \<Longrightarrow> n < 2 ^ 32 \<Longrightarrow> unat (of_int n :: 32 word) = nat n"
  by (simp add: unsigned_of_int take_bit_int_eq_self)

lemma uval_int64: "0 \<le> n \<Longrightarrow> n < 2 ^ 64 \<Longrightarrow> uval (uint256_of_int64 n) = nat n"
  by (simp add: uint256_of_int64_def unat_int64)

lemma length_int64 [simp]: "length (uint256_of_int64 n) = 8"
  by (simp add: uint256_of_int64_def)

lemma dgw_step_rel:
  assumes "dgw_rel k a first prev st" and "1 \<le> k" and "k < 24" and "a < 2 ^ 240" and "target_of b < 2 ^ 240" and "0 < bi_nTime b"
  shows "\<exists>st'. dgw_step b st = Some st' \<and>
    dgw_rel (Suc k) ((a * (k + 1) + target_of b) div (k + 2)) first (int (bi_nTime b)) st'"
proof -
  let ?t = "fst (SetCompact (of_nat (bi_nBits b)))"
  have c: "of_int (1 + int k) = (of_nat (Suc k) :: 32 word)" "unat (of_nat (Suc k) :: 32 word) = Suc k"
    using unat_of_int32 [of "1 + int k"] assms(3) by simp_all
  have "a * (k + 1) \<le> 2 ^ 240 * 24"
    using assms(3,4) by (intro mult_le_mono) simp_all
  then have lt: "a * (k + 1) < 2 ^ 256" "a * (k + 1) + target_of b < 2 ^ 256"
    using assms(5) by simp_all
  let ?s = "uint_add (uint_mul32 (PastDifficultyAveragePrev st) (of_int (1 + int k))) ?t"
  have s: "length ?s = 8" "uval ?s = a * (k + 1) + target_of b"
    using assms(1) lt c by (simp_all add: uval_add uval_mul32 dgw_rel_def length_SetCompact target_of_def)
  have d: "uval (uint256_of_int64 (2 + int k)) = k + 2"
    using assms(3) by (simp add: uval_int64)
  obtain q where "uint_div ?s (uint256_of_int64 (2 + int k)) = Some q" "length q = 8"
    "uval q = (a * (k + 1) + target_of b) div (k + 2)"
    using uval_div [of ?s "uint256_of_int64 (2 + int k)"] s d by auto
  then show ?thesis
    using assms by (auto simp: dgw_step_def Let_def dgw_rel_def PastBlocksMin_def CBlockIndex_GetBlockTime_def algebra_simps)
qed

lemma dgw_steps_rel:
  assumes "dgw_rel k a first prev st" and "1 \<le> k" and "k + length bs \<le> 24" and "a \<le> L" and "L < 2 ^ 240"
    and "list_all (\<lambda>b. target_of b \<le> L \<and> 0 < bi_nTime b) bs"
  shows "\<exists>st'. dgw_steps bs st = Some st' \<and>
    dgw_rel (k + length bs) (dgw_average k a (map target_of bs)) first (if bs = [] then prev else int (bi_nTime (last bs))) st'"
  using assms
proof (induction bs arbitrary: k a prev st)
  case (Cons b bs)
  let ?a = "(a * (k + 1) + target_of b) div (k + 2)"
  obtain st1 where st1: "dgw_step b st = Some st1" "dgw_rel (Suc k) ?a first (int (bi_nTime b)) st1"
    using dgw_step_rel [of k a first prev st b] Cons.prems by auto
  have "?a \<le> L"
    using dgw_average_le [of a L "[target_of b]" k] Cons.prems by simp
  then obtain st2 where "dgw_steps bs st1 = Some st2" "dgw_rel (Suc k + length bs) (dgw_average (Suc k) ?a (map target_of bs)) first
      (if bs = [] then int (bi_nTime b) else int (bi_nTime (last bs))) st2"
    using Cons.IH [OF st1(2)] Cons.prems by auto
  then show ?case
    using st1(1) by (auto split: if_splits)
qed auto

lemma uval_uint256_limit: "uval (uint256_limit n) = (2 ^ 256 - 1) div 2 ^ n"
  using uval_not [of "base_uint_zero 8"] by (simp add: uint256_limit_def uval_shr base_uint_zero_def)

lemma length_uint256_limit [simp]: "length (uint256_limit n) = 8"
  by (simp add: uint256_limit_def base_uint_zero_def)

text \<open>The target of the next block in plain arithmetic, for the parameters of the main and the test network.\<close>

definition target_limit :: nat where
  "target_limit = 2 ^ 236 - 1"

definition stake_spacing :: "heap \<Rightarrow> CBlockIndex \<Rightarrow> int" where
  "stake_spacing h b =
     (case deref h (pprev b) of None \<Rightarrow> 0
      | Some c \<Rightarrow> if bi_nTime b < bi_nTime c then 1 else min 600 (int (bi_nTime b) - int (bi_nTime c)))"

definition stake_target :: "Consensus_Params \<Rightarrow> heap \<Rightarrow> CBlockIndex \<Rightarrow> nat" where
  "stake_target params h b =
     (let t = (if IsTimeProtocolV2 params (nHeight b) then target_of b else 16 * target_of b);
          v = t * nat (29 * 60 + 2 * stake_spacing h b) div (31 * 60)
      in if v = 0 \<or> target_limit < v then target_limit else v)"

definition work_target :: "CBlockIndex list \<Rightarrow> nat" where
  "work_target bs =
     (let span = max 480 (min 4320 (int (bi_nTime (hd bs)) - int (bi_nTime (last bs))))
      in min target_limit (dgw_average 1 (target_of (hd bs)) (map target_of (tl bs)) * nat span div (24 * 60)))"

definition next_target :: "Consensus_Params \<Rightarrow> heap \<Rightarrow> ptr \<Rightarrow> CBlockIndex \<Rightarrow> nat" where
  "next_target params h p b =
     (if nHeight b < 24 then target_limit
      else if NetworkUpgradeActive params (nHeight b + 1) ACTIVATE_POS then stake_target params h b
      else work_target (window h 24 p))"

definition retarget_params :: "CChainParams \<Rightarrow> bool" where
  "retarget_params params \<longleftrightarrow> \<not> IsRegTestNet params \<and> powLimit (consensus params) = uint256_limit 20 \<and>
     posLimitV2 (consensus params) = uint256_limit 20 \<and> nTargetSpacing (consensus params) = 60 \<and>
     nTargetTimespanV2 (consensus params) = 1800"

lemma retarget_params_networks: "retarget_params (CMainParams g)" "retarget_params (CTestNetParams g)"
  by (simp_all add: retarget_params_def CMainParams_def CTestNetParams_def IsRegTestNet_def)

lemma uval_limit20: "uval (uint256_limit 20) = target_limit"
  by (simp add: uval_uint256_limit target_limit_def)

lemma target_less: "t \<le> target_limit \<Longrightarrow> t < 2 ^ 236"
  by (simp add: target_limit_def)

definition compact_of :: "nat \<Rightarrow> 32 word \<Rightarrow> bool" where
  "compact_of v c \<longleftrightarrow> (\<exists>t. SetCompact c = (t, False, False) \<and> length t = 8 \<and> uval t \<le> v \<and> (v - uval t) * 2 ^ 15 \<le> v)"

lemma GetCompact_compact_of: "length a = 8 \<Longrightarrow> \<exists>c. GetCompact a False = Some c \<and> compact_of (uval a) c"
  using Compact_rounds [of a] by (auto simp: compact_of_def)

lemma PoS_spacing_ok:
  assumes "retarget_params cp" and "index_ok h" and "h p = Some b" and "0 < nHeight b"
  shows "PoS_spacing (consensus cp) h b True = Some (stake_spacing h b) \<and> 0 \<le> stake_spacing h b \<and> stake_spacing h b \<le> 600"
proof -
  obtain q c where q: "pprev b = Some q" "h q = Some c" "nHeight c = nHeight b - 1"
    by (rule pprev_exists [OF assms(2-4)])
  then show ?thesis
    using assms by (auto simp: PoS_spacing_def stake_spacing_def deref_def retarget_params_def Let_def CBlockIndex_GetBlockTime_def min_def)
qed

lemma GetNextWorkRequired_PoS_ok:
  assumes "retarget_params cp" and "index_ok h" and "h p = Some b" and "24 \<le> nHeight b"
    and "NetworkUpgradeActive (consensus cp) (nHeight b + 1) ACTIVATE_POS" and "target_of b \<le> target_limit"
  shows "\<exists>c. GetNextWorkRequired_PoS cp h b = Some c \<and> compact_of (stake_target (consensus cp) h b) c"
proof -
  let ?params = "consensus cp" and ?s = "stake_spacing h b"
  have v2: "\<not> IsRegTestNet cp \<and> IsTimeProtocolV2 ?params (nHeight b + 1)"
    using assms(1,5) by (simp add: retarget_params_def IsTimeProtocolV2_def)
  note sp = PoS_spacing_ok [OF assms(1-3)]
  have s: "PoS_spacing ?params h b True = Some ?s" "0 \<le> ?s" "?s \<le> 600"
    using sp assms(4) by simp_all
  define t where "t = (if IsTimeProtocolV2 ?params (nHeight b) then target_of b else 16 * target_of b)"
  define bn where "bn = (if \<not> IsTimeProtocolV2 ?params (nHeight b) then uint_shl (fst (SetCompact (of_nat (bi_nBits b)))) 4
      else fst (SetCompact (of_nat (bi_nBits b))))"
  have tl: "target_of b < 2 ^ 236"
    using assms(6) by (rule target_less)
  have bn: "length bn = 8" "uval bn = t"
    using tl by (simp_all add: bn_def t_def length_SetCompact uval_shl target_of_def)
  have t: "t < 2 ^ 240"
    using tl by (simp add: t_def)
  define m where "m = nat (29 * 60 + 2 * ?s)"
  have m3: "m \<le> 2940"
    using s(2,3) by (simp add: m_def)
  have m: "of_int (29 * 60 + ?s + ?s) = (of_nat m :: 32 word)" "unat (of_nat m :: 32 word) = m" "m \<le> 2940"
    using s(2) by (simp add: m_def algebra_simps) (use m3 in \<open>simp_all add: unsigned_of_nat take_bit_nat_eq_self_iff\<close>)
  have "t * m \<le> 2 ^ 240 * 2940"
    using t m(3) by (intro mult_le_mono) simp_all
  then have tm: "t * m < 2 ^ 256" by simp
  define num where "num = uint_mul32 bn (of_int (29 * 60 + ?s + ?s))"
  have num: "length num = 8" "uval num = t * m"
    using bn m tm by (simp_all add: num_def uval_mul32)
  obtain q where q: "uint_div num (uint256_of_int64 (31 * 60)) = Some q" "length q = 8" "uval q = t * m div (31 * 60)"
    using uval_div [of num "uint256_of_int64 (31 * 60)"] num by (auto simp: uval_int64)
  define bnNew where "bnNew = (if CompareTo q (uint256_of_int64 0) \<le> 0 \<or> CompareTo q (uint256_limit 20) > 0 then uint256_limit 20 else q)"
  have st: "uval bnNew = stake_target ?params h b" "length bnNew = 8"
    using q(2,3) by (auto simp: bnNew_def CompareTo_val uval_int64 uval_limit20 stake_target_def t_def m_def Let_def)
  obtain c where c: "GetCompact bnNew False = Some c" "compact_of (uval bnNew) c"
    using GetCompact_compact_of [OF st(2)] by blast
  have "GetNextWorkRequired_PoS cp h b = GetCompact bnNew False"
    using v2 s(1) q(1) assms(1)
    unfolding GetNextWorkRequired_PoS_def Let_def bnNew_def num_def bn_def
    by (simp add: ProofOfStakeLimit_def TargetTimespan_def retarget_params_def signed_divide_int_def)
  then show ?thesis
    using c st(1) by simp
qed

lemma dgw_first:
  assumes "0 < bi_nTime b"
  shows "\<exists>st. dgw_step b dgw_init = Some st \<and> dgw_rel 1 (target_of b) (int (bi_nTime b)) (int (bi_nTime b)) st"
  using assms
  by (simp add: dgw_step_def dgw_init_def dgw_rel_def PastBlocksMin_def target_of_def length_SetCompact
      CBlockIndex_GetBlockTime_def Let_def)

lemma dgw_steps_ok:
  assumes "length bs = 24" and "list_all (\<lambda>b. target_of b \<le> target_limit \<and> 0 < bi_nTime b) bs"
  shows "\<exists>st. dgw_steps bs dgw_init = Some st \<and>
    dgw_rel 24 (dgw_average 1 (target_of (hd bs)) (map target_of (tl bs))) (int (bi_nTime (hd bs))) (int (bi_nTime (last bs))) st"
proof -
  obtain b rest where bs: "bs = b # rest" "length rest = 23"
    using assms(1) by (cases bs) auto
  obtain st where st: "dgw_step b dgw_init = Some st" "dgw_rel 1 (target_of b) (int (bi_nTime b)) (int (bi_nTime b)) st"
    using dgw_first [of b] assms(2) bs by auto
  have "target_limit < 2 ^ 240"
    by (simp add: target_limit_def)
  then obtain st2 where "dgw_steps rest st = Some st2"
    "dgw_rel 24 (dgw_average 1 (target_of b) (map target_of rest)) (int (bi_nTime b)) (int (bi_nTime (last rest))) st2"
    using dgw_steps_rel [OF st(2), of rest target_limit] assms(2) bs by (cases rest) auto
  then show ?thesis
    using st(1) bs by (cases rest) auto
qed

lemma dgw_retarget_ok:
  assumes "retarget_params cp" and "dgw_rel 24 a first prev st" and "a \<le> target_limit"
  shows "\<exists>c. dgw_retarget (consensus cp) st = Some c \<and>
    compact_of (min target_limit (a * nat (max 480 (min 4320 (first - prev))) div 1440)) c"
proof -
  define span where "span = max 480 (min 4320 (first - prev))"
  have sp: "480 \<le> span" "span \<le> 4320"
    by (simp_all add: span_def)
  have "a * nat span \<le> 2 ^ 236 * 4320"
    using target_less [OF assms(3)] sp by (intro mult_le_mono) simp_all
  then have am: "a * nat span < 2 ^ 256" by simp
  define num where "num = uint_mul32 (PastDifficultyAverage st) (of_int span)"
  have num: "length num = 8" "uval num = a * nat span"
    using assms(2) am sp unat_of_int32 [of span] by (simp_all add: num_def uval_mul32 dgw_rel_def)
  obtain q where q: "uint_div num (uint256_of_int64 1440) = Some q" "length q = 8" "uval q = a * nat span div 1440"
    using uval_div [of num "uint256_of_int64 1440"] num by (auto simp: uval_int64)
  define bn where "bn = (if CompareTo q (uint256_limit 20) > 0 then uint256_limit 20 else q)"
  have bn: "length bn = 8" "uval bn = min target_limit (a * nat span div 1440)"
    using q by (auto simp: bn_def CompareTo_val uval_limit20)
  have "(let s = if first - prev < 480 then 480 else first - prev in if s > 4320 then 4320 else s) = span"
    by (simp add: span_def Let_def)
  then have "dgw_retarget (consensus cp) st = GetCompact bn False"
    using assms(1,2) q(1) unfolding num_def bn_def
    by (simp add: dgw_retarget_def retarget_params_def dgw_rel_def signed_divide_int_def Let_def split del: if_split cong: if_cong)
  then show ?thesis
    using GetCompact_compact_of [OF bn(1)] bn(2) span_def by simp
qed

lemma GetNextWorkRequired_ok:
  assumes "retarget_params cp" and "index_ok h" and "h p = Some b"
    and "list_all (\<lambda>x. target_of x \<le> target_limit \<and> 0 < bi_nTime x) (window h 24 p)"
  shows "\<exists>c. GetNextWorkRequired cp h (Some p) = Some c \<and> compact_of (next_target (consensus cp) h p b) c"
proof (cases "nHeight b < 24")
  case True
  then show ?thesis
    using assms(1,3) GetCompact_compact_of [of "uint256_limit 20"]
    by (simp add: GetNextWorkRequired_def retarget_params_def Let_def PastBlocksMin_def next_target_def uval_limit20)
next
  case False
  have "target_of b \<le> target_limit"
    using assms(3,4) by (simp add: numeral_eq_Suc split: option.splits)
  then have pos: "\<exists>c. GetNextWorkRequired_PoS cp h b = Some c \<and> compact_of (stake_target (consensus cp) h b) c"
    if "NetworkUpgradeActive (consensus cp) (nHeight b + 1) ACTIVATE_POS"
    using GetNextWorkRequired_PoS_ok [OF assms(1-3) _ that] False by simp
  have w: "dgw_loop 24 h (Some p) dgw_init = dgw_steps (window h 24 p) dgw_init" "length (window h 24 p) = 24"
    using dgw_loop_window [OF assms(2,3), of 24 dgw_init] False by simp_all
  obtain st where st: "dgw_steps (window h 24 p) dgw_init = Some st"
    "dgw_rel 24 (dgw_average 1 (target_of (hd (window h 24 p))) (map target_of (tl (window h 24 p))))
      (int (bi_nTime (hd (window h 24 p)))) (int (bi_nTime (last (window h 24 p)))) st"
    using dgw_steps_ok [OF w(2) assms(4)] by blast
  have "dgw_average 1 (target_of (hd (window h 24 p))) (map target_of (tl (window h 24 p))) \<le> target_limit"
  proof (rule dgw_average_le)
    show "target_of (hd (window h 24 p)) \<le> target_limit" "list_all (\<lambda>t. t \<le> target_limit) (map target_of (tl (window h 24 p)))"
      using assms(4) w(2) by (cases "window h 24 p"; auto simp: list_all_iff)+
  qed
  from dgw_retarget_ok [OF assms(1) st(2) this]
  have "\<exists>c. dgw_retarget (consensus cp) st = Some c \<and> compact_of (work_target (window h 24 p)) c"
    by (simp add: work_target_def Let_def)
  then show ?thesis
    using False assms(1,3) pos w(1) st(1)
    by (auto simp: GetNextWorkRequired_def retarget_params_def Let_def PastBlocksMin_def PastBlocksMax_def next_target_def)
qed

section \<open>Properties\<close>

text \<open>
  C10. The work of a block: \<^verbatim>\<open>GetBlockProof\<close> never throws, and its result is \<open>2 ^ 256\<close> divided by the target plus one, which
  does not fit the type of the operands, or zero where the compact target is negative, overflows or is zero.  On the main
  and the test network a proof of work is accepted exactly if its target is positive and within the limit and the hash is
  at most the target; the regression test network accepts every hash.
\<close>

theorem block_proof:
  assumes "length hash = 8" and "params = CMainParams g \<or> params = CTestNetParams g \<or> params = CRegTestParams g"
  shows "\<exists>w t neg ovf. GetBlockProof nBits = Some w \<and> SetCompact (of_nat nBits) = (t, neg, ovf) \<and> length w = 8 \<and>
      uval w = (if neg \<or> ovf \<or> uval t = 0 then 0 else 2 ^ 256 div (uval t + 1)) \<and>
    (CheckProofOfWork params hash nBits \<longleftrightarrow>
       params = CRegTestParams g \<or> \<not> neg \<and> \<not> ovf \<and> 0 < uval t \<and> uval t < 2 ^ 236 \<and> uval hash \<le> uval t)"
proof -
  obtain t neg ovf where t: "SetCompact (of_nat nBits) = (t, neg, ovf)"
    by (cases "SetCompact (of_nat nBits)")
  have "CheckProofOfWork params hash nBits \<longleftrightarrow>
      params = CRegTestParams g \<or> \<not> neg \<and> \<not> ovf \<and> 0 < uval t \<and> uval t < 2 ^ 236 \<and> uval hash \<le> uval t"
  proof (cases "params = CRegTestParams g")
    case True
    then show ?thesis
      by (simp add: CheckProofOfWork_def IsRegTestNet_def CRegTestParams_def)
  next
    case False
    then have "retarget_params params"
      using assms(2) retarget_params_networks by auto
    then have p: "length (powLimit (consensus params)) = 8" "\<not> IsRegTestNet params"
      "uval (powLimit (consensus params)) = 2 ^ 236 - 1"
      by (simp_all add: retarget_params_def uval_limit20 target_limit_def)
    show ?thesis
      unfolding CheckProofOfWork_iff [OF assms(1) p(1,2)] p(3) t using False by auto
  qed
  then show ?thesis
    using GetBlockProof_value [of nBits] t by auto
qed

theorem block_proof_witness:
  "\<exists>w. GetBlockProof 0x03000007 = Some w \<and> uval w = 2 ^ 253 \<and> CheckProofOfWork (CMainParams []) (base_uint_of64 8 5) 0x03000007 \<and>
     \<not> CheckProofOfWork (CMainParams []) (base_uint_of64 8 9) 0x03000007"
proof -
  have "\<exists>t. SetCompact (of_nat (7 + 2 ^ 24 * 3)) = (t, False, False) \<and> length t = 8 \<and> uval t = compact_value 7 3"
    by (rule SetCompact_value) (simp_all add: compact_value_def)
  then have "\<exists>t. SetCompact (of_nat 0x03000007) = (t, False, False) \<and> uval t = 7"
    by (auto simp: compact_value_def)
  then show ?thesis
    using block_proof [of "base_uint_of64 8 5" "CMainParams []" "[]" "0x03000007"]
      block_proof [of "base_uint_of64 8 9" "CMainParams []" "[]" "0x03000007"] by (auto simp: CMainParams_def CRegTestParams_def)
qed

text \<open>
  C9. The difficulty of the next block on the main and the test network.  If the targets of the last blocks are within the
  limit and their times positive, no operation of \<^verbatim>\<open>GetNextWorkRequired\<close> wraps around or throws, and its result is the
  compact form of the exact target: the limit for the first blocks, then the average of 24 targets (Dark Gravity Wave)
  scaled by the time they took, clamped to a factor of three, and with proof of stake the last target scaled by the last
  spacing.  The target is within the limit, and positive if the exact one is.
\<close>

theorem GetNextWorkRequired_exact:
  assumes "params = CMainParams g \<or> params = CTestNetParams g" and "index_ok h" and "h p = Some b"
    and "list_all (\<lambda>x. target_of x < 2 ^ 236 \<and> 0 < bi_nTime x) (window h 24 p)"
  shows "\<exists>c t. GetNextWorkRequired params h (Some p) = Some c \<and> SetCompact c = (t, False, False) \<and>
    uval t \<le> next_target (consensus params) h p b \<and>
    (next_target (consensus params) h p b - uval t) * 2 ^ 15 \<le> next_target (consensus params) h p b \<and>
    next_target (consensus params) h p b < 2 ^ 236"
proof -
  have "list_all (\<lambda>x. target_of x \<le> target_limit \<and> 0 < bi_nTime x) (window h 24 p)"
    using assms(4) by (auto simp: list_all_iff target_limit_def)
  moreover have "retarget_params params"
    using assms(1) retarget_params_networks by auto
  ultimately obtain c where "GetNextWorkRequired params h (Some p) = Some c" "compact_of (next_target (consensus params) h p b) c"
    using GetNextWorkRequired_ok [OF _ assms(2,3)] by blast
  moreover have "next_target (consensus params) h p b \<le> target_limit"
    by (auto simp: next_target_def stake_target_def work_target_def Let_def)
  ultimately show ?thesis
    using target_less by (auto simp: compact_of_def)
qed

theorem GetNextWorkRequired_exact_witness:
  "\<exists>c t. GetNextWorkRequired (CMainParams []) (sample_index 30) (Some 29) = Some c \<and> SetCompact c = (t, False, False) \<and>
     uval t < 2 ^ 236"
proof -
  have "\<exists>t. SetCompact (of_nat (0x0fffff + 2 ^ 24 * 0x1e)) = (t, False, False) \<and> length t = 8 \<and> uval t = compact_value 0x0fffff 0x1e"
    by (rule SetCompact_value) (simp_all add: compact_value_def)
  then have "target_of (sample_entry i) < 2 ^ 236 \<and> 0 < bi_nTime (sample_entry i)" for i
    by (auto simp: target_of_def sample_entry_def compact_value_def)
  then have "list_all (\<lambda>x. target_of x < 2 ^ 236 \<and> 0 < bi_nTime x) (window (sample_index 30) n p)" for n p
    by (induction n arbitrary: p) (auto split: option.splits)
  then show ?thesis
    using GetNextWorkRequired_exact [of "CMainParams []" "[]" "sample_index 30" 29 "sample_entry 29", OF _ sample_index_ok]
    by fastforce
qed

end
