(* ===== verification/Merkle.thy ===== *)
theory Merkle
  imports Block_Data
begin

text \<open>
  Merkle trees over transaction identifiers: the constant-space computation of root and branch of
  \<^verbatim>\<open>src/consensus/merkle.cpp\<close>, and the partial trees of \<^verbatim>\<open>src/merkleblock.h\<close> and \<^verbatim>\<open>src/merkleblock.cpp\<close> that
  prove which transactions of a block matched a filter.  The specification computes a tree level by level.
\<close>

section \<open>Root and branch\<close>

text \<open>\<^verbatim>\<open>count & (1 << level)\<close> is the bit \<open>level\<close> of \<open>count\<close>; a shift by the width of the type or more is undefined.\<close>

definition combine_hashes :: "bytes \<Rightarrow> bytes \<Rightarrow> bytes" where
  "combine_hashes l r = Hash256 (l @ r)"

text \<open>What is recorded of the branch when \<open>h\<close> is combined with \<^verbatim>\<open>inner[level]\<close>.\<close>

definition push_sibling :: "bool \<Rightarrow> bytes list \<Rightarrow> int \<Rightarrow> nat \<Rightarrow> bytes \<Rightarrow> bool \<Rightarrow> bytes list \<Rightarrow> bool \<times> bytes list" where
  "push_sibling pbranch inner matchlevel level h matchh branch =
     (if pbranch
      then if matchh then (matchh, branch @ [inner ! level])
           else if matchlevel = int level then (True, branch @ [h])
           else (matchh, branch)
      else (matchh, branch))"

function merge_leaf ::
  "bool \<Rightarrow> nat \<Rightarrow> bytes list \<Rightarrow> int \<Rightarrow> nat \<Rightarrow> bytes \<Rightarrow> bool \<Rightarrow> bool \<Rightarrow> bytes list \<Rightarrow> (nat \<times> bytes \<times> bool \<times> bool \<times> bytes list) option" where
  "merge_leaf pbranch count inner matchlevel level h matchh mutated branch =
     (if level \<ge> 32 then None
      else if bit count level then Some (level, h, matchh, mutated, branch)
      else let (matchh', branch') = push_sibling pbranch inner matchlevel level h matchh branch
           in merge_leaf pbranch count inner matchlevel (level + 1) (combine_hashes (inner ! level) h) matchh'
                (mutated \<or> inner ! level = h) branch')"
  by pat_completeness auto
termination
  by (relation "measure (\<lambda>(_, _, _, _, level, _). 32 - level)") auto

declare merge_leaf.simps [simp del]

record merkle_state =
  ms_count :: nat
  ms_inner :: "bytes list"
  ms_matchlevel :: int
  ms_mutated :: bool
  ms_branch :: "bytes list"

fun process_leaves :: "bool \<Rightarrow> nat \<Rightarrow> bytes list \<Rightarrow> merkle_state \<Rightarrow> merkle_state option" where
  "process_leaves pbranch branchpos [] s = Some s"
| "process_leaves pbranch branchpos (leaf # leaves) s =
     (let matchh = (ms_count s = branchpos);
          count = (ms_count s + 1) mod 2 ^ 32
      in case merge_leaf pbranch count (ms_inner s) (ms_matchlevel s) 0 leaf matchh (ms_mutated s) (ms_branch s) of
           None \<Rightarrow> None
         | Some (level, h, matchh', mutated, branch) \<Rightarrow>
             process_leaves pbranch branchpos leaves
               \<lparr>ms_count = count, ms_inner = (ms_inner s)[level := h],
                ms_matchlevel = (if matchh' then int level else ms_matchlevel s),
                ms_mutated = mutated, ms_branch = branch\<rparr>)"

function lowest_level :: "nat \<Rightarrow> nat \<Rightarrow> nat option" where
  "lowest_level count level =
     (if level \<ge> 32 then None else if bit count level then Some level else lowest_level count (level + 1))"
  by pat_completeness auto
termination
  by (relation "measure (\<lambda>(_, level). 32 - level)") auto

declare lowest_level.simps [simp del]

function propagate :: "bool \<Rightarrow> nat \<Rightarrow> bytes list \<Rightarrow> int \<Rightarrow> nat \<Rightarrow> bytes \<Rightarrow> bool \<Rightarrow> bytes list \<Rightarrow> (nat \<times> bytes \<times> bool \<times> bytes list) option" where
  "propagate pbranch count inner matchlevel level h matchh branch =
     (if level \<ge> 32 then None
      else if bit count level then Some (level, h, matchh, branch)
      else let (matchh', branch') = push_sibling pbranch inner matchlevel level h matchh branch
           in propagate pbranch count inner matchlevel (level + 1) (combine_hashes (inner ! level) h) matchh' branch')"
  by pat_completeness auto
termination
  by (relation "measure (\<lambda>(_, _, _, _, level, _). 32 - level)") auto

declare propagate.simps [simp del]

lemma propagate_level: "propagate p c inner m level h b br = Some (level', h', b', br') \<Longrightarrow> level \<le> level' \<and> level' < 32"
  by (induction p c inner m level h b br rule: propagate.induct)
    (subst (asm) (2) propagate.simps, fastforce split: if_splits prod.splits)

function sweep :: "bool \<Rightarrow> bytes list \<Rightarrow> int \<Rightarrow> nat \<Rightarrow> nat \<Rightarrow> bytes \<Rightarrow> bool \<Rightarrow> bytes list \<Rightarrow> (bytes \<times> bytes list) option" where
  "sweep pbranch inner matchlevel count level h matchh branch =
     (if level \<ge> 32 then None
      else if count = 2 ^ level then Some (h, branch)
      else let branch' = (if pbranch \<and> matchh then branch @ [h] else branch);
               count' = (count + 2 ^ level) mod 2 ^ 32
           in case propagate pbranch count' inner matchlevel (level + 1) (combine_hashes h h) matchh branch' of
                None \<Rightarrow> None
              | Some (level', h', matchh', branch'') \<Rightarrow> sweep pbranch inner matchlevel count' level' h' matchh' branch'')"
  by pat_completeness auto
termination
  by (relation "measure (\<lambda>(_, _, _, _, level, _). 32 - level)") (auto dest!: propagate_level)

declare sweep.simps [simp del]

text \<open>The results are the root, \<^verbatim>\<open>*pmutated\<close> and the branch, which is collected if \<open>pbranch\<close> holds.\<close>

definition MerkleComputation :: "bytes list \<Rightarrow> nat \<Rightarrow> bool \<Rightarrow> (bytes \<times> bool \<times> bytes list) option" where
  "MerkleComputation leaves branchpos pbranch =
     (if leaves = [] then Some (null256, False, [])
      else case process_leaves pbranch branchpos leaves
                  \<lparr>ms_count = 0, ms_inner = replicate 32 null256, ms_matchlevel = - 1, ms_mutated = False, ms_branch = []\<rparr> of
             None \<Rightarrow> None
           | Some s \<Rightarrow>
               (case lowest_level (ms_count s) 0 of
                  None \<Rightarrow> None
                | Some level \<Rightarrow>
                    map_option (\<lambda>(h, branch). (h, ms_mutated s, branch))
                      (sweep pbranch (ms_inner s) (ms_matchlevel s) (ms_count s) level (ms_inner s ! level)
                         (ms_matchlevel s = int level) (ms_branch s))))"

definition ComputeMerkleRoot :: "bytes list \<Rightarrow> (bytes \<times> bool) option" where
  "ComputeMerkleRoot leaves = map_option (\<lambda>(root, mutated, _). (root, mutated)) (MerkleComputation leaves (2 ^ 32 - 1) False)"

definition ComputeMerkleBranch :: "bytes list \<Rightarrow> nat \<Rightarrow> bytes list option" where
  "ComputeMerkleBranch leaves position = map_option (\<lambda>(_, _, branch). branch) (MerkleComputation leaves position True)"

fun ComputeMerkleRootFromBranch :: "bytes \<Rightarrow> bytes list \<Rightarrow> nat \<Rightarrow> bytes" where
  "ComputeMerkleRootFromBranch hash [] nIndex = hash"
| "ComputeMerkleRootFromBranch hash (it # vMerkleBranch) nIndex =
     ComputeMerkleRootFromBranch (if odd nIndex then combine_hashes it hash else combine_hashes hash it)
       vMerkleBranch (nIndex div 2)"

definition BlockMerkleRoot :: "CBlock \<Rightarrow> (bytes \<times> bool) option" where
  "BlockMerkleRoot block = ComputeMerkleRoot (map CTransaction_GetHash (vtx block))"

definition BlockMerkleBranch :: "CBlock \<Rightarrow> nat \<Rightarrow> bytes list option" where
  "BlockMerkleBranch block position = ComputeMerkleBranch (map CTransaction_GetHash (vtx block)) position"

section \<open>The tree level by level\<close>

fun hash_level :: "bytes list \<Rightarrow> bytes list" where
  "hash_level (a # b # xs) = combine_hashes a b # hash_level xs"
| "hash_level [a] = [combine_hashes a a]"
| "hash_level [] = []"

text \<open>The hashes at a level: those of the leaves are at level 0.\<close>

primrec tree_level :: "bytes list \<Rightarrow> nat \<Rightarrow> bytes list" where
  "tree_level xs 0 = xs"
| "tree_level xs (Suc l) = hash_level (tree_level xs l)"

lemma length_hash_level: "length (hash_level xs) = (length xs + 1) div 2"
  by (induction xs rule: hash_level.induct) auto

function merkle_root :: "bytes list \<Rightarrow> bytes" where
  "merkle_root xs = (case xs of [] \<Rightarrow> null256 | [x] \<Rightarrow> x | _ \<Rightarrow> merkle_root (hash_level xs))"
  by pat_completeness auto
termination
  by (relation "measure length") (auto simp: length_hash_level)

declare merkle_root.simps [simp del]

lemma nth_hash_level:
  "i < (length xs + 1) div 2 \<Longrightarrow>
   hash_level xs ! i = combine_hashes (xs ! (2 * i)) (xs ! (if 2 * i + 1 < length xs then 2 * i + 1 else 2 * i))"
proof (induction xs arbitrary: i rule: hash_level.induct)
  case (1 a b xs)
  then show ?case by (cases i) auto
qed auto

definition tree_width :: "nat \<Rightarrow> nat \<Rightarrow> nat" where
  "tree_width n l = (n + 2 ^ l - 1) div 2 ^ l"

lemma tree_width_0 [simp]: "tree_width n 0 = n"
  by (simp add: tree_width_def)

lemma div_half: "(a div 2 ^ l + 1) div 2 = (a + 2 ^ l) div 2 ^ Suc l" for a :: nat
proof -
  have "(a + 2 ^ l) div 2 ^ Suc l = (a + 2 ^ l) div 2 ^ l div 2"
    by (simp only: power_Suc2 div_mult2_eq)
  also have "(a + 2 ^ l) div 2 ^ l = a div 2 ^ l + 1"
    using div_add_self2 [of "2 ^ l" a] by simp
  finally show ?thesis by simp
qed

lemma tree_width_Suc: "tree_width n (Suc l) = (tree_width n l + 1) div 2"
proof -
  have "(n + 2 ^ l - 1) + 2 ^ l = n + 2 ^ Suc l - (1 :: nat)"
    using one_le_power [of "2 :: nat" l] by simp
  then show ?thesis
    by (simp only: tree_width_def div_half)
qed

lemma length_tree_level [simp]: "length (tree_level xs l) = tree_width (length xs) l"
  by (induction l) (simp_all add: length_hash_level tree_width_Suc)

lemma tree_width_le_iff: "tree_width n l \<le> m \<longleftrightarrow> n \<le> m * 2 ^ l"
proof -
  have "tree_width n l < Suc m \<longleftrightarrow> n + 2 ^ l - 1 < Suc m * 2 ^ l"
    unfolding tree_width_def by (simp add: div_less_iff_less_mult)
  also have "\<dots> \<longleftrightarrow> n \<le> m * 2 ^ l"
    using zero_less_power [of "2 :: nat" l] unfolding mult_Suc by linarith
  finally show ?thesis by (simp add: less_Suc_eq_le)
qed

lemma less_tree_width_iff: "m < tree_width n l \<longleftrightarrow> m * 2 ^ l < n"
  using tree_width_le_iff [of n l m] by linarith

lemma tree_width_dvd: "2 ^ l dvd n \<Longrightarrow> tree_width n l = n div 2 ^ l"
proof (elim dvdE)
  fix k assume n: "n = 2 ^ l * k"
  then have "tree_width n l \<le> m \<longleftrightarrow> k \<le> m" for m
    by (simp add: tree_width_le_iff mult.commute [of k])
  then have "tree_width n l = k"
    by (meson antisym order_refl)
  then show "tree_width n l = n div 2 ^ l"
    using n by simp
qed

lemma tree_width_not_dvd: "\<not> 2 ^ l dvd n \<Longrightarrow> tree_width n l = n div 2 ^ l + 1"
proof -
  assume "\<not> 2 ^ l dvd n"
  then have "n div 2 ^ l * 2 ^ l \<noteq> n" by (metis dvd_triv_right)
  then have "n div 2 ^ l < tree_width n l"
    unfolding less_tree_width_iff using div_times_less_eq_dividend [of n "2 ^ l"] by linarith
  moreover have "tree_width n l \<le> n div 2 ^ l + 1"
    unfolding tree_width_le_iff using dividend_less_div_times [of "2 ^ l" n] by (simp add: add.commute)
  ultimately show ?thesis by simp
qed

lemma tree_level_Suc_nth:
  "i < tree_width (length xs) (Suc l) \<Longrightarrow>
   tree_level xs (Suc l) ! i =
     combine_hashes (tree_level xs l ! (2 * i))
       (tree_level xs l ! (if 2 * i + 1 < tree_width (length xs) l then 2 * i + 1 else 2 * i))"
  by (simp add: nth_hash_level tree_width_Suc)

text \<open>A node whose leaves are all there combines two children.\<close>

lemma tree_level_complete:
  assumes "2 ^ Suc l dvd c" "0 < c" "c \<le> length xs"
  shows "tree_level xs (Suc l) ! (c div 2 ^ Suc l - 1) =
    combine_hashes (tree_level xs l ! (c div 2 ^ l - 2)) (tree_level xs l ! (c div 2 ^ l - 1))"
proof -
  obtain q where q: "c = 2 ^ Suc l * q" using assms(1) by (auto elim: dvdE)
  then have q0: "0 < q" using assms(2) by auto
  have d: "c div 2 ^ Suc l = q" "c div 2 ^ l = 2 * q"
    using q by (simp, simp add: ac_simps)
  have "(2 * q - 1) * 2 ^ l < 2 * q * 2 ^ l"
    using q0 by simp
  also have "\<dots> \<le> length xs"
    using assms(3) q by (simp add: ac_simps)
  finally have w: "2 * q - 1 < tree_width (length xs) l"
    unfolding less_tree_width_iff .
  have "q - 1 < tree_width (length xs) (Suc l)"
    using w q0 by (simp add: tree_width_Suc)
  moreover have "2 * (q - 1) + 1 = 2 * q - 1" "2 * (q - 1) = 2 * q - 2"
    using q0 by simp_all
  ultimately show ?thesis
    using w by (simp only: d tree_level_Suc_nth) simp
qed

section \<open>The computation in constant space\<close>

text \<open>
  After \<open>c\<close> leaves, \<^verbatim>\<open>inner[l]\<close> is the last complete node of level \<open>l\<close>, for each bit \<open>l\<close> of \<open>c\<close>.
\<close>

definition inner_ok :: "bytes list \<Rightarrow> nat \<Rightarrow> bytes list \<Rightarrow> bool" where
  "inner_ok xs c inner \<longleftrightarrow> length inner = 32 \<and> (\<forall>l<32. bit c l \<longrightarrow> inner ! l = tree_level xs l ! (c div 2 ^ l - 1))"

text \<open>Two equal hashes are combined within the first \<open>c\<close> leaves.\<close>

definition equal_pair :: "bytes list \<Rightarrow> nat \<Rightarrow> bool" where
  "equal_pair xs c \<longleftrightarrow> (\<exists>l i. (2 * i + 2) * 2 ^ l \<le> c \<and> tree_level xs l ! (2 * i) = tree_level xs l ! (2 * i + 1))"

text \<open>The siblings of the nodes above leaf \<open>pos\<close>, up to a level.\<close>

definition sibling :: "bytes list \<Rightarrow> nat \<Rightarrow> nat \<Rightarrow> bytes" where
  "sibling xs pos l =
     (let p = pos div 2 ^ l in
      tree_level xs l ! (if odd p then p - 1 else if p + 1 < tree_width (length xs) l then p + 1 else p))"

abbreviation siblings :: "bytes list \<Rightarrow> nat \<Rightarrow> nat \<Rightarrow> bytes list" where
  "siblings xs pos l \<equiv> map (sibling xs pos) [0..<l]"

text \<open>The node of \<^verbatim>\<open>matchlevel\<close> is above the leaf \<open>pos\<close> and the branch is known up to it.\<close>

definition matched_at :: "bytes list \<Rightarrow> nat \<Rightarrow> nat \<Rightarrow> nat \<Rightarrow> int \<Rightarrow> bytes list \<Rightarrow> bool" where
  "matched_at xs pos c l matchlevel branch \<longleftrightarrow>
     (\<exists>k\<ge>l. matchlevel = int k \<and> bit c k \<and> pos div 2 ^ k = c div 2 ^ k - 1 \<and> branch = siblings xs pos k)"

subsection \<open>Binary counters\<close>

lemma div_pred:
  assumes "2 ^ l dvd Suc c"
  shows "c div 2 ^ l = Suc c div 2 ^ l - 1"
proof -
  obtain q where q: "Suc c = 2 ^ l * q" using assms by (elim dvdE)
  then obtain r where r: "q = Suc r" by (cases q) auto
  have "Suc c = 2 ^ l * r + 2 ^ l" "c < 2 ^ l * Suc r"
    using q r by simp_all
  then have "2 ^ l * r \<le> c" "c < 2 ^ l * Suc r"
    using zero_less_power [of "2 :: nat" l] by linarith+
  then have "c div 2 ^ l = r"
    by (rule div_nat_eqI)
  then show ?thesis using q r by simp
qed

lemma bit_pred: "2 ^ l dvd Suc c \<Longrightarrow> bit c l \<longleftrightarrow> \<not> bit (Suc c) l"
  by (auto simp: bit_iff_odd div_pred elim!: dvdE) (metis Suc_pred even_Suc gr0I mult_0_right nat.distinct(1))+

lemma not_bit_dvd: "2 ^ l dvd c \<Longrightarrow> \<not> bit c l \<longleftrightarrow> 2 ^ Suc l dvd (c :: nat)"
  by (auto simp: bit_iff_odd elim!: dvdE)

lemma not_bit_below: "2 ^ l dvd c \<Longrightarrow> k < l \<Longrightarrow> \<not> bit (c :: nat) k"
  using not_bit_dvd [of k c] by (meson Suc_leI dvd_trans le_imp_power_dvd less_imp_le)

lemma div_above:
  assumes "2 ^ l dvd Suc c" "bit (Suc c) l" "l < k"
  shows "Suc c div 2 ^ k = c div 2 ^ k"
proof -
  obtain j where k: "k = l + 1 + j"
    using assms(3) less_imp_Suc_add by auto
  have e: "x div 2 ^ k = x div 2 ^ l div 2 div 2 ^ j" for x :: nat
    by (simp only: k power_add power_one_right div_mult2_eq)
  have "odd (Suc c div 2 ^ l)"
    using assms(2) by (simp add: bit_iff_odd)
  then have "Suc c div 2 ^ l div 2 = (Suc c div 2 ^ l - 1) div 2"
    by (auto elim!: oddE)
  then show ?thesis
    by (simp only: e div_pred [OF assms(1)])
qed

lemma bit_above: "2 ^ l dvd Suc c \<Longrightarrow> bit (Suc c) l \<Longrightarrow> l < k \<Longrightarrow> bit (Suc c) k \<longleftrightarrow> bit c k"
  by (simp add: bit_iff_odd div_above)

lemma bit_small: "bit (c :: nat) l \<Longrightarrow> c < 2 ^ k \<Longrightarrow> l < k"
  by (metis bit_iff_odd div_less even_zero leI le_less_trans less_exp linorder_not_less order_less_le_trans power_increasing_iff one_less_numeral_iff semiring_norm(76))

subsection \<open>Adding a leaf\<close>

text \<open>
  While a leaf is merged into the subtrees before it, \<open>h\<close> is the node of level \<open>l\<close> that ends with the leaf.
\<close>

definition merging :: "bytes list \<Rightarrow> nat \<Rightarrow> bool \<Rightarrow> nat \<Rightarrow> nat \<Rightarrow> int \<Rightarrow> bool \<Rightarrow> bytes list \<Rightarrow> bool" where
  "merging xs pos pbranch c l matchlevel matchh branch \<longleftrightarrow>
     (pbranch \<longrightarrow>
        (if matchh then pos div 2 ^ l = Suc c div 2 ^ l - 1 \<and> branch = siblings xs pos l
         else if pos < c then matched_at xs pos c l matchlevel branch
         else c < pos \<and> matchlevel = - 1 \<and> branch = []))"

lemma siblings_Suc: "siblings xs pos (Suc l) = siblings xs pos l @ [sibling xs pos l]"
  by simp

lemma sibling_odd: "pos div 2 ^ l = Suc (2 * i) \<Longrightarrow> sibling xs pos l = tree_level xs l ! (2 * i)"
  by (simp add: sibling_def)

lemma sibling_even:
  "pos div 2 ^ l = 2 * i \<Longrightarrow> Suc (2 * i) < tree_width (length xs) l \<Longrightarrow> sibling xs pos l = tree_level xs l ! Suc (2 * i)"
  by (simp add: sibling_def)

lemma sibling_last:
  "pos div 2 ^ l = 2 * i \<Longrightarrow> \<not> Suc (2 * i) < tree_width (length xs) l \<Longrightarrow> sibling xs pos l = tree_level xs l ! (2 * i)"
  by (simp add: sibling_def)

text \<open>The nodes of a step up to level \<open>Suc l\<close>, when the counter \<open>Suc c\<close> ends with \<open>Suc l\<close> zeros.\<close>

lemma carry_nodes:
  assumes "2 ^ Suc l dvd Suc c" "Suc c \<le> length xs"
  obtains i where "Suc c div 2 ^ l = 2 * i + 2" "c div 2 ^ l = 2 * i + 1" "Suc c div 2 ^ Suc l = i + 1"
    "(2 * i + 2) * 2 ^ l = Suc c" "Suc (2 * i) < tree_width (length xs) l"
    "tree_level xs (Suc l) ! i = combine_hashes (tree_level xs l ! (2 * i)) (tree_level xs l ! (2 * i + 1))"
proof -
  obtain q where q: "Suc c = 2 ^ Suc l * q" using assms(1) by (elim dvdE)
  then obtain i where i: "q = Suc i" by (cases q) auto
  have e: "Suc c = (2 * i + 2) * 2 ^ l"
    using q i by (simp add: algebra_simps)
  then have d: "Suc c div 2 ^ l = 2 * i + 2"
    by (metis nonzero_mult_div_cancel_right power_not_zero zero_neq_numeral)
  have "c div 2 ^ l = 2 * i + 1"
    using div_pred [of l c] e d by simp
  moreover have d': "Suc c div 2 ^ Suc l = i + 1"
    using q i by (metis Suc_eq_plus1 nonzero_mult_div_cancel_left power_not_zero zero_neq_numeral)
  moreover have "Suc (2 * i) * 2 ^ l + 2 ^ l = Suc c"
    using e by simp
  then have "Suc (2 * i) < tree_width (length xs) l"
    unfolding less_tree_width_iff using assms(2) zero_less_power [of "2 :: nat" l] by linarith
  ultimately show thesis
    using that [of i] tree_level_complete [OF assms(1) _ assms(2)] d e by simp
qed

lemma merging_step:
  assumes m: "merging xs pos pbranch c l matchlevel matchh branch"
    and d: "2 ^ Suc l dvd Suc c" "Suc c \<le> length xs"
    and inner: "inner ! l = tree_level xs l ! (c div 2 ^ l - 1)" and h: "h = tree_level xs l ! (Suc c div 2 ^ l - 1)"
    and p: "push_sibling pbranch inner matchlevel l h matchh branch = (matchh', branch')"
  shows "merging xs pos pbranch c (Suc l) matchlevel matchh' branch'"
proof -
  obtain i where i: "Suc c div 2 ^ l = 2 * i + 2" "c div 2 ^ l = 2 * i + 1" "Suc c div 2 ^ Suc l = i + 1"
      "Suc (2 * i) < tree_width (length xs) l"
    using carry_nodes [OF d] by metis
  have up: "pos div 2 ^ Suc l = i" if "pos div 2 ^ l = 2 * i \<or> pos div 2 ^ l = Suc (2 * i)"
    using that by (auto simp only: power_Suc2 div_mult2_eq)
  show ?thesis
  proof (cases "pbranch \<and> (matchh \<or> matchlevel = int l)")
    case False
    then show ?thesis
      using m p unfolding merging_def matched_at_def push_sibling_def
      by (auto split: if_splits)
  next
    case True
    have "pos div 2 ^ l = (if matchh then Suc (2 * i) else 2 * i)" "branch = siblings xs pos l"
      using m True i unfolding merging_def matched_at_def by (auto split: if_splits)
    then show ?thesis
      using True p up i sibling_odd [of pos l i xs] sibling_even [of pos l i xs] inner h
      by (auto simp: merging_def push_sibling_def siblings_Suc split: if_splits simp del: upt_Suc)
  qed
qed

lemma merge_leaf_correct:
  assumes "Suc c \<le> length xs" "Suc c < 2 ^ 32" "inner_ok xs c inner"
  shows "2 ^ l dvd Suc c \<Longrightarrow> h = tree_level xs l ! (Suc c div 2 ^ l - 1) \<Longrightarrow>
    merging xs pos pbranch c l matchlevel matchh branch \<Longrightarrow>
    mutated = (equal_pair xs c \<or> (\<exists>k<l. \<exists>i. (2 * i + 2) * 2 ^ k = Suc c \<and> tree_level xs k ! (2 * i) = tree_level xs k ! (2 * i + 1))) \<Longrightarrow>
    \<exists>l' matchh' branch'. merge_leaf pbranch (Suc c) inner matchlevel l h matchh mutated branch =
        Some (l', tree_level xs l' ! (Suc c div 2 ^ l' - 1), matchh', equal_pair xs (Suc c), branch') \<and>
      2 ^ l' dvd Suc c \<and> bit (Suc c) l' \<and> merging xs pos pbranch c l' matchlevel matchh' branch'"
proof (induction "32 - l" arbitrary: l h matchh mutated branch rule: less_induct)
  case less
  have "(2 :: nat) ^ l < 2 ^ 32"
    using dvd_imp_le [OF less.prems(1)] assms(2) by simp
  then have l: "l < 32" by (rule power_less_imp_less_exp [rotated]) simp
  show ?case
  proof (cases "bit (Suc c) l")
    case True
    have "(\<exists>k<l. \<exists>i. (2 * i + 2) * 2 ^ k = Suc c \<and> tree_level xs k ! (2 * i) = tree_level xs k ! (2 * i + 1)) \<longleftrightarrow>
        (\<exists>k i. (2 * i + 2) * 2 ^ k = Suc c \<and> tree_level xs k ! (2 * i) = tree_level xs k ! (2 * i + 1))"
    proof -
      have "k < l" if "(2 * i + 2) * 2 ^ k = Suc c" for k i
      proof (rule ccontr)
        assume "\<not> k < l"
        then have "2 ^ Suc l dvd (2 :: nat) ^ Suc k" by (simp only: le_imp_power_dvd Suc_le_mono not_less)
        also have "(2 :: nat) ^ Suc k dvd Suc c" using that by (metis add_mult_distrib2 dvd_triv_right mult.assoc mult.commute mult_2 nat_mult_1_right power_Suc)
        finally show False using not_bit_dvd [OF less.prems(1)] True by simp
      qed
      then show ?thesis by blast
    qed
    then have "mutated = equal_pair xs (Suc c)"
      using less.prems(4) by (auto simp: equal_pair_def le_Suc_eq)
    then show ?thesis
      using True l less.prems by (subst merge_leaf.simps) auto
  next
    case False
    then have d: "2 ^ Suc l dvd Suc c" using not_bit_dvd less.prems(1) by blast
    obtain i where i: "Suc c div 2 ^ l = 2 * i + 2" "c div 2 ^ l = 2 * i + 1" "Suc c div 2 ^ Suc l = i + 1"
        "(2 * i + 2) * 2 ^ l = Suc c" "tree_level xs (Suc l) ! i = combine_hashes (tree_level xs l ! (2 * i)) (tree_level xs l ! (2 * i + 1))"
      using carry_nodes [OF d assms(1)] by metis
    have inner: "inner ! l = tree_level xs l ! (2 * i)"
      using assms(3) l bit_pred [OF less.prems(1)] False i(2) by (simp add: inner_ok_def)
    obtain mh br where p: "push_sibling pbranch inner matchlevel l h matchh branch = (mh, br)" by fastforce
    have h: "h = tree_level xs l ! (2 * i + 1)" using less.prems(2) i(1) by simp
    have u: "(2 * j + 2) * 2 ^ l = Suc c \<longleftrightarrow> j = i" for j
      using i(4) by (metis add_right_cancel mult_cancel2 mult_left_cancel power_not_zero zero_neq_numeral)
    have "\<exists>l' matchh' branch'. merge_leaf pbranch (Suc c) inner matchlevel (Suc l) (combine_hashes (inner ! l) h) mh (mutated \<or> inner ! l = h) br =
        Some (l', tree_level xs l' ! (Suc c div 2 ^ l' - 1), matchh', equal_pair xs (Suc c), branch') \<and>
      2 ^ l' dvd Suc c \<and> bit (Suc c) l' \<and> merging xs pos pbranch c l' matchlevel matchh' branch'"
    proof (rule less.hyps)
      show "32 - Suc l < 32 - l" using l by simp
      show "merging xs pos pbranch c (Suc l) matchlevel mh br"
        by (rule merging_step [OF less.prems(3) d assms(1) _ less.prems(2) p]) (simp add: inner i)
      show "(mutated \<or> inner ! l = h) = (equal_pair xs c \<or> (\<exists>k<Suc l. \<exists>i. (2 * i + 2) * 2 ^ k = Suc c \<and> tree_level xs k ! (2 * i) = tree_level xs k ! (2 * i + 1)))"
        unfolding less_Suc_eq using u by (auto simp: less.prems(4) inner h)
    qed (use d i inner h in \<open>simp_all del: tree_level.simps\<close>)
    then show ?thesis
      using False l p by (subst merge_leaf.simps) simp
  qed
qed

definition leaves_inv :: "bytes list \<Rightarrow> nat \<Rightarrow> bool \<Rightarrow> nat \<Rightarrow> merkle_state \<Rightarrow> bool" where
  "leaves_inv xs pos pbranch c s \<longleftrightarrow>
     ms_count s = c \<and> inner_ok xs c (ms_inner s) \<and> ms_mutated s = equal_pair xs c \<and>
     (pbranch \<longrightarrow> (if pos < c then matched_at xs pos c 0 (ms_matchlevel s) (ms_branch s)
                  else ms_matchlevel s = - 1 \<and> ms_branch s = []))"

lemma inner_ok_carry:
  assumes "inner_ok xs c inner" "2 ^ l dvd Suc c" "bit (Suc c) l" "l < 32"
  shows "inner_ok xs (Suc c) (inner[l := tree_level xs l ! (Suc c div 2 ^ l - 1)])"
proof -
  have "bit c k \<and> Suc c div 2 ^ k = c div 2 ^ k" if "bit (Suc c) k" "k \<noteq> l" for k
    using that bit_above [OF assms(2,3), of k] div_above [OF assms(2,3), of k] not_bit_below [OF assms(2)]
    by (metis nat_neq_iff)
  then show ?thesis
    using assms(1,4) by (auto simp: inner_ok_def nth_list_update)
qed

lemma matched_at_carry:
  assumes "matched_at xs pos c l ml br" "2 ^ l dvd Suc c" "bit (Suc c) l"
  shows "matched_at xs pos (Suc c) 0 ml br"
proof -
  obtain k where k: "l \<le> k" "ml = int k" "bit c k" "pos div 2 ^ k = c div 2 ^ k - 1" "br = siblings xs pos k"
    using assms(1) by (auto simp: matched_at_def)
  have "l < k"
    using k(1,3) bit_pred [OF assms(2)] assms(3) by (metis le_neq_implies_less)
  then show ?thesis
    using k bit_above [OF assms(2,3)] div_above [OF assms(2,3)] by (auto simp: matched_at_def)
qed

lemma process_leaves_correct:
  "leaves_inv xs pos pbranch c s \<Longrightarrow> xs = take c xs @ leaves \<Longrightarrow> c + length leaves = length xs \<Longrightarrow> length xs < 2 ^ 32 \<Longrightarrow>
   \<exists>s'. process_leaves pbranch pos leaves s = Some s' \<and> leaves_inv xs pos pbranch (length xs) s'"
proof (induction leaves arbitrary: c s)
  case Nil
  then show ?case by auto
next
  case (Cons leaf leaves)
  note inv = Cons.prems(1) [unfolded leaves_inv_def]
  have c: "Suc c \<le> length xs" "Suc c < 2 ^ 32"
    using Cons.prems(3,4) by auto
  have leaf: "leaf = xs ! c"
    using Cons.prems(2,3) by (metis c(1) Suc_le_lessD length_take min.absorb4 nth_append_length)
  have m: "merging xs pos pbranch c 0 (ms_matchlevel s) (c = pos) (ms_branch s)"
    using inv by (auto simp: merging_def)
  obtain l matchh branch where r: "merge_leaf pbranch (Suc c) (ms_inner s) (ms_matchlevel s) 0 leaf (c = pos) (ms_mutated s) (ms_branch s) =
        Some (l, tree_level xs l ! (Suc c div 2 ^ l - 1), matchh, equal_pair xs (Suc c), branch)"
      "2 ^ l dvd Suc c" "bit (Suc c) l" "merging xs pos pbranch c l (ms_matchlevel s) matchh branch"
    using merge_leaf_correct [OF c conjunct1 [OF conjunct2 [OF inv]], where l = 0 and h = leaf, OF _ _ m] inv leaf by auto
  define s' where "s' = \<lparr>ms_count = Suc c, ms_inner = (ms_inner s)[l := tree_level xs l ! (Suc c div 2 ^ l - 1)],
    ms_matchlevel = (if matchh then int l else ms_matchlevel s), ms_mutated = equal_pair xs (Suc c), ms_branch = branch\<rparr>"
  have "pbranch \<longrightarrow> (if pos < Suc c then matched_at xs pos (Suc c) 0 (ms_matchlevel s') branch
      else ms_matchlevel s' = - 1 \<and> branch = [])"
  proof (cases matchh)
    case True
    have "pos < Suc c" if "pos div 2 ^ l = Suc c div 2 ^ l - 1"
    proof -
      have "0 < Suc c div 2 ^ l"
        using dvd_imp_le [OF r(2)] by (simp add: div_greater_zero_iff)
      then have "pos div 2 ^ l < Suc c div 2 ^ l"
        using that by linarith
      then show ?thesis by (metis div_le_mono linorder_not_less)
    qed
    then show ?thesis
      using True r(3,4) by (auto simp: merging_def matched_at_def s'_def)
  next
    case False
    then show ?thesis
      using r(2-4) matched_at_carry [of xs pos c l "ms_matchlevel s" branch]
      by (auto simp: merging_def s'_def split: if_splits)
  qed
  moreover have "inner_ok xs (Suc c) (ms_inner s')"
    using inner_ok_carry [OF conjunct1 [OF conjunct2 [OF inv]] r(2,3)] bit_small [OF r(3) c(2)] by (simp add: s'_def)
  moreover have "ms_count s' = Suc c" "ms_mutated s' = equal_pair xs (Suc c)" "ms_branch s' = branch"
    by (simp_all add: s'_def)
  ultimately have "leaves_inv xs pos pbranch (Suc c) s'"
    unfolding leaves_inv_def by simp
  moreover have "xs = take (Suc c) xs @ leaves"
    using Cons.prems(2,3) leaf c(1) by (metis append.assoc append_Cons append_Nil take_Suc_conv_app_nth Suc_le_eq)
  ultimately have "\<exists>s''. process_leaves pbranch pos leaves s' = Some s'' \<and> leaves_inv xs pos pbranch (length xs) s''"
    using Cons.prems(3,4) by (intro Cons.IH) auto
  then show ?case
    using r(1) inv c(2) by (simp add: s'_def)
qed

subsection \<open>The final sweep\<close>

text \<open>\<open>h\<close> is the last node of level \<open>l\<close>, and the counter is the number of leaves it would take to complete it.\<close>

definition sweeping :: "bytes list \<Rightarrow> nat \<Rightarrow> bool \<Rightarrow> nat \<Rightarrow> nat \<Rightarrow> bytes \<Rightarrow> int \<Rightarrow> bool \<Rightarrow> bytes list \<Rightarrow> bool" where
  "sweeping xs pos pbranch count l h matchlevel matchh branch \<longleftrightarrow>
     xs \<noteq> [] \<and> (\<forall>j<l. 2 ^ j < length xs) \<and> count = tree_width (length xs) l * 2 ^ l \<and>
     h = tree_level xs l ! (tree_width (length xs) l - 1) \<and>
     (pbranch \<longrightarrow> (if matchh then pos div 2 ^ l = tree_width (length xs) l - 1 \<and> branch = siblings xs pos l
                  else matched_at xs pos (length xs) l matchlevel branch))"

lemma sweeping_bounds:
  assumes "sweeping xs pos pbranch count l h matchlevel matchh branch" "length xs \<le> 2 ^ 31"
  shows "l \<le> 31" "count \<le> 2 ^ 31"
proof -
  have j: "\<forall>j<l. 2 ^ j < length xs" and c: "count = tree_width (length xs) l * 2 ^ l"
    using assms(1) by (auto simp: sweeping_def)
  show l: "l \<le> 31"
  proof (rule ccontr)
    assume "\<not> l \<le> 31"
    then have "2 ^ 31 < length xs" using j [rule_format, of 31] by simp
    then show False using assms(2) by simp
  qed
  then have e: "(2 :: nat) ^ (31 - l) * 2 ^ l = 2 ^ 31"
    by (simp flip: power_add)
  then have "tree_width (length xs) l \<le> 2 ^ (31 - l)"
    unfolding tree_width_le_iff using assms(2) by simp
  then have "tree_width (length xs) l * 2 ^ l \<le> 2 ^ (31 - l) * 2 ^ l"
    by (rule mult_right_mono) simp
  then show "count \<le> 2 ^ 31"
    using c e by simp
qed

lemma tree_width_pos: "xs \<noteq> [] \<Longrightarrow> 0 < tree_width (length xs) l"
  by (simp add: less_tree_width_iff)

lemma bit_width: "bit (tree_width n l * 2 ^ l) l \<longleftrightarrow> odd (tree_width n l)"
  by (simp add: bit_iff_odd)

lemma width_even:
  assumes "\<not> 2 ^ l dvd n" "even (tree_width n l)"
  obtains i where "tree_width n l = 2 * i + 2" "n div 2 ^ l = 2 * i + 1" "bit n l" "tree_width n (Suc l) = i + 1"
proof -
  have w: "tree_width n l = n div 2 ^ l + 1" using tree_width_not_dvd [OF assms(1)] .
  then have "odd (n div 2 ^ l)" using assms(2) by simp
  then obtain i where "n div 2 ^ l = 2 * i + 1" by (elim oddE)
  then show thesis using w that [of i] by (simp add: bit_iff_odd tree_width_Suc)
qed

lemma div_up: "pos div 2 ^ l = 2 * i \<or> pos div 2 ^ l = Suc (2 * i) \<Longrightarrow> pos div 2 ^ Suc l = (i :: nat)"
  by (auto simp only: power_Suc2 div_mult2_eq)

lemma propagate_step:
  assumes s: "sweeping xs pos pbranch count l h matchlevel matchh branch"
    and n: "\<not> 2 ^ l dvd length xs" "even (tree_width (length xs) l)" and inner: "inner_ok xs (length xs) inner" "l < 32"
    and p: "push_sibling pbranch inner matchlevel l h matchh branch = (matchh', branch')"
  shows "sweeping xs pos pbranch count (Suc l) (combine_hashes (inner ! l) h) matchlevel matchh' branch'"
proof -
  let ?n = "length xs"
  obtain i where i: "tree_width ?n l = 2 * i + 2" "?n div 2 ^ l = 2 * i + 1" "bit ?n l" "tree_width ?n (Suc l) = i + 1"
    using width_even [OF n] .
  have h: "h = tree_level xs l ! Suc (2 * i)" "inner ! l = tree_level xs l ! (2 * i)"
    using s inner i by (auto simp: sweeping_def inner_ok_def)
  have t: "tree_level xs (Suc l) ! i = combine_hashes (inner ! l) h"
    using i by (subst tree_level_Suc_nth) (simp_all add: h del: tree_level.simps)
  have "1 < tree_width ?n l" using i(1) by simp
  then have j: "2 ^ l < ?n" by (simp add: less_tree_width_iff)
  have b: "pbranch \<longrightarrow> (if matchh' then pos div 2 ^ Suc l = i \<and> branch' = siblings xs pos (Suc l)
      else matched_at xs pos ?n (Suc l) matchlevel branch')"
  proof (cases "pbranch \<and> (matchh \<or> matchlevel = int l)")
    case False
    then show ?thesis
      using s p unfolding sweeping_def matched_at_def push_sibling_def by (auto split: if_splits simp: Suc_le_eq le_less)
  next
    case True
    have "pos div 2 ^ l = (if matchh then Suc (2 * i) else 2 * i)" "branch = siblings xs pos l"
      using s True i unfolding sweeping_def matched_at_def by (auto split: if_splits)
    then show ?thesis
      using True p i sibling_odd [of pos l i xs] sibling_even [of pos l i xs] h div_up [of pos l i]
      by (auto simp: push_sibling_def siblings_Suc split: if_splits simp del: upt_Suc)
  qed
  show ?thesis
    using s j i t b by (auto simp: sweeping_def less_Suc_eq algebra_simps simp del: tree_level.simps upt_Suc)
qed

lemma propagate_correct:
  assumes "inner_ok xs (length xs) inner" "length xs \<le> 2 ^ 31"
  shows "sweeping xs pos pbranch count l h matchlevel matchh branch \<Longrightarrow> \<not> 2 ^ l dvd length xs \<Longrightarrow>
    \<exists>l' h' matchh' branch'. propagate pbranch count inner matchlevel l h matchh branch = Some (l', h', matchh', branch') \<and> l \<le> l' \<and>
      sweeping xs pos pbranch count l' h' matchlevel matchh' branch' \<and> odd (tree_width (length xs) l')"
proof (induction "32 - l" arbitrary: l h matchh branch rule: less_induct)
  case less
  have l: "l < 32" using sweeping_bounds(1) [OF less.prems(1) assms(2)] by simp
  have bit: "bit count l \<longleftrightarrow> odd (tree_width (length xs) l)"
    using less.prems(1) bit_width by (simp add: sweeping_def)
  show ?case
  proof (cases "bit count l")
    case True
    then show ?thesis using l bit less.prems by (subst propagate.simps) auto
  next
    case False
    obtain mh br where p: "push_sibling pbranch inner matchlevel l h matchh branch = (mh, br)" by fastforce
    have "\<not> 2 ^ Suc l dvd length xs" using less.prems(2) by (meson dvd_trans le_SucI le_imp_power_dvd order_refl)
    then have "\<exists>l' h' matchh' branch'. propagate pbranch count inner matchlevel (Suc l) (combine_hashes (inner ! l) h) mh br = Some (l', h', matchh', branch') \<and>
        Suc l \<le> l' \<and> sweeping xs pos pbranch count l' h' matchlevel matchh' branch' \<and> odd (tree_width (length xs) l')"
      using propagate_step [OF less.prems _ assms(1) l p] False bit l by (intro less.hyps) auto
    then show ?thesis
      using False l p by (subst propagate.simps) auto
  qed
qed

lemma merkle_root_tree_level:
  assumes "tree_width (length xs) d = 1" "\<forall>j<d. 2 ^ j < length xs"
  shows "merkle_root xs = tree_level xs d ! 0"
  using assms
proof (induction d arbitrary: xs)
  case 0
  then show ?case by (subst merkle_root.simps) (auto split: list.split)
next
  case (Suc d)
  have t: "tree_level ys (Suc k) = tree_level (hash_level ys) k" for ys k
    by (induction k) simp_all
  have w: "tree_width (length (hash_level xs)) k = tree_width (length xs) (Suc k)" for k
    using length_tree_level [of "hash_level xs" k] length_tree_level [of xs "Suc k"] by (simp only: t)
  have "2 ^ j < length (hash_level xs)" if "j < d" for j
    using Suc.prems(2) that less_tree_width_iff [of 1 "length (hash_level xs)" j] less_tree_width_iff [of 1 "length xs" "Suc j"] w [of j] by auto
  moreover have "1 < length xs"
    using Suc.prems(2) by fastforce
  then have "merkle_root xs = merkle_root (hash_level xs)"
    by (subst merkle_root.simps) (auto split: list.split)
  ultimately show ?case
    using Suc.IH [of "hash_level xs"] Suc.prems(1) w t by simp
qed

lemma matched_at_Suc: "matched_at xs pos c l ml br \<Longrightarrow> \<not> bit c l \<Longrightarrow> matched_at xs pos c (Suc l) ml br"
  by (auto simp: matched_at_def) (metis Suc_leI le_neq_implies_less)

text \<open>The step of the sweep that combines the last node of an odd level with itself.\<close>

lemma sweep_step:
  assumes s: "sweeping xs pos pbranch count l h matchlevel matchh branch"
    and w: "odd (tree_width (length xs) l)" "tree_width (length xs) l \<noteq> 1"
    and m: "pbranch \<longrightarrow> matchh \<or> matched_at xs pos (length xs) (Suc l) matchlevel branch"
  shows "sweeping xs pos pbranch (count + 2 ^ l) (Suc l) (combine_hashes h h) matchlevel matchh
    (if pbranch \<and> matchh then branch @ [h] else branch)" "\<not> 2 ^ Suc l dvd length xs"
proof -
  let ?n = "length xs"
  obtain i where i: "tree_width ?n l = 2 * i + 1" using w(1) by (elim oddE)
  then have iS: "tree_width ?n (Suc l) = i + 1" by (simp add: tree_width_Suc)
  have h: "h = tree_level xs l ! (2 * i)" using s i by (simp add: sweeping_def)
  have t: "tree_level xs (Suc l) ! i = combine_hashes h h"
    using i iS by (subst tree_level_Suc_nth) (simp_all add: h del: tree_level.simps)
  have "1 < tree_width ?n l" using i w(2) by simp
  then have j: "2 ^ l < ?n" by (simp add: less_tree_width_iff)
  have "pbranch \<longrightarrow> (if matchh then pos div 2 ^ Suc l = i \<and> branch @ [h] = siblings xs pos (Suc l)
      else matched_at xs pos ?n (Suc l) matchlevel branch)"
    using s m i sibling_last [of pos l i xs] h div_up [of pos l i] by (auto simp: sweeping_def siblings_Suc simp del: upt_Suc)
  then show "sweeping xs pos pbranch (count + 2 ^ l) (Suc l) (combine_hashes h h) matchlevel matchh
    (if pbranch \<and> matchh then branch @ [h] else branch)"
    using s j i iS t by (auto simp: sweeping_def less_Suc_eq algebra_simps simp del: tree_level.simps upt_Suc)
  show "\<not> 2 ^ Suc l dvd ?n"
  proof
    assume d: "2 ^ Suc l dvd ?n"
    then have "2 ^ l dvd ?n" by (meson dvd_trans le_SucI le_imp_power_dvd order_refl)
    then show False
      using not_bit_dvd [of l ?n] d tree_width_dvd [of l ?n] w(1) by (simp add: bit_iff_odd)
  qed
qed

lemma sweep_correct:
  assumes "inner_ok xs (length xs) inner" "length xs \<le> 2 ^ 31"
  shows "sweeping xs pos pbranch count l h matchlevel matchh branch \<Longrightarrow> odd (tree_width (length xs) l) \<Longrightarrow>
    pbranch \<longrightarrow> matchh \<or> matched_at xs pos (length xs) (Suc l) matchlevel branch \<Longrightarrow>
    \<exists>branch' d. sweep pbranch inner matchlevel count l h matchh branch = Some (merkle_root xs, branch') \<and>
      tree_width (length xs) d = 1 \<and> merkle_root xs = tree_level xs d ! 0 \<and> (pbranch \<longrightarrow> branch' = siblings xs pos d)"
proof (induction "32 - l" arbitrary: count l h matchh branch rule: less_induct)
  case less
  let ?n = "length xs"
  have l: "l < 32" using sweeping_bounds(1) [OF less.prems(1) assms(2)] by simp
  have c: "count = tree_width ?n l * 2 ^ l" using less.prems(1) by (simp add: sweeping_def)
  show ?case
  proof (cases "tree_width ?n l = 1")
    case True
    have "\<not> matched_at xs pos ?n (Suc l) matchlevel branch"
    proof
      assume "matched_at xs pos ?n (Suc l) matchlevel branch"
      then obtain k where k: "Suc l \<le> k" "bit ?n k" by (auto simp: matched_at_def)
      have "?n \<le> 2 ^ l" using True tree_width_le_iff [of ?n l 1] by simp
      moreover have "(2 :: nat) ^ l < 2 ^ k" using k(1) by simp
      ultimately have "?n < 2 ^ k" by linarith
      then show False using bit_small [OF k(2)] by blast
    qed
    moreover have "merkle_root xs = tree_level xs l ! 0"
      using merkle_root_tree_level [OF True] less.prems(1) by (simp add: sweeping_def)
    ultimately show ?thesis
      using True c l less.prems(1,3) by (subst sweep.simps) (auto simp: sweeping_def)
  next
    case False
    let ?br = "if pbranch \<and> matchh then branch @ [h] else branch"
    note s = sweep_step [OF less.prems(1,2) False less.prems(3)]
    have c32: "count + 2 ^ l < 2 ^ 32" using sweeping_bounds(2) [OF s(1) assms(2)] by simp
    obtain l' h' mh br where p: "propagate pbranch (count + 2 ^ l) inner matchlevel (Suc l) (combine_hashes h h) matchh ?br = Some (l', h', mh, br)"
        "Suc l \<le> l'" "sweeping xs pos pbranch (count + 2 ^ l) l' h' matchlevel mh br" "odd (tree_width ?n l')"
      using propagate_correct [OF assms s] by blast
    have "\<not> 2 ^ l' dvd ?n" using s(2) p(2) by (meson dvd_trans le_imp_power_dvd)
    then have "\<not> bit ?n l'" using p(4) by (simp add: bit_iff_odd tree_width_not_dvd)
    then have "pbranch \<longrightarrow> mh \<or> matched_at xs pos ?n (Suc l') matchlevel br"
      using p(3) matched_at_Suc by (auto simp: sweeping_def split: if_splits)
    then have "\<exists>branch' d. sweep pbranch inner matchlevel (count + 2 ^ l) l' h' mh br = Some (merkle_root xs, branch') \<and>
      tree_width ?n d = 1 \<and> merkle_root xs = tree_level xs d ! 0 \<and> (pbranch \<longrightarrow> branch' = siblings xs pos d)"
      using less.hyps [of l'] p l by auto
    then show ?thesis
      using False c c32 l p(1) by (subst sweep.simps) (auto simp: Let_def)
  qed
qed

lemma lowest_level_correct:
  assumes "0 < c" "c < 2 ^ 32"
  shows "2 ^ l dvd c \<Longrightarrow> \<exists>l'. lowest_level c l = Some l' \<and> 2 ^ l' dvd c \<and> bit c l' \<and> l' < 32"
proof (induction "32 - l" arbitrary: l rule: less_induct)
  case less
  have "(2 :: nat) ^ l < 2 ^ 32" using dvd_imp_le [OF less.prems assms(1)] assms(2) by simp
  then have l: "l < 32" by (rule power_less_imp_less_exp [rotated]) simp
  show ?case
  proof (cases "bit c l")
    case True
    then show ?thesis using l less.prems by (subst lowest_level.simps) auto
  next
    case False
    then show ?thesis
      using less.hyps [of "Suc l"] l not_bit_dvd [OF less.prems] by (subst lowest_level.simps) auto
  qed
qed

theorem MerkleComputation_correct:
  assumes "xs \<noteq> []" "length xs \<le> 2 ^ 31" "pbranch \<longrightarrow> pos < length xs"
  shows "\<exists>branch d. MerkleComputation xs pos pbranch = Some (merkle_root xs, equal_pair xs (length xs), branch) \<and>
    tree_width (length xs) d = 1 \<and> merkle_root xs = tree_level xs d ! 0 \<and> (pbranch \<longrightarrow> branch = siblings xs pos d)"
proof -
  let ?n = "length xs"
  let ?s0 = "\<lparr>ms_count = 0, ms_inner = replicate 32 null256, ms_matchlevel = - 1, ms_mutated = False, ms_branch = []\<rparr>"
  have "leaves_inv xs pos pbranch 0 ?s0"
    by (simp add: leaves_inv_def inner_ok_def equal_pair_def)
  then obtain s where s: "process_leaves pbranch pos xs ?s0 = Some s" "leaves_inv xs pos pbranch ?n s"
    using process_leaves_correct [of xs pos pbranch 0 ?s0 xs] assms(2) by auto
  note inv = s(2) [unfolded leaves_inv_def]
  have n: "0 < ?n" "?n < 2 ^ 32" using assms(1,2) by auto
  obtain l where l: "lowest_level ?n 0 = Some l" "2 ^ l dvd ?n" "bit ?n l" "l < 32"
    using lowest_level_correct [OF n, of 0] by auto
  have w: "tree_width ?n l = ?n div 2 ^ l" "odd (?n div 2 ^ l)"
    using tree_width_dvd [OF l(2)] l(3) by (simp_all add: bit_iff_odd)
  have "2 ^ l \<le> ?n" using dvd_imp_le [OF l(2) n(1)] .
  then have small: "2 ^ j < ?n" if "j < l" for j
    using power_strict_increasing [OF that, of "2 :: nat"] by linarith
  have m: "pbranch \<longrightarrow> (if ms_matchlevel s = int l then pos div 2 ^ l = ?n div 2 ^ l - 1 \<and> ms_branch s = siblings xs pos l
      else matched_at xs pos ?n (Suc l) (ms_matchlevel s) (ms_branch s))"
    using inv assms(3) not_bit_below [OF l(2)] unfolding matched_at_def by (auto simp: Suc_le_eq) (meson linorder_neqE_nat)+
  have sw: "sweeping xs pos pbranch ?n l (ms_inner s ! l) (ms_matchlevel s) (ms_matchlevel s = int l) (ms_branch s)"
    unfolding sweeping_def using inv assms(1) l w small m Suc_leD by (auto simp: inner_ok_def matched_at_def)
  show ?thesis
    using sweep_correct [OF _ assms(2) sw] m inv w l(1) s(1) assms(1) by (auto simp: MerkleComputation_def split: if_splits)
qed

subsection \<open>Branches\<close>

lemma tree_level_sibling:
  assumes "pos < length xs"
  shows "tree_level xs (Suc l) ! (pos div 2 ^ Suc l) =
    (if odd (pos div 2 ^ l) then combine_hashes (sibling xs pos l) (tree_level xs l ! (pos div 2 ^ l))
     else combine_hashes (tree_level xs l ! (pos div 2 ^ l)) (sibling xs pos l))"
proof -
  let ?p = "pos div 2 ^ l"
  have up: "pos div 2 ^ Suc l = ?p div 2"
    by (simp only: power_Suc2 div_mult2_eq)
  have below: "pos div 2 ^ k < tree_width (length xs) k" for k
    unfolding less_tree_width_iff using div_times_less_eq_dividend [of pos "2 ^ k"] assms by linarith
  then have "tree_level xs (Suc l) ! (?p div 2) = combine_hashes (tree_level xs l ! (2 * (?p div 2)))
       (tree_level xs l ! (if 2 * (?p div 2) + 1 < tree_width (length xs) l then 2 * (?p div 2) + 1 else 2 * (?p div 2)))"
    using below [of "Suc l"] up by (intro tree_level_Suc_nth) (simp del: power_Suc)
  then show ?thesis
    unfolding up sibling_def Let_def using below [of l]
    by (cases "even ?p") (auto elim!: evenE oddE simp del: tree_level.simps)
qed

lemma ComputeMerkleRootFromBranch_siblings:
  assumes "pos < length xs"
  shows "ComputeMerkleRootFromBranch (tree_level xs l ! (pos div 2 ^ l)) (map (sibling xs pos) [l..<l + k]) (pos div 2 ^ l) =
    tree_level xs (l + k) ! (pos div 2 ^ (l + k))"
proof (induction k arbitrary: l)
  case (Suc k)
  have "[l..<l + Suc k] = l # [Suc l..<Suc l + k]"
    by (simp add: upt_conv_Cons)
  then show ?case
    using Suc.IH [of "Suc l"] tree_level_sibling [OF assms, of l]
    by (simp add: div_mult2_eq [symmetric] mult.commute [of "2 ^ l"] del: tree_level.simps upt_Suc)
qed simp

subsection \<open>Trees that can not be changed\<close>

text \<open>The pairs of hashes that are combined in the tree over \<open>xs\<close>.\<close>

definition hashed_pairs :: "bytes list \<Rightarrow> (bytes \<times> bytes) set" where
  "hashed_pairs xs =
     {(tree_level xs l ! (2 * i), tree_level xs l ! (if 2 * i + 1 < tree_width (length xs) l then 2 * i + 1 else 2 * i)) | l i.
        1 < tree_width (length xs) l \<and> 2 * i < tree_width (length xs) l}"

abbreviation collision_free :: "(bytes \<times> bytes) set \<Rightarrow> bool" where
  "collision_free A \<equiv> inj_on (\<lambda>(l, r). combine_hashes l r) A"

lemma tree_level_pair:
  assumes "i < tree_width (length xs) (Suc l)" "1 < tree_width (length xs) l"
  shows "\<exists>p\<in>hashed_pairs xs. tree_level xs (Suc l) ! i = (\<lambda>(l, r). combine_hashes l r) p \<and>
    p = (tree_level xs l ! (2 * i), tree_level xs l ! (if 2 * i + 1 < tree_width (length xs) l then 2 * i + 1 else 2 * i))"
proof -
  have "2 * i < tree_width (length xs) l"
    using assms(1) by (simp add: tree_width_Suc)
  then show ?thesis
    unfolding hashed_pairs_def using assms tree_level_Suc_nth [OF assms(1)] by (auto simp del: tree_level.simps)
qed

lemma pairs_equal:
  assumes "collision_free A" "hashed_pairs xs \<subseteq> A" "hashed_pairs ys \<subseteq> A"
    and "i < tree_width (length xs) (Suc l)" "1 < tree_width (length xs) l"
    and "j < tree_width (length ys) (Suc k)" "1 < tree_width (length ys) k"
    and "tree_level xs (Suc l) ! i = tree_level ys (Suc k) ! j"
  shows "tree_level xs l ! (2 * i) = tree_level ys k ! (2 * j)"
    "tree_level xs l ! (if 2 * i + 1 < tree_width (length xs) l then 2 * i + 1 else 2 * i) =
     tree_level ys k ! (if 2 * j + 1 < tree_width (length ys) k then 2 * j + 1 else 2 * j)"
proof -
  obtain p q where p: "p \<in> A" "tree_level xs (Suc l) ! i = (\<lambda>(l, r). combine_hashes l r) p"
      "p = (tree_level xs l ! (2 * i), tree_level xs l ! (if 2 * i + 1 < tree_width (length xs) l then 2 * i + 1 else 2 * i))"
    and q: "q \<in> A" "tree_level ys (Suc k) ! j = (\<lambda>(l, r). combine_hashes l r) q"
      "q = (tree_level ys k ! (2 * j), tree_level ys k ! (if 2 * j + 1 < tree_width (length ys) k then 2 * j + 1 else 2 * j))"
    using tree_level_pair [OF assms(4,5)] tree_level_pair [OF assms(6,7)] assms(2,3) by blast
  have "p = q"
    using inj_onD [OF assms(1) _ p(1) q(1)] p(2) q(2) assms(8) by argo
  then show "tree_level xs l ! (2 * i) = tree_level ys k ! (2 * j)"
    "tree_level xs l ! (if 2 * i + 1 < tree_width (length xs) l then 2 * i + 1 else 2 * i) =
     tree_level ys k ! (if 2 * j + 1 < tree_width (length ys) k then 2 * j + 1 else 2 * j)"
    using p(3) q(3) by (simp_all only: prod.inject)
qed

text \<open>Without equal pairs, a complete node differs from an incomplete one.\<close>

lemma complete_neq_incomplete:
  assumes "collision_free (hashed_pairs xs)" "\<not> equal_pair xs (length xs)"
  shows "(i + 1) * 2 ^ l \<le> length xs \<Longrightarrow> j < tree_width (length xs) l \<Longrightarrow> length xs < (j + 1) * 2 ^ l \<Longrightarrow>
    tree_level xs l ! i \<noteq> tree_level xs l ! j"
proof (induction l arbitrary: i j)
  case 0
  then show ?case by simp
next
  case (Suc l)
  have c: "(2 * i + 2) * 2 ^ l \<le> length xs" "length xs < (2 * j + 2) * 2 ^ l"
    using Suc.prems by (simp_all add: algebra_simps)
  have w: "2 * i + 1 < tree_width (length xs) l" 
    unfolding less_tree_width_iff using c(1) zero_less_power [of "2 :: nat" l] by (simp only: add_mult_distrib) linarith
  have i: "i < tree_width (length xs) (Suc l)" "1 < tree_width (length xs) l"
    using w by (auto simp: tree_width_Suc)
  have neq: "tree_level xs l ! (2 * i) \<noteq> tree_level xs l ! (2 * i + 1)"
    using assms(2) c(1) by (auto simp: equal_pair_def)
  show ?case
  proof
    assume e: "tree_level xs (Suc l) ! i = tree_level xs (Suc l) ! j"
    note p = pairs_equal [OF assms(1) order_refl order_refl i Suc.prems(2) i(2) e]
    show False
    proof (cases "2 * j + 1 < tree_width (length xs) l")
      case True
      then show False
        using p w Suc.IH [of "2 * i + 1" "2 * j + 1"] c by simp
    next
      case False
      then show False using p w neq by simp
    qed
  qed
qed

function tree_height :: "nat \<Rightarrow> nat" where
  "tree_height n = (if n \<le> 1 then 0 else Suc (tree_height ((n + 1) div 2)))"
  by pat_completeness auto
termination
  by (relation "measure id") auto

declare tree_height.simps [simp del]

lemma less_tree_height_iff: "l < tree_height n \<longleftrightarrow> 2 ^ l < n"
proof (induction l arbitrary: n)
  case 0
  then show ?case by (subst tree_height.simps) auto
next
  case (Suc l)
  have "a < (n + 1) div 2 \<longleftrightarrow> 2 * a < n" for a
    by presburger
  then have "2 ^ l < (n + 1) div 2 \<longleftrightarrow> 2 ^ Suc l < n"
    by simp
  moreover have "\<not> 2 ^ Suc l < n" if "n \<le> 1"
    using that one_le_power [of "2 :: nat" "Suc l"] by linarith
  ultimately show ?case
    using Suc.IH [of "(n + 1) div 2"] by (subst tree_height.simps) (simp del: power_Suc)
qed

lemma tree_width_height: "0 < n \<Longrightarrow> tree_width n (tree_height n) = 1"
  using less_tree_width_iff [of 0 n "tree_height n"] tree_width_le_iff [of n "tree_height n" 1] less_tree_height_iff [of "tree_height n" n]
  by (simp add: not_less)

lemma merkle_root_height: "xs \<noteq> [] \<Longrightarrow> merkle_root xs = tree_level xs (tree_height (length xs)) ! 0"
  by (intro merkle_root_tree_level) (simp_all add: tree_width_height flip: less_tree_height_iff)

lemma width_above_height: "l < tree_height n \<longleftrightarrow> 1 < tree_width n l"
  by (simp add: less_tree_height_iff less_tree_width_iff)

lemma half_eq: "(a + 1) div 2 = (b + 1) div 2 \<Longrightarrow> a < b \<Longrightarrow> \<exists>i. a = 2 * i + 1 \<and> b = 2 * i + (2 :: nat)"
  by presburger

lemma width_not_greater:
  assumes A: "collision_free A" "hashed_pairs xs \<subseteq> A" "hashed_pairs ys \<subseteq> A" and y: "\<not> equal_pair ys (length ys)"
    and e: "tree_level xs (Suc l) = tree_level ys (Suc k)"
    and w: "1 < tree_width (length xs) l" "1 < tree_width (length ys) k"
  shows "\<not> tree_width (length xs) l < tree_width (length ys) k"
proof
  let ?a = "tree_width (length xs) l" and ?b = "tree_width (length ys) k"
  assume lt: "?a < ?b"
  have "(?a + 1) div 2 = (?b + 1) div 2"
    using arg_cong [OF e, of length] by (simp only: length_tree_level tree_width_Suc)
  then obtain i where i: "?a = 2 * i + 1" "?b = 2 * i + 2"
    using lt half_eq by blast
  have iS: "i < tree_width (length xs) (Suc l)" "i < tree_width (length ys) (Suc k)"
    using i by (simp_all add: tree_width_Suc)
  have "tree_level ys k ! (2 * i) = tree_level ys k ! (2 * i + 1)"
    using pairs_equal [OF A iS(1) w(1) iS(2) w(2)] e i by simp
  moreover have "(2 * i + 1) * 2 ^ k \<le> length ys"
    using i less_tree_width_iff [of "2 * i + 1" "length ys" k] by simp
  ultimately show False
    using y complete_neq_incomplete [OF inj_on_subset [OF A(1,3)] y, of "2 * i" k "2 * i + 1"] i
    by (auto simp: equal_pair_def not_le)
qed

lemma level_down:
  assumes A: "collision_free A" "hashed_pairs xs \<subseteq> A" "hashed_pairs ys \<subseteq> A"
    and m: "\<not> equal_pair xs (length xs)" "\<not> equal_pair ys (length ys)"
    and e: "tree_level xs (Suc l) = tree_level ys (Suc k)"
    and w: "1 < tree_width (length xs) l" "1 < tree_width (length ys) k"
  shows "tree_level xs l = tree_level ys k"
proof (rule nth_equalityI)
  have eq: "tree_width (length xs) l = tree_width (length ys) k"
    using width_not_greater [OF A m(2) e w] width_not_greater [OF A(1,3,2) m(1) e [symmetric] w(2,1)] by simp
  then show "length (tree_level xs l) = length (tree_level ys k)" by simp
  fix j assume "j < length (tree_level xs l)"
  then have j: "j < tree_width (length xs) l" by simp
  then have i: "j div 2 < tree_width (length xs) (Suc l)" "j div 2 < tree_width (length ys) (Suc k)"
    using eq by (simp_all add: tree_width_Suc)
  show "tree_level xs l ! j = tree_level ys k ! j"
    using pairs_equal [OF A i(1) w(1) i(2) w(2)] e eq j by (cases "even j") (auto elim!: evenE oddE)
qed

lemma levels_equal:
  assumes A: "collision_free A" "hashed_pairs xs \<subseteq> A" "hashed_pairs ys \<subseteq> A"
    and m: "\<not> equal_pair xs (length xs)" "\<not> equal_pair ys (length ys)"
    and e: "tree_level xs (tree_height (length xs)) = tree_level ys (tree_height (length ys))"
  shows "d \<le> tree_height (length xs) \<Longrightarrow> d \<le> tree_height (length ys) \<Longrightarrow>
    tree_level xs (tree_height (length xs) - d) = tree_level ys (tree_height (length ys) - d)"
proof (induction d)
  case 0
  then show ?case using e by simp
next
  case (Suc d)
  let ?l = "tree_height (length xs) - Suc d" and ?k = "tree_height (length ys) - Suc d"
  have s: "Suc ?l = tree_height (length xs) - d" "Suc ?k = tree_height (length ys) - d"
    using Suc.prems by simp_all
  then have "tree_level xs (Suc ?l) = tree_level ys (Suc ?k)"
    unfolding s using Suc by simp
  moreover have "1 < tree_width (length xs) ?l" "1 < tree_width (length ys) ?k"
    using Suc.prems unfolding width_above_height [symmetric] by simp_all
  ultimately show ?case
    by (rule level_down [OF A m])
qed

text \<open>The hash of an inner node is not the hash of a transaction.\<close>

definition leaves_separate :: "bytes list \<Rightarrow> bytes list \<Rightarrow> bool" where
  "leaves_separate xs ys \<longleftrightarrow> (\<forall>x\<in>set xs. \<forall>(l, r)\<in>hashed_pairs ys. x \<noteq> combine_hashes l r)"

lemma height_not_less:
  assumes A: "collision_free A" "hashed_pairs xs \<subseteq> A" "hashed_pairs ys \<subseteq> A"
    and m: "\<not> equal_pair xs (length xs)" "\<not> equal_pair ys (length ys)" and ne: "xs \<noteq> []"
    and e: "tree_level xs (tree_height (length xs)) = tree_level ys (tree_height (length ys))" and s: "leaves_separate xs ys"
  shows "\<not> tree_height (length xs) < tree_height (length ys)"
proof
  let ?h = "tree_height (length xs)"
  assume lt: "?h < tree_height (length ys)"
  then obtain k where k: "tree_height (length ys) - ?h = Suc k" "k < tree_height (length ys)"
    by (metis Suc_diff_Suc diff_less_Suc less_SucE less_imp_diff_less not_less_eq)
  have eq: "xs = tree_level ys (Suc k)"
    using levels_equal [OF A m e, of ?h] lt k(1) by simp
  have "0 < tree_width (length ys) (Suc k)"
    using arg_cong [OF eq, of length] ne unfolding length_tree_level by (metis length_greater_0_conv)
  moreover have "1 < tree_width (length ys) k"
    using k(2) unfolding width_above_height .
  ultimately obtain p where "p \<in> hashed_pairs ys" "tree_level ys (Suc k) ! 0 = (\<lambda>(l, r). combine_hashes l r) p"
    using tree_level_pair [of 0 ys k] by blast
  moreover have "xs ! 0 \<in> set xs"
    using ne by simp
  ultimately show False
    using s eq by (auto simp: leaves_separate_def)
qed

lemma merkle_root_inject:
  assumes ne: "xs \<noteq> []" "ys \<noteq> []" and A: "collision_free (hashed_pairs xs \<union> hashed_pairs ys)"
    and s: "leaves_separate xs ys" "leaves_separate ys xs"
    and m: "\<not> equal_pair xs (length xs)" "\<not> equal_pair ys (length ys)" and r: "merkle_root xs = merkle_root ys"
  shows "xs = ys"
proof -
  let ?h = "tree_height (length xs)" and ?k = "tree_height (length ys)"
  have "length (tree_level xs ?h) = 1" "length (tree_level ys ?k) = 1"
    using tree_width_height ne by simp_all
  moreover have "tree_level xs ?h ! 0 = tree_level ys ?k ! 0"
    using r unfolding merkle_root_height [OF ne(1)] merkle_root_height [OF ne(2)] .
  ultimately have e: "tree_level xs ?h = tree_level ys ?k"
    by (auto simp only: length_Suc_conv One_nat_def length_0_conv nth_Cons_0)
  have "?h = ?k"
    using height_not_less [OF A _ _ m ne(1) e s(1)] height_not_less [OF A _ _ m(2,1) ne(2) e [symmetric] s(2)] by simp
  then show ?thesis
    using levels_equal [OF A _ _ m e, of ?h] by simp
qed

lemma ComputeMerkleRoot_eq:
  assumes "length leaves \<le> 2 ^ 31"
  shows "ComputeMerkleRoot leaves = Some (merkle_root leaves, equal_pair leaves (length leaves))"
proof (cases "leaves = []")
  case True
  then show ?thesis
    by (auto simp: ComputeMerkleRoot_def MerkleComputation_def merkle_root.simps equal_pair_def)
next
  case False
  then show ?thesis
    using MerkleComputation_correct [OF False assms, of False "2 ^ 32 - 1"] by (auto simp: ComputeMerkleRoot_def)
qed

text \<open>
  C17. \<^bold>\<open>The Merkle root.\<close>  On up to $2^{31}$ leaves the computation in constant space returns the root of the tree
  that is built level by level, the last node of an odd level being paired with itself; it reports a mutation exactly if
  two equal complete nodes are combined; and the branch computed for a position leads from its leaf back to the root.
\<close>

theorem ComputeMerkleRoot_correct:
  assumes "length leaves \<le> 2 ^ 31"
  shows "ComputeMerkleRoot leaves = Some (merkle_root leaves, equal_pair leaves (length leaves)) \<and>
    (pos < length leaves \<longrightarrow>
      (\<exists>branch. ComputeMerkleBranch leaves pos = Some branch \<and>
         ComputeMerkleRootFromBranch (leaves ! pos) branch pos = merkle_root leaves))"
proof -
  have "\<exists>branch. ComputeMerkleBranch leaves pos = Some branch \<and>
      ComputeMerkleRootFromBranch (leaves ! pos) branch pos = merkle_root leaves" if p: "pos < length leaves"
  proof -
    have "leaves \<noteq> []" using p by auto
    then obtain d where d: "MerkleComputation leaves pos True = Some (merkle_root leaves, equal_pair leaves (length leaves), siblings leaves pos d)"
        "tree_width (length leaves) d = 1" "merkle_root leaves = tree_level leaves d ! 0"
      using MerkleComputation_correct [OF _ assms, of True pos] p by auto
    have "pos < 2 ^ d"
      using d(2) p tree_width_le_iff [of "length leaves" d 1] by simp
    then show ?thesis
      using ComputeMerkleRootFromBranch_siblings [OF p, of 0 d] d by (simp add: ComputeMerkleBranch_def)
  qed
  then show ?thesis
    using ComputeMerkleRoot_eq [OF assms] by blast
qed

theorem ComputeMerkleRoot_correct_witness:
  "ComputeMerkleRoot [[1], [2], [3]] = Some (merkle_root [[1], [2], [3]], equal_pair [[1], [2], [3]] 3) \<and>
   (\<exists>branch. ComputeMerkleBranch [[1], [2], [3]] 2 = Some branch \<and>
      ComputeMerkleRootFromBranch [3] branch 2 = merkle_root [[1], [2], [3]])"
  using ComputeMerkleRoot_correct [of "[[1], [2], [3]]" 2] by (simp add: numeral_3_eq_3)

text \<open>
  \<^bold>\<open>Leaves can not be changed under a root.\<close>  Two lists of leaves with the same root, neither of which is reported as
  mutated, are equal, unless two different pairs that are hashed in their trees collide or a leaf of one is the hash of
  an inner node of the other.
\<close>

theorem merkle_root_binding:
  assumes "0 < length xs" "length xs \<le> 2 ^ 31" "0 < length ys" "length ys \<le> 2 ^ 31"
    and "collision_free (hashed_pairs xs \<union> hashed_pairs ys)" "leaves_separate xs ys" "leaves_separate ys xs"
    and "ComputeMerkleRoot xs = Some (root, False)" "ComputeMerkleRoot ys = Some (root, False)"
  shows "xs = ys"
proof -
  have ne: "xs \<noteq> []" "ys \<noteq> []" using assms(1,3) by auto
  have r: "merkle_root xs = merkle_root ys" "\<not> equal_pair xs (length xs)" "\<not> equal_pair ys (length ys)"
    using ComputeMerkleRoot_eq [OF assms(2)] ComputeMerkleRoot_eq [OF assms(4)] assms(8,9) by simp_all
  then show ?thesis
    using merkle_root_inject [OF ne assms(5-7)] by simp
qed

lemma hashed_pairs_two: "hashed_pairs [a, b] = {(a, b)}"
proof -
  have w: "tree_width (Suc (Suc 0)) l = (if l = 0 then 2 else 1)" for l
    using tree_width_le_iff [of 2 l 1] less_tree_width_iff [of 0 2 l] power_increasing [of 1 l "2 :: nat"]
    by (cases "l = 0") (auto simp: numeral_2_eq_2)
  show ?thesis
    by (auto simp: hashed_pairs_def w split: if_splits)
qed

theorem merkle_root_binding_witness:
  "\<exists>root. ComputeMerkleRoot [[1], [2]] = Some (root, False) \<and> collision_free (hashed_pairs [[1], [2]]) \<and>
     leaves_separate [[1], [2]] [[1], [2]] \<and> [[1], [2]] = [[1], [2 :: byte]]"
proof -
  have "\<not> equal_pair [[1], [2]] (Suc (Suc 0))"
  proof
    assume "equal_pair [[1], [2]] (Suc (Suc 0))"
    then obtain l i where l: "(2 * i + 2) * 2 ^ l \<le> Suc (Suc 0)" "tree_level [[1], [2]] l ! (2 * i) = tree_level [[1], [2]] l ! (2 * i + 1)"
      by (auto simp: equal_pair_def)
    have "(2 * i + 2) * 1 \<le> (2 * i + 2) * (2 :: nat) ^ l"
      by (rule mult_left_mono) simp_all
    from order_trans [OF this l(1)] have i: "i = 0"
      by simp
    moreover have "(2 :: nat) ^ l \<le> 2 ^ 0"
      using l(1) i by simp
    then have "l = 0"
      by (subst (asm) power_increasing_iff) simp_all
    ultimately show False using l(2) by simp
  qed
  then obtain root where r: "ComputeMerkleRoot [[1], [2]] = Some (root, False)"
    using ComputeMerkleRoot_eq [of "[[1], [2]]"] by simp
  moreover have "length (combine_hashes l r) = 32" for l r
    by (simp add: combine_hashes_def)
  then have "leaves_separate [[1], [2]] [[1], [2]]"
    unfolding leaves_separate_def hashed_pairs_two by (auto dest: arg_cong [of _ _ length])
  ultimately show ?thesis
    using merkle_root_binding [of "[[1], [2]]" "[[1], [2]]" root] by (auto simp: hashed_pairs_two)
qed

end
