(* ===== verification/Merkle_Block.thy ===== *)
theory Merkle_Block
  imports Merkle
begin

section \<open>Partial trees\<close>

definition MAX_BLOCK_SIZE_CURRENT :: nat where "MAX_BLOCK_SIZE_CURRENT = 2000000"

record CPartialMerkleTree =
  nTransactions :: nat
  vBits :: "bool list"
  vHash :: "bytes list"
  fBad :: bool

text \<open>Arithmetic on \<^verbatim>\<open>unsigned int\<close> wraps at $2^{32}$; the heights below are less than 31.\<close>

definition CalcTreeWidth :: "nat \<Rightarrow> nat \<Rightarrow> nat" where
  "CalcTreeWidth n height = ((n + 2 ^ height + (2 ^ 32 - 1)) mod 2 ^ 32) div 2 ^ height"

function calc_height :: "nat \<Rightarrow> nat \<Rightarrow> nat option" where
  "calc_height n nHeight =
     (if nHeight \<ge> 31 then None
      else if CalcTreeWidth n nHeight > 1 then calc_height n (nHeight + 1) else Some nHeight)"
  by pat_completeness auto
termination
  by (relation "measure (\<lambda>(_, h). 31 - h)") auto

declare calc_height.simps [simp del]

fun CalcHash :: "nat \<Rightarrow> bytes list \<Rightarrow> nat \<Rightarrow> nat \<Rightarrow> bytes option" where
  "CalcHash n vTxid 0 pos = (if pos < length vTxid then Some (vTxid ! pos) else None)"
| "CalcHash n vTxid (Suc height) pos =
     (case CalcHash n vTxid height (pos * 2) of
        None \<Rightarrow> None
      | Some left \<Rightarrow>
          if pos * 2 + 1 < CalcTreeWidth n height
          then map_option (\<lambda>right. combine_hashes left right) (CalcHash n vTxid height (pos * 2 + 1))
          else Some (combine_hashes left left))"

text \<open>The flags and hashes that \<^verbatim>\<open>TraverseAndBuild\<close> appends to \<^verbatim>\<open>vBits\<close> and \<^verbatim>\<open>vHash\<close>.\<close>

definition parent_of_match :: "nat \<Rightarrow> bool list \<Rightarrow> nat \<Rightarrow> nat \<Rightarrow> bool" where
  "parent_of_match n vMatch height pos =
     list_ex (\<lambda>p. vMatch ! p) [pos * 2 ^ height..<min ((pos + 1) * 2 ^ height) n]"

fun TraverseAndBuild :: "nat \<Rightarrow> bytes list \<Rightarrow> bool list \<Rightarrow> nat \<Rightarrow> nat \<Rightarrow> (bool list \<times> bytes list) option" where
  "TraverseAndBuild n vTxid vMatch 0 pos =
     map_option (\<lambda>hash. ([parent_of_match n vMatch 0 pos], [hash])) (CalcHash n vTxid 0 pos)"
| "TraverseAndBuild n vTxid vMatch (Suc height) pos =
     (let fParentOfMatch = parent_of_match n vMatch (Suc height) pos in
      if \<not> fParentOfMatch
      then map_option (\<lambda>hash. ([fParentOfMatch], [hash])) (CalcHash n vTxid (Suc height) pos)
      else case TraverseAndBuild n vTxid vMatch height (pos * 2) of
             None \<Rightarrow> None
           | Some (lbits, lhashes) \<Rightarrow>
               if pos * 2 + 1 < CalcTreeWidth n height
               then map_option (\<lambda>(rbits, rhashes). (fParentOfMatch # lbits @ rbits, lhashes @ rhashes))
                      (TraverseAndBuild n vTxid vMatch height (pos * 2 + 1))
               else Some (fParentOfMatch # lbits, lhashes))"

text \<open>The constructor; reading \<^verbatim>\<open>vMatch\<close> beyond its end is undefined.\<close>

definition CPartialMerkleTree_build :: "bytes list \<Rightarrow> bool list \<Rightarrow> CPartialMerkleTree option" where
  "CPartialMerkleTree_build vTxid vMatch =
     (let n = length vTxid mod 2 ^ 32 in
      if length vMatch < n then None
      else case calc_height n 0 of
             None \<Rightarrow> None
           | Some nHeight \<Rightarrow>
               map_option (\<lambda>(bits, hashes). \<lparr>nTransactions = n, vBits = bits, vHash = hashes, fBad = False\<rparr>)
                 (TraverseAndBuild n vTxid vMatch nHeight 0))"

record extract_state =
  nBitsUsed :: nat
  nHashUsed :: nat
  xMatch :: "bytes list"
  xBad :: bool

fun TraverseAndExtract :: "CPartialMerkleTree \<Rightarrow> nat \<Rightarrow> nat \<Rightarrow> extract_state \<Rightarrow> bytes \<times> extract_state" where
  "TraverseAndExtract t height pos s =
     (if nBitsUsed s \<ge> length (vBits t) then (null256, s\<lparr>xBad := True\<rparr>)
      else let fParentOfMatch = vBits t ! nBitsUsed s;
               s1 = s\<lparr>nBitsUsed := nBitsUsed s + 1\<rparr>
           in case height of
                0 \<Rightarrow>
                  (if nHashUsed s1 \<ge> length (vHash t) then (null256, s1\<lparr>xBad := True\<rparr>)
                   else let hash = vHash t ! nHashUsed s1
                        in (hash, s1\<lparr>nHashUsed := nHashUsed s1 + 1,
                                     xMatch := (if fParentOfMatch then xMatch s1 @ [hash] else xMatch s1)\<rparr>))
              | Suc h \<Rightarrow>
                  (if \<not> fParentOfMatch
                   then if nHashUsed s1 \<ge> length (vHash t) then (null256, s1\<lparr>xBad := True\<rparr>)
                        else (vHash t ! nHashUsed s1, s1\<lparr>nHashUsed := nHashUsed s1 + 1\<rparr>)
                   else let (left, s2) = TraverseAndExtract t h (pos * 2) s1;
                            (right, s3) = (if pos * 2 + 1 < CalcTreeWidth (nTransactions t) h
                                           then TraverseAndExtract t h (pos * 2 + 1) s2 else (left, s2))
                        in (combine_hashes left right, s3)))"

declare TraverseAndExtract.simps [simp del]

text \<open>The root, the matches and the flag \<^verbatim>\<open>fBad\<close> after the traversal.\<close>

definition ExtractMatches :: "CPartialMerkleTree \<Rightarrow> (bytes \<times> bytes list \<times> bool) option" where
  "ExtractMatches t =
     (if nTransactions t = 0 then Some (null256, [], fBad t)
      else if nTransactions t > MAX_BLOCK_SIZE_CURRENT div 60 then Some (null256, [], fBad t)
      else if length (vHash t) > nTransactions t then Some (null256, [], fBad t)
      else if length (vBits t) < length (vHash t) then Some (null256, [], fBad t)
      else case calc_height (nTransactions t) 0 of
             None \<Rightarrow> None
           | Some nHeight \<Rightarrow>
               let (hashMerkleRoot, s) = TraverseAndExtract t nHeight 0 \<lparr>nBitsUsed = 0, nHashUsed = 0, xMatch = [], xBad = fBad t\<rparr> in
               Some (if xBad s then null256
                     else if (nBitsUsed s + 7) div 8 \<noteq> (length (vBits t) + 7) div 8 then null256
                     else if nHashUsed s \<noteq> length (vHash t) then null256
                     else hashMerkleRoot, xMatch s, xBad s))"

text \<open>Flags travel as bytes, the first one in the lowest bit.\<close>

definition bits_to_vBytes :: "bool list \<Rightarrow> bytes" where
  "bits_to_vBytes bits =
     foldl (\<lambda>v p. v[p div 8 := or (v ! (p div 8)) (push_bit (p mod 8) (of_bool (bits ! p)))])
       (replicate ((length bits + 7) div 8) 0) [0..<length bits]"

definition vBytes_to_bits :: "bytes \<Rightarrow> bool list" where
  "vBytes_to_bits vBytes = map (\<lambda>p. bit (vBytes ! (p div 8)) (p mod 8)) [0..<length vBytes * 8]"

definition Serialize_CPartialMerkleTree :: "CPartialMerkleTree \<Rightarrow> bytes" where
  "Serialize_CPartialMerkleTree t =
     Serialize_uint32 (nTransactions t) @ Serialize_vector (\<lambda>h. h) (vHash t) @ Serialize_bytes (bits_to_vBytes (vBits t))"

definition Unserialize_CPartialMerkleTree :: "bytes \<Rightarrow> (CPartialMerkleTree \<times> bytes) option" where
  "Unserialize_CPartialMerkleTree s0 = do {
     (n, s1) \<leftarrow> Unserialize_uint32 s0;
     (hashes, s2) \<leftarrow> Unserialize_vector (stream_read 32) s1;
     (vBytes, s3) \<leftarrow> Unserialize_bytes s2;
     Some (\<lparr>nTransactions = n, vBits = vBytes_to_bits vBytes, vHash = hashes, fBad = False\<rparr>, s3)
   }"

subsection \<open>What is built is extracted\<close>

lemma CalcTreeWidth_eq: "n \<le> 2 ^ 31 \<Longrightarrow> height \<le> 31 \<Longrightarrow> CalcTreeWidth n height = tree_width n height"
proof -
  assume n: "n \<le> 2 ^ 31" "height \<le> 31"
  have p: "(2 :: nat) ^ height \<le> 2 ^ 31" "(1 :: nat) \<le> 2 ^ height"
    using n(2) by (intro power_increasing) simp_all
  then have "n + 2 ^ height + (2 ^ 32 - 1) = (n + 2 ^ height - 1) + 2 ^ 32" "n + 2 ^ height - 1 < 2 ^ 32"
    using n(1) by simp_all
  then show ?thesis
    by (simp only: CalcTreeWidth_def tree_width_def mod_add_self2 mod_less)
qed

lemma calc_height_eq: "n \<le> 2 ^ 30 \<Longrightarrow> h \<le> tree_height n \<Longrightarrow> calc_height n h = Some (tree_height n)"
proof (induction "tree_height n - h" arbitrary: h rule: less_induct)
  case less
  have th: "\<not> 30 < tree_height n"
    using less.prems(1) less_tree_height_iff [of 30 n] by simp
  have w: "1 < CalcTreeWidth n h \<longleftrightarrow> h < tree_height n"
    using CalcTreeWidth_eq [of n h] less.prems th by (simp add: width_above_height)
  show ?case
    using less.hyps [of "Suc h"] less.prems th w by (subst calc_height.simps) auto
qed

lemma CalcHash_eq:
  assumes "length xs \<le> 2 ^ 31"
  shows "h \<le> 31 \<Longrightarrow> pos < tree_width (length xs) h \<Longrightarrow> CalcHash (length xs) xs h pos = Some (tree_level xs h ! pos)"
proof (induction h arbitrary: pos)
  case (Suc h)
  have "pos * 2 < tree_width (length xs) h"
    using Suc.prems(2) by (simp add: tree_width_Suc)
  then show ?case
    using Suc assms tree_level_Suc_nth [OF Suc.prems(2)] by (simp add: CalcTreeWidth_eq mult.commute [of 2] del: tree_level.simps)
qed simp

text \<open>The matched transactions below a node.\<close>

definition matched :: "bytes list \<Rightarrow> bool list \<Rightarrow> nat \<Rightarrow> nat \<Rightarrow> bytes list" where
  "matched xs m a b = map (\<lambda>p. xs ! p) (filter (\<lambda>p. m ! p) [a..<min b (length xs)])"

lemma matched_append: "a \<le> b \<Longrightarrow> b \<le> c \<Longrightarrow> matched xs m a c = matched xs m a b @ matched xs m b c"
proof -
  assume "a \<le> b" "b \<le> c"
  then have "[a..<min c (length xs)] = [a..<min b (length xs)] @ [b..<min c (length xs)]"
    using upt_add_eq_append [of a b "min c (length xs) - b"] by (cases "b \<le> length xs") (auto simp: min_def)
  then show ?thesis by (simp add: matched_def)
qed

lemma matched_beyond: "length xs \<le> b \<Longrightarrow> b \<le> c \<Longrightarrow> matched xs m a c = matched xs m a b"
  by (simp add: matched_def min_absorb2)

lemma matched_none: "\<not> parent_of_match (length xs) m h pos \<Longrightarrow> matched xs m (pos * 2 ^ h) ((pos + 1) * 2 ^ h) = []"
  by (auto simp: matched_def parent_of_match_def list_ex_iff filter_empty_conv)

lemma matched_children:
  "matched xs m (pos * 2 ^ Suc h) ((pos + 1) * 2 ^ Suc h) =
    (if pos * 2 + 1 < tree_width (length xs) h
     then matched xs m (pos * 2 * 2 ^ h) ((pos * 2 + 1) * 2 ^ h) @ matched xs m ((pos * 2 + 1) * 2 ^ h) ((pos * 2 + 1 + 1) * 2 ^ h)
     else matched xs m (pos * 2 * 2 ^ h) ((pos * 2 + 1) * 2 ^ h))"
proof -
  have e: "pos * 2 ^ Suc h = pos * 2 * 2 ^ h" "(pos + 1) * 2 ^ Suc h = (pos * 2 + 1 + 1) * 2 ^ h"
    by (simp_all add: algebra_simps)
  show ?thesis
    unfolding e using matched_append [of "pos * 2 * 2 ^ h" "(pos * 2 + 1) * 2 ^ h" "(pos * 2 + 1 + 1) * 2 ^ h" xs m]
      matched_beyond [of xs "(pos * 2 + 1) * 2 ^ h" "(pos * 2 + 1 + 1) * 2 ^ h" m "pos * 2 * 2 ^ h"]
    by (simp add: less_tree_width_iff not_less)
qed

text \<open>A traversal at the start of the given flags and hashes.\<close>

definition reads :: "CPartialMerkleTree \<Rightarrow> bool list \<Rightarrow> bytes list \<Rightarrow> extract_state \<Rightarrow> bool" where
  "reads t bits hashes s \<longleftrightarrow>
     (\<exists>bits'. drop (nBitsUsed s) (vBits t) = bits @ bits') \<and> (\<exists>hashes'. drop (nHashUsed s) (vHash t) = hashes @ hashes')"

definition advance :: "nat \<Rightarrow> nat \<Rightarrow> bytes list \<Rightarrow> extract_state \<Rightarrow> extract_state" where
  "advance b h m s = s\<lparr>nBitsUsed := nBitsUsed s + b, nHashUsed := nHashUsed s + h, xMatch := xMatch s @ m\<rparr>"

lemma drop_eq_append:
  "(\<exists>r. drop k xs = (a @ b) @ r) \<longleftrightarrow> (\<exists>r. drop k xs = a @ r) \<and> (\<exists>r. drop (k + length a) xs = b @ r)"
proof -
  have "drop (k + length a) xs = drop (length a) (drop k xs)"
    by (simp add: add.commute)
  then show ?thesis by (auto simp del: drop_drop)
qed

lemma drop_eq_Cons: "(\<exists>r. drop k xs = (a # b) @ r) \<longleftrightarrow> k < length xs \<and> xs ! k = a \<and> (\<exists>r. drop (Suc k) xs = b @ r)"
  by (cases "k < length xs") (simp_all add: Cons_nth_drop_Suc [symmetric])

lemma reads_append:
  "reads t (b1 @ b2) (h1 @ h2) s \<longleftrightarrow> reads t b1 h1 s \<and> reads t b2 h2 (advance (length b1) (length h1) m s)"
  unfolding reads_def drop_eq_append by (auto simp: advance_def)

lemma reads_bit: "reads t (b # bits) hashes s \<longleftrightarrow>
   nBitsUsed s < length (vBits t) \<and> vBits t ! nBitsUsed s = b \<and> reads t bits hashes (s\<lparr>nBitsUsed := nBitsUsed s + 1\<rparr>)"
  unfolding reads_def drop_eq_Cons by simp

lemma reads_hash: "reads t [] [h] s \<longleftrightarrow> nHashUsed s < length (vHash t) \<and> vHash t ! nHashUsed s = h"
  unfolding reads_def drop_eq_Cons by simp

lemma extract_leaf:
  assumes "reads t [b] [hash] s"
  shows "TraverseAndExtract t 0 pos s = (hash, advance 1 1 (if b then [hash] else []) s)"
  using assms reads_bit [of t b "[]" "[hash]" s] reads_hash [of t hash "s\<lparr>nBitsUsed := nBitsUsed s + 1\<rparr>"]
  by (subst TraverseAndExtract.simps) (simp add: advance_def Let_def)

lemma extract_stop:
  assumes "reads t [False] [hash] s"
  shows "TraverseAndExtract t (Suc h) pos s = (hash, advance 1 1 [] s)"
  using assms reads_bit [of t False "[]" "[hash]" s] reads_hash [of t hash "s\<lparr>nBitsUsed := nBitsUsed s + 1\<rparr>"]
  by (subst TraverseAndExtract.simps) (simp add: advance_def Let_def)

lemma advance_advance: "advance b2 h2 m2 (advance b1 h1 m1 s) = advance (b1 + b2) (h1 + h2) (m1 @ m2) s"
  by (simp add: advance_def)

lemma advance_bit: "advance b h m (s\<lparr>nBitsUsed := Suc (nBitsUsed s)\<rparr>) = advance (Suc b) h m s"
  by (simp add: advance_def)

text \<open>
  What \<^verbatim>\<open>TraverseAndBuild\<close> stores for a node is one hash per leaf at most, and leads \<^verbatim>\<open>TraverseAndExtract\<close> to
  the hash of the node and the matches below it.
\<close>

definition stored :: "bytes list \<Rightarrow> bool list \<Rightarrow> nat \<Rightarrow> nat \<Rightarrow> bool list \<Rightarrow> bytes list \<Rightarrow> bool" where
  "stored xs m h pos bits hashes \<longleftrightarrow>
     length hashes \<le> length bits \<and> length bits < 2 ^ Suc h \<and>
     pos * 2 ^ h + length hashes \<le> min ((pos + 1) * 2 ^ h) (length xs) \<and>
     (list_all (\<lambda>x. length x = 32) xs \<longrightarrow> list_all (\<lambda>x. length x = 32) hashes) \<and>
     (\<forall>t s. nTransactions t = length xs \<longrightarrow> reads t bits hashes s \<longrightarrow>
        TraverseAndExtract t h pos s =
          (tree_level xs h ! pos, advance (length bits) (length hashes) (matched xs m (pos * 2 ^ h) ((pos + 1) * 2 ^ h)) s))"

lemma length_combine [simp]: "length (combine_hashes a b) = 32"
  by (simp add: combine_hashes_def)

lemma length_hash_level_32: "x \<in> set (hash_level xs) \<Longrightarrow> length x = 32"
  by (induction xs rule: hash_level.induct) auto

lemma length_tree_level_32: "list_all (\<lambda>x. length x = 32) xs \<Longrightarrow> i < tree_width (length xs) h \<Longrightarrow> length (tree_level xs h ! i) = 32"
  by (cases h) (auto simp: list_all_length tree_width_Suc length_hash_level intro!: length_hash_level_32 [OF nth_mem])

lemma node_nonempty: "pos < tree_width (length xs) h \<Longrightarrow> pos * 2 ^ h + 1 \<le> min ((pos + 1) * 2 ^ h) (length xs)"
  by (simp add: less_tree_width_iff Suc_le_eq)

lemma stored_leaf:
  assumes "pos < length xs"
  shows "stored xs m 0 pos [parent_of_match (length xs) m 0 pos] [xs ! pos]"
proof -
  have "matched xs m pos (Suc pos) = (if parent_of_match (length xs) m 0 pos then [xs ! pos] else [])"
    using assms by (auto simp: matched_def parent_of_match_def min_def)
  then show ?thesis
    using assms by (auto simp: stored_def extract_leaf list_all_length min_def)
qed

lemma stored_stop:
  assumes "pos < tree_width (length xs) (Suc h)" "\<not> parent_of_match (length xs) m (Suc h) pos"
  shows "stored xs m (Suc h) pos [False] [tree_level xs (Suc h) ! pos]"
  using matched_none [OF assms(2)] node_nonempty [OF assms(1)] length_tree_level_32 [OF _ assms(1)]
    one_less_power [of "2 :: nat" "Suc (Suc h)"]
  by (auto simp: stored_def extract_stop simp del: tree_level.simps power_Suc)

lemma stored_left:
  assumes "stored xs m h (pos * 2) bits hashes" "pos < tree_width (length xs) (Suc h)" "length xs \<le> 2 ^ 31" "h < 31"
    and w: "\<not> pos * 2 + 1 < tree_width (length xs) h"
  shows "stored xs m (Suc h) pos (True # bits) hashes"
proof -
  note st = assms(1) [unfolded stored_def]
  have c: "\<not> pos * 2 + 1 < CalcTreeWidth (length xs) h" using w CalcTreeWidth_eq assms(3,4) by simp
  have "TraverseAndExtract t (Suc h) pos s =
      (tree_level xs (Suc h) ! pos, advance (length (True # bits)) (length hashes) (matched xs m (pos * 2 ^ Suc h) ((pos + 1) * 2 ^ Suc h)) s)"
    if "nTransactions t = length xs" "reads t (True # bits) hashes s" for t s
    using that c st w matched_children [of xs m pos h] tree_level_Suc_nth [OF assms(2)]
    by (subst TraverseAndExtract.simps) (simp add: reads_bit advance_bit mult.commute [of 2] del: tree_level.simps power_Suc)
  moreover have "pos * 2 ^ Suc h + length hashes \<le> min ((pos + 1) * 2 ^ Suc h) (length xs)"
    using st by (simp add: algebra_simps)
  moreover have "length (True # bits) < 2 ^ Suc (Suc h)"
    using st by simp
  ultimately show ?thesis
    using st by (simp add: stored_def del: tree_level.simps power_Suc)
qed

lemma stored_both:
  assumes "stored xs m h (pos * 2) b1 h1" "stored xs m h (pos * 2 + 1) b2 h2" "pos < tree_width (length xs) (Suc h)"
    "length xs \<le> 2 ^ 31" "h < 31" and w: "pos * 2 + 1 < tree_width (length xs) h"
  shows "stored xs m (Suc h) pos (True # b1 @ b2) (h1 @ h2)"
proof -
  note st = assms(1,2) [unfolded stored_def]
  have c: "pos * 2 + 1 < CalcTreeWidth (length xs) h" using w CalcTreeWidth_eq assms(4,5) by simp
  have "TraverseAndExtract t (Suc h) pos s =
      (tree_level xs (Suc h) ! pos, advance (length (True # b1 @ b2)) (length (h1 @ h2)) (matched xs m (pos * 2 ^ Suc h) ((pos + 1) * 2 ^ Suc h)) s)"
    if "nTransactions t = length xs" "reads t (True # b1 @ b2) (h1 @ h2) s" for t s
  proof -
    let ?m1 = "matched xs m (pos * 2 * 2 ^ h) ((pos * 2 + 1) * 2 ^ h)"
    let ?s1 = "s\<lparr>nBitsUsed := nBitsUsed s + 1\<rparr>"
    let ?s2 = "advance (length b1) (length h1) ?m1 ?s1"
    have r: "reads t b1 h1 ?s1" "reads t b2 h2 ?s2"
      using that(2) reads_append [of t b1 b2 h1 h2 ?s1 ?m1] by (simp_all add: reads_bit)
    have "TraverseAndExtract t h (pos * 2) ?s1 = (tree_level xs h ! (pos * 2), ?s2)"
      using st(1) r(1) that(1) by blast
    moreover have "TraverseAndExtract t h (pos * 2 + 1) ?s2 = (tree_level xs h ! (pos * 2 + 1),
        advance (length b2) (length h2) (matched xs m ((pos * 2 + 1) * 2 ^ h) ((pos * 2 + 1 + 1) * 2 ^ h)) ?s2)"
      using st(2) r(2) that(1) by blast
    ultimately show ?thesis
      using that c w matched_children [of xs m pos h] tree_level_Suc_nth [OF assms(3)]
      by (subst TraverseAndExtract.simps)
        (simp add: reads_bit advance_advance advance_bit mult.commute [of 2] del: tree_level.simps power_Suc)
  qed
  moreover have "pos * 2 ^ Suc h + length (h1 @ h2) \<le> min ((pos + 1) * 2 ^ Suc h) (length xs)"
    using st by (simp add: algebra_simps)
  moreover have "length (True # b1 @ b2) < 2 ^ Suc (Suc h)"
    using st by simp
  ultimately show ?thesis
    using st by (simp add: stored_def del: tree_level.simps power_Suc)
qed

lemma TraverseAndBuild_stored:
  assumes "length xs \<le> 2 ^ 31"
  shows "h \<le> 31 \<Longrightarrow> pos < tree_width (length xs) h \<Longrightarrow>
    \<exists>bits hashes. TraverseAndBuild (length xs) xs m h pos = Some (bits, hashes) \<and> stored xs m h pos bits hashes"
proof (induction h arbitrary: pos)
  case 0
  then show ?case using stored_leaf by simp
next
  case (Suc h)
  have left: "pos * 2 < tree_width (length xs) h" using Suc.prems(2) by (simp add: tree_width_Suc)
  show ?case
  proof (cases "parent_of_match (length xs) m (Suc h) pos")
    case False
    then show ?thesis
      using CalcHash_eq [OF assms Suc.prems] stored_stop [OF Suc.prems(2) False] by (simp del: tree_level.simps CalcHash.simps)
  next
    case True
    have h: "h \<le> 31" "h < 31" using Suc.prems(1) by simp_all
    obtain b1 h1 where 1: "TraverseAndBuild (length xs) xs m h (pos * 2) = Some (b1, h1)" "stored xs m h (pos * 2) b1 h1"
      using Suc.IH [OF h(1) left] by blast
    show ?thesis
    proof (cases "pos * 2 + 1 < tree_width (length xs) h")
      case w: True
      then show ?thesis
        using Suc.IH [OF h(1) w] True 1 stored_both [OF 1(2) _ Suc.prems(2) assms h(2) w]
        by (auto simp: CalcTreeWidth_eq [OF assms h(1)])
    next
      case False
      then show ?thesis
        using True 1 stored_left [OF 1(2) Suc.prems(2) assms h(2)] by (simp add: CalcTreeWidth_eq [OF assms h(1)])
    qed
  qed
qed

subsection \<open>Flags as bytes\<close>

lemma bits_to_vBytes_loop:
  fixes v0 :: bytes and bits :: "bool list"
  defines "v p \<equiv> foldl (\<lambda>v p. v[p div 8 := or (v ! (p div 8)) (push_bit (p mod 8) (of_bool (bits ! p)))]) v0 [0..<p]"
  assumes v0: "\<And>k j. k < length v0 \<Longrightarrow> \<not> bit (v0 ! k) j" and p: "p \<le> 8 * length v0"
  shows "length (v p) = length v0 \<and> (\<forall>k<length v0. \<forall>j<8. bit (v p ! k) j \<longleftrightarrow> 8 * k + j < p \<and> bits ! (8 * k + j))"
  using p
proof (induction p)
  case 0
  then show ?case using v0 by (simp add: v_def)
next
  case (Suc p)
  let ?w = "v p" and ?q = "p div 8" and ?r = "p mod 8"
  have IH: "length ?w = length v0" "\<And>k j. k < length v0 \<Longrightarrow> j < 8 \<Longrightarrow> bit (?w ! k) j \<longleftrightarrow> 8 * k + j < p \<and> bits ! (8 * k + j)"
    using Suc by auto
  have s: "v (Suc p) = ?w[?q := or (?w ! ?q) (push_bit ?r (of_bool (bits ! p)))]"
    by (simp add: v_def)
  have q: "?q < length v0" using Suc.prems by simp
  have "bit (v (Suc p) ! k) j \<longleftrightarrow> 8 * k + j < Suc p \<and> bits ! (8 * k + j)" if k: "k < length v0" "j < 8" for k j
  proof (cases "k = ?q")
    case True
    have "8 * ?q + j = p \<longleftrightarrow> j = ?r" "8 * ?q + j < Suc p \<longleftrightarrow> 8 * ?q + j < p \<or> j = ?r"
      using k(2) by presburger+
    then show ?thesis
      using True IH q k by (auto simp: s bit_or_iff bit_push_bit_iff bit_of_bool_iff less_Suc_eq)
  next
    case False
    have "8 * k + j \<noteq> p" using False k(2) by auto
    then show ?thesis
      using False IH k by (simp add: s less_Suc_eq)
  qed
  then show ?case using IH(1) s by simp
qed

lemma length_bits_to_vBytes: "length (bits_to_vBytes bits) = (length bits + 7) div 8"
  and bit_bits_to_vBytes: "k < (length bits + 7) div 8 \<Longrightarrow> j < 8 \<Longrightarrow>
    bit (bits_to_vBytes bits ! k) j \<longleftrightarrow> 8 * k + j < length bits \<and> bits ! (8 * k + j)"
proof -
  have "length bits \<le> 8 * length (replicate ((length bits + 7) div 8) (0 :: byte))"
    by simp
  note l = bits_to_vBytes_loop [OF _ this, of bits, folded bits_to_vBytes_def]
  show "length (bits_to_vBytes bits) = (length bits + 7) div 8"
    using l by simp
  show "bit (bits_to_vBytes bits ! k) j \<longleftrightarrow> 8 * k + j < length bits \<and> bits ! (8 * k + j)"
    if "k < (length bits + 7) div 8" "j < 8"
    using l that by simp
qed

lemma vBytes_to_bits_inverse:
  "\<exists>k. vBytes_to_bits (bits_to_vBytes bits) = bits @ replicate k False \<and> (length bits + k + 7) div 8 = (length bits + 7) div 8"
proof -
  let ?n = "length bits" and ?c = "(length bits + 7) div 8 * 8"
  have c: "?n \<le> ?c" "?c < ?n + 8" by presburger+
  have "vBytes_to_bits (bits_to_vBytes bits) = bits @ replicate (?c - ?n) False"
  proof (rule nth_equalityI)
    show "length (vBytes_to_bits (bits_to_vBytes bits)) = length (bits @ replicate (?c - ?n) False)"
      using c by (simp add: vBytes_to_bits_def length_bits_to_vBytes)
    fix p assume "p < length (vBytes_to_bits (bits_to_vBytes bits))"
    then have p: "p < ?c" "p div 8 < (?n + 7) div 8" "p mod 8 < 8"
      by (auto simp: vBytes_to_bits_def length_bits_to_vBytes)
    then have "vBytes_to_bits (bits_to_vBytes bits) ! p = bit (bits_to_vBytes bits ! (p div 8)) (p mod 8)"
      by (simp add: vBytes_to_bits_def length_bits_to_vBytes)
    then show "vBytes_to_bits (bits_to_vBytes bits) ! p = (bits @ replicate (?c - ?n) False) ! p"
      using bit_bits_to_vBytes [OF p(2,3)] p(1) by (auto simp: nth_append)
  qed
  moreover have "(?n + (?c - ?n) + 7) div 8 = (?n + 7) div 8"
    using c by simp
  ultimately show ?thesis by blast
qed

subsection \<open>The tree on the wire\<close>

lemma ExtractMatches_stored:
  assumes n: "0 < length xs" "length xs \<le> MAX_BLOCK_SIZE_CURRENT div 60"
    and st: "stored xs m (tree_height (length xs)) 0 bits hashes"
    and t: "nTransactions t = length xs" "vBits t = bits @ pad" "vHash t = hashes" "\<not> fBad t"
    and pad: "(length bits + length pad + 7) div 8 = (length bits + 7) div 8"
  shows "ExtractMatches t = Some (merkle_root xs, matched xs m 0 (length xs), False)"
proof -
  let ?h = "tree_height (length xs)" and ?s = "\<lparr>nBitsUsed = 0, nHashUsed = 0, xMatch = [], xBad = False\<rparr>"
  have "length xs \<le> 2 ^ 30" using n(2) by (simp add: MAX_BLOCK_SIZE_CURRENT_def)
  then have h: "calc_height (length xs) 0 = Some ?h" by (simp add: calc_height_eq)
  have "length xs \<le> 2 ^ ?h"
    using less_tree_height_iff [of ?h "length xs"] by simp
  then have "matched xs m 0 (2 ^ ?h) = matched xs m 0 (length xs)"
    by (rule matched_beyond [OF order_refl])
  moreover have "reads t bits hashes ?s"
    using t by (auto simp: reads_def)
  ultimately have "TraverseAndExtract t ?h 0 ?s = (merkle_root xs, advance (length bits) (length hashes) (matched xs m 0 (length xs)) ?s)"
    using st t(1) merkle_root_height [of xs] n(1) by (auto simp: stored_def)
  then show ?thesis
    using n h t st pad by (auto simp: ExtractMatches_def advance_def stored_def)
qed

lemma matched_all: "length m = length xs \<Longrightarrow> matched xs m 0 (length xs) = map fst (filter snd (zip xs m))"
proof -
  assume "length m = length xs"
  then have "zip xs m = map (\<lambda>p. (xs ! p, m ! p)) [0..<length xs]"
    by (intro nth_equalityI) simp_all
  then show ?thesis
    by (simp add: matched_def filter_map o_def)
qed

subsection \<open>Matches are below the root\<close>

lemma ComputeMerkleRootFromBranch_snoc:
  "ComputeMerkleRootFromBranch h (br @ [x]) i =
    (let g = ComputeMerkleRootFromBranch h br i in
     if odd (i div 2 ^ length br) then combine_hashes x g else combine_hashes g x)"
proof (induction br arbitrary: h i)
  case (Cons b br)
  show ?case by (simp add: Cons.IH div_mult2_eq)
qed simp

text \<open>A branch of the given length leads from the hash \<open>m\<close> at some leaf below node \<open>pos\<close> to \<open>hash\<close>.\<close>

definition proves :: "nat \<Rightarrow> nat \<Rightarrow> nat \<Rightarrow> bytes \<Rightarrow> bytes \<Rightarrow> bool" where
  "proves n h pos hash m \<longleftrightarrow>
     (\<exists>i br. length br = h \<and> i div 2 ^ h = pos \<and> i < n \<and> ComputeMerkleRootFromBranch m br i = hash)"

lemma proves_left: "proves n h (pos * 2) l m \<Longrightarrow> proves n (Suc h) pos (combine_hashes l r) m"
  unfolding proves_def
proof (elim exE conjE)
  fix i br assume "length br = h" "i div 2 ^ h = pos * 2" "i < n" "ComputeMerkleRootFromBranch m br i = l"
  then show "\<exists>i br. length br = Suc h \<and> i div 2 ^ Suc h = pos \<and> i < n \<and> ComputeMerkleRootFromBranch m br i = combine_hashes l r"
    using div_up [of i h pos] by (intro exI [of _ i] exI [of _ "br @ [r]"]) (simp add: ComputeMerkleRootFromBranch_snoc Let_def mult.commute)
qed

lemma proves_right: "proves n h (pos * 2 + 1) r m \<Longrightarrow> proves n (Suc h) pos (combine_hashes l r) m"
  unfolding proves_def
proof (elim exE conjE)
  fix i br assume "length br = h" "i div 2 ^ h = pos * 2 + 1" "i < n" "ComputeMerkleRootFromBranch m br i = r"
  then show "\<exists>i br. length br = Suc h \<and> i div 2 ^ Suc h = pos \<and> i < n \<and> ComputeMerkleRootFromBranch m br i = combine_hashes l r"
    using div_up [of i h pos] by (intro exI [of _ i] exI [of _ "br @ [l]"]) (simp add: ComputeMerkleRootFromBranch_snoc Let_def mult.commute)
qed

lemma TraverseAndExtract_proves:
  assumes "nTransactions t \<le> 2 ^ 31"
  shows "h \<le> 31 \<Longrightarrow> pos < tree_width (nTransactions t) h \<Longrightarrow> TraverseAndExtract t h pos s = (hash, s') \<Longrightarrow>
    \<exists>new. xMatch s' = xMatch s @ new \<and> list_all (proves (nTransactions t) h pos hash) new"
proof (induction h arbitrary: pos s hash s')
  case 0
  then show ?case
    by (subst (asm) (1) TraverseAndExtract.simps)
      (auto simp: proves_def Let_def split: if_splits intro!: exI [of _ pos])
next
  case (Suc h)
  let ?n = "nTransactions t" and ?s1 = "s\<lparr>nBitsUsed := nBitsUsed s + 1\<rparr>"
  have left: "pos * 2 < tree_width ?n h" and h: "h \<le> 31"
    using Suc.prems(1,2) by (simp_all add: tree_width_Suc)
  have w: "CalcTreeWidth ?n h = tree_width ?n h"
    using CalcTreeWidth_eq [OF assms h] .
  show ?case
  proof (cases "nBitsUsed s < length (vBits t) \<and> vBits t ! nBitsUsed s")
    case False
    then show ?thesis
      using Suc.prems(3) by (subst (asm) TraverseAndExtract.simps) (auto simp: Let_def split: if_splits)
  next
    case True
    obtain l s2 where l: "TraverseAndExtract t h (pos * 2) ?s1 = (l, s2)" by fastforce
    then obtain new1 where 1: "xMatch s2 = xMatch s @ new1" "list_all (proves ?n h (pos * 2) l) new1"
      using Suc.IH [OF h left l] by auto
    show ?thesis
    proof (cases "pos * 2 + 1 < tree_width ?n h")
      case False
      then have "hash = combine_hashes l l" "s' = s2"
        using Suc.prems(3) True l w by (subst (asm) TraverseAndExtract.simps, simp add: Let_def)+
      then show ?thesis
        using 1 proves_left by (auto simp: list_all_iff)
    next
      case right: True
      obtain r s3 where r: "TraverseAndExtract t h (pos * 2 + 1) s2 = (r, s3)" by fastforce
      then obtain new2 where 2: "xMatch s3 = xMatch s2 @ new2" "list_all (proves ?n h (pos * 2 + 1) r) new2"
        using Suc.IH [OF h right r] by auto
      have "hash = combine_hashes l r" "s' = s3"
        using Suc.prems(3) True l r right w by (subst (asm) TraverseAndExtract.simps, simp add: Let_def)+
      then show ?thesis
        using 1 2 proves_left proves_right by (auto simp: list_all_iff)
    qed
  qed
qed

text \<open>
  C19. \<^bold>\<open>Partial trees.\<close>  For a block of up to \<^verbatim>\<open>MAX_BLOCK_SIZE_CURRENT / 60\<close> transactions, the partial tree built from
  the identifiers and the matches, written to a stream and read back, yields the Merkle root of the identifiers and
  exactly the matched ones, in order.
\<close>

theorem partial_tree_roundtrip:
  assumes "0 < length vTxid" "length vTxid \<le> MAX_BLOCK_SIZE_CURRENT div 60" "length vMatch = length vTxid"
    and "list_all (\<lambda>h. length h = 32) vTxid"
  shows "\<exists>t t'. CPartialMerkleTree_build vTxid vMatch = Some t \<and>
    Unserialize_CPartialMerkleTree (Serialize_CPartialMerkleTree t @ s) = Some (t', s) \<and>
    ExtractMatches t = Some (merkle_root vTxid, map fst (filter snd (zip vTxid vMatch)), False) \<and>
    ExtractMatches t' = Some (merkle_root vTxid, map fst (filter snd (zip vTxid vMatch)), False)"
proof -
  let ?n = "length vTxid" and ?h = "tree_height (length vTxid)"
  have n: "?n \<le> 33333" using assms(2) by (simp add: MAX_BLOCK_SIZE_CURRENT_def)
  have h: "?h \<le> 16"
    using less_tree_height_iff [of 16 ?n] n by simp
  have "?n \<le> 2 ^ 31" "0 < tree_width ?n ?h" using n tree_width_height [OF assms(1)] by simp_all
  then obtain bits hashes where b: "TraverseAndBuild ?n vTxid vMatch ?h 0 = Some (bits, hashes)" "stored vTxid vMatch ?h 0 bits hashes"
    using TraverseAndBuild_stored [of vTxid ?h 0 vMatch] h by auto
  define t where "t = \<lparr>nTransactions = ?n, vBits = bits, vHash = hashes, fBad = False\<rparr>"
  have build: "CPartialMerkleTree_build vTxid vMatch = Some t"
    using b(1) n assms(3) by (simp add: CPartialMerkleTree_build_def calc_height_eq t_def)
  obtain k where k: "vBytes_to_bits (bits_to_vBytes bits) = bits @ replicate k False"
      "(length bits + k + 7) div 8 = (length bits + 7) div 8"
    using vBytes_to_bits_inverse by blast
  define t' where "t' = \<lparr>nTransactions = ?n, vBits = bits @ replicate k False, vHash = hashes, fBad = False\<rparr>"
  have "(2 :: nat) ^ Suc ?h \<le> 2 ^ 17" using h by (intro power_increasing) simp_all
  then have l: "length bits < 2 ^ 17" "length hashes \<le> ?n" "list_all (\<lambda>x. length x = 32) hashes"
    using b(2) assms(4) by (auto simp: stored_def)
  have wire: "Unserialize_CPartialMerkleTree (Serialize_CPartialMerkleTree t @ s) = Some (t', s)"
    using l n k(1) by (simp add: Unserialize_CPartialMerkleTree_def Serialize_CPartialMerkleTree_def t_def t'_def uint32.unser_ser
        hash256.vector_unser_ser bytevec.unser_ser length_bits_to_vBytes MAX_SIZE_def)
  have "ExtractMatches t = Some (merkle_root vTxid, matched vTxid vMatch 0 ?n, False)"
    "ExtractMatches t' = Some (merkle_root vTxid, matched vTxid vMatch 0 ?n, False)"
    using ExtractMatches_stored [OF assms(1,2) b(2), of t "[]"] ExtractMatches_stored [OF assms(1,2) b(2), of t' "replicate k False"] k(2)
    by (simp_all add: t_def t'_def)
  then show ?thesis
    using build wire matched_all [OF assms(3)] by auto
qed

theorem partial_tree_roundtrip_witness:
  "\<exists>t t'. CPartialMerkleTree_build [replicate 32 1, replicate 32 2, replicate 32 3] [False, True, False] = Some t \<and>
    Unserialize_CPartialMerkleTree (Serialize_CPartialMerkleTree t @ [7]) = Some (t', [7]) \<and>
    ExtractMatches t = Some (merkle_root [replicate 32 1, replicate 32 2, replicate 32 3], [replicate 32 2], False) \<and>
    ExtractMatches t' = Some (merkle_root [replicate 32 1, replicate 32 2, replicate 32 3], [replicate 32 2], False)"
  using partial_tree_roundtrip [of "[replicate 32 1, replicate 32 2, replicate 32 3]" "[False, True, False]" "[7]"]
  by (simp add: MAX_BLOCK_SIZE_CURRENT_def)

text \<open>
  C18. \<^bold>\<open>What a partial tree proves.\<close>  Whatever tree a peer sends: if \<^verbatim>\<open>ExtractMatches\<close> returns a root other than zero, each
  match is the leaf of a branch of the height of the tree, at a position below the number of transactions, that leads to
  this root.
\<close>

theorem ExtractMatches_sound:
  assumes "ExtractMatches t = Some (root, vMatch, bad)" "root \<noteq> null256" "m \<in> set vMatch"
  shows "\<exists>i branch. i < nTransactions t \<and> length branch = tree_height (nTransactions t) \<and>
    ComputeMerkleRootFromBranch m branch i = root"
proof -
  let ?n = "nTransactions t" and ?s = "\<lparr>nBitsUsed = 0, nHashUsed = 0, xMatch = [], xBad = fBad t\<rparr>"
  have n: "0 < ?n" "?n \<le> 33333"
    using assms(1,2) by (auto simp: ExtractMatches_def MAX_BLOCK_SIZE_CURRENT_def split: if_splits)
  then have h: "calc_height ?n 0 = Some (tree_height ?n)" and h31: "tree_height ?n \<le> 31"
    using less_tree_height_iff [of 31 ?n] by (simp_all add: calc_height_eq)
  obtain hash s' where e: "TraverseAndExtract t (tree_height ?n) 0 ?s = (hash, s')" by fastforce
  then have r: "root = hash" "vMatch = xMatch s'"
    using assms(1,2) h n by (auto simp: ExtractMatches_def MAX_BLOCK_SIZE_CURRENT_def split: if_splits)
  obtain new where "xMatch s' = new" "list_all (proves ?n (tree_height ?n) 0 hash) new"
    using TraverseAndExtract_proves [OF _ h31 _ e] n tree_width_height [OF n(1)] by auto
  then have "proves ?n (tree_height ?n) 0 root m"
    using assms(3) r by (simp add: list_all_iff)
  then show ?thesis
    unfolding proves_def by blast
qed

theorem ExtractMatches_sound_witness:
  "let t = \<lparr>nTransactions = 1, vBits = [True], vHash = [replicate 32 1], fBad = False\<rparr> in
   ExtractMatches t = Some (replicate 32 1, [replicate 32 1], False) \<and>
   (\<exists>i branch. i < 1 \<and> length branch = tree_height 1 \<and> ComputeMerkleRootFromBranch (replicate 32 1) branch i = replicate 32 1)"
proof -
  define t :: CPartialMerkleTree where "t = \<lparr>nTransactions = 1, vBits = [True], vHash = [replicate 32 1], fBad = False\<rparr>"
  have e: "ExtractMatches t = Some (replicate 32 1, [replicate 32 1], False)"
    by (simp add: t_def ExtractMatches_def MAX_BLOCK_SIZE_CURRENT_def calc_height.simps [of "Suc 0" 0] CalcTreeWidth_def TraverseAndExtract.simps Let_def)
  moreover have "replicate 32 1 \<noteq> null256"
    by simp
  ultimately have "\<exists>i branch. i < nTransactions t \<and> length branch = tree_height (nTransactions t) \<and>
      ComputeMerkleRootFromBranch (replicate 32 1) branch i = replicate 32 1"
    by (intro ExtractMatches_sound [OF e]) simp_all
  then show ?thesis
    using e unfolding Let_def t_def by simp
qed

end
