(* ===== verification/Block_Checks.thy ===== *)
theory Block_Checks
  imports Merkle_Block Proof_Of_Work Script_Standard
begin

text \<open>
  The checks of a block that do not need the unspent outputs: \<^verbatim>\<open>CheckBlock\<close>, \<^verbatim>\<open>CheckWork\<close>, \<^verbatim>\<open>CheckBlockTime\<close>,
  \<^verbatim>\<open>ContextualCheckBlockHeader\<close>, \<^verbatim>\<open>ContextualCheckBlock\<close> and \<^verbatim>\<open>CheckColdStakeFreeOutput\<close> of \<^verbatim>\<open>src/validation.cpp\<close>,
  \<^verbatim>\<open>CheckBlockSignature\<close> of \<^verbatim>\<open>src/blocksignature.cpp\<close>, the contextual check of shielded transactions of
  \<^verbatim>\<open>src/sapling/sapling_validation.cpp\<close> and the checkpoints of \<^verbatim>\<open>src/checkpoints.cpp\<close>.  The map
  \<^verbatim>\<open>mapRejectedBlocks\<close>, in which two of the failures are noted for the masternode code, is left out.
\<close>

section \<open>The state the checks read\<close>

text \<open>
  Global variables, and what other parts of the node answer: the network parameters, the block index with the active
  chain, whether the initial download and the masternode synchronisation are over, the values of three sporks, the
  lookup of a transaction by its identifier, the budget, the hash and the rewards of the multimining library, the clock.
\<close>

record node_state =
  ns_params :: CChainParams
  ns_newP2CSRules :: bool
  ns_index :: heap
  ns_mapBlockIndex :: "bytes \<Rightarrow> ptr option"
  ns_chain :: CChain
  ns_checkpoints :: "(int \<times> bytes) list"
  ns_fCheckpoints :: bool
  ns_IsInitialBlockDownload :: bool
  ns_IsSynced :: bool
  ns_SPORK_13 :: bool
  ns_SPORK_19 :: bool
  ns_SPORK_20 :: int
  ns_GetTransaction :: "bytes \<Rightarrow> CTransaction option"
  ns_IsBudgetPaymentBlock :: "int \<Rightarrow> bool"
  ns_GetExpectedPayeeAmount :: "int \<Rightarrow> int option"
  ns_IsBlockPayeeValid :: "CBlock \<Rightarrow> int \<Rightarrow> bool"
  ns_GetCurrentAssetHash :: bytes
  ns_GetSummaryAssetsToReward :: int
  ns_GetAdjustedTime :: int
  ns_maxreorg :: int
  ns_fAddressIndex :: bool

abbreviation ns_consensus :: "node_state \<Rightarrow> Consensus_Params" where
  "ns_consensus ns \<equiv> consensus (ns_params ns)"

text \<open>A check fails with an error, or has no result where the behaviour of the code is undefined.\<close>

type_synonym 'a check = "(tx_error + 'a) option"

definition bindV :: "'a check \<Rightarrow> ('a \<Rightarrow> 'b check) \<Rightarrow> 'b check" where
  "bindV m f = (case m of None \<Rightarrow> None | Some (Inl e) \<Rightarrow> Some (Inl e) | Some (Inr x) \<Rightarrow> f x)"

abbreviation okV :: "'a \<Rightarrow> 'a check" where "okV x \<equiv> Some (Inr x)"
abbreviation failV :: "nat \<Rightarrow> string \<Rightarrow> 'a check" where "failV level reason \<equiv> Some (Inl (DoS level reason))"

definition requireV :: "bool \<Rightarrow> nat \<Rightarrow> string \<Rightarrow> unit check" where
  "requireV b level reason = (if b then okV () else failV level reason)"

text \<open>The bytes of a \<^verbatim>\<open>uint256\<close> are its limbs in memory, the lowest byte first.\<close>

fun uint256_of_bytes :: "bytes \<Rightarrow> base_uint" where
  "uint256_of_bytes (a # b # c # d # rest) = of_nat (le_decode [a, b, c, d]) # uint256_of_bytes rest"
| "uint256_of_bytes _ = []"

section \<open>The block signature\<close>

text \<open>\<open>Verify key hash sig\<close> is the verification of an ECDSA signature.\<close>

definition block_pubkey :: "txnouttype \<Rightarrow> bytes list \<Rightarrow> bytes \<Rightarrow> bytes option option" where
  "block_pubkey whichType vSolutions sig =
     (case whichType of
        TX_PUBKEY \<Rightarrow> Some (Some (vSolutions ! 0))
      | TX_PUBKEYHASH \<Rightarrow>
          if length sig = 73 then Some None
          else if sig = [] \<or> 1 + unat (sig ! 0) + 1 > length sig then None
          else Some (Some (drop (1 + unat (sig ! 0) + 1) sig))
      | TX_ASSETSMINT \<Rightarrow>
          if length sig = 73 then Some None
          else if 3 > length sig then None
          else Some (Some (drop 3 sig))
      | _ \<Rightarrow>
          if whichType = TX_COLDSTAKE \<or> whichType = TX_DPOSASSETMINT
          then if sig = [] \<or> 1 + unat (sig ! 0) \<ge> length sig then None
               else let start = 1 + unat (sig ! 0); start' = start + 1 + unat (sig ! start)
                    in if start' + 1 > length sig then None else Some (Some (drop (start' + 1) sig))
          else Some (Some []))"

definition CheckBlockSignature :: "(bytes \<Rightarrow> bytes \<Rightarrow> bytes \<Rightarrow> bool) \<Rightarrow> bool \<Rightarrow> CBlock \<Rightarrow> bool option" where
  "CheckBlockSignature Verify g_newP2CSRules block =
     (if CBlock_IsProofOfWork block then Some (vchBlockSig block = [])
      else if vchBlockSig block = [] then Some False
      else let coinstake = vtx block ! 1 in
        case Solver g_newP2CSRules (scriptPubKey (vout coinstake ! 1)) of
          None \<Rightarrow> Some False
        | Some (whichType, vSolutions) \<Rightarrow>
            (case block_pubkey whichType vSolutions (scriptSig (vin coinstake ! 0)) of
               None \<Rightarrow> None
             | Some None \<Rightarrow> Some False
             | Some (Some pubkey) \<Rightarrow>
                 if \<not> CPubKey_IsValid pubkey then Some False
                 else Some (Verify pubkey (CBlockHeader_GetHash block) (vchBlockSig block))))"

section \<open>The context-free checks\<close>

definition MAX_BLOCK_SHIELDED_TXES_SIZE :: nat where "MAX_BLOCK_SHIELDED_TXES_SIZE = 750000"
definition MAX_BLOCK_SIZE_LEGACY :: nat where "MAX_BLOCK_SIZE_LEGACY = 1000000"
definition MAX_BLOCK_SIGOPS_CURRENT :: nat where "MAX_BLOCK_SIGOPS_CURRENT = MAX_BLOCK_SIZE_CURRENT div 50"
definition MAX_BLOCK_SIGOPS_LEGACY :: nat where "MAX_BLOCK_SIGOPS_LEGACY = MAX_BLOCK_SIZE_LEGACY div 50"

definition GetTotalShieldedTxSize :: "CBlock \<Rightarrow> nat" where
  "GetTotalShieldedTxSize block = sum_list (map GetTotalSize (filter IsShieldedTx (vtx block)))"

definition CheckColdStakeFreeOutput :: "node_state \<Rightarrow> CTransaction \<Rightarrow> int \<Rightarrow> bool option" where
  "CheckColdStakeFreeOutput ns tx height =
     (if \<not> HasP2CSOutputs (ns_newP2CSRules ns) tx then Some True
      else let outs = length (vout tx); lastOut = vout tx ! (outs - 1) in
        if outs \<ge> 3 \<and> scriptPubKey lastOut \<noteq> scriptPubKey (vout tx ! (outs - 2))
        then if nValue lastOut = GetMasternodePayment (ns_params ns) height then Some True
             else if IsRegTestNet (ns_params ns) then Some False
             else if \<not> ns_IsSynced ns
             then if vin tx = [] then None
                  else case ns_GetTransaction ns (outpoint_hash (prevout (vin tx ! 0))) of
                    None \<Rightarrow> Some False
                  | Some txPrev \<Rightarrow>
                      let n = outpoint_n (prevout (vin tx ! 0)) in
                      if n \<ge> length (vout txPrev) then None
                      else let amtIn = wrap64 (nValue (vout txPrev ! n) + GetBlockValue (ns_params ns) height);
                               amtOut = foldl (\<lambda>a txout. wrap64 (a + nValue txout)) 0 (drop 1 (take (outs - 1) (vout tx)))
                           in Some (amtOut = amtIn)
             else if ns_IsBudgetPaymentBlock ns height then Some (ns_SPORK_13 ns)
             else Some False
        else Some True)"

definition CheckBlock_merkle :: "CBlock \<Rightarrow> unit check" where
  "CheckBlock_merkle block =
     (case BlockMerkleRoot block of
        None \<Rightarrow> None
      | Some (hashMerkleRoot2, mutated) \<Rightarrow>
          if hd_hashMerkleRoot block \<noteq> hashMerkleRoot2 then failV 100 ''bad-txnmrklroot''
          else if mutated then failV 100 ''bad-txns-duplicate''
          else okV ())"

text \<open>Sizes, the coinbase and the coinstake.\<close>

definition CheckBlock_layout :: "node_state \<Rightarrow> CBlock \<Rightarrow> unit check" where
  "CheckBlock_layout ns block =
     (let blockHeight = Height (ns_chain ns) + 1;
          IsPoS = CBlock_IsProofOfStake block;
          nBlockSize = length (Serialize_CBlock block)
      in if NetworkUpgradeActive (ns_consensus ns) blockHeight ACTIVATE_ASSET_VALIDATION \<and>
            hd_assetRootHash block \<noteq> ns_GetCurrentAssetHash ns
         then failV 100 ''bad-asset-hash-tree''
         else if vtx block = [] \<or> length (vtx block) > MAX_BLOCK_SIZE_CURRENT \<or> nBlockSize > MAX_BLOCK_SIZE_CURRENT
         then failV 100 ''bad-blk-length''
         else if nBlockSize > MAX_BLOCK_SHIELDED_TXES_SIZE \<and> GetTotalShieldedTxSize block > MAX_BLOCK_SHIELDED_TXES_SIZE
         then failV 100 ''bad-blk-shielded-size''
         else if vtx block = [] \<or> \<not> IsCoinBase (vtx block ! 0) then failV 100 ''bad-cb-missing''
         else if list_ex (\<lambda>tx. IsCoinBase tx \<and> \<not> ContainsAssets tx) (drop 1 (vtx block)) then failV 100 ''bad-cb-multiple''
         else if IsPoS \<and> (length (vout (vtx block ! 0)) \<noteq> 1 \<or> \<not> CTxOut_IsEmpty (vout (vtx block ! 0) ! 0))
         then failV 100 ''bad-cb-pos''
         else if IsPoS \<and> (vtx block = [] \<or> \<not> IsCoinStake (vtx block ! 1)) then failV 100 ''bad-cs-missing''
         else if IsPoS \<and> list_ex IsCoinStake (drop 2 (vtx block)) then failV 100 ''bad-cs-multiple''
         else okV ())"

text \<open>The height the block would have, and whether cold staking is active.\<close>

definition CheckBlock_coldstake :: "node_state \<Rightarrow> CBlock \<Rightarrow> bool check" where
  "CheckBlock_coldstake ns block =
     (case Tip (ns_index ns) (ns_chain ns) False of
        None \<Rightarrow> None
      | Some None \<Rightarrow> okV True
      | Some (Some p) \<Rightarrow>
          (case Option.bind (ns_index ns p) (\<lambda>b. map_option (\<lambda>hash. (b, hash)) (phashBlock b)) of
             None \<Rightarrow> None
           | Some (b, hash) \<Rightarrow>
               (case (if hash = hd_hashPrevBlock block then Some (nHeight b + 1)
                      else case ns_mapBlockIndex ns (hd_hashPrevBlock block) of
                             None \<Rightarrow> Some 0
                           | Some q \<Rightarrow> map_option (\<lambda>prev. nHeight prev + 1) (ns_index ns q)) of
                  None \<Rightarrow> None
                | Some height \<Rightarrow>
                    if height > 0 \<and> \<not> ns_IsInitialBlockDownload ns
                    then if CBlock_IsProofOfStake block
                         then (case CheckColdStakeFreeOutput ns (vtx block ! 1) height of
                                 None \<Rightarrow> None
                               | Some False \<Rightarrow> failV 0 ''bad-p2cs-outs''
                               | Some True \<Rightarrow> okV (\<not> ns_SPORK_19 ns))
                         else okV (\<not> ns_SPORK_19 ns)
                    else okV True)))"

text \<open>For a small delegation \<^verbatim>\<open>CheckTransaction\<close> reads the height of the tip; without a tip it is taken as \<open>- 1\<close>.\<close>

fun CheckBlock_txs :: "node_state \<Rightarrow> bool \<Rightarrow> bool \<Rightarrow> CTransaction list \<Rightarrow> unit check" where
  "CheckBlock_txs ns fColdStakingActive fSaplingActive [] = okV ()"
| "CheckBlock_txs ns fColdStakingActive fSaplingActive (tx # txs) =
     bindV (Some (CheckTransaction (nMaxMoneyOut (ns_consensus ns)) (ns_newP2CSRules ns) (Height (ns_chain ns)) tx
                    fColdStakingActive fSaplingActive))
       (\<lambda>_. CheckBlock_txs ns fColdStakingActive fSaplingActive txs)"

text \<open>An accepted block is returned with the flag \<^verbatim>\<open>fChecked\<close> it has afterwards.\<close>

definition CheckBlock :: "(bytes \<Rightarrow> bytes \<Rightarrow> bytes \<Rightarrow> bool) \<Rightarrow> node_state \<Rightarrow> CBlock \<Rightarrow> bool \<Rightarrow> bool \<Rightarrow> bool \<Rightarrow> CBlock check" where
  "CheckBlock Verify ns block fCheckPOW fCheckMerkleRoot fCheckSig =
     (if fChecked block then okV block
      else
        bindV (requireV (CBlock_IsProofOfStake block \<or> \<not> fCheckPOW \<or>
                 CheckProofOfWork (ns_params ns) (uint256_of_bytes (CBlockHeader_GetHash block)) (hd_nBits block)) 50 ''high-hash'') (\<lambda>_.
        bindV (if fCheckMerkleRoot then CheckBlock_merkle block else okV ()) (\<lambda>_.
        bindV (CheckBlock_layout ns block) (\<lambda>_.
        bindV (CheckBlock_coldstake ns block) (\<lambda>fColdStakingActive.
        bindV (CheckBlock_txs ns fColdStakingActive
                 (NetworkUpgradeActive (ns_consensus ns) (Height (ns_chain ns) + 1) ACTIVATE_HUSH) (vtx block)) (\<lambda>_.
        bindV (requireV (sum_list (map GetLegacySigOpCount (vtx block)) \<le> MAX_BLOCK_SIGOPS_LEGACY) 100 ''bad-blk-sigops'') (\<lambda>_.
        bindV (if fCheckSig
               then case CheckBlockSignature Verify (ns_newP2CSRules ns) block of
                      None \<Rightarrow> None
                    | Some b \<Rightarrow> requireV b 100 ''bad-PoS-sig''
               else okV ()) (\<lambda>_.
        okV (if fCheckPOW \<and> fCheckMerkleRoot \<and> fCheckSig then block\<lparr>fChecked := True\<rparr> else block)))))))))"

section \<open>The contextual checks\<close>

definition CheckWork :: "node_state \<Rightarrow> CBlock \<Rightarrow> ptr option \<Rightarrow> bool option" where
  "CheckWork ns block pindexPrev =
     (if pindexPrev = None then Some False
      else map_option (\<lambda>nBitsRequired. hd_nBits block = unat nBitsRequired)
             (GetNextWorkRequired (ns_params ns) (ns_index ns) pindexPrev))"

definition CheckBlockTime :: "node_state \<Rightarrow> 'a CBlockHeader_scheme \<Rightarrow> ptr \<Rightarrow> unit check" where
  "CheckBlockTime ns block pindexPrev =
     (if IsRegTestNet (ns_params ns) then okV ()
      else case ns_index ns pindexPrev of
        None \<Rightarrow> None
      | Some prev \<Rightarrow>
          let blockTime = CBlockHeader_GetBlockTime block; blockHeight = nHeight prev + 1 in
          if blockTime > MaxFutureBlockTime (ns_consensus ns) (ns_GetAdjustedTime ns) prev then failV 0 ''time-too-new''
          else case MinPastBlockTime (ns_consensus ns) (ns_index ns) pindexPrev of
            None \<Rightarrow> None
          | Some minTime \<Rightarrow>
              if blockTime \<le> minTime then failV 50 ''time-too-old''
              else if \<not> IsValidBlockTimeStamp (ns_consensus ns) blockTime blockHeight then failV 100 ''invalid-time-mask''
              else okV ())"

text \<open>\<^verbatim>\<open>mapCheckpoints\<close> is sorted by height.\<close>

definition Checkpoints_CheckBlock :: "node_state \<Rightarrow> int \<Rightarrow> bytes \<Rightarrow> bool \<Rightarrow> bool" where
  "Checkpoints_CheckBlock ns height hash fMatchesCheckpoint =
     (if \<not> ns_fCheckpoints ns then True
      else case map_of (ns_checkpoints ns) height of
        None \<Rightarrow> \<not> fMatchesCheckpoint
      | Some h \<Rightarrow> hash = h)"

definition GetTotalBlocksEstimate :: "node_state \<Rightarrow> int option" where
  "GetTotalBlocksEstimate ns =
     (if \<not> ns_fCheckpoints ns then Some 0
      else if ns_checkpoints ns = [] then None else Some (fst (last (ns_checkpoints ns))))"

definition GetLastCheckpoint :: "node_state \<Rightarrow> ptr option" where
  "GetLastCheckpoint ns =
     (if \<not> ns_fCheckpoints ns then None
      else Option.bind (List.find (\<lambda>(_, hash). ns_mapBlockIndex ns hash \<noteq> None) (rev (ns_checkpoints ns)))
             (\<lambda>(_, hash). ns_mapBlockIndex ns hash))"

definition outdated_version :: "node_state \<Rightarrow> 'a CBlockHeader_scheme \<Rightarrow> int \<Rightarrow> bool" where
  "outdated_version ns block height \<longleftrightarrow>
     (hd_nVersion block < 1 \<and> height \<ge> 2) \<or>
     (IsTestnet (ns_params ns) \<and> hd_nVersion block < 2 \<and> NetworkUpgradeActive (ns_consensus ns) height ACTIVATE_NEW_COLDSTAKE) \<or>
     (hd_nVersion block < 5 \<and> NetworkUpgradeActive (ns_consensus ns) height ACTIVATE_NEW_FEE_RULES)"

definition ContextualCheckBlockHeader :: "node_state \<Rightarrow> 'a CBlockHeader_scheme \<Rightarrow> ptr option \<Rightarrow> unit check" where
  "ContextualCheckBlockHeader ns block pindexPrev =
     (let hash = CBlockHeader_GetHash block in
      if hash = hashGenesisBlock (ns_consensus ns) then okV ()
      else case pindexPrev of
        None \<Rightarrow> None
      | Some p \<Rightarrow>
          (case ns_index ns p of
             None \<Rightarrow> None
           | Some prev \<Rightarrow>
               let height = nHeight prev + 1; chainHeight = Height (ns_chain ns) in
               if chainHeight - height \<ge> ns_maxreorg ns then failV 1 []
               else bindV (CheckBlockTime ns block p) (\<lambda>_.
                 if \<not> Checkpoints_CheckBlock ns height hash False then failV 100 ''checkpoint mismatch''
                 else case (case GetLastCheckpoint ns of
                              None \<Rightarrow> Some False
                            | Some c \<Rightarrow> map_option (\<lambda>pcheckpoint. height < nHeight pcheckpoint) (ns_index ns c)) of
                   None \<Rightarrow> None
                 | Some True \<Rightarrow> failV 0 []
                 | Some False \<Rightarrow> if outdated_version ns block height then failV 0 ''bad-version'' else okV ())))"

text \<open>The verification of shielded data by librustzcash, with a context of type \<open>'c\<close>.\<close>

record 'c sapling_lib =
  verification_ctx_init :: 'c
  check_spend :: "'c \<Rightarrow> SpendDescription \<Rightarrow> bytes \<Rightarrow> bool \<times> 'c"
  check_output :: "'c \<Rightarrow> OutputDescription \<Rightarrow> bool \<times> 'c"
  final_check :: "'c \<Rightarrow> int \<Rightarrow> bytes \<Rightarrow> bytes \<Rightarrow> bool"

fun check_spends :: "'c sapling_lib \<Rightarrow> bytes \<Rightarrow> SpendDescription list \<Rightarrow> 'c \<Rightarrow> 'c option" where
  "check_spends lib dataToBeSigned [] ctx = Some ctx"
| "check_spends lib dataToBeSigned (spend # rest) ctx =
     (case check_spend lib ctx spend dataToBeSigned of (ok, ctx') \<Rightarrow> if ok then check_spends lib dataToBeSigned rest ctx' else None)"

fun check_outputs :: "'c sapling_lib \<Rightarrow> OutputDescription list \<Rightarrow> 'c \<Rightarrow> 'c option" where
  "check_outputs lib [] ctx = Some ctx"
| "check_outputs lib (output # rest) ctx =
     (case check_output lib ctx output of (ok, ctx') \<Rightarrow> if ok then check_outputs lib rest ctx' else None)"

definition ContextualCheckTransaction ::
    "'c sapling_lib \<Rightarrow> blake2b \<Rightarrow> Consensus_Params \<Rightarrow> CTransaction \<Rightarrow> int \<Rightarrow> bool \<Rightarrow> bool \<Rightarrow> tx_error + unit" where
  "ContextualCheckTransaction lib blake2b params tx height isMined isInitBlockDownload =
     (let dosLevelConstricting = (if isMined then 100 else 10);
          dosLevelPotentiallyRelaxing = (if isMined then 100 else if isInitBlockDownload then 0 else 10)
      in if \<not> NetworkUpgradeActive params height ACTIVATE_HUSH then Inr ()
         else if \<not> isSaplingVersion tx \<and> hasSaplingData tx then Inl (DoS dosLevelConstricting ''bad-tx-sapling-version-too-low'')
         else if (IsCoinBase tx \<or> IsCoinStake tx) \<and> hasSaplingData tx
         then Inl (DoS dosLevelPotentiallyRelaxing ''bad-cs-has-shielded-data'')
         else case sapData tx of
           None \<Rightarrow> Inr ()
         | Some d \<Rightarrow>
             if \<not> hasSaplingData tx then Inr ()
             else case SignatureHash blake2b [] tx NOT_AN_INPUT 1 0 SIGVERSION_SAPLING None of
               None \<Rightarrow> Inl (DoS 100 ''error-computing-signature-hash'')
             | Some dataToBeSigned \<Rightarrow>
                 (case check_spends lib dataToBeSigned (vShieldedSpend d) (verification_ctx_init lib) of
                    None \<Rightarrow> Inl (DoS dosLevelPotentiallyRelaxing ''bad-txns-sapling-spend-description-invalid'')
                  | Some ctx \<Rightarrow>
                      (case check_outputs lib (vShieldedOutput d) ctx of
                         None \<Rightarrow> Inl (DoS 100 ''bad-txns-sapling-output-description-invalid'')
                       | Some ctx' \<Rightarrow>
                           if final_check lib ctx' (valueBalance d) (bindingSig d) dataToBeSigned then Inr ()
                           else Inl (DoS dosLevelPotentiallyRelaxing ''bad-txns-sapling-binding-signature-invalid''))))"

fun ContextualCheckBlock_txs :: "'c sapling_lib \<Rightarrow> blake2b \<Rightarrow> node_state \<Rightarrow> int \<Rightarrow> int \<Rightarrow> CTransaction list \<Rightarrow> unit check" where
  "ContextualCheckBlock_txs lib blake2b ns height blockTime [] = okV ()"
| "ContextualCheckBlock_txs lib blake2b ns height blockTime (tx # txs) =
     bindV (Some (ContextualCheckTransaction lib blake2b (ns_consensus ns) tx height True (ns_IsInitialBlockDownload ns))) (\<lambda>_.
     if \<not> IsFinalTx (ns_GetAdjustedTime ns) tx height blockTime then failV 10 ''bad-txns-nonfinal''
     else ContextualCheckBlock_txs lib blake2b ns height blockTime txs)"

text \<open>The coinbase must start with the height of the block; reading a first input that is not there is undefined.\<close>

definition ContextualCheckBlock :: "'c sapling_lib \<Rightarrow> blake2b \<Rightarrow> node_state \<Rightarrow> CBlock \<Rightarrow> ptr option \<Rightarrow> unit check" where
  "ContextualCheckBlock lib blake2b ns block pindexPrev =
     (case (case pindexPrev of None \<Rightarrow> Some 0 | Some p \<Rightarrow> map_option (\<lambda>prev. nHeight prev + 1) (ns_index ns p)) of
        None \<Rightarrow> None
      | Some height \<Rightarrow>
          bindV (ContextualCheckBlock_txs lib blake2b ns height (CBlockHeader_GetBlockTime block) (vtx block)) (\<lambda>_.
            if pindexPrev = None then okV ()
            else if vtx block = [] \<or> vin (vtx block ! 0) = [] then None
            else let expect = push_int64 [] height; script = scriptSig (vin (vtx block ! 0) ! 0) in
              if length script < length expect \<or> take (length expect) script \<noteq> expect
              then failV 100 ''bad-cb-height''
              else okV ()))"

section \<open>What accepted blocks satisfy\<close>

lemma bindV_okE:
  assumes "bindV m f = okV y"
  obtains x where "m = okV x" "f x = okV y"
  using assms by (auto simp: bindV_def split: option.splits sum.splits)

lemma bindV_okV [simp]: "bindV (okV x) f = f x"
  by (simp add: bindV_def)

lemma requireV_ok [simp]: "requireV b level reason = okV u \<longleftrightarrow> b"
  by (simp add: requireV_def)

lemma CheckBlock_okE:
  assumes "CheckBlock Verify ns block pow mer sig = okV block'" "\<not> fChecked block"
  obtains cold where
    "CBlock_IsProofOfStake block \<or> \<not> pow \<or>
       CheckProofOfWork (ns_params ns) (uint256_of_bytes (CBlockHeader_GetHash block)) (hd_nBits block)"
    "mer \<Longrightarrow> CheckBlock_merkle block = okV ()" "CheckBlock_layout ns block = okV ()" "CheckBlock_coldstake ns block = okV cold"
    "CheckBlock_txs ns cold (NetworkUpgradeActive (ns_consensus ns) (Height (ns_chain ns) + 1) ACTIVATE_HUSH) (vtx block) = okV ()"
    "sum_list (map GetLegacySigOpCount (vtx block)) \<le> MAX_BLOCK_SIGOPS_LEGACY"
    "sig \<Longrightarrow> CheckBlockSignature Verify (ns_newP2CSRules ns) block = Some True"
  using assms unfolding CheckBlock_def
  by (auto elim!: bindV_okE split: if_splits option.splits simp: requireV_def)

lemma CheckBlock_layoutD:
  assumes "CheckBlock_layout ns block = okV ()"
  shows "vtx block \<noteq> []" "length (vtx block) \<le> MAX_BLOCK_SIZE_CURRENT" "length (Serialize_CBlock block) \<le> MAX_BLOCK_SIZE_CURRENT"
    "IsCoinBase (hd (vtx block))" "list_all (\<lambda>tx. \<not> IsCoinBase tx) (tl (vtx block))"
    "CBlock_IsProofOfStake block \<Longrightarrow> map CTxOut_IsEmpty (vout (hd (vtx block))) = [True] \<and> list_all (\<lambda>tx. \<not> IsCoinStake tx) (drop 2 (vtx block))"
proof -
  have assets: "\<not> (IsCoinBase tx \<and> ContainsAssets tx)" for tx
    by (auto simp: IsCoinBase_def ContainsAssets_def)
  show "vtx block \<noteq> []" "length (vtx block) \<le> MAX_BLOCK_SIZE_CURRENT" "length (Serialize_CBlock block) \<le> MAX_BLOCK_SIZE_CURRENT"
    using assms by (auto simp: CheckBlock_layout_def Let_def split: if_splits)
  show "IsCoinBase (hd (vtx block))"
    using assms by (auto simp: CheckBlock_layout_def Let_def hd_conv_nth split: if_splits)
  show "list_all (\<lambda>tx. \<not> IsCoinBase tx) (tl (vtx block))"
    using assms assets by (auto simp: CheckBlock_layout_def Let_def list_ex_iff list_all_iff drop_Suc split: if_splits)
  show "map CTxOut_IsEmpty (vout (hd (vtx block))) = [True] \<and> list_all (\<lambda>tx. \<not> IsCoinStake tx) (drop 2 (vtx block))"
    if "CBlock_IsProofOfStake block"
    using assms that by (auto simp: CheckBlock_layout_def Let_def list_ex_iff list_all_iff hd_conv_nth length_Suc_conv split: if_splits)
qed

lemma CheckBlock_txsD:
  "CheckBlock_txs ns cold sap txs = okV () \<Longrightarrow> tx \<in> set txs \<Longrightarrow>
   CheckTransaction (nMaxMoneyOut (ns_consensus ns)) (ns_newP2CSRules ns) (Height (ns_chain ns)) tx cold sap = Inr ()"
  by (induction txs) (auto elim!: bindV_okE)

lemma CheckBlock_merkleD:
  assumes "CheckBlock_merkle block = okV ()" "length (vtx block) \<le> 2 ^ 31"
  shows "merkle_root (map CTransaction_GetHash (vtx block)) = hd_hashMerkleRoot block"
    "\<not> equal_pair (map CTransaction_GetHash (vtx block)) (length (vtx block))"
proof -
  let ?xs = "map CTransaction_GetHash (vtx block)"
  obtain r where "ComputeMerkleRoot ?xs = Some (r, False)" "r = hd_hashMerkleRoot block"
    using assms(1) by (auto simp: CheckBlock_merkle_def BlockMerkleRoot_def split: option.splits if_splits)
  moreover have "ComputeMerkleRoot ?xs = Some (merkle_root ?xs, equal_pair ?xs (length ?xs))"
    using MerkleComputation_correct [of ?xs False "2 ^ 32 - 1"] assms(2)
    by (cases "vtx block = []") (auto simp: ComputeMerkleRoot_def MerkleComputation_def merkle_root.simps equal_pair_def)
  ultimately show "merkle_root ?xs = hd_hashMerkleRoot block" "\<not> equal_pair ?xs (length (vtx block))"
    by simp_all
qed

subsection \<open>The header commits to the transactions\<close>

text \<open>What is hashed for the Merkle root: the transactions and the pairs of hashes.\<close>

definition merkle_preimages :: "CBlock \<Rightarrow> bytes set" where
  "merkle_preimages block =
     SerializeTransaction ` set (vtx block) \<union> (\<lambda>(l, r). l @ r) ` hashed_pairs (map CTransaction_GetHash (vtx block))"

lemma hashed_pairs_32:
  assumes "list_all (\<lambda>x. length x = 32) xs" "(l, r) \<in> hashed_pairs xs"
  shows "length l = 32" "length r = 32"
  using assms(2) length_tree_level_32 [OF assms(1)] by (auto simp: hashed_pairs_def)

lemma txids_32: "list_all (\<lambda>x. length x = 32) (map CTransaction_GetHash txs)"
  by (simp add: list_all_iff CTransaction_GetHash_def)

lemma collision_free_txids:
  assumes "inj_on Hash256 (merkle_preimages a \<union> merkle_preimages b)"
  shows "collision_free (hashed_pairs (map CTransaction_GetHash (vtx a)) \<union> hashed_pairs (map CTransaction_GetHash (vtx b)))"
proof (rule inj_onI, clarify)
  let ?A = "hashed_pairs (map CTransaction_GetHash (vtx a)) \<union> hashed_pairs (map CTransaction_GetHash (vtx b))"
  fix l r l' r' assume p: "(l, r) \<in> ?A" "(l', r') \<in> ?A" and e: "combine_hashes l r = combine_hashes l' r'"
  have "l @ r \<in> merkle_preimages a \<union> merkle_preimages b" "l' @ r' \<in> merkle_preimages a \<union> merkle_preimages b"
    using p by (force simp: merkle_preimages_def)+
  then have "l @ r = l' @ r'"
    using inj_onD [OF assms] e by (simp add: combine_hashes_def)
  moreover have "length l = length l'"
    using p hashed_pairs_32 [OF txids_32] by auto
  ultimately show "l = l' \<and> r = r'" by simp
qed

lemma leaves_separate_txids:
  assumes inj: "inj_on Hash256 (merkle_preimages a \<union> merkle_preimages b)"
    and 64: "list_all (\<lambda>tx. length (SerializeTransaction tx) \<noteq> 64) (vtx a)"
  shows "leaves_separate (map CTransaction_GetHash (vtx a)) (map CTransaction_GetHash (vtx b))"
  unfolding leaves_separate_def
proof clarify
  fix x l r assume x: "x \<in> set (map CTransaction_GetHash (vtx a))" and p: "(l, r) \<in> hashed_pairs (map CTransaction_GetHash (vtx b))"
    and e: "combine_hashes l r \<in> set (map CTransaction_GetHash (vtx a))"
  obtain tx where tx: "tx \<in> set (vtx a)" "Hash256 (SerializeTransaction tx) = Hash256 (l @ r)"
    using e by (auto simp: CTransaction_GetHash_def combine_hashes_def)
  have "SerializeTransaction tx \<in> merkle_preimages a" "l @ r \<in> merkle_preimages b"
    using tx(1) p by (force simp: merkle_preimages_def)+
  then have "SerializeTransaction tx = l @ r"
    using inj_onD [OF inj tx(2)] by blast
  then show False
    using 64 tx(1) hashed_pairs_32 [OF txids_32 p] by (auto simp: list_all_iff)
qed

text \<open>
  C14. \<^bold>\<open>A header commits to its transactions.\<close>  If \<^verbatim>\<open>CheckBlock\<close> accepts two blocks of well-formed transactions with the same
  Merkle root in their headers, they have the same transactions in the same order, unless the double SHA-256 collides on
  what is hashed for the two roots or a transaction has exactly 64 bytes, the size of an inner node.
\<close>

theorem CheckBlock_commits:
  assumes "CheckBlock Verify ns1 a pow1 True sig1 = okV a'" "CheckBlock Verify ns2 b pow2 True sig2 = okV b'"
    and "\<not> fChecked a" "\<not> fChecked b" "hd_hashMerkleRoot a = hd_hashMerkleRoot b"
    and "inj_on Hash256 (merkle_preimages a \<union> merkle_preimages b)"
    and "list_all (\<lambda>tx. CTransaction_ok tx \<and> length (SerializeTransaction tx) \<noteq> 64) (vtx a @ vtx b)"
  shows "vtx a = vtx b"
proof -
  have a: "CheckBlock_merkle a = okV ()" "CheckBlock_layout ns1 a = okV ()"
    using CheckBlock_okE [OF assms(1,3)] by metis+
  have b: "CheckBlock_merkle b = okV ()" "CheckBlock_layout ns2 b = okV ()"
    using CheckBlock_okE [OF assms(2,4)] by metis+
  have l: "length (vtx a) \<le> 2 ^ 31" "length (vtx b) \<le> 2 ^ 31"
    using CheckBlock_layoutD(2) [OF a(2)] CheckBlock_layoutD(2) [OF b(2)] by (simp_all add: MAX_BLOCK_SIZE_CURRENT_def)
  note m = CheckBlock_merkleD [OF a(1) l(1)] CheckBlock_merkleD [OF b(1) l(2)]
  have ids: "map CTransaction_GetHash (vtx a) = map CTransaction_GetHash (vtx b)"
    using m CheckBlock_layoutD(1) [OF a(2)] CheckBlock_layoutD(1) [OF b(2)] assms(5,7)
      leaves_separate_txids [of a b] leaves_separate_txids [of b a] assms(6)
    by (intro merkle_root_inject [OF _ _ collision_free_txids [OF assms(6)]]) (auto simp: Un_commute list_all_iff)
  have "inj_on CTransaction_GetHash (set (vtx a) \<union> set (vtx b))"
  proof (rule inj_onI)
    fix x y assume x: "x \<in> set (vtx a) \<union> set (vtx b)" and y: "y \<in> set (vtx a) \<union> set (vtx b)"
      and e: "CTransaction_GetHash x = CTransaction_GetHash y"
    have "SerializeTransaction x \<in> merkle_preimages a \<union> merkle_preimages b" "SerializeTransaction y \<in> merkle_preimages a \<union> merkle_preimages b"
      using x y by (auto simp: merkle_preimages_def)
    then have "SerializeTransaction x = SerializeTransaction y"
      using inj_onD [OF assms(6)] e by (simp add: CTransaction_GetHash_def)
    then show "x = y"
      using transaction.ser_inject [of x y "[]" "[]"] assms(7) x y by (auto simp: list_all_iff)
  qed
  then show ?thesis
    by (rule map_inj_on [OF ids])
qed

definition demo_reward :: CTransaction where
  "demo_reward = \<lparr>nVersion = 1, nType = 0,
     vin = [\<lparr>prevout = \<lparr>outpoint_hash = null256, outpoint_n = uint32_max\<rparr>, scriptSig = [0x51, 0x51], nSequence = 0\<rparr>],
     vout = [\<lparr>nValue = 5, scriptPubKey = [0x51], nRounds = - 10\<rparr>], nLockTime = 0, sapData = Some SaplingTxData_default,
     extraPayload = None, walletSenderId = replicate 20 0\<rparr>"

definition demo_block :: CBlock where
  "demo_block = \<lparr>hd_nVersion = 5, hd_hashPrevBlock = null256, hd_hashMerkleRoot = CTransaction_GetHash demo_reward,
     hd_nTime = 15, hd_nBits = 0, hd_nNonce = 0, hd_hashFinalSaplingRoot = null256, hd_assetRootHash = null256,
     vtx = [demo_reward], vReg = [], vchBlockSig = [], fChecked = False\<rparr>"

definition demo_node :: node_state where
  "demo_node = \<lparr>ns_params = CRegTestParams null256, ns_newP2CSRules = True, ns_index = (\<lambda>_. None), ns_mapBlockIndex = (\<lambda>_. None),
     ns_chain = [], ns_checkpoints = [(0, null256)], ns_fCheckpoints = True, ns_IsInitialBlockDownload = False,
     ns_IsSynced = True, ns_SPORK_13 = False, ns_SPORK_19 = False, ns_SPORK_20 = 4070908800, ns_GetTransaction = (\<lambda>_. None),
     ns_IsBudgetPaymentBlock = (\<lambda>_. False), ns_GetExpectedPayeeAmount = (\<lambda>_. None), ns_IsBlockPayeeValid = (\<lambda>_ _. True),
     ns_GetCurrentAssetHash = null256, ns_GetSummaryAssetsToReward = 0, ns_GetAdjustedTime = 0, ns_maxreorg = 100,
     ns_fAddressIndex = True\<rparr>"

lemmas size_defs = SerializeTransaction_def Serialize_vector_def Serialize_CTxIn_def Serialize_CTxOut_def Serialize_COutPoint_def
  Serialize_bytes_def Serialize_int16_def Serialize_uint32_def Serialize_int64_def length_WriteCompactSize
  GetSizeOfCompactSize_def read_defs length_le_encode isSaplingVersion_def

lemmas kind_defs = IsCoinBase_def COutPoint_IsNull_def HasAssetsMintOutputs_def HasAssetsSpendInputs_def HasAssetsDposMintOutputs_def
  IsMultiMiningMint_def IsAssetDposMint_def IsPayAssetScriptHash_def IsPayAssetDposScript_def CTxIn_IsMultiMiningSpend_def
  uint256_IsNull_def IsMultiMiningSpend_def StartsWithOpcode_def

lemma demo_reward_size: "length (SerializeTransaction demo_reward) = 83"
  by (simp add: demo_reward_def size_defs)

lemma demo_reward_coinbase: "IsCoinBase demo_reward"
  by (simp add: demo_reward_def kind_defs list_all_iff)

lemma demo_reward_sigops: "GetLegacySigOpCount demo_reward = 0"
  by (simp add: demo_reward_def GetLegacySigOpCount_def) code_simp

lemma demo_reward_checks: "CheckTransaction (43199500 * COIN) True (- 1) demo_reward True False = Inr ()"
  using demo_reward_size demo_reward_coinbase
  by (simp add: CheckTransaction_def GetTotalSize_def IsShieldedTx_def MAX_STANDARD_TX_SIZE_def CheckTransaction_vin_def)
    (simp add: demo_reward_def SaplingValidation_CheckTransaction_def CheckSpecialTx_def
        isSaplingVersion_def hasSaplingData_def SaplingTxData_default_def hasBindingSig_def
        CTxOut_IsEmpty_def IsPayToColdStaking_def MoneyRange_def hasExtraPayload_def COIN_def list_ex_iff)

lemma length_Serialize_CBlockHeader:
  "length (hd_hashPrevBlock b) = 32 \<Longrightarrow> length (hd_hashMerkleRoot b) = 32 \<Longrightarrow> length (hd_hashFinalSaplingRoot b) = 32 \<Longrightarrow>
   length (hd_assetRootHash b) = 32 \<Longrightarrow> length (Serialize_CBlockHeader b) \<le> 144"
  by (simp add: Serialize_CBlockHeader_def Serialize_int32_def Serialize_uint32_def read_defs)

lemma demo_block_fields:
  "vtx demo_block = [demo_reward]" "vReg demo_block = []" "vchBlockSig demo_block = []" "fChecked demo_block = False"
  "hd_hashMerkleRoot demo_block = CTransaction_GetHash demo_reward" "hd_assetRootHash demo_block = null256"
  by (simp_all only: demo_block_def CBlock.simps CBlockHeader.simps)

lemma demo_block_size: "length (Serialize_CBlock demo_block) \<le> 1000"
proof -
  have "length (Serialize_CBlockHeader demo_block) \<le> 144"
    by (rule length_Serialize_CBlockHeader) (simp_all add: demo_block_def CTransaction_GetHash_def)
  moreover have "length (Serialize_vector SerializeTransaction [demo_reward]) = 84"
    using demo_reward_size by (simp add: Serialize_vector_def length_WriteCompactSize GetSizeOfCompactSize_def)
  moreover have "length (Serialize_vector Serialize_CAssetRegistration []) = 1"
    by (simp add: Serialize_vector_def length_WriteCompactSize GetSizeOfCompactSize_def)
  ultimately show ?thesis
    by (simp add: Serialize_CBlock_def demo_block_fields)
qed

lemma merkle_root_single: "merkle_root [x] = x"
  by (subst merkle_root.simps) simp

lemma equal_pair_single: "\<not> equal_pair [x] (Suc 0)"
proof
  assume "equal_pair [x] (Suc 0)"
  then obtain l i where "(2 * i + 2) * 2 ^ l \<le> Suc 0"
    by (auto simp: equal_pair_def)
  moreover have "(2 * i + 2) * 1 \<le> (2 * i + 2) * (2 :: nat) ^ l"
    by (rule mult_left_mono) simp_all
  ultimately show False by simp
qed

lemma hashed_pairs_single: "hashed_pairs [x] = {}"
proof -
  have "\<not> 1 < tree_width 1 l" for l
    using tree_width_le_iff [of 1 l 1] by simp
  then show ?thesis by (simp add: hashed_pairs_def)
qed

lemma CheckBlock_demo: "CheckBlock Verify demo_node demo_block True True True = okV (demo_block\<lparr>fChecked := True\<rparr>)"
proof -
  have p: "CBlock_IsProofOfStake demo_block = False"
    by (simp add: CBlock_IsProofOfStake_def demo_block_def)
  have "BlockMerkleRoot demo_block = Some (CTransaction_GetHash demo_reward, False)"
    using MerkleComputation_correct [of "[CTransaction_GetHash demo_reward]" False "2 ^ 32 - 1"]
    by (auto simp: BlockMerkleRoot_def ComputeMerkleRoot_def demo_block_def merkle_root_single equal_pair_single)
  then have "CheckBlock_merkle demo_block = okV ()"
    by (simp add: CheckBlock_merkle_def demo_block_def)
  moreover have "CheckBlock_layout demo_node demo_block = okV ()"
    using demo_block_size demo_reward_coinbase p
    by (simp add: CheckBlock_layout_def MAX_BLOCK_SIZE_CURRENT_def MAX_BLOCK_SHIELDED_TXES_SIZE_def NetworkUpgradeActive_def
        NetworkUpgradeState_def NO_ACTIVATION_HEIGHT_def Let_def) (simp add: demo_block_def demo_node_def CRegTestParams_def Height_def)
  moreover have "CheckBlock_coldstake demo_node demo_block = okV True"
    by (simp add: CheckBlock_coldstake_def demo_node_def Tip_def)
  moreover have "CheckBlock_txs demo_node True
      (NetworkUpgradeActive (ns_consensus demo_node) (Height (ns_chain demo_node) + 1) ACTIVATE_HUSH) (vtx demo_block) = okV ()"
    using demo_reward_checks
    by (simp add: demo_block_def demo_node_def CRegTestParams_def Height_def NetworkUpgradeActive_def NetworkUpgradeState_def)
  moreover have "CheckProofOfWork (ns_params demo_node) h n" for h n
    by (simp add: CheckProofOfWork_def demo_node_def CRegTestParams_def IsRegTestNet_def)
  moreover have "sum_list (map GetLegacySigOpCount (vtx demo_block)) \<le> MAX_BLOCK_SIGOPS_LEGACY"
    using demo_reward_sigops by (simp add: demo_block_fields)
  ultimately show ?thesis
    using p by (simp add: CheckBlock_def CheckBlockSignature_def CBlock_IsProofOfWork_def requireV_def demo_block_fields)
qed

theorem CheckBlock_commits_witness:
  "CheckBlock (\<lambda>_ _ _. False) demo_node demo_block True True True = okV (demo_block\<lparr>fChecked := True\<rparr>) \<and>
   inj_on Hash256 (merkle_preimages demo_block) \<and> vtx demo_block = vtx demo_block"
proof -
  have i: "inj_on Hash256 (merkle_preimages demo_block \<union> merkle_preimages demo_block)"
    by (simp add: merkle_preimages_def demo_block_def hashed_pairs_single)
  have "CTransaction_ok demo_reward"
    by (simp add: CTransaction_ok_def demo_reward_def CTxIn_ok_def CTxOut_ok_def COutPoint_ok_def isSaplingVersion_def MAX_SIZE_def)
  then have o: "list_all (\<lambda>tx. CTransaction_ok tx \<and> length (SerializeTransaction tx) \<noteq> 64) (vtx demo_block @ vtx demo_block)"
    by (simp add: demo_block_def demo_reward_size)
  have "\<not> fChecked demo_block"
    by (simp add: demo_block_def)
  then show ?thesis
    using CheckBlock_commits [OF CheckBlock_demo CheckBlock_demo _ _ refl i o] i CheckBlock_demo by simp
qed

subsection \<open>Heights in coinbases\<close>

lemma push_int64_big:
  assumes "16 < n" "n < 2 ^ 31"
  obtains k where "push_int64 [] n = of_nat k # serialize n" "length (serialize n) = k" "0 < k" "k \<le> 4"
proof -
  have k: "length (serialize n) \<le> 4"
    using length_serialize [of n 4] assms by simp
  have "num_of_vch (serialize n) = n"
    using assms by (intro num_of_serialize) simp_all
  then have "serialize n \<noteq> []"
    using assms(1) by (auto simp: num_of_vch_def)
  then show thesis
    using k assms that by (simp add: push_int64_def push_vch_def)
qed

lemma push_int64_small:
  assumes "0 \<le> n" "n \<le> 16"
  obtains c where "push_int64 [] n = [of_nat c]" "c = (if n = 0 then 0 else nat n + 80)"
  using assms that by (simp add: push_int64_def)

lemma byte_of_nat_inject: "k < 256 \<Longrightarrow> l < 256 \<Longrightarrow> (of_nat k :: byte) = of_nat l \<longleftrightarrow> k = l"
  by (metis mod_less unat_of_nat_byte)

lemma push_int64_prefix_free:
  assumes n: "0 \<le> n" "n < 2 ^ 31" and m: "0 \<le> m" "m < 2 ^ 31"
    and s: "take (length (push_int64 [] n)) s = push_int64 [] n" "take (length (push_int64 [] m)) s = push_int64 [] m"
  shows "n = m"
proof -
  have ne: "push_int64 [] i \<noteq> []" for i
    by (auto simp: push_int64_def push_vch_def)
  then have h: "hd (push_int64 [] n) = hd (push_int64 [] m)"
    using s by (metis hd_take length_greater_0_conv)
  consider (small) "n \<le> 16" "m \<le> 16" | (n) "n \<le> 16" "16 < m" | (m) "16 < n" "m \<le> 16" | (big) "16 < n" "16 < m"
    by linarith
  then show ?thesis
  proof cases
    case small
    obtain c d where e: "push_int64 [] n = [of_nat c]" "push_int64 [] m = [of_nat d]"
      and d: "c = (if n = 0 then 0 else nat n + 80)" "d = (if m = 0 then 0 else nat m + 80)"
      using push_int64_small [OF n(1) small(1)] push_int64_small [OF m(1) small(2)] by metis
    have b: "c < 256" "d < 256"
      using d n m small by auto
    have "c = d"
      using h e b by (simp add: byte_of_nat_inject)
    then show ?thesis using d n m small by (auto split: if_splits)
  next
    case n2: n
    obtain c k where e: "push_int64 [] n = [of_nat c]" "push_int64 [] m = of_nat k # serialize m"
      and d: "c = (if n = 0 then 0 else nat n + 80)" "0 < k" "k \<le> 4"
      using push_int64_small [OF n(1) n2(1)] push_int64_big [OF n2(2) m(2)] by metis
    have b: "c < 256" "k < 256"
      using d n n2 by auto
    have "c = k"
      using h e b by (simp add: byte_of_nat_inject)
    then show ?thesis using d n n2 by (auto split: if_splits)
  next
    case m2: m
    obtain c k where e: "push_int64 [] m = [of_nat c]" "push_int64 [] n = of_nat k # serialize n"
      and d: "c = (if m = 0 then 0 else nat m + 80)" "0 < k" "k \<le> 4"
      using push_int64_small [OF m(1) m2(2)] push_int64_big [OF m2(1) n(2)] by metis
    have b: "c < 256" "k < 256"
      using d m m2 by auto
    have "c = k"
      using h e b by (simp add: byte_of_nat_inject)
    then show ?thesis using d m m2 by (auto split: if_splits)
  next
    case big
    obtain k l where k: "push_int64 [] n = of_nat k # serialize n" "length (serialize n) = k" "k \<le> 4"
      and l: "push_int64 [] m = of_nat l # serialize m" "length (serialize m) = l" "l \<le> 4"
      using push_int64_big [OF big(1) n(2)] push_int64_big [OF big(2) m(2)] by metis
    have "k = l"
      using h k l by (simp add: byte_of_nat_inject)
    then have "length (push_int64 [] n) = length (push_int64 [] m)"
      using k l by simp
    then have "push_int64 [] n = push_int64 [] m"
      using s by argo
    then have "serialize n = serialize m"
      unfolding k(1) l(1) by simp
    moreover have "num_of_vch (serialize n) = n" "num_of_vch (serialize m) = m"
      using n m by (intro num_of_serialize; simp)+
    ultimately show ?thesis
      by argo
  qed
qed

lemma ContextualCheckBlock_height:
  assumes "ContextualCheckBlock lib blake2b ns block (Some p) = okV ()" "ns_index ns p = Some prev"
  shows "vtx block \<noteq> []" "vin (vtx block ! 0) \<noteq> []"
    "take (length (push_int64 [] (nHeight prev + 1))) (scriptSig (vin (vtx block ! 0) ! 0)) = push_int64 [] (nHeight prev + 1)"
  using assms by (auto simp: ContextualCheckBlock_def bindV_def Let_def split: if_splits option.splits sum.splits)

text \<open>C35. The height committed in the coinbase keeps coinbases of different heights apart: two blocks that the contextual
  checks accept on top of parents of different heights (below the largest 32-bit height) never have the same first
  transaction, whatever the two chains, the two nodes and the shielded verification library are.\<close>

theorem coinbase_height_unique:
  assumes "ContextualCheckBlock lib1 blake1 ns1 block1 (Some p1) = okV ()" "ns_index ns1 p1 = Some prev1"
    and "ContextualCheckBlock lib2 blake2 ns2 block2 (Some p2) = okV ()" "ns_index ns2 p2 = Some prev2"
    and "0 \<le> nHeight prev1" "nHeight prev1 + 1 < 2 ^ 31" "0 \<le> nHeight prev2" "nHeight prev2 + 1 < 2 ^ 31"
    and "nHeight prev1 \<noteq> nHeight prev2"
  shows "vtx block1 ! 0 \<noteq> vtx block2 ! 0"
proof
  assume same: "vtx block1 ! 0 = vtx block2 ! 0"
  have "nHeight prev1 + 1 = nHeight prev2 + 1"
    using assms(5-8) ContextualCheckBlock_height(3) [OF assms(1,2)] ContextualCheckBlock_height(3) [OF assms(3,4)]
    unfolding same by (intro push_int64_prefix_free) auto
  then show False using assms(9) by simp
qed

definition demo_index :: heap where
  "demo_index p = (if p \<le> 1 then Some (CBlockIndex_default\<lparr>nHeight := int p\<rparr>) else None)"

definition demo_lib :: "unit sapling_lib" where
  "demo_lib = \<lparr>verification_ctx_init = (), check_spend = (\<lambda>_ _ _. (True, ())), check_output = (\<lambda>_ _. (True, ())),
     final_check = (\<lambda>_ _ _ _. True)\<rparr>"

definition demo_blake2b :: blake2b where
  "demo_blake2b key s = replicate 32 0"

definition demo_reward_next :: CTransaction where
  "demo_reward_next = demo_reward\<lparr>vin := [(vin demo_reward ! 0)\<lparr>scriptSig := [0x52, 0x51]\<rparr>]\<rparr>"

definition demo_next :: CBlock where
  "demo_next = demo_block\<lparr>vtx := [demo_reward_next]\<rparr>"

lemma ContextualCheckTransaction_transparent:
  "\<not> hasSaplingData tx \<Longrightarrow> ContextualCheckTransaction lib blake2b params tx height isMined ibd = Inr ()"
  by (simp add: ContextualCheckTransaction_def split: option.split)

lemma demo_rewards:
  "\<not> hasSaplingData demo_reward" "\<not> hasSaplingData demo_reward_next"
  "nLockTime demo_reward_next = 0" "nLockTime demo_reward = 0" "vtx demo_next = [demo_reward_next]"
  by (simp_all add: demo_reward_next_def demo_reward_def demo_next_def hasSaplingData_def SaplingTxData_default_def
      hasBindingSig_def list_ex_iff)

theorem coinbase_height_unique_witness:
  "vtx demo_block ! 0 \<noteq> vtx demo_next ! 0"
proof (rule coinbase_height_unique [of demo_lib demo_blake2b "demo_node\<lparr>ns_index := demo_index\<rparr>" _ 0 "CBlockIndex_default\<lparr>nHeight := 0\<rparr>" 
    demo_lib demo_blake2b "demo_node\<lparr>ns_index := demo_index\<rparr>" _ 1 "CBlockIndex_default\<lparr>nHeight := 1\<rparr>"])
  show "ContextualCheckBlock demo_lib demo_blake2b (demo_node\<lparr>ns_index := demo_index\<rparr>) demo_block (Some 0) = okV ()"
    using demo_rewards by (simp add: ContextualCheckBlock_def demo_index_def demo_block_fields bindV_def
        ContextualCheckTransaction_transparent IsFinalTx_def push_int64_def) (simp add: demo_reward_def)
  show "ContextualCheckBlock demo_lib demo_blake2b (demo_node\<lparr>ns_index := demo_index\<rparr>) demo_next (Some 1) = okV ()"
    using demo_rewards by (simp add: ContextualCheckBlock_def demo_index_def bindV_def
        ContextualCheckTransaction_transparent IsFinalTx_def push_int64_def) (simp add: demo_reward_next_def demo_reward_def)
qed (simp_all add: demo_index_def)

end
