(* ===== verification/Commitment_Tree.thy ===== *)
theory Commitment_Tree
  imports Serialization
begin

text \<open>
  The incremental Merkle tree of note commitments and its witnesses
  (\<^verbatim>\<open>src/sapling/incrementalmerkletree.h\<close>, \<^verbatim>\<open>incrementalmerkletree.cpp\<close>).  The template parameters of the
  classes are arguments here: \<open>Depth\<close>, and of the class \<open>Hash\<close> its static members \<open>combine\<close> and \<open>EmptyRoot\<close>.
  A hash is the byte list of its \<^verbatim>\<open>uint256\<close>.  \<open>None\<close> stands for a thrown exception.  The specification is
  \<open>mroot\<close>, the root of the complete binary tree whose leaves are a list followed by empty leaves.
\<close>

unbundle bit_operations_syntax

section \<open>The tree\<close>

record IncrementalMerkleTree =
  left :: "bytes option"
  right :: "bytes option"
  parents :: "bytes option list"

definition empty_tree :: IncrementalMerkleTree where
  "empty_tree = \<lparr>left = None, right = None, parents = []\<rparr>"

definition PathFiller_next :: "(nat \<Rightarrow> bytes) \<Rightarrow> bytes list \<Rightarrow> nat \<Rightarrow> bytes \<times> bytes list" where
  "PathFiller_next EmptyRoot queue depth =
     (case queue of h # queue' \<Rightarrow> (h, queue') | [] \<Rightarrow> (EmptyRoot depth, []))"

definition wfcheck :: "nat \<Rightarrow> IncrementalMerkleTree \<Rightarrow> string + unit" where
  "wfcheck Depth t =
     (if length (parents t) \<ge> Depth then Inl ''tree has too many parents''
      else if parents t \<noteq> [] \<and> last (parents t) = None
      then Inl ''tree has non-canonical representation of parent''
      else if left t = None \<and> right t \<noteq> None
      then Inl ''tree has non-canonical representation; right should not exist''
      else if left t = None \<and> length (parents t) > 0
      then Inl ''tree has non-canonical representation; parents should not be unempty''
      else Inr ())"

definition tree_last :: "IncrementalMerkleTree \<Rightarrow> bytes option" where
  "tree_last t = (case right t of Some r \<Rightarrow> Some r | None \<Rightarrow> left t)"

text \<open>
  The \<^verbatim>\<open>int\<close> expression \<^verbatim>\<open>1 << k\<close>, added to a \<^verbatim>\<open>size_t\<close>.  From \<open>k = 31\<close> on the shift leaves its range; the value it is given
  there is used by no theorem.
\<close>

definition int_shl_1 :: "nat \<Rightarrow> nat" where
  "int_shl_1 k = to_unsigned 64 (to_signed 32 (2 ^ k mod 2 ^ 32))"

fun tree_size_loop :: "bytes option list \<Rightarrow> nat \<Rightarrow> nat \<Rightarrow> nat" where
  "tree_size_loop [] i ret = ret"
| "tree_size_loop (p # ps) i ret =
     tree_size_loop ps (i + 1) (if p \<noteq> None then (ret + int_shl_1 (i + 1)) mod 2 ^ 64 else ret)"

definition tree_size :: "IncrementalMerkleTree \<Rightarrow> nat" where
  "tree_size t =
     tree_size_loop (parents t) 0 ((if left t \<noteq> None then 1 else 0) + (if right t \<noteq> None then 1 else 0))"

definition is_complete :: "IncrementalMerkleTree \<Rightarrow> nat \<Rightarrow> bool" where
  "is_complete t depth =
     (left t \<noteq> None \<and> right t \<noteq> None \<and> int (length (parents t)) = (int depth - 1) mod 2 ^ 64 \<and>
      list_all (\<lambda>p. p \<noteq> None) (parents t))"

fun append_loop :: "(bytes \<Rightarrow> bytes \<Rightarrow> nat \<Rightarrow> bytes) \<Rightarrow> nat \<Rightarrow> nat \<Rightarrow> bytes \<Rightarrow> bytes option list \<Rightarrow> bytes option list" where
  "append_loop combine Depth i combined [] = (if i < Depth then [Some combined] else [])"
| "append_loop combine Depth i combined (p # ps) =
     (if i < Depth
      then case p of
             Some h \<Rightarrow> None # append_loop combine Depth (i + 1) (combine h combined (i + 1)) ps
           | None \<Rightarrow> Some combined # ps
      else p # ps)"

definition tree_append ::
  "(bytes \<Rightarrow> bytes \<Rightarrow> nat \<Rightarrow> bytes) \<Rightarrow> nat \<Rightarrow> IncrementalMerkleTree \<Rightarrow> bytes \<Rightarrow> IncrementalMerkleTree option" where
  "tree_append combine Depth t obj =
     (if is_complete t Depth then None
      else case (left t, right t) of
             (None, _) \<Rightarrow> Some (t\<lparr>left := Some obj\<rparr>)
           | (Some l, None) \<Rightarrow> Some (t\<lparr>right := Some obj\<rparr>)
           | (Some l, Some r) \<Rightarrow>
               Some \<lparr>left = Some obj, right = None,
                     parents = append_loop combine Depth 0 (combine l r 0) (parents t)\<rparr>)"

fun next_depth_loop :: "bytes option list \<Rightarrow> nat \<Rightarrow> nat \<Rightarrow> nat" where
  "next_depth_loop [] d skip = d + skip"
| "next_depth_loop (p # ps) d skip =
     (if p = None
      then if skip > 0 then next_depth_loop ps (d + 1) (skip - 1) else d
      else next_depth_loop ps (d + 1) skip)"

definition next_depth :: "IncrementalMerkleTree \<Rightarrow> nat \<Rightarrow> nat" where
  "next_depth t skip =
     (if left t = None \<and> skip = 0 then 0
      else let skip1 = (if left t = None then skip - 1 else skip) in
        if right t = None \<and> skip1 = 0 then 0
        else next_depth_loop (parents t) 1 (if right t = None then skip1 - 1 else skip1))"

section \<open>Roots and authentication paths\<close>

fun root_parents ::
  "(bytes \<Rightarrow> bytes \<Rightarrow> nat \<Rightarrow> bytes) \<Rightarrow> (nat \<Rightarrow> bytes) \<Rightarrow> bytes option list \<Rightarrow> nat \<Rightarrow> bytes \<Rightarrow> bytes list \<Rightarrow>
   bytes \<times> nat \<times> bytes list" where
  "root_parents combine EmptyRoot [] d root filler = (root, d, filler)"
| "root_parents combine EmptyRoot (p # ps) d root filler =
     (case p of
        Some h \<Rightarrow> root_parents combine EmptyRoot ps (d + 1) (combine h root d) filler
      | None \<Rightarrow>
          let (h, filler') = PathFiller_next EmptyRoot filler d
          in root_parents combine EmptyRoot ps (d + 1) (combine root h d) filler')"

function root_fill ::
  "(bytes \<Rightarrow> bytes \<Rightarrow> nat \<Rightarrow> bytes) \<Rightarrow> (nat \<Rightarrow> bytes) \<Rightarrow> nat \<Rightarrow> nat \<Rightarrow> bytes \<Rightarrow> bytes list \<Rightarrow> bytes" where
  "root_fill combine EmptyRoot depth d root filler =
     (if d < depth
      then let (h, filler') = PathFiller_next EmptyRoot filler d
           in root_fill combine EmptyRoot depth (d + 1) (combine root h d) filler'
      else root)"
  by pat_completeness auto
termination
  by (relation "measure (\<lambda>(_, _, depth, d, _). depth - d)") auto

declare root_fill.simps [simp del]

definition tree_root ::
  "(bytes \<Rightarrow> bytes \<Rightarrow> nat \<Rightarrow> bytes) \<Rightarrow> (nat \<Rightarrow> bytes) \<Rightarrow> IncrementalMerkleTree \<Rightarrow> nat \<Rightarrow> bytes list \<Rightarrow> bytes" where
  "tree_root combine EmptyRoot t depth filler_hashes =
     (let (combine_left, filler) =
            (case left t of Some l \<Rightarrow> (l, filler_hashes) | None \<Rightarrow> PathFiller_next EmptyRoot filler_hashes 0);
          (combine_right, filler) =
            (case right t of Some r \<Rightarrow> (r, filler) | None \<Rightarrow> PathFiller_next EmptyRoot filler 0);
          (root, d, filler) = root_parents combine EmptyRoot (parents t) 1 (combine combine_left combine_right 0) filler
      in root_fill combine EmptyRoot depth d root filler)"

text \<open>Bytes into bits, the most significant bit first.\<close>

definition convertBytesVectorToVector :: "bytes \<Rightarrow> bool list" where
  "convertBytesVectorToVector bs = concat (map (\<lambda>c. map (\<lambda>j. bit c (7 - j)) [0..<8]) bs)"

text \<open>Bits into an integer, the most significant bit first; \<open>None\<close> is the thrown \<^verbatim>\<open>std::length_error\<close>.\<close>

definition convertVectorToInt :: "bool list \<Rightarrow> nat option" where
  "convertVectorToInt v =
     (if length v > 64 then None
      else Some (foldl (\<lambda>result i. if v ! i then result OR push_bit (length v - 1 - i) 1 else result) 0 [0..<length v]))"

record MerklePath =
  authentication_path :: "bool list list"
  index :: "bool list"

fun path_parents ::
  "(nat \<Rightarrow> bytes) \<Rightarrow> bytes option list \<Rightarrow> nat \<Rightarrow> bytes list \<Rightarrow> (bool \<times> bytes) list \<times> nat \<times> bytes list" where
  "path_parents EmptyRoot [] d filler = ([], d, filler)"
| "path_parents EmptyRoot (p # ps) d filler =
     (let (step, filler') =
            (case p of
               Some h \<Rightarrow> ((True, h), filler)
             | None \<Rightarrow> let (h, filler') = PathFiller_next EmptyRoot filler d in ((False, h), filler'));
          (steps, d', filler'') = path_parents EmptyRoot ps (d + 1) filler'
      in (step # steps, d', filler''))"

function path_fill :: "(nat \<Rightarrow> bytes) \<Rightarrow> nat \<Rightarrow> nat \<Rightarrow> bytes list \<Rightarrow> (bool \<times> bytes) list" where
  "path_fill EmptyRoot Depth d filler =
     (if d < Depth
      then let (h, filler') = PathFiller_next EmptyRoot filler d
           in (False, h) # path_fill EmptyRoot Depth (d + 1) filler'
      else [])"
  by pat_completeness auto
termination
  by (relation "measure (\<lambda>(_, Depth, d, _). Depth - d)") auto

declare path_fill.simps [simp del]

text \<open>The vectors \<^verbatim>\<open>index\<close> and \<^verbatim>\<open>path\<close> before they are converted and reversed, as one list of pairs.\<close>

definition path_steps :: "(nat \<Rightarrow> bytes) \<Rightarrow> nat \<Rightarrow> IncrementalMerkleTree \<Rightarrow> bytes list \<Rightarrow> (bool \<times> bytes) list option" where
  "path_steps EmptyRoot Depth t filler_hashes =
     (case left t of
        None \<Rightarrow> None
      | Some l \<Rightarrow>
          let (step, filler) =
                (case right t of
                   Some r \<Rightarrow> ((True, l), filler_hashes)
                 | None \<Rightarrow> let (h, filler') = PathFiller_next EmptyRoot filler_hashes 0 in ((False, h), filler'));
              (steps, d, filler) = path_parents EmptyRoot (parents t) 1 filler
          in Some (step # steps @ path_fill EmptyRoot Depth d filler))"

definition tree_path :: "(nat \<Rightarrow> bytes) \<Rightarrow> nat \<Rightarrow> IncrementalMerkleTree \<Rightarrow> bytes list \<Rightarrow> MerklePath option" where
  "tree_path EmptyRoot Depth t filler_hashes =
     map_option
       (\<lambda>steps. \<lparr>authentication_path = rev (map (\<lambda>s. convertBytesVectorToVector (snd s)) steps),
                 index = rev (map fst steps)\<rparr>)
       (path_steps EmptyRoot Depth t filler_hashes)"

section \<open>Witnesses\<close>

record IncrementalWitness =
  wtree :: IncrementalMerkleTree
  filled :: "bytes list"
  cursor :: "IncrementalMerkleTree option"
  cursor_depth :: nat

definition witness :: "IncrementalMerkleTree \<Rightarrow> IncrementalWitness" where
  "witness t = \<lparr>wtree = t, filled = [], cursor = None, cursor_depth = 0\<rparr>"

definition partial_path ::
  "(bytes \<Rightarrow> bytes \<Rightarrow> nat \<Rightarrow> bytes) \<Rightarrow> (nat \<Rightarrow> bytes) \<Rightarrow> IncrementalWitness \<Rightarrow> bytes list" where
  "partial_path combine EmptyRoot w =
     filled w @ (case cursor w of None \<Rightarrow> [] | Some c \<Rightarrow> [tree_root combine EmptyRoot c (cursor_depth w) []])"

definition witness_append ::
  "(bytes \<Rightarrow> bytes \<Rightarrow> nat \<Rightarrow> bytes) \<Rightarrow> (nat \<Rightarrow> bytes) \<Rightarrow> nat \<Rightarrow> IncrementalWitness \<Rightarrow> bytes \<Rightarrow> IncrementalWitness option" where
  "witness_append combine EmptyRoot Depth w obj =
     (case cursor w of
        Some c \<Rightarrow>
          (case tree_append combine Depth c obj of
             None \<Rightarrow> None
           | Some c' \<Rightarrow>
               if is_complete c' (cursor_depth w)
               then Some (w\<lparr>filled := filled w @ [tree_root combine EmptyRoot c' (cursor_depth w) []], cursor := None\<rparr>)
               else Some (w\<lparr>cursor := Some c'\<rparr>))
      | None \<Rightarrow>
          let d = next_depth (wtree w) (length (filled w)) in
          if d \<ge> Depth then None
          else if d = 0 then Some (w\<lparr>filled := filled w @ [obj], cursor_depth := d\<rparr>)
          else map_option (\<lambda>c. w\<lparr>cursor := Some c, cursor_depth := d\<rparr>) (tree_append combine Depth empty_tree obj))"

definition witness_element :: "IncrementalWitness \<Rightarrow> bytes option" where
  "witness_element w = tree_last (wtree w)"

definition witness_position :: "IncrementalWitness \<Rightarrow> nat" where
  "witness_position w = to_unsigned 64 (int (tree_size (wtree w)) - 1)"

definition witness_root ::
  "(bytes \<Rightarrow> bytes \<Rightarrow> nat \<Rightarrow> bytes) \<Rightarrow> (nat \<Rightarrow> bytes) \<Rightarrow> nat \<Rightarrow> IncrementalWitness \<Rightarrow> bytes" where
  "witness_root combine EmptyRoot Depth w =
     tree_root combine EmptyRoot (wtree w) Depth (partial_path combine EmptyRoot w)"

definition witness_path ::
  "(bytes \<Rightarrow> bytes \<Rightarrow> nat \<Rightarrow> bytes) \<Rightarrow> (nat \<Rightarrow> bytes) \<Rightarrow> nat \<Rightarrow> IncrementalWitness \<Rightarrow> MerklePath option" where
  "witness_path combine EmptyRoot Depth w =
     tree_path EmptyRoot Depth (wtree w) (partial_path combine EmptyRoot w)"

section \<open>The Sapling tree\<close>

text \<open>The hard-coded roots of the empty trees, by height: 63 initialisers for an array of 65 elements.  A height beyond the table throws \<^verbatim>\<open>std::out_of_range\<close>.\<close>

definition pedersen_empty_roots :: "bytes list" where
  "pedersen_empty_roots =
    [
     [0x01, 0x00, 0x00, 0x00, 0x00, 0x00, 0x00, 0x00, 0x00, 0x00, 0x00, 0x00, 0x00, 0x00, 0x00, 0x00, 0x00, 0x00, 0x00, 0x00, 0x00, 0x00, 0x00, 0x00, 0x00, 0x00, 0x00, 0x00, 0x00, 0x00, 0x00, 0x00],
     [0x81, 0x7d, 0xe3, 0x6a, 0xb2, 0xd5, 0x7f, 0xeb, 0x07, 0x76, 0x34, 0xbc, 0xa7, 0x78, 0x19, 0xc8, 0xe0, 0xbd, 0x29, 0x8c, 0x04, 0xf6, 0xfe, 0xd0, 0xe6, 0xa8, 0x3c, 0xc1, 0x35, 0x6c, 0xa1, 0x55],
     [0xff, 0xe9, 0xfc, 0x03, 0xf1, 0x8b, 0x17, 0x6c, 0x99, 0x88, 0x06, 0x43, 0x9f, 0xf0, 0xbb, 0x8a, 0xd1, 0x93, 0xaf, 0xdb, 0x27, 0xb2, 0xcc, 0xbc, 0x88, 0x85, 0x69, 0x16, 0xdd, 0x80, 0x4e, 0x34],
     [0xd8, 0x28, 0x33, 0x86, 0xef, 0x2e, 0xf0, 0x7e, 0xbd, 0xbb, 0x43, 0x83, 0xc1, 0x2a, 0x73, 0x9a, 0x95, 0x3a, 0x4d, 0x6e, 0x0d, 0x6f, 0xb1, 0x13, 0x9a, 0x40, 0x36, 0xd6, 0x93, 0xbf, 0xbb, 0x6c],
     [0xe1, 0x10, 0xde, 0x65, 0xc9, 0x07, 0xb9, 0xde, 0xa4, 0xae, 0x0b, 0xd8, 0x3a, 0x4b, 0x0a, 0x51, 0xbe, 0xa1, 0x75, 0x64, 0x6a, 0x64, 0xc1, 0x2b, 0x4c, 0x9f, 0x93, 0x1b, 0x2c, 0xb3, 0x1b, 0x49],
     [0x91, 0x2d, 0x82, 0xb2, 0xc2, 0xbc, 0xa2, 0x31, 0xf7, 0x1e, 0xfc, 0xf6, 0x17, 0x37, 0xfb, 0xf0, 0xa0, 0x8b, 0xef, 0xa0, 0x41, 0x62, 0x15, 0xae, 0xef, 0x53, 0xe8, 0xbb, 0x6d, 0x23, 0x39, 0x0a],
     [0x8a, 0xc9, 0xcf, 0x9c, 0x39, 0x1e, 0x3f, 0xd4, 0x28, 0x91, 0xd2, 0x72, 0x38, 0xa8, 0x1a, 0x8a, 0x5c, 0x1d, 0x3a, 0x72, 0xb1, 0xbc, 0xbe, 0xa8, 0xcf, 0x44, 0xa5, 0x8c, 0xe7, 0x38, 0x96, 0x13],
     [0xd6, 0xc6, 0x39, 0xac, 0x24, 0xb4, 0x6b, 0xd1, 0x93, 0x41, 0xc9, 0x1b, 0x13, 0xfd, 0xca, 0xb3, 0x15, 0x81, 0xdd, 0xaf, 0x7f, 0x14, 0x11, 0x33, 0x6a, 0x27, 0x1f, 0x3d, 0x0a, 0xa5, 0x28, 0x13],
     [0x7b, 0x99, 0xab, 0xdc, 0x37, 0x30, 0x99, 0x1c, 0xc9, 0x27, 0x47, 0x27, 0xd7, 0xd8, 0x2d, 0x28, 0xcb, 0x79, 0x4e, 0xdb, 0xc7, 0x03, 0x4b, 0x4f, 0x00, 0x53, 0xff, 0x7c, 0x4b, 0x68, 0x04, 0x44],
     [0x43, 0xff, 0x54, 0x57, 0xf1, 0x3b, 0x92, 0x6b, 0x61, 0xdf, 0x55, 0x2d, 0x4e, 0x40, 0x2e, 0xe6, 0xdc, 0x14, 0x63, 0xf9, 0x9a, 0x53, 0x5f, 0x9a, 0x71, 0x34, 0x39, 0x26, 0x4d, 0x5b, 0x61, 0x6b],
     [0xba, 0x49, 0xb6, 0x59, 0xfb, 0xd0, 0xb7, 0x33, 0x42, 0x11, 0xea, 0x6a, 0x9d, 0x9d, 0xf1, 0x85, 0xc7, 0x57, 0xe7, 0x0a, 0xa8, 0x1d, 0xa5, 0x62, 0xfb, 0x91, 0x2b, 0x84, 0xf4, 0x9b, 0xce, 0x72],
     [0x47, 0x77, 0xc8, 0x77, 0x6a, 0x3b, 0x1e, 0x69, 0xb7, 0x3a, 0x62, 0xfa, 0x70, 0x1f, 0xa4, 0xf7, 0xa6, 0x28, 0x2d, 0x9a, 0xee, 0x2c, 0x7a, 0x6b, 0x82, 0xe7, 0x93, 0x7d, 0x70, 0x81, 0xc2, 0x3c],
     [0xec, 0x67, 0x71, 0x14, 0xc2, 0x72, 0x06, 0xf5, 0xde, 0xbc, 0x1c, 0x1e, 0xd6, 0x6f, 0x95, 0xe2, 0xb1, 0x88, 0x5d, 0xa5, 0xb7, 0xbe, 0x3d, 0x73, 0x6b, 0x1d, 0xe9, 0x85, 0x79, 0x47, 0x30, 0x48],
     [0x1b, 0x77, 0xda, 0xc4, 0xd2, 0x4f, 0xb7, 0x25, 0x8c, 0x3c, 0x52, 0x87, 0x04, 0xc5, 0x94, 0x30, 0xb6, 0x30, 0x71, 0x8b, 0xec, 0x48, 0x64, 0x21, 0x83, 0x70, 0x21, 0xcf, 0x75, 0xda, 0xb6, 0x51],
     [0xbd, 0x74, 0xb2, 0x5a, 0xac, 0xb9, 0x23, 0x78, 0xa8, 0x71, 0xbf, 0x27, 0xd2, 0x25, 0xcf, 0xc2, 0x6b, 0xac, 0xa3, 0x44, 0xa1, 0xea, 0x35, 0xfd, 0xd9, 0x45, 0x10, 0xf3, 0xd1, 0x57, 0x08, 0x2c],
     [0xd6, 0xac, 0xde, 0xdf, 0x95, 0xf6, 0x08, 0xe0, 0x9f, 0xa5, 0x3f, 0xb4, 0x3d, 0xcd, 0x09, 0x90, 0x47, 0x57, 0x26, 0xc5, 0x13, 0x12, 0x10, 0xc9, 0xe5, 0xca, 0xea, 0xb9, 0x7f, 0x0e, 0x64, 0x2f],
     [0x1e, 0xa6, 0x67, 0x5f, 0x95, 0x51, 0xee, 0xb9, 0xdf, 0xaa, 0xa9, 0x24, 0x7b, 0xc9, 0x85, 0x82, 0x70, 0xd3, 0xd3, 0xa4, 0xc5, 0xaf, 0xa7, 0x17, 0x7a, 0x98, 0x4d, 0x5e, 0xd1, 0xbe, 0x24, 0x51],
     [0x6e, 0xdb, 0x16, 0xd0, 0x19, 0x07, 0xb7, 0x59, 0x97, 0x7d, 0x76, 0x50, 0xda, 0xd7, 0xe3, 0xec, 0x04, 0x9a, 0xf1, 0xa3, 0xd8, 0x75, 0x38, 0x0b, 0x69, 0x7c, 0x86, 0x2c, 0x9e, 0xc5, 0xd5, 0x1c],
     [0xcd, 0x1c, 0x8d, 0xbf, 0x6e, 0x3a, 0xcc, 0x7a, 0x80, 0x43, 0x9b, 0xc4, 0x96, 0x2c, 0xf2, 0x5b, 0x9d, 0xce, 0x7c, 0x89, 0x6f, 0x3a, 0x5b, 0xd7, 0x08, 0x03, 0xfc, 0x5a, 0x0e, 0x33, 0xcf, 0x00],
     [0x6a, 0xca, 0x84, 0x48, 0xd8, 0x26, 0x3e, 0x54, 0x7d, 0x5f, 0xf2, 0x95, 0x0e, 0x2e, 0xd3, 0x83, 0x9e, 0x99, 0x8d, 0x31, 0xcb, 0xc6, 0xac, 0x9f, 0xd5, 0x7b, 0xc6, 0x00, 0x2b, 0x15, 0x92, 0x16],
     [0x8d, 0x5f, 0xa4, 0x3e, 0x5a, 0x10, 0xd1, 0x16, 0x05, 0xac, 0x74, 0x30, 0xba, 0x1f, 0x5d, 0x81, 0xfb, 0x1b, 0x68, 0xd2, 0x9a, 0x64, 0x04, 0x05, 0x76, 0x77, 0x49, 0xe8, 0x41, 0x52, 0x76, 0x73],
     [0x08, 0xee, 0xab, 0x0c, 0x13, 0xab, 0xd6, 0x06, 0x9e, 0x63, 0x10, 0x19, 0x7b, 0xf8, 0x0f, 0x9c, 0x1e, 0xa6, 0xde, 0x78, 0xfd, 0x19, 0xcb, 0xae, 0x24, 0xd4, 0xa5, 0x20, 0xe6, 0xcf, 0x30, 0x23],
     [0x07, 0x69, 0x55, 0x7b, 0xc6, 0x82, 0xb1, 0xbf, 0x30, 0x86, 0x46, 0xfd, 0x0b, 0x22, 0xe6, 0x48, 0xe8, 0xb9, 0xe9, 0x8f, 0x57, 0xe2, 0x9f, 0x5a, 0xf4, 0x0f, 0x6e, 0xdb, 0x83, 0x3e, 0x2c, 0x49],
     [0x4c, 0x69, 0x37, 0xd7, 0x8f, 0x42, 0x68, 0x5f, 0x84, 0xb4, 0x3a, 0xd3, 0xb7, 0xb0, 0x0f, 0x81, 0x28, 0x56, 0x62, 0xf8, 0x5c, 0x6a, 0x68, 0xef, 0x11, 0xd6, 0x2a, 0xd1, 0xa3, 0xee, 0x08, 0x50],
     [0xfe, 0xe0, 0xe5, 0x28, 0x02, 0xcb, 0x0c, 0x46, 0xb1, 0xeb, 0x4d, 0x37, 0x6c, 0x62, 0x69, 0x7f, 0x47, 0x59, 0xf6, 0xc8, 0x91, 0x7f, 0xa3, 0x52, 0x57, 0x12, 0x02, 0xfd, 0x77, 0x8f, 0xd7, 0x12],
     [0x16, 0xd6, 0x25, 0x29, 0x68, 0x97, 0x1a, 0x83, 0xda, 0x85, 0x21, 0xd6, 0x53, 0x82, 0xe6, 0x1f, 0x01, 0x76, 0x64, 0x6d, 0x77, 0x1c, 0x91, 0x52, 0x8e, 0x32, 0x76, 0xee, 0x45, 0x38, 0x3e, 0x4a],
     [0xd2, 0xe1, 0x64, 0x2c, 0x9a, 0x46, 0x22, 0x29, 0x28, 0x9e, 0x5b, 0x0e, 0x3b, 0x7f, 0x90, 0x08, 0xe0, 0x30, 0x1c, 0xbb, 0x93, 0x38, 0x5e, 0xe0, 0xe2, 0x1d, 0xa2, 0x54, 0x50, 0x73, 0xcb, 0x58],
     [0xa5, 0x12, 0x2c, 0x08, 0xff, 0x9c, 0x16, 0x1d, 0x9c, 0xa6, 0xfc, 0x46, 0x20, 0x73, 0x39, 0x6c, 0x7d, 0x7d, 0x38, 0xe8, 0xee, 0x48, 0xcd, 0xb3, 0xbe, 0xa7, 0xe2, 0x23, 0x01, 0x34, 0xed, 0x6a],
     [0x28, 0xe7, 0xb8, 0x41, 0xdc, 0xbc, 0x47, 0xcc, 0xeb, 0x69, 0xd7, 0xcb, 0x8d, 0x94, 0x24, 0x5f, 0xb7, 0xcb, 0x2b, 0xa3, 0xa7, 0xa6, 0xbc, 0x18, 0xf1, 0x3f, 0x94, 0x5f, 0x7d, 0xbd, 0x6e, 0x2a],
     [0xe1, 0xf3, 0x4b, 0x03, 0x4d, 0x4a, 0x3c, 0xd2, 0x85, 0x57, 0xe2, 0x90, 0x7e, 0xbf, 0x99, 0x0c, 0x91, 0x8f, 0x64, 0xec, 0xb5, 0x0a, 0x94, 0xf0, 0x1d, 0x6f, 0xda, 0x5c, 0xa5, 0xc7, 0xef, 0x72],
     [0x12, 0x93, 0x5f, 0x14, 0xb6, 0x76, 0x50, 0x9b, 0x81, 0xeb, 0x49, 0xef, 0x25, 0xf3, 0x92, 0x69, 0xed, 0x72, 0x30, 0x92, 0x38, 0xb4, 0xc1, 0x45, 0x80, 0x35, 0x44, 0xb6, 0x46, 0xdc, 0xa6, 0x2d],
     [0xb2, 0xee, 0xd0, 0x31, 0xd4, 0xd6, 0xa4, 0xf0, 0x2a, 0x09, 0x7f, 0x80, 0xb5, 0x4c, 0xc1, 0x54, 0x1d, 0x41, 0x63, 0xc6, 0xb6, 0xf5, 0x97, 0x1f, 0x88, 0xb6, 0xe4, 0x1d, 0x35, 0xc5, 0x38, 0x14],
     [0xfb, 0xc2, 0xf4, 0x30, 0x0c, 0x01, 0xf0, 0xb7, 0x82, 0x0d, 0x00, 0xe3, 0x34, 0x7c, 0x8d, 0xa4, 0xee, 0x61, 0x46, 0x74, 0x37, 0x6c, 0xbc, 0x45, 0x35, 0x9d, 0xaa, 0x54, 0xf9, 0xb5, 0x49, 0x3e],
     [0x25, 0x2e, 0x67, 0x98, 0x64, 0x5f, 0x5b, 0xf1, 0x14, 0xe4, 0xb4, 0xe9, 0x0e, 0x96, 0x18, 0x28, 0x61, 0x48, 0x98, 0x40, 0xd9, 0xb4, 0xcc, 0xc4, 0xc1, 0xfb, 0x5a, 0x46, 0x99, 0x7c, 0xee, 0x14],
     [0x98, 0xb1, 0x90, 0x42, 0xf1, 0xf7, 0xc7, 0xdd, 0x11, 0xec, 0x25, 0xea, 0x66, 0xb6, 0xff, 0x74, 0xe0, 0x8c, 0xe1, 0x1d, 0x44, 0x7e, 0xd6, 0xf1, 0xbf, 0xe8, 0x7e, 0x11, 0x0e, 0x33, 0x1e, 0x11],
     [0xd4, 0x51, 0x30, 0x47, 0x99, 0x57, 0x2b, 0xa9, 0xf4, 0x2c, 0x4d, 0xab, 0x6b, 0x07, 0xc7, 0x03, 0xbd, 0x2c, 0x12, 0x3a, 0xb9, 0xd6, 0x0f, 0x2a, 0x60, 0xf9, 0x95, 0x58, 0x54, 0x91, 0x0b, 0x6a],
     [0x3e, 0xcd, 0x5f, 0x27, 0xac, 0xf0, 0x1b, 0xd3, 0x7a, 0x33, 0xe4, 0x51, 0x78, 0x67, 0xef, 0x76, 0x47, 0x4c, 0xd8, 0x3f, 0xb3, 0x1c, 0x92, 0x08, 0xdc, 0xef, 0x2e, 0xed, 0xce, 0xf3, 0x6c, 0x72],
     [0x26, 0xc3, 0x7d, 0xa6, 0x78, 0x94, 0xa1, 0x3d, 0xf8, 0xaa, 0x48, 0x78, 0xd2, 0x51, 0x4a, 0x42, 0x12, 0x57, 0x3b, 0x73, 0xec, 0xca, 0xab, 0x16, 0xfe, 0x4f, 0xa6, 0x60, 0xe8, 0xfe, 0x27, 0x07],
     [0xb5, 0x45, 0xef, 0x34, 0x48, 0x5e, 0xed, 0x30, 0xd4, 0x2b, 0x2c, 0x29, 0x5a, 0x4a, 0x5b, 0x68, 0x0d, 0xe8, 0xa9, 0xd5, 0xe3, 0x83, 0x45, 0x78, 0x24, 0x62, 0xc0, 0x4f, 0x09, 0xdc, 0x68, 0x51],
     [0x77, 0xfd, 0x20, 0xb3, 0x00, 0x94, 0x67, 0x65, 0xa8, 0x7f, 0x24, 0xbd, 0x04, 0x50, 0x73, 0x72, 0x9c, 0xbd, 0x7b, 0x66, 0xeb, 0x8f, 0xa1, 0x40, 0xb5, 0x83, 0xfa, 0xa9, 0xd1, 0x42, 0x58, 0x01],
     [0xcb, 0xaa, 0x57, 0x6b, 0x17, 0x99, 0xb5, 0x8f, 0xf3, 0xa6, 0xde, 0xcb, 0xba, 0x91, 0x9b, 0x0b, 0x68, 0xd7, 0xc8, 0x93, 0xe4, 0x6f, 0xde, 0x99, 0x87, 0x68, 0xe8, 0x7e, 0x35, 0x0a, 0x07, 0x25],
     [0x45, 0xfe, 0x81, 0xb1, 0x8c, 0xa3, 0x00, 0x74, 0xd0, 0x12, 0x0d, 0x2b, 0x1a, 0x0d, 0x10, 0xb3, 0xa0, 0x50, 0x93, 0x35, 0x12, 0xdb, 0x8e, 0xe3, 0x4e, 0x52, 0x47, 0x3d, 0x4f, 0x08, 0xa2, 0x67],
     [0x0e, 0x60, 0xa1, 0xf0, 0x12, 0x1f, 0x59, 0x1e, 0x55, 0x1d, 0x3e, 0xd1, 0x86, 0x5b, 0x50, 0xa7, 0x5d, 0x7c, 0xcf, 0xf1, 0x28, 0x9d, 0xf7, 0xc4, 0x4d, 0xd4, 0x65, 0xa5, 0x43, 0x17, 0xf5, 0x6a],
     [0xce, 0xdf, 0xb1, 0x84, 0xdd, 0x92, 0xa0, 0xcb, 0xfc, 0x11, 0xe8, 0xbe, 0x69, 0x7b, 0x47, 0x69, 0x88, 0xed, 0x5f, 0x39, 0x36, 0x9a, 0xbd, 0xd9, 0x0c, 0x61, 0x54, 0x49, 0x88, 0x60, 0x1c, 0x0d],
     [0xf3, 0x62, 0x68, 0x66, 0x12, 0x64, 0x9a, 0x31, 0x3b, 0xa4, 0x64, 0x43, 0x7a, 0x0c, 0xad, 0x0e, 0x7e, 0x3d, 0x7e, 0x1b, 0x4b, 0x37, 0x43, 0xf9, 0x0e, 0x05, 0xa2, 0x10, 0x0a, 0x49, 0x5f, 0x42],
     [0x7d, 0xea, 0xe5, 0xf3, 0xbb, 0xde, 0xff, 0xd3, 0xf8, 0x52, 0x71, 0xa0, 0x8b, 0x5e, 0xc3, 0x1f, 0x16, 0xf9, 0x37, 0x96, 0x4a, 0xe7, 0x08, 0xfd, 0xff, 0x7c, 0x13, 0xe5, 0xa4, 0xf3, 0xdf, 0x6b],
     [0x40, 0xcc, 0xf0, 0xfc, 0x1e, 0xab, 0x6d, 0x85, 0x02, 0xbd, 0x93, 0xdc, 0x31, 0x34, 0x2d, 0xfd, 0x57, 0xdf, 0x5b, 0xbb, 0x5d, 0x70, 0xa1, 0xbf, 0x6b, 0x92, 0xef, 0xc6, 0x1e, 0xc9, 0xa2, 0x58],
     [0xd7, 0x80, 0x25, 0x49, 0x1f, 0x1b, 0xca, 0x85, 0x07, 0xf6, 0x4f, 0x25, 0x87, 0x2d, 0xd0, 0x23, 0x88, 0x47, 0x9a, 0x1a, 0x22, 0x51, 0x26, 0xe4, 0x0d, 0x2f, 0xe4, 0x18, 0xb9, 0x8e, 0x0e, 0x2c],
     [0x0d, 0xb7, 0x29, 0x46, 0x85, 0xc8, 0xa0, 0x72, 0x5f, 0x15, 0x84, 0x6e, 0xa5, 0x89, 0x9e, 0xa0, 0xe9, 0x86, 0xc2, 0x70, 0x7b, 0xd7, 0xb4, 0x12, 0x95, 0x44, 0x12, 0xf2, 0x6a, 0xbf, 0x55, 0x0a],
     [0xb7, 0xe2, 0x90, 0xbe, 0x95, 0x55, 0xcf, 0x75, 0x54, 0x86, 0x50, 0xda, 0x6d, 0x47, 0xc8, 0x93, 0xae, 0xf7, 0xf8, 0xc6, 0xdd, 0x27, 0x35, 0x49, 0x94, 0x95, 0xf6, 0x36, 0x59, 0x0d, 0xae, 0x0a],
     [0x2d, 0xd2, 0x53, 0x2a, 0x85, 0x8c, 0x30, 0x01, 0x45, 0xa6, 0x5e, 0x35, 0x1f, 0x91, 0xbe, 0x6a, 0xfe, 0xab, 0x59, 0x7c, 0x41, 0xef, 0x07, 0x3f, 0x50, 0xb6, 0x22, 0xd5, 0x86, 0xff, 0x59, 0x27],
     [0x97, 0x2f, 0x0c, 0x5c, 0x6f, 0x9a, 0xeb, 0x0e, 0x38, 0xbf, 0x83, 0x19, 0xf3, 0xa5, 0xfc, 0xdc, 0x8f, 0xd8, 0x78, 0x2e, 0x41, 0x88, 0x73, 0x0c, 0xd0, 0x82, 0xd9, 0xba, 0xbc, 0x58, 0x98, 0x51],
     [0x00, 0x1e, 0x57, 0x7b, 0x0f, 0x43, 0x90, 0x18, 0x2b, 0x4a, 0xe4, 0x3d, 0x32, 0x9b, 0x3a, 0xa8, 0x83, 0x5d, 0xae, 0x1b, 0xb7, 0x9e, 0x60, 0x4b, 0x7d, 0x2d, 0xa0, 0xe9, 0x0d, 0x06, 0x09, 0x29],
     [0xaa, 0x6e, 0x70, 0xa9, 0x1e, 0xbc, 0x54, 0xee, 0xfc, 0xe5, 0xff, 0xd5, 0xb6, 0x75, 0xda, 0xf3, 0xf1, 0xd9, 0x40, 0xa8, 0x45, 0x1f, 0xcb, 0x01, 0x08, 0x1f, 0xa9, 0xd4, 0xf2, 0x62, 0x43, 0x6f],
     [0xd7, 0x70, 0x38, 0xbf, 0x67, 0xe6, 0x31, 0x75, 0x29, 0x40, 0x23, 0x12, 0x51, 0xd7, 0xfe, 0x85, 0xaf, 0x52, 0xdb, 0xdd, 0x6a, 0xab, 0x37, 0xc7, 0xa5, 0xec, 0x32, 0xb6, 0x5f, 0xe6, 0xde, 0x03],
     [0xd2, 0x27, 0xa1, 0x7a, 0x7e, 0x0c, 0xf9, 0x6d, 0xce, 0xdd, 0x9f, 0xc7, 0xbc, 0xe4, 0x3c, 0x6c, 0x1d, 0x66, 0xba, 0xdd, 0x75, 0x43, 0xa8, 0x87, 0xc8, 0x65, 0x6c, 0x54, 0x7e, 0xcf, 0xb2, 0x4f],
     [0x70, 0xe8, 0xa5, 0x21, 0x95, 0x15, 0x83, 0xe5, 0x3f, 0xc0, 0x58, 0x5c, 0x70, 0x7e, 0xce, 0xda, 0x89, 0xb7, 0xa7, 0xd1, 0xaf, 0x41, 0xd1, 0xa0, 0x15, 0xd7, 0x97, 0xfa, 0x76, 0xc0, 0xf5, 0x69],
     [0xe4, 0x85, 0xa9, 0x68, 0x55, 0xe8, 0x72, 0xfc, 0x50, 0x90, 0x15, 0x0e, 0x2c, 0xd2, 0x4e, 0x10, 0x59, 0x1d, 0x35, 0x16, 0x6e, 0xb0, 0xeb, 0x30, 0xfc, 0xdf, 0xac, 0x93, 0xb0, 0x1d, 0x28, 0x1c],
     [0xe4, 0xa1, 0x9f, 0xeb, 0xdf, 0x2a, 0x86, 0x89, 0x6e, 0x41, 0xf2, 0xce, 0xdc, 0xf2, 0xae, 0x58, 0x46, 0x71, 0x80, 0x2e, 0x6a, 0x46, 0x7e, 0x84, 0x39, 0xca, 0xb5, 0xd6, 0x18, 0x43, 0x41, 0x6b],
     [0xe9, 0x27, 0x83, 0x88, 0x47, 0x80, 0x6a, 0x43, 0xbd, 0x6c, 0x60, 0x88, 0xe3, 0x9f, 0x65, 0xb8, 0xb3, 0xe5, 0x8b, 0x2d, 0xb5, 0xf7, 0xad, 0x56, 0x43, 0xd9, 0x1e, 0x06, 0x59, 0xa2, 0x8a, 0x2a],
     [0x0b, 0xd3, 0xa8, 0x18, 0xe8, 0x3f, 0x9c, 0xd2, 0xff, 0x4f, 0x62, 0x01, 0x1a, 0x51, 0x01, 0x76, 0xac, 0x32, 0xf5, 0x44, 0x8e, 0x6e, 0x15, 0x45, 0x15, 0x04, 0x3c, 0x59, 0x26, 0xd5, 0x1c, 0x6f],
     [0xce, 0x41, 0x34, 0x45, 0xe0, 0x37, 0x90, 0x49, 0x8f, 0xe7, 0x2d, 0x8e, 0x01, 0x91, 0x5e, 0x7f, 0xf1, 0x20, 0xae, 0x35, 0xb3, 0xb5, 0x90, 0xd2, 0x1b, 0x7f, 0x74, 0xde, 0xe1, 0x83, 0x0f, 0x0d],
     [0x60, 0x0e, 0x6f, 0x93, 0xe7, 0x3d, 0x7a, 0xbd, 0x4e, 0xe0, 0xa6, 0x5c, 0xb1, 0xb1, 0x9a, 0xa3, 0xec, 0xc5, 0x25, 0x68, 0x9d, 0xbf, 0x17, 0x77, 0x96, 0x58, 0x74, 0x1b, 0x95, 0xc1, 0x5a, 0x55]
    ] @ replicate 2 (replicate 32 0)"

text \<open>The table covers every depth of a Sapling tree; the code throws beyond its end.\<close>

definition PedersenHash_EmptyRoot :: "nat \<Rightarrow> bytes" where
  "PedersenHash_EmptyRoot depth = pedersen_empty_roots ! depth"

definition SAPLING_INCREMENTAL_MERKLE_TREE_DEPTH :: nat where
  "SAPLING_INCREMENTAL_MERKLE_TREE_DEPTH = 32"

text \<open>\<^verbatim>\<open>SaplingMerkleTree::empty_root()\<close>.\<close>

definition empty_root :: bytes where
  "empty_root = PedersenHash_EmptyRoot SAPLING_INCREMENTAL_MERKLE_TREE_DEPTH"

section \<open>The complete tree\<close>

text \<open>The root at height \<open>d\<close> of the tree with the given leaves, filled up with empty leaves on the right.\<close>

fun mroot :: "(bytes \<Rightarrow> bytes \<Rightarrow> nat \<Rightarrow> bytes) \<Rightarrow> (nat \<Rightarrow> bytes) \<Rightarrow> nat \<Rightarrow> bytes list \<Rightarrow> bytes" where
  "mroot c E 0 xs = (case xs of [] \<Rightarrow> E 0 | x # _ \<Rightarrow> x)"
| "mroot c E (Suc d) xs = c (mroot c E d (take (2 ^ d) xs)) (mroot c E d (drop (2 ^ d) xs)) d"

text \<open>What the hard-coded table of empty roots relies on: every entry is the hash of the entry below with itself.\<close>

definition empty_roots :: "(bytes \<Rightarrow> bytes \<Rightarrow> nat \<Rightarrow> bytes) \<Rightarrow> (nat \<Rightarrow> bytes) \<Rightarrow> nat \<Rightarrow> bool" where
  "empty_roots c E D = list_all (\<lambda>d. E (Suc d) = c (E d) (E d) d) [0..<D]"

lemma mroot_Nil: "empty_roots c E D \<Longrightarrow> d \<le> D \<Longrightarrow> mroot c E d [] = E d"
  by (induction d) (auto simp: empty_roots_def list_all_iff)

lemma mroot_append:
  assumes "length xs = 2 ^ d"
  shows "mroot c E (Suc d) (xs @ ys) = c (mroot c E d xs) (mroot c E d ys) d"
  using assms by simp

lemma mroot_short:
  assumes "length xs \<le> 2 ^ d"
  shows "mroot c E (Suc d) xs = c (mroot c E d xs) (mroot c E d []) d"
  using assms by simp

declare mroot.simps(2) [simp del]

section \<open>Trees that represent a list of leaves\<close>

fun rep :: "(bytes \<Rightarrow> bytes \<Rightarrow> nat \<Rightarrow> bytes) \<Rightarrow> (nat \<Rightarrow> bytes) \<Rightarrow> nat \<Rightarrow> bytes option list \<Rightarrow> bytes list \<Rightarrow> bool" where
  "rep c E d [] xs = (xs = [])"
| "rep c E d (None # ps) xs = rep c E (Suc d) ps xs"
| "rep c E d (Some h # ps) xs =
     (2 ^ d \<le> length xs \<and> h = mroot c E d (drop (length xs - 2 ^ d) xs) \<and>
      rep c E (Suc d) ps (take (length xs - 2 ^ d) xs))"

lemma rep_Some_iff:
  "rep c E d (Some h # ps) xs \<longleftrightarrow>
     (\<exists>ys zs. xs = ys @ zs \<and> length zs = 2 ^ d \<and> h = mroot c E d zs \<and> rep c E (Suc d) ps ys)"
proof
  assume "rep c E d (Some h # ps) xs"
  then show "\<exists>ys zs. xs = ys @ zs \<and> length zs = 2 ^ d \<and> h = mroot c E d zs \<and> rep c E (Suc d) ps ys"
    by (intro exI [of _ "take (length xs - 2 ^ d) xs"] exI [of _ "drop (length xs - 2 ^ d) xs"]) simp
qed auto

declare rep.simps(3) [simp del]

text \<open>The number of leaves below the occupied parents, read as a binary number.\<close>

fun occupied :: "nat \<Rightarrow> bytes option list \<Rightarrow> nat" where
  "occupied d [] = 0"
| "occupied d (p # ps) = (if p \<noteq> None then 2 ^ d else 0) + occupied (Suc d) ps"

lemma rep_occupied: "rep c E d ps xs \<Longrightarrow> length xs = occupied d ps"
proof (induction ps arbitrary: d xs)
  case (Cons p ps)
  then show ?case by (cases p) (auto simp: rep_Some_iff)
qed simp

lemma rep_full:
  "rep c E d ps xs \<Longrightarrow>
   length xs + 2 ^ d \<le> 2 ^ (d + length ps) \<and>
   (list_all (\<lambda>p. p \<noteq> None) ps \<longleftrightarrow> length xs + 2 ^ d = 2 ^ (d + length ps))"
proof (induction ps arbitrary: d xs)
  case Nil
  then show ?case by simp
next
  case (Cons p ps)
  show ?case
  proof (cases p)
    case None
    then have le: "length xs + 2 * 2 ^ d \<le> 2 * 2 ^ (d + length ps)"
      using Cons.IH [of "Suc d" xs] Cons.prems by simp
    moreover have "0 < (2 :: nat) ^ d"
      by simp
    ultimately have "length xs + 2 ^ d < 2 * 2 ^ (d + length ps)"
      by linarith
    then show ?thesis
      using None by simp
  next
    case (Some h)
    then obtain ys zs where yz: "xs = ys @ zs" "length zs = 2 ^ d" "rep c E (Suc d) ps ys"
      using Cons.prems by (auto simp: rep_Some_iff)
    then show ?thesis
      using Cons.IH [OF yz(3)] Some by auto
  qed
qed

lemma rep_append_loop:
  "rep c E (Suc i) ps xs \<Longrightarrow> i + length ps < D \<Longrightarrow> length zs = 2 ^ Suc i \<Longrightarrow> h = mroot c E (Suc i) zs \<Longrightarrow>
   rep c E (Suc i) (append_loop c D i h ps) (xs @ zs)"
proof (induction ps arbitrary: i xs zs h)
  case Nil
  then show ?case by (auto simp: rep_Some_iff)
next
  case (Cons p ps)
  show ?case
  proof (cases p)
    case None
    then show ?thesis
      using Cons.prems by (auto simp: rep_Some_iff)
  next
    case (Some g)
    then obtain us vs where uv: "xs = us @ vs" "length vs = 2 ^ Suc i" "g = mroot c E (Suc i) vs"
        "rep c E (Suc (Suc i)) ps us"
      using Cons.prems(1) by (auto simp: rep_Some_iff)
    have "c g h (Suc i) = mroot c E (Suc (Suc i)) (vs @ zs)"
      using mroot_append [OF uv(2), of c E zs] uv(3) Cons.prems(4) by simp
    then show ?thesis
      using Cons.IH [OF uv(4), of "vs @ zs" "c g h (Suc i)"] Cons.prems(2,3) uv(1,2) Some by simp
  qed
qed

lemma length_append_loop:
  "i + length ps < D \<Longrightarrow>
   length (append_loop c D i h ps) = length ps + (if list_all (\<lambda>p. p \<noteq> None) ps then 1 else 0)"
  by (induction ps arbitrary: i h) (auto split: option.splits)

lemma last_append_loop:
  "i + length ps < D \<Longrightarrow> (ps \<noteq> [] \<longrightarrow> last ps \<noteq> None) \<Longrightarrow>
   append_loop c D i h ps \<noteq> [] \<and> last (append_loop c D i h ps) \<noteq> None"
  by (induction ps arbitrary: i h) (auto split: option.splits)

definition leaves :: "IncrementalMerkleTree \<Rightarrow> bytes list" where
  "leaves t = (case left t of None \<Rightarrow> [] | Some l \<Rightarrow> l # (case right t of None \<Rightarrow> [] | Some r \<Rightarrow> [r]))"

text \<open>\<open>represents c E D t xs\<close>: the tree \<open>t\<close> is well formed and stores exactly the leaves \<open>xs\<close>.\<close>

definition represents ::
  "(bytes \<Rightarrow> bytes \<Rightarrow> nat \<Rightarrow> bytes) \<Rightarrow> (nat \<Rightarrow> bytes) \<Rightarrow> nat \<Rightarrow> IncrementalMerkleTree \<Rightarrow> bytes list \<Rightarrow> bool" where
  "represents c E D t xs =
     (wfcheck D t = Inr () \<and>
      (\<exists>ys. xs = ys @ leaves t \<and> rep c E 1 (parents t) ys))"

lemma wfcheck_iff:
  "wfcheck D t = Inr () \<longleftrightarrow>
     length (parents t) < D \<and> (parents t \<noteq> [] \<longrightarrow> last (parents t) \<noteq> None) \<and>
     (left t = None \<longrightarrow> right t = None \<and> parents t = [])"
  by (auto simp: wfcheck_def)

lemma representsE:
  assumes "represents c E D t xs"
  obtains ys where "length (parents t) < D" "parents t \<noteq> [] \<longrightarrow> last (parents t) \<noteq> None"
    "left t = None \<longrightarrow> right t = None \<and> parents t = []" "xs = ys @ leaves t" "rep c E 1 (parents t) ys"
  using assms by (auto simp: represents_def wfcheck_iff)

lemma represents_empty: "0 < D \<Longrightarrow> represents c E D empty_tree []"
  by (simp add: represents_def wfcheck_def empty_tree_def leaves_def)

lemma power_split: "0 < D \<Longrightarrow> n < D \<Longrightarrow> (2 :: nat) ^ (1 + n) \<le> 2 ^ D"
  by (rule power_increasing) auto

lemma represents_complete:
  assumes r: "represents c E D t xs" and D: "D < 2 ^ 64"
  shows "length xs \<le> 2 ^ D \<and> (is_complete t D \<longleftrightarrow> length xs = 2 ^ D)"
proof -
  obtain ys where y: "length (parents t) < D" "parents t \<noteq> [] \<longrightarrow> last (parents t) \<noteq> None"
      "left t = None \<longrightarrow> right t = None \<and> parents t = []" "xs = ys @ leaves t" "rep c E 1 (parents t) ys"
    using r by (auto simp: represents_def wfcheck_iff)
  have ic: "is_complete t D \<longleftrightarrow>
      left t \<noteq> None \<and> right t \<noteq> None \<and> length (parents t) = D - 1 \<and> list_all (\<lambda>p. p \<noteq> None) (parents t)"
    using y(1) D by (auto simp: is_complete_def)
  have le: "(2 :: nat) ^ (1 + length (parents t)) \<le> 2 ^ D"
    using y(1) by (intro power_split) auto
  have eq: "length (parents t) = D - 1 \<longleftrightarrow> (2 :: nat) ^ (1 + length (parents t)) = 2 ^ D"
    using y(1) power_inject_exp [of "2 :: nat" "1 + length (parents t)" D] by auto
  note f = rep_full [OF y(5)]
  show ?thesis
    using f le ic eq y(3,4) zero_less_power [of "2 :: nat" D]
    by (auto simp: leaves_def split: option.splits)
qed

lemma tree_append_represents:
  assumes r: "represents c E d t xs" and lt: "length xs < 2 ^ d" and D: "d \<le> D" "D < 2 ^ 64"
  shows "\<exists>t'. tree_append c D t x = Some t' \<and> represents c E d t' (xs @ [x])"
proof -
  obtain ys where y: "length (parents t) < d" "parents t \<noteq> [] \<longrightarrow> last (parents t) \<noteq> None"
      "left t = None \<longrightarrow> right t = None \<and> parents t = []" "xs = ys @ leaves t" "rep c E 1 (parents t) ys"
    using r by (auto simp: represents_def wfcheck_iff)
  have nc: "\<not> is_complete t D"
  proof (cases "d = D")
    case True
    then show ?thesis using represents_complete [OF r] lt D by auto
  next
    case False
    then show ?thesis using y(1) D by (auto simp: is_complete_def)
  qed
  show ?thesis
  proof (cases "left t = None \<or> right t = None")
    case True
    then show ?thesis
      using y nc by (auto simp: tree_append_def represents_def wfcheck_iff leaves_def split: option.splits)
  next
    case False
    then obtain l r where lr: "left t = Some l" "right t = Some r"
      by auto
    let ?ps = "append_loop c D 0 (c l r 0) (parents t)"
    have len: "length ?ps < d"
    proof (cases "list_all (\<lambda>p. p \<noteq> None) (parents t)")
      case True
      then have "length xs = 2 ^ (1 + length (parents t))"
        using rep_full [OF y(5)] lr y(4) by (simp add: leaves_def)
      then have "1 + length (parents t) < d"
        using lt by (metis power_strict_increasing_iff one_less_numeral_iff semiring_norm(76))
      then show ?thesis
        using length_append_loop [of 0 "parents t" D c "c l r 0"] y(1) D(1) by simp
    qed (use length_append_loop [of 0 "parents t" D c "c l r 0"] y(1) D(1) in simp)
    have "rep c E (Suc 0) ?ps (ys @ [l, r])"
      using y(1,5) D(1) by (intro rep_append_loop) (auto simp: mroot.simps(2))
    then show ?thesis
      using lr nc y(4) len last_append_loop [of 0 "parents t" D c "c l r 0"] y(1,2) D(1)
      by (auto simp: tree_append_def represents_def wfcheck_iff leaves_def)
  qed
qed

lemma tree_append_full:
  "represents c E D t xs \<Longrightarrow> length xs = 2 ^ D \<Longrightarrow> D < 2 ^ 64 \<Longrightarrow> tree_append c D t x = None"
  using represents_complete [of c E D t xs] by (simp add: tree_append_def)

section \<open>Filling the gaps of a tree\<close>

text \<open>The heights of the subtrees that are still empty, from the leaves to the root.\<close>

fun gaps_from :: "nat \<Rightarrow> bytes option list \<Rightarrow> nat list" where
  "gaps_from d [] = []"
| "gaps_from d (p # ps) = (if p = None then [d] else []) @ gaps_from (Suc d) ps"

definition gaps :: "IncrementalMerkleTree \<Rightarrow> nat \<Rightarrow> nat list" where
  "gaps t D =
     (if left t = None then [0] else []) @ (if right t = None then [0] else []) @
     gaps_from 1 (parents t) @ [1 + length (parents t)..<D]"

text \<open>\<open>fills c E ds q ws\<close>: the filler hashes \<open>q\<close> are the roots of the subtrees of heights \<open>ds\<close> over the leaves \<open>ws\<close>.\<close>

fun fills ::
  "(bytes \<Rightarrow> bytes \<Rightarrow> nat \<Rightarrow> bytes) \<Rightarrow> (nat \<Rightarrow> bytes) \<Rightarrow> nat list \<Rightarrow> bytes list \<Rightarrow> bytes list \<Rightarrow> bool" where
  "fills c E [] q ws = (ws = [])"
| "fills c E (d # ds) [] ws = (ws = [])"
| "fills c E (d # ds) (h # q) ws = (h = mroot c E d (take (2 ^ d) ws) \<and> fills c E ds q (drop (2 ^ d) ws))"

lemma fills_Nil [simp]: "fills c E ds [] ws = (ws = [])"
  by (cases ds) auto

lemma PathFiller_fills:
  assumes "empty_roots c E D" "d \<le> D" "fills c E (d # ds) q ws"
  shows "fst (PathFiller_next E q d) = mroot c E d (take (2 ^ d) ws) \<and>
    fills c E ds (snd (PathFiller_next E q d)) (drop (2 ^ d) ws)"
  using assms mroot_Nil [OF assms(1,2)] by (cases q) (auto simp: PathFiller_next_def)

text \<open>The leaves \<open>zs\<close> fill the current subtree of height \<open>d\<close>, unless no leaf is left.\<close>

definition block_full :: "nat \<Rightarrow> bytes list \<Rightarrow> bytes list \<Rightarrow> bool" where
  "block_full d zs ws = (length zs \<le> 2 ^ d \<and> (ws \<noteq> [] \<longrightarrow> length zs = 2 ^ d))"

lemma block_full_next:
  assumes "block_full d zs ws"
  shows "c (mroot c E d zs) (mroot c E d (take (2 ^ d) ws)) d = mroot c E (Suc d) (zs @ take (2 ^ d) ws)"
    and "block_full (Suc d) (zs @ take (2 ^ d) ws) (drop (2 ^ d) ws)"
proof -
  show "c (mroot c E d zs) (mroot c E d (take (2 ^ d) ws)) d = mroot c E (Suc d) (zs @ take (2 ^ d) ws)"
    using assms mroot_append [of zs d c E "take (2 ^ d) ws"] mroot_short [of zs d c E]
    by (cases "ws = []") (auto simp: block_full_def)
  show "block_full (Suc d) (zs @ take (2 ^ d) ws) (drop (2 ^ d) ws)"
    using assms by (cases "ws = []") (auto simp: block_full_def)
qed

lemma root_parents_fills:
  assumes er: "empty_roots c E D"
  shows "rep c E d ps ys \<Longrightarrow> d + length ps \<le> D \<Longrightarrow> block_full d zs ws \<Longrightarrow>
    fills c E (gaps_from d ps @ ds) q ws \<Longrightarrow>
    \<exists>us vs q'. ws = us @ vs \<and> fills c E ds q' vs \<and> block_full (d + length ps) (ys @ zs @ us) vs \<and>
      root_parents c E ps d (mroot c E d zs) q = (mroot c E (d + length ps) (ys @ zs @ us), d + length ps, q')"
proof (induction ps arbitrary: d ys zs ws q)
  case Nil
  then show ?case by (intro exI [of _ "[]"] exI [of _ ws] exI [of _ q]) simp
next
  case (Cons p ps)
  show ?case
  proof (cases p)
    case None
    let ?n = "PathFiller_next E q d"
    have f: "fst ?n = mroot c E d (take (2 ^ d) ws)"
        "fills c E (gaps_from (Suc d) ps @ ds) (snd ?n) (drop (2 ^ d) ws)"
      using PathFiller_fills [OF er, of d "gaps_from (Suc d) ps @ ds" q ws] Cons.prems(2,4) None by auto
    obtain us vs q' where i: "drop (2 ^ d) ws = us @ vs" "fills c E ds q' vs"
        "block_full (Suc d + length ps) (ys @ (zs @ take (2 ^ d) ws) @ us) vs"
        "root_parents c E ps (Suc d) (mroot c E (Suc d) (zs @ take (2 ^ d) ws)) (snd ?n) =
           (mroot c E (Suc d + length ps) (ys @ (zs @ take (2 ^ d) ws) @ us), Suc d + length ps, q')"
      using Cons.IH [OF _ _ block_full_next(2) [OF Cons.prems(3)] f(2), of ys] Cons.prems(1,2) None by auto
    have "ws = (take (2 ^ d) ws @ us) @ vs"
      using i(1) append_take_drop_id [of "2 ^ d" ws] by simp
    then show ?thesis
      using i None f(1) block_full_next(1) [OF Cons.prems(3), of c E]
      by (intro exI [of _ "take (2 ^ d) ws @ us"] exI [of _ vs] exI [of _ q']) (simp add: case_prod_unfold)
  next
    case (Some h)
    then obtain as bs where ab: "ys = as @ bs" "length bs = 2 ^ d" "h = mroot c E d bs" "rep c E (Suc d) ps as"
      using Cons.prems(1) by (auto simp: rep_Some_iff)
    have "c h (mroot c E d zs) d = mroot c E (Suc d) (bs @ zs)"
      using mroot_append [OF ab(2)] ab(3) by simp
    moreover have "block_full (Suc d) (bs @ zs) ws"
      using Cons.prems(3) ab(2) by (auto simp: block_full_def)
    ultimately show ?thesis
      using Cons.IH [OF ab(4), of "bs @ zs" ws q] Cons.prems(2,4) Some ab(1) by auto
  qed
qed

lemma root_fill_fills:
  assumes er: "empty_roots c E D"
  shows "d \<le> n \<Longrightarrow> n \<le> D \<Longrightarrow> block_full d zs ws \<Longrightarrow> fills c E [d..<n] q ws \<Longrightarrow>
    root_fill c E n d (mroot c E d zs) q = mroot c E n (zs @ ws)"
proof (induction "n - d" arbitrary: d zs ws q)
  case 0
  then show ?case by (simp add: root_fill.simps)
next
  case (Suc k)
  let ?n = "PathFiller_next E q d"
  have lt: "d < n" using Suc.hyps(2) by simp
  then have f: "fst ?n = mroot c E d (take (2 ^ d) ws)" "fills c E [Suc d..<n] (snd ?n) (drop (2 ^ d) ws)"
    using PathFiller_fills [OF er, of d "[Suc d..<n]" q ws] Suc.prems by (auto simp: upt_conv_Cons)
  show ?case
    using Suc.hyps(1) [of "Suc d" "zs @ take (2 ^ d) ws" "drop (2 ^ d) ws" "snd ?n"] Suc.hyps(2) Suc.prems(2) lt f
      block_full_next(1) [OF Suc.prems(3), of c E] block_full_next(2) [OF Suc.prems(3)]
    by (simp add: root_fill.simps [of c E n d] case_prod_unfold)
qed

lemma leaves_fills:
  assumes er: "empty_roots c E D" and wf: "left t = None \<longrightarrow> right t = None"
    and f: "fills c E ((if left t = None then [0] else []) @ (if right t = None then [0] else []) @ ds) q ws"
  shows "\<exists>us vs q1 q2 cl cr. ws = us @ vs \<and> fills c E ds q2 vs \<and> block_full 1 (leaves t @ us) vs \<and>
    (case left t of Some l \<Rightarrow> (l, q) | None \<Rightarrow> PathFiller_next E q 0) = (cl, q1) \<and>
    (case right t of Some r \<Rightarrow> (r, q1) | None \<Rightarrow> PathFiller_next E q1 0) = (cr, q2) \<and>
    c cl cr 0 = mroot c E 1 (leaves t @ us)"
proof -
  note next0 = PathFiller_fills [OF er le0]
  have one: "c (mroot c E 0 (take (Suc 0) us)) (mroot c E 0 (take (Suc 0) (drop (Suc 0) us))) 0 =
      mroot c E (Suc 0) (take 2 us)" for us
    by (cases us; cases "tl us") (auto simp: mroot.simps(2))
  show ?thesis
  proof (cases "left t")
    case None
    let ?n1 = "PathFiller_next E q 0"
    let ?n2 = "PathFiller_next E (snd ?n1) 0"
    have n: "fst ?n1 = mroot c E 0 (take (Suc 0) ws)" "fst ?n2 = mroot c E 0 (take (Suc 0) (drop (Suc 0) ws))"
        "fills c E ds (snd ?n2) (drop 2 ws)"
      using next0 [of "0 # ds" q ws] next0 [of ds "snd ?n1" "drop 1 ws"] f wf None
      by (auto simp: eval_nat_numeral)
    show ?thesis
      by (rule exI [of _ "take 2 ws"], rule exI [of _ "drop 2 ws"], rule exI [of _ "snd ?n1"],
          rule exI [of _ "snd ?n2"], rule exI [of _ "fst ?n1"], rule exI [of _ "fst ?n2"])
        (use n one [of ws] None wf in \<open>simp del: mroot.simps add: leaves_def block_full_def prod_eq_iff\<close>)
  next
    case (Some l)
    note l = this
    show ?thesis
    proof (cases "right t")
      case None
      let ?n = "PathFiller_next E q 0"
      have n: "fst ?n = mroot c E 0 (take (Suc 0) ws)" "fills c E ds (snd ?n) (drop (Suc 0) ws)"
        using next0 [of ds q ws] f l None by auto
      show ?thesis
        by (rule exI [of _ "take 1 ws"], rule exI [of _ "drop 1 ws"], rule exI [of _ q], rule exI [of _ "snd ?n"],
            rule exI [of _ l], rule exI [of _ "fst ?n"])
          (use n l None in \<open>auto simp: leaves_def block_full_def prod_eq_iff mroot.simps(2)\<close>)
    next
      case (Some r)
      show ?thesis
        by (rule exI [of _ "[]"], rule exI [of _ ws], rule exI [of _ q], rule exI [of _ q],
            rule exI [of _ l], rule exI [of _ r])
          (use f l Some in \<open>auto simp: leaves_def block_full_def mroot.simps(2)\<close>)
    qed
  qed
qed

lemma tree_root_fills:
  assumes er: "empty_roots c E D" and r: "represents c E d t xs" and d: "d \<le> D" and f: "fills c E (gaps t d) q ws"
  shows "tree_root c E t d q = mroot c E d (xs @ ws)"
proof -
  obtain ys where y: "length (parents t) < d" "left t = None \<longrightarrow> right t = None"
      "xs = ys @ leaves t" "rep c E 1 (parents t) ys"
    using r by (auto simp: represents_def wfcheck_iff)
  let ?ds = "gaps_from 1 (parents t) @ [1 + length (parents t)..<d]"
  obtain us vs q1 q2 cl cr where l: "ws = us @ vs" "fills c E ?ds q2 vs" "block_full 1 (leaves t @ us) vs"
    "(case left t of Some l \<Rightarrow> (l, q) | None \<Rightarrow> PathFiller_next E q 0) = (cl, q1)"
    "(case right t of Some r \<Rightarrow> (r, q1) | None \<Rightarrow> PathFiller_next E q1 0) = (cr, q2)"
    "c cl cr 0 = mroot c E 1 (leaves t @ us)"
    using leaves_fills [OF er y(2), of ?ds q ws] f unfolding gaps_def by blast
  obtain us' vs' q' where p: "vs = us' @ vs'" "fills c E [1 + length (parents t)..<d] q' vs'"
    "block_full (1 + length (parents t)) (ys @ (leaves t @ us) @ us') vs'"
    "root_parents c E (parents t) 1 (c cl cr 0) q2 =
       (mroot c E (1 + length (parents t)) (ys @ (leaves t @ us) @ us'), 1 + length (parents t), q')"
    using root_parents_fills [OF er y(4) _ l(3,2)] y(1) d l(6) by auto
  show ?thesis
    using root_fill_fills [OF er _ d p(3,2)] y(1) l(1,4,5) p(1,4) y(3) by (simp add: tree_root_def)
qed

lemma tree_root_represents:
  "empty_roots c E D \<Longrightarrow> represents c E d t xs \<Longrightarrow> d \<le> D \<Longrightarrow> tree_root c E t d [] = mroot c E d xs"
  using tree_root_fills [of c E D d t xs "[]" "[]"] by simp

section \<open>Gaps and capacity\<close>

lemma gaps_from_sum: "sum_list (map ((^) 2) (gaps_from d ps)) + occupied d ps + 2 ^ d = (2 :: nat) ^ (d + length ps)"
proof (induction ps arbitrary: d)
  case (Cons p ps)
  then show ?case using Cons.IH [of "Suc d"] by auto
qed simp

lemma upt_power_sum: "m \<le> n \<Longrightarrow> sum_list (map ((^) 2) [m..<n]) + 2 ^ m = (2 :: nat) ^ n"
  by (induction n) (auto simp: le_Suc_eq)

lemma gaps_sum:
  assumes "represents c E D t xs"
  shows "sum_list (map ((^) 2) (gaps t D)) + length xs = 2 ^ D"
proof -
  obtain ys where y: "length (parents t) < D" "left t = None \<longrightarrow> right t = None"
      "xs = ys @ leaves t" "rep c E 1 (parents t) ys"
    using assms by (auto simp: represents_def wfcheck_iff)
  show ?thesis
    using gaps_from_sum [of 1 "parents t"] upt_power_sum [of "1 + length (parents t)" D] y(1,2,3) rep_occupied [OF y(4)]
    by (auto simp: gaps_def leaves_def split: option.splits)
qed

lemma next_depth_loop_gaps:
  "d + length ps \<le> D \<Longrightarrow>
   (if k < length (gaps_from d ps @ [d + length ps..<D])
    then next_depth_loop ps d k = (gaps_from d ps @ [d + length ps..<D]) ! k
    else D \<le> next_depth_loop ps d k)"
proof (induction ps arbitrary: d k)
  case (Cons p ps)
  show ?case
    using Cons.IH [of "Suc d" "k - 1"] Cons.IH [of "Suc d" k] Cons.prems by (cases k) (auto split: if_splits)
qed auto

lemma next_depth_gaps:
  assumes "wfcheck D t = Inr ()"
  shows "if k < length (gaps t D) then next_depth t k = gaps t D ! k else D \<le> next_depth t k"
proof -
  note n = next_depth_loop_gaps [of 1 "parents t" D]
  show ?thesis
    using assms n [of k] n [of "k - 1"] n [of "k - 1 - 1"]
    by (cases k; cases "k - 1") (auto simp: wfcheck_iff gaps_def next_depth_def Let_def split: if_splits)
qed

section \<open>Witnesses follow the tree\<close>

text \<open>\<open>roots_of c E ds hs us\<close>: the hashes \<open>hs\<close> are the roots of completely filled subtrees of heights \<open>ds\<close>.\<close>

fun roots_of ::
  "(bytes \<Rightarrow> bytes \<Rightarrow> nat \<Rightarrow> bytes) \<Rightarrow> (nat \<Rightarrow> bytes) \<Rightarrow> nat list \<Rightarrow> bytes list \<Rightarrow> bytes list \<Rightarrow> bool" where
  "roots_of c E [] [] us = (us = [])"
| "roots_of c E (d # ds) (h # hs) us =
     (2 ^ d \<le> length us \<and> h = mroot c E d (take (2 ^ d) us) \<and> roots_of c E ds hs (drop (2 ^ d) us))"
| "roots_of c E _ _ us = False"

lemma roots_of_length:
  "roots_of c E ds hs us \<Longrightarrow> length hs = length ds \<and> length us = sum_list (map ((^) 2) ds)"
  by (induction c E ds hs us rule: roots_of.induct) auto

lemma roots_of_snoc:
  "roots_of c E ds hs us \<Longrightarrow> length vs = 2 ^ d \<Longrightarrow> h = mroot c E d vs \<Longrightarrow>
   roots_of c E (ds @ [d]) (hs @ [h]) (us @ vs)"
  by (induction c E ds hs us rule: roots_of.induct) auto

lemma roots_of_fills:
  "roots_of c E ds hs us \<Longrightarrow> fills c E ds' q vs \<Longrightarrow> fills c E (ds @ ds') (hs @ q) (us @ vs)"
  by (induction c E ds hs us rule: roots_of.induct) auto

text \<open>
  \<open>witnesses c E D w xs ws\<close>: the witness \<open>w\<close> was taken of a tree with the leaves \<open>xs\<close> and has since seen
  the leaves \<open>ws\<close>; the filled subtrees hold the first of them, the cursor the rest.
\<close>

definition witnesses ::
  "(bytes \<Rightarrow> bytes \<Rightarrow> nat \<Rightarrow> bytes) \<Rightarrow> (nat \<Rightarrow> bytes) \<Rightarrow> nat \<Rightarrow> IncrementalWitness \<Rightarrow> bytes list \<Rightarrow> bytes list \<Rightarrow> bool" where
  "witnesses c E D w xs ws =
     (represents c E D (wtree w) xs \<and>
      (\<exists>us vs. ws = us @ vs \<and> length (filled w) \<le> length (gaps (wtree w) D) \<and>
         roots_of c E (take (length (filled w)) (gaps (wtree w) D)) (filled w) us \<and>
         (case cursor w of
            None \<Rightarrow> vs = []
          | Some t \<Rightarrow>
              length (filled w) < length (gaps (wtree w) D) \<and> cursor_depth w = gaps (wtree w) D ! length (filled w) \<and>
              cursor_depth w < D \<and> length vs < 2 ^ cursor_depth w \<and> represents c E (cursor_depth w) t vs)))"

lemma witnesses_witness: "represents c E D t xs \<Longrightarrow> witnesses c E D (witness t) xs []"
  by (simp add: witnesses_def witness_def)

lemma partial_path_fills:
  assumes er: "empty_roots c E D" and w: "witnesses c E D w xs ws"
  shows "fills c E (gaps (wtree w) D) (partial_path c E w) ws"
proof -
  let ?k = "length (filled w)" and ?gs = "gaps (wtree w) D"
  obtain us vs where v: "ws = us @ vs" "roots_of c E (take ?k ?gs) (filled w) us"
      "case cursor w of None \<Rightarrow> vs = []
       | Some t \<Rightarrow> ?k < length ?gs \<and> cursor_depth w = ?gs ! ?k \<and> cursor_depth w < D \<and>
                   length vs < 2 ^ cursor_depth w \<and> represents c E (cursor_depth w) t vs"
    using w by (auto simp: witnesses_def)
  have "fills c E (drop ?k ?gs)
      (case cursor w of None \<Rightarrow> [] | Some t \<Rightarrow> [tree_root c E t (cursor_depth w) []]) vs"
  proof (cases "cursor w")
    case (Some t)
    then have d: "drop ?k ?gs = cursor_depth w # drop (Suc ?k) ?gs" "length vs < 2 ^ cursor_depth w"
        "represents c E (cursor_depth w) t vs" "cursor_depth w \<le> D"
      using v(3) Cons_nth_drop_Suc [of ?k ?gs] by auto
    then show ?thesis
      using Some tree_root_represents [OF er d(3,4)] by simp
  qed (use v(3) in simp)
  then show ?thesis
    using roots_of_fills [OF v(2)] v(1) by (fastforce simp: partial_path_def)
qed

lemma gaps_from_bounds: "set (gaps_from d ps) \<subseteq> {d..<d + length ps}"
proof (induction ps arbitrary: d)
  case (Cons p ps)
  then show ?case using Cons.IH [of "Suc d"] by auto
qed simp

lemma gaps_less: "wfcheck D t = Inr () \<Longrightarrow> k < length (gaps t D) \<Longrightarrow> gaps t D ! k < D"
  using nth_mem [of k "gaps t D"] gaps_from_bounds [of 1 "parents t"]
  by (auto simp: wfcheck_iff gaps_def split: if_splits)

lemma gaps_zero:
  assumes "represents c E D t xs" "xs \<noteq> []" "k < length (gaps t D)"
  shows "gaps t D ! k = 0 \<longleftrightarrow> right t = None \<and> k = 0"
proof -
  have "left t \<noteq> None"
    using assms(1,2) by (auto simp: represents_def wfcheck_iff leaves_def)
  moreover have "0 < (gaps_from 1 (parents t) @ [1 + length (parents t)..<D]) ! i"
    if "i < length (gaps_from 1 (parents t) @ [1 + length (parents t)..<D])" for i
    using nth_mem [OF that] gaps_from_bounds [of 1 "parents t"] by auto
  ultimately show ?thesis
    using assms(3) by (cases k) (fastforce simp: gaps_def split: if_splits)+
qed

lemma witnessesE:
  assumes "witnesses c E D w xs ws"
  obtains us vs where "represents c E D (wtree w) xs" "ws = us @ vs" "length (filled w) \<le> length (gaps (wtree w) D)"
    "roots_of c E (take (length (filled w)) (gaps (wtree w) D)) (filled w) us"
    "cursor w = None \<and> vs = [] \<or>
     (\<exists>t. cursor w = Some t \<and> length (filled w) < length (gaps (wtree w) D) \<and>
        cursor_depth w = gaps (wtree w) D ! length (filled w) \<and> cursor_depth w < D \<and>
        length vs < 2 ^ cursor_depth w \<and> represents c E (cursor_depth w) t vs)"
proof -
  have "\<exists>us vs. ws = us @ vs \<and> length (filled w) \<le> length (gaps (wtree w) D) \<and>
         roots_of c E (take (length (filled w)) (gaps (wtree w) D)) (filled w) us \<and>
         (case cursor w of
            None \<Rightarrow> vs = []
          | Some t \<Rightarrow>
              length (filled w) < length (gaps (wtree w) D) \<and> cursor_depth w = gaps (wtree w) D ! length (filled w) \<and>
              cursor_depth w < D \<and> length vs < 2 ^ cursor_depth w \<and> represents c E (cursor_depth w) t vs)"
    using assms by (simp add: witnesses_def)
  then obtain us vs where "ws = us @ vs" "length (filled w) \<le> length (gaps (wtree w) D)"
      "roots_of c E (take (length (filled w)) (gaps (wtree w) D)) (filled w) us"
      "case cursor w of
            None \<Rightarrow> vs = []
          | Some t \<Rightarrow>
              length (filled w) < length (gaps (wtree w) D) \<and> cursor_depth w = gaps (wtree w) D ! length (filled w) \<and>
              cursor_depth w < D \<and> length vs < 2 ^ cursor_depth w \<and> represents c E (cursor_depth w) t vs"
    by blast
  moreover have "represents c E D (wtree w) xs"
    using assms by (simp add: witnesses_def)
  ultimately show ?thesis
    by (intro that [of us vs]) (auto split: option.splits)
qed

lemma witnesses_cursorI:
  assumes "represents c E D (wtree w) xs" "cursor w = Some t" "length (filled w) < length (gaps (wtree w) D)"
    "roots_of c E (take (length (filled w)) (gaps (wtree w) D)) (filled w) us"
    "cursor_depth w = gaps (wtree w) D ! length (filled w)" "cursor_depth w < D"
    "length vs < 2 ^ cursor_depth w" "represents c E (cursor_depth w) t vs"
  shows "witnesses c E D w xs (us @ vs)"
  unfolding witnesses_def using assms by fastforce

lemma witnesses_room:
  assumes "witnesses c E D w xs ws"
  shows "length xs + length ws < 2 ^ D \<longleftrightarrow> length (filled w) < length (gaps (wtree w) D)"
proof -
  let ?k = "length (filled w)" and ?gs = "gaps (wtree w) D"
  obtain us vs where v: "represents c E D (wtree w) xs" "ws = us @ vs" "?k \<le> length ?gs"
      "roots_of c E (take ?k ?gs) (filled w) us"
      "cursor w = None \<and> vs = [] \<or> ?k < length ?gs \<and> length vs < 2 ^ (?gs ! ?k)"
    by (rule witnessesE [OF assms]) auto
  have s: "sum_list (map ((^) 2) ?gs) + length xs = 2 ^ D"
    using gaps_sum [OF v(1)] .
  have u: "length us = sum_list (map ((^) 2) (take ?k ?gs))"
    using roots_of_length [OF v(4)] by simp
  show ?thesis
  proof (cases "?k < length ?gs")
    case True
    have "sum_list (map ((^) (2 :: nat)) ?gs) = sum_list (map ((^) 2) (take ?k ?gs @ ?gs ! ?k # drop (Suc ?k) ?gs))"
      by (simp only: id_take_nth_drop [OF True, symmetric])
    then have "sum_list (map ((^) (2 :: nat)) ?gs) =
        length us + 2 ^ (?gs ! ?k) + sum_list (map ((^) 2) (drop (Suc ?k) ?gs))"
      using u by (simp only: map_append sum_list_append list.map sum_list.Cons add.assoc)
    moreover have "length vs < 2 ^ (?gs ! ?k)"
      using v(5) True by auto
    ultimately show ?thesis
      using s v(2) True by simp
  qed (use s u v in auto)
qed

lemma witness_append_cursor:
  assumes er: "empty_roots c E D" and w: "witnesses c E D w xs ws" and D: "D < 2 ^ 64" and cu: "cursor w = Some t"
  shows "\<exists>w'. witness_append c E D w x = Some w' \<and> witnesses c E D w' xs (ws @ [x])"
proof -
  let ?k = "length (filled w)" and ?gs = "gaps (wtree w) D" and ?d = "cursor_depth w"
  obtain us vs where v: "represents c E D (wtree w) xs" "ws = us @ vs"
      "roots_of c E (take ?k ?gs) (filled w) us" "?k < length ?gs" "?d = ?gs ! ?k" "?d < D"
      "length vs < 2 ^ ?d" "represents c E ?d t vs"
    by (rule witnessesE [OF w]) (use cu in auto)
  obtain t' where t': "tree_append c D t x = Some t'" "represents c E ?d t' (vs @ [x])"
    using tree_append_represents [OF v(8,7) _ D] v(6) by auto
  have com: "is_complete t' ?d \<longleftrightarrow> length (vs @ [x]) = 2 ^ ?d"
    using represents_complete [OF t'(2)] v(6) D by auto
  show ?thesis
  proof (cases "is_complete t' ?d")
    case True
    have "roots_of c E (take (Suc ?k) ?gs) (filled w @ [tree_root c E t' ?d []]) (us @ vs @ [x])"
      using roots_of_snoc [OF v(3), of "vs @ [x]" ?d] tree_root_represents [OF er t'(2)] True com v(4,5,6)
      by (simp add: take_Suc_conv_app_nth)
    then show ?thesis
      using t'(1) True cu v by (simp add: witness_append_def witnesses_def)
  next
    case False
    then have "length (vs @ [x]) < 2 ^ ?d"
      using com v(7) by auto
    then have "witnesses c E D (w\<lparr>cursor := Some t'\<rparr>) xs (us @ vs @ [x])"
      using t' v by (intro witnesses_cursorI) simp_all
    then show ?thesis
      using t'(1) False cu v(2) by (simp add: witness_append_def)
  qed
qed

lemma witness_append_next:
  assumes w: "witnesses c E D w xs ws" and D: "D < 2 ^ 64" and cu: "cursor w = None"
  shows "if length xs + length ws < 2 ^ D
    then \<exists>w'. witness_append c E D w x = Some w' \<and> witnesses c E D w' xs (ws @ [x])
    else witness_append c E D w x = None"
proof -
  let ?k = "length (filled w)" and ?gs = "gaps (wtree w) D"
  obtain us where v: "represents c E D (wtree w) xs" "ws = us" "roots_of c E (take ?k ?gs) (filled w) us"
    by (rule witnessesE [OF w]) (use cu in auto)
  have wf: "wfcheck D (wtree w) = Inr ()"
    using v(1) by (simp add: represents_def)
  show ?thesis
  proof (cases "?k < length ?gs")
    case True
    let ?d = "?gs ! ?k"
    have d: "next_depth (wtree w) ?k = ?d" "?d < D"
      using next_depth_gaps [OF wf, of ?k] gaps_less [OF wf True] True by auto
    have "\<exists>w'. witness_append c E D w x = Some w' \<and> witnesses c E D w' xs (ws @ [x])"
    proof (cases "?d = 0")
      case 0: True
      have "roots_of c E (take (Suc ?k) ?gs) (filled w @ [x]) (us @ [x])"
        using roots_of_snoc [OF v(3), of "[x]" ?d x] 0 True by (simp add: take_Suc_conv_app_nth)
      then show ?thesis
        using 0 d cu v True by (simp add: witness_append_def witnesses_def)
    next
      case False
      then have d2: "(1 :: nat) < 2 ^ ?d"
        using one_less_power [of "2 :: nat" ?d] by simp
      obtain t' where t': "tree_append c D empty_tree x = Some t'" "represents c E ?d t' [x]"
        using tree_append_represents [OF represents_empty [of ?d c E], of D x] False d(2) D by auto
      then have "witnesses c E D (w\<lparr>cursor := Some t', cursor_depth := ?d\<rparr>) xs (us @ [x])"
        using d v True d2 by (intro witnesses_cursorI) simp_all
      then show ?thesis
        using False d cu v(2) t'(1) by (simp add: witness_append_def)
    qed
    then show ?thesis
      using witnesses_room [OF w] True by simp
  next
    case False
    then show ?thesis
      using witnesses_room [OF w] next_depth_gaps [OF wf, of ?k] cu by (simp add: witness_append_def)
  qed
qed

lemma witness_append_witnesses:
  assumes "empty_roots c E D" "witnesses c E D w xs ws" "D < 2 ^ 64"
  shows "if length xs + length ws < 2 ^ D
    then \<exists>w'. witness_append c E D w x = Some w' \<and> witnesses c E D w' xs (ws @ [x])
    else witness_append c E D w x = None"
proof (cases "cursor w")
  case None
  then show ?thesis using witness_append_next [OF assms(2,3)] by simp
next
  case (Some t)
  have "length (filled w) < length (gaps (wtree w) D)"
    by (rule witnessesE [OF assms(2)]) (use Some in auto)
  then show ?thesis
    using witness_append_cursor [OF assms Some, of x] witnesses_room [OF assms(2)] by simp
qed

section \<open>Authentication paths\<close>

text \<open>Hashing a leaf up along a path; \<open>True\<close> marks a sibling on the left.\<close>

fun path_root :: "(bytes \<Rightarrow> bytes \<Rightarrow> nat \<Rightarrow> bytes) \<Rightarrow> bytes \<Rightarrow> nat \<Rightarrow> (bool \<times> bytes) list \<Rightarrow> bytes" where
  "path_root c cur d [] = cur"
| "path_root c cur d ((b, h) # steps) = path_root c (if b then c h cur d else c cur h d) (Suc d) steps"

lemma path_root_append:
  "path_root c cur d (s1 @ s2) = path_root c (path_root c cur d s1) (d + length s1) s2"
  by (induction c cur d s1 rule: path_root.induct) auto

lemma path_parents_root:
  "path_parents E ps d q = (steps, d', q') \<Longrightarrow>
   root_parents c E ps d cur q = (path_root c cur d steps, d', q') \<and> d' = d + length ps \<and>
   map fst steps = map (\<lambda>p. p \<noteq> None) ps"
proof (induction ps arbitrary: d q cur steps d' q')
  case (Cons p ps)
  show ?case
  proof (cases p)
    case None
    obtain s1 d1 q1 where r: "path_parents E ps (Suc d) (snd (PathFiller_next E q d)) = (s1, d1, q1)"
      by (cases "path_parents E ps (Suc d) (snd (PathFiller_next E q d))") auto
    then show ?thesis
      using Cons.prems Cons.IH [OF r] None by (auto simp: case_prod_unfold Let_def)
  next
    case (Some h)
    obtain s1 d1 q1 where r: "path_parents E ps (Suc d) q = (s1, d1, q1)"
      by (cases "path_parents E ps (Suc d) q") auto
    then show ?thesis
      using Cons.prems Cons.IH [OF r] Some by (auto simp: Let_def)
  qed
qed simp

lemma path_fill_root:
  "root_fill c E n d cur q = path_root c cur d (path_fill E n d q) \<and>
   map fst (path_fill E n d q) = replicate (n - d) False"
proof (induction "n - d" arbitrary: d cur q)
  case 0
  then show ?case by (simp add: root_fill.simps path_fill.simps)
next
  case (Suc k)
  then have d: "d < n" "k = n - Suc d"
    by simp_all
  have r: "replicate (n - d) False = False # replicate (n - Suc d) False"
    using d(1) by (simp add: Suc_diff_Suc [symmetric])
  show ?case
    using Suc.hyps(1) [OF d(2)] d(1) r
    by (simp add: root_fill.simps [of c E n d] path_fill.simps [of E n d] case_prod_unfold Let_def)
qed

lemma path_steps_root:
  assumes "wfcheck D t = Inr ()" "left t \<noteq> None"
  shows "\<exists>steps leaf. path_steps E D t q = Some steps \<and> tree_last t = Some leaf \<and>
    path_root c leaf 0 steps = tree_root c E t D q \<and>
    map fst steps = (right t \<noteq> None) # map (\<lambda>p. p \<noteq> None) (parents t) @ replicate (D - (1 + length (parents t))) False"
proof -
  obtain l where l: "left t = Some l"
    using assms(2) by auto
  let ?s0 = "case right t of
       Some r \<Rightarrow> ((True, l), q)
     | None \<Rightarrow> (let (h, q') = PathFiller_next E q 0 in ((False, h), q'))"
  obtain steps d q' where p: "path_parents E (parents t) 1 (snd ?s0) = (steps, d, q')"
    by (cases "path_parents E (parents t) 1 (snd ?s0)") auto
  have d: "d = 1 + length steps" "map fst steps = map (\<lambda>p. p \<noteq> None) (parents t)"
    using path_parents_root [OF p] map_eq_imp_length_eq [of fst steps "\<lambda>p. p \<noteq> None" "parents t"] by auto
  show ?thesis
    using path_parents_root [OF p] path_fill_root [of c E D d _ q'] d p l
    by (cases "right t")
      (auto simp: path_steps_def tree_root_def tree_last_def case_prod_unfold Let_def path_root_append)
qed

text \<open>Bits back into bytes, and a path in the format of the proofs.\<close>

function bits_to_bytes :: "bool list \<Rightarrow> bytes" where
  "bits_to_bytes bs =
     (if bs = [] then [] else horner_sum of_bool 2 (rev (take 8 bs)) # bits_to_bytes (drop 8 bs))"
  by pat_completeness auto
termination
  by (relation "measure length") auto

declare bits_to_bytes.simps [simp del]

definition opens :: "(bytes \<Rightarrow> bytes \<Rightarrow> nat \<Rightarrow> bytes) \<Rightarrow> MerklePath \<Rightarrow> bytes \<Rightarrow> bytes \<Rightarrow> bool" where
  "opens c p leaf root =
     (path_root c leaf 0 (zip (rev (index p)) (map bits_to_bytes (rev (authentication_path p)))) = root)"

lemma byte_bits: "horner_sum of_bool 2 (rev (map (\<lambda>j. bit c (7 - j)) [0..<8])) = (c :: byte)"
proof -
  have "rev (map (\<lambda>j. bit c (7 - j)) [0..<8]) = map (bit c) [0..<8]"
    by (simp add: upt_rec eval_nat_numeral)
  then show ?thesis
    using horner_sum_bit_eq_take_bit [of c 8] by (simp add: take_bit_word_eq_self)
qed

lemma bits_to_bytes_convert: "bits_to_bytes (convertBytesVectorToVector bs) = bs"
proof (induction bs)
  case (Cons b bs)
  have "convertBytesVectorToVector (b # bs) =
      map (\<lambda>j. bit b (7 - j)) [0..<8] @ convertBytesVectorToVector bs"
    by (simp add: convertBytesVectorToVector_def)
  then show ?case
    using Cons.IH byte_bits [of b] by (simp add: bits_to_bytes.simps [of "_ @ _"])
qed (simp add: convertBytesVectorToVector_def bits_to_bytes.simps)

lemma opens_path:
  assumes "path_steps E D t q = Some steps"
  shows "\<exists>p. tree_path E D t q = Some p \<and> index p = rev (map fst steps) \<and>
    length (authentication_path p) = length steps \<and> (opens c p leaf root \<longleftrightarrow> path_root c leaf 0 steps = root)"
  using assms
  by (auto simp: tree_path_def opens_def rev_map [symmetric] comp_def bits_to_bytes_convert zip_map_fst_snd)

lemma convertVectorToInt_loop:
  "n \<le> length v \<Longrightarrow>
   bit (foldl (\<lambda>result i. if v ! i then result OR push_bit (length v - 1 - i) 1 else result) (0 :: nat) [0..<n]) k \<longleftrightarrow>
   (\<exists>i<n. v ! i \<and> k = length v - 1 - i)"
proof (induction n)
  case (Suc n)
  have "bit (push_bit (length v - 1 - n) (1 :: nat)) k \<longleftrightarrow> k = length v - 1 - n"
    by (auto simp: bit_exp_iff)
  then show ?case
    using Suc by (auto simp del: push_bit_of_1 simp: bit_or_iff less_Suc_eq)
qed simp

lemma convertVectorToInt_rev:
  assumes "length bs \<le> 64"
  shows "convertVectorToInt (rev bs) = Some (horner_sum of_bool 2 bs)"
proof -
  have "foldl (\<lambda>result i. if rev bs ! i then result OR push_bit (length (rev bs) - 1 - i) 1 else result) 0
      [0..<length (rev bs)] = (horner_sum of_bool 2 bs :: nat)" (is "?l = ?r")
  proof (rule bit_eqI)
    fix k
    have "(\<exists>i<length bs. rev bs ! i \<and> k = length bs - 1 - i) \<longleftrightarrow> k < length bs \<and> bs ! k"
    proof
      assume "k < length bs \<and> bs ! k"
      then show "\<exists>i<length bs. rev bs ! i \<and> k = length bs - 1 - i"
        by (intro exI [of _ "length bs - 1 - k"]) (auto simp: rev_nth)
    qed (auto simp: rev_nth)
    then show "bit ?l k \<longleftrightarrow> bit ?r k"
      using convertVectorToInt_loop [of "length bs" "rev bs" k] by (simp add: bit_horner_sum_bit_iff)
  qed
  then show ?thesis
    using assms by (simp add: convertVectorToInt_def)
qed

lemma occupied_horner: "occupied d ps = 2 ^ d * horner_sum of_bool 2 (map (\<lambda>p. p \<noteq> None) ps)"
  by (induction ps arbitrary: d) (auto simp: algebra_simps)

lemma horner_False: "horner_sum of_bool 2 (replicate n False) = (0 :: nat)"
  by (induction n) auto

lemma path_position:
  assumes "represents c E D t xs" "xs \<noteq> []"
  shows "horner_sum of_bool 2
      ((right t \<noteq> None) # map (\<lambda>p. p \<noteq> None) (parents t) @ replicate (D - (1 + length (parents t))) False) =
    length xs - 1"
proof -
  obtain ys where y: "left t = None \<longrightarrow> right t = None \<and> parents t = []" "xs = ys @ leaves t"
      "rep c E 1 (parents t) ys"
    using assms(1) by (auto simp: represents_def wfcheck_iff)
  have "length ys = 2 * horner_sum of_bool 2 (map (\<lambda>p. p \<noteq> None) (parents t))"
    using rep_occupied [OF y(3)] occupied_horner [of 1 "parents t"] by simp
  moreover have "left t \<noteq> None"
    using y assms(2) by (cases "left t") (auto simp: leaves_def)
  ultimately show ?thesis
    using y(2) by (auto simp: leaves_def horner_sum_append horner_False split: option.splits)
qed

lemma occupied_ge: "ps \<noteq> [] \<Longrightarrow> last ps \<noteq> None \<Longrightarrow> 2 ^ (d + length ps - 1) \<le> occupied d ps"
proof (induction ps arbitrary: d)
  case (Cons p ps)
  then show ?case using Cons.IH [of "Suc d"] by (cases "ps = []") auto
qed simp

lemma int_shl_1: "k \<le> 30 \<Longrightarrow> int_shl_1 k = 2 ^ k"
proof -
  assume "k \<le> 30"
  then have k: "(2 :: nat) ^ k \<le> 2 ^ 30"
    by (rule power_increasing) simp
  then have "int (2 ^ k) \<le> int (2 ^ 30)"
    by (simp only: of_nat_le_iff)
  then show ?thesis
    using k by (simp add: int_shl_1_def to_signed_def to_unsigned_def nat_power_eq)
qed

lemma tree_size_loop:
  "i + length ps \<le> 30 \<Longrightarrow> ret + 2 ^ Suc i \<le> 2 ^ 32 \<Longrightarrow> ret \<le> 2 ^ Suc i \<Longrightarrow>
   tree_size_loop ps i ret = ret + occupied (Suc i) ps"
proof (induction ps arbitrary: i ret)
  case (Cons p ps)
  have p: "(2 :: nat) ^ Suc (Suc i) \<le> 2 ^ 31"
    using Cons.prems(1) by (intro power_increasing) auto
  then show ?case
    using Cons.IH [of "Suc i" ret] Cons.IH [of "Suc i" "ret + 2 ^ Suc i"] Cons.prems int_shl_1 [of "Suc i"] by auto
qed simp

lemma tree_size_represents:
  assumes r: "represents c E D t xs" and le: "length xs \<le> 2 ^ 31"
  shows "tree_size t = length xs"
proof -
  obtain ys where y: "parents t \<noteq> [] \<longrightarrow> last (parents t) \<noteq> None" "left t = None \<longrightarrow> right t = None \<and> parents t = []"
      "xs = ys @ leaves t" "rep c E 1 (parents t) ys"
    using r by (auto simp: represents_def wfcheck_iff)
  have len: "length (parents t) \<le> 30"
  proof (cases "parents t = []")
    case False
    then have "2 ^ length (parents t) \<le> length ys" "leaves t \<noteq> []"
      using occupied_ge [of "parents t" 1] y rep_occupied [OF y(4)] by (auto simp: leaves_def)
    then have "(2 :: nat) ^ length (parents t) < 2 ^ 31"
      using y(3) le by (cases "leaves t") auto
    then show ?thesis
      using power_less_imp_less_exp [of "2 :: nat" "length (parents t)" 31] by simp
  qed simp
  show ?thesis
    using y(2,3) rep_occupied [OF y(4)] len
    by (auto simp: tree_size_def leaves_def tree_size_loop split: option.splits)
qed

section \<open>Sequences of appends\<close>

fun tree_appends ::
  "(bytes \<Rightarrow> bytes \<Rightarrow> nat \<Rightarrow> bytes) \<Rightarrow> nat \<Rightarrow> IncrementalMerkleTree \<Rightarrow> bytes list \<Rightarrow> IncrementalMerkleTree option" where
  "tree_appends c D t [] = Some t"
| "tree_appends c D t (x # xs) = Option.bind (tree_append c D t x) (\<lambda>t'. tree_appends c D t' xs)"

fun witness_appends ::
  "(bytes \<Rightarrow> bytes \<Rightarrow> nat \<Rightarrow> bytes) \<Rightarrow> (nat \<Rightarrow> bytes) \<Rightarrow> nat \<Rightarrow> IncrementalWitness \<Rightarrow> bytes list \<Rightarrow> IncrementalWitness option" where
  "witness_appends c E D w [] = Some w"
| "witness_appends c E D w (x # xs) = Option.bind (witness_append c E D w x) (\<lambda>w'. witness_appends c E D w' xs)"

lemma tree_appends_represents:
  "represents c E D t ys \<Longrightarrow> D < 2 ^ 64 \<Longrightarrow>
   if length ys + length xs \<le> 2 ^ D
   then \<exists>t'. tree_appends c D t xs = Some t' \<and> represents c E D t' (ys @ xs)
   else tree_appends c D t xs = None"
proof (induction xs arbitrary: t ys)
  case Nil
  then show ?case using represents_complete by auto
next
  case (Cons x xs)
  show ?case
  proof (cases "length ys < 2 ^ D")
    case True
    then obtain t' where t': "tree_append c D t x = Some t'" "represents c E D t' (ys @ [x])"
      using tree_append_represents [OF Cons.prems(1) True le_refl Cons.prems(2)] by blast
    then show ?thesis
      using Cons.IH [OF t'(2) Cons.prems(2)] by (simp split: if_splits)
  next
    case False
    then show ?thesis
      using represents_complete [OF Cons.prems] tree_append_full [OF Cons.prems(1) _ Cons.prems(2), of x] by simp
  qed
qed

lemma witness_appends_witnesses:
  "empty_roots c E D \<Longrightarrow> witnesses c E D w xs vs \<Longrightarrow> D < 2 ^ 64 \<Longrightarrow>
   if length xs + length vs + length ws \<le> 2 ^ D
   then \<exists>w'. witness_appends c E D w ws = Some w' \<and> witnesses c E D w' xs (vs @ ws)
   else witness_appends c E D w ws = None \<or> length xs + length vs > 2 ^ D"
proof (induction ws arbitrary: w vs)
  case Nil
  then show ?case by auto
next
  case (Cons x ws)
  show ?case
  proof (cases "length xs + length vs < 2 ^ D")
    case True
    then obtain w' where w': "witness_append c E D w x = Some w'" "witnesses c E D w' xs (vs @ [x])"
      using witness_append_witnesses [OF Cons.prems, of x] by auto
    then show ?thesis
      using Cons.IH [OF Cons.prems(1) w'(2) Cons.prems(3)] True by auto
  next
    case False
    then show ?thesis
      using witness_append_witnesses [OF Cons.prems, of x] by auto
  qed
qed

lemma witness_append_tree: "witness_append c E D w x = Some w' \<Longrightarrow> wtree w' = wtree w"
  by (auto simp: witness_append_def Let_def split: option.splits if_splits)

lemma witness_appends_tree: "witness_appends c E D w ws = Some w' \<Longrightarrow> wtree w' = wtree w"
  by (induction ws arbitrary: w) (auto simp: bind_eq_Some_conv dest: witness_append_tree)

lemma tree_last_represents: "represents c E D t xs \<Longrightarrow> xs \<noteq> [] \<Longrightarrow> tree_last t = Some (last xs)"
  by (auto simp: represents_def wfcheck_iff leaves_def tree_last_def split: option.splits)

text \<open>
  C24. The commitment tree refines the complete Merkle tree: appending any list of commitments to the empty
  tree succeeds exactly when it fits into \<open>2 ^ Depth\<close> leaves and throws otherwise; the result passes
  \<^verbatim>\<open>wfcheck\<close>, its \<^verbatim>\<open>root()\<close> is the root of the complete tree of that depth over all the commitments
  and empty leaves, \<^verbatim>\<open>last()\<close> is the last commitment, and up to \<open>2 ^ 31\<close> commitments \<^verbatim>\<open>size()\<close> counts them.
\<close>

theorem commitment_tree_refines:
  assumes "empty_roots c E D" "0 < D" "D < 2 ^ 64"
  shows "if length xs \<le> 2 ^ D
    then \<exists>t. tree_appends c D empty_tree xs = Some t \<and> wfcheck D t = Inr () \<and>
           tree_root c E t D [] = mroot c E D xs \<and>
           tree_last t = (if xs = [] then None else Some (last xs)) \<and>
           (length xs \<le> 2 ^ 31 \<longrightarrow> tree_size t = length xs)
    else tree_appends c D empty_tree xs = None"
proof (cases "length xs \<le> 2 ^ D")
  case True
  then obtain t where t: "tree_appends c D empty_tree xs = Some t" "represents c E D t xs"
    using tree_appends_represents [OF represents_empty [OF assms(2)] assms(3), of xs c E] by auto
  have e: "tree_last empty_tree = None"
    by (simp add: tree_last_def empty_tree_def)
  show ?thesis
    using True t tree_root_represents [OF assms(1) t(2)] tree_last_represents [OF t(2)]
      tree_size_represents [OF t(2)] e
    by (auto simp: represents_def)
next
  case False
  then show ?thesis
    using tree_appends_represents [OF represents_empty [OF assms(2)] assms(3), of xs c E] by auto
qed

text \<open>A hash for the witnesses: it extends the table of empty roots and concatenates anything else.\<close>

definition demo_combine :: "bytes \<Rightarrow> bytes \<Rightarrow> nat \<Rightarrow> bytes" where
  "demo_combine a b d =
     (if a = PedersenHash_EmptyRoot d \<and> b = PedersenHash_EmptyRoot d then PedersenHash_EmptyRoot (Suc d) else a @ b)"

lemma demo_empty_roots: "empty_roots demo_combine PedersenHash_EmptyRoot D"
  by (simp add: empty_roots_def demo_combine_def list_all_iff)

theorem commitment_tree_refines_witness:
  "\<exists>t. tree_appends demo_combine 2 empty_tree [[7], [8], [9]] = Some t \<and> wfcheck 2 t = Inr () \<and>
     tree_root demo_combine PedersenHash_EmptyRoot t 2 [] = mroot demo_combine PedersenHash_EmptyRoot 2 [[7], [8], [9]] \<and>
     tree_last t = Some [9] \<and> tree_size t = 3 \<and>
     tree_appends demo_combine 2 empty_tree [[7], [8], [9], [7], [7]] = None"
  using commitment_tree_refines [OF demo_empty_roots, of 2 "[[7], [8], [9]]"]
    commitment_tree_refines [OF demo_empty_roots, of 2 "[[7], [8], [9], [7], [7]]"]
  by auto

text \<open>
  C25. A witness taken when \<open>xs\<close> was committed keeps proving its last commitment while the tree grows: after
  any further commitments \<open>ys\<close> that fit it has not thrown, its root is the root of the tree over all of
  them, and its authentication path has one hash per level, encodes the position of the commitment and
  opens that root at the commitment.
\<close>

theorem commitment_witness_opens:
  assumes "empty_roots c E D" "0 < D" "D \<le> 64" "xs \<noteq> []" "length xs + length ys \<le> 2 ^ D"
  shows "\<exists>t w p. tree_appends c D empty_tree xs = Some t \<and> witness_appends c E D (witness t) ys = Some w \<and>
    witness_root c E D w = mroot c E D (xs @ ys) \<and> witness_element w = Some (last xs) \<and>
    witness_path c E D w = Some p \<and> length (authentication_path p) = D \<and>
    convertVectorToInt (index p) = Some (length xs - 1) \<and> opens c p (last xs) (mroot c E D (xs @ ys))"
proof -
  have D: "D < 2 ^ 64"
    using assms(3) by simp
  obtain t where t: "tree_appends c D empty_tree xs = Some t" "represents c E D t xs"
    using tree_appends_represents [OF represents_empty [OF assms(2)] D, of xs c E] assms(5) by auto
  obtain w where w: "witness_appends c E D (witness t) ys = Some w" "witnesses c E D w xs ys"
    using witness_appends_witnesses [OF assms(1) witnesses_witness [OF t(2)] D, of ys] assms(5) by auto
  have wt: "wtree w = t"
    using witness_appends_tree [OF w(1)] by (simp add: witness_def)
  have lt: "left t \<noteq> None" and wf: "wfcheck D t = Inr ()"
    using t(2) assms(4) by (auto simp: represents_def wfcheck_iff leaves_def split: option.splits)
  have root: "tree_root c E t D (partial_path c E w) = mroot c E D (xs @ ys)"
    using tree_root_fills [OF assms(1) t(2) le_refl] partial_path_fills [OF assms(1) w(2)] wt by simp
  obtain steps where s: "path_steps E D t (partial_path c E w) = Some steps"
      "path_root c (last xs) 0 steps = mroot c E D (xs @ ys)"
      "map fst steps = (right t \<noteq> None) # map (\<lambda>p. p \<noteq> None) (parents t) @ replicate (D - (1 + length (parents t))) False"
    using path_steps_root [OF wf lt, of E "partial_path c E w" c] tree_last_represents [OF t(2) assms(4)] root by auto
  have len: "length steps = D"
    using arg_cong [OF s(3), of length] wf assms(2) by (auto simp: wfcheck_iff)
  have pos: "convertVectorToInt (rev (map fst steps)) = Some (length xs - 1)"
    using convertVectorToInt_rev [of "map fst steps"] len assms(3) path_position [OF t(2) assms(4)]
    by (simp only: s(3) [symmetric] length_map)
  obtain p where p: "tree_path E D t (partial_path c E w) = Some p" "index p = rev (map fst steps)"
      "length (authentication_path p) = D" "opens c p (last xs) (mroot c E D (xs @ ys))"
    using opens_path [OF s(1), of c "last xs" "mroot c E D (xs @ ys)"] s(2) len by auto
  show ?thesis
    using t(1) w(1) root wt tree_last_represents [OF t(2) assms(4)] p pos
    by (auto simp: witness_root_def witness_element_def witness_path_def)
qed

theorem commitment_witness_opens_witness:
  "\<exists>t w p. tree_appends demo_combine 32 empty_tree [[7], [8], [9]] = Some t \<and>
     witness_appends demo_combine PedersenHash_EmptyRoot 32 (witness t) [[1], [2]] = Some w \<and>
     witness_path demo_combine PedersenHash_EmptyRoot 32 w = Some p \<and>
     convertVectorToInt (index p) = Some 2 \<and>
     opens demo_combine p [9] (mroot demo_combine PedersenHash_EmptyRoot 32 [[7], [8], [9], [1], [2]])"
  using commitment_witness_opens [OF demo_empty_roots, of 32 "[[7], [8], [9]]" "[[1], [2]]"] by auto

end
