(* ===== verification/Coins.thy ===== *)
theory Coins
  imports Transactions Commitment_Tree "HOL-Library.AList"
begin

text \<open>
  The set of unspent outputs: the coin caches of \<^verbatim>\<open>src/coins.h\<close> and \<^verbatim>\<open>coins.cpp\<close> over the coin database of
  \<^verbatim>\<open>src/txdb.cpp\<close> and \<^verbatim>\<open>src/sapling/sapling_txdb.cpp\<close>.  A view is the database or a cache over
  another view; a virtual call is a case distinction over the two.  A hash map is an association list
  without repeated keys, in the order in which the code happens to iterate over it.  Reading fills the caches,
  so that every operation returns the view it leaves; \<open>None\<close> stands for a failed assertion or a thrown
  \<^verbatim>\<open>std::logic_error\<close>.  The counter \<^verbatim>\<open>cachedCoinsUsage\<close>, an estimate of memory, is left out.  The specification is
  \<open>utxo\<close>, the partial map from outpoints to unspent coins.
\<close>

section \<open>Coins and cache entries\<close>

record Coin =
  fCoinBase :: bool
  fCoinStake :: bool
  coin_out :: CTxOut
  coin_nHeight :: nat

definition Coin_Clear :: Coin where
  "Coin_Clear = \<lparr>fCoinBase = False, fCoinStake = False, coin_out = CTxOut_SetNull, coin_nHeight = 0\<rparr>"

definition IsSpent :: "Coin \<Rightarrow> bool" where
  "IsSpent c = CTxOut_IsNull (coin_out c)"

record CCoinsCacheEntry =
  coin :: Coin
  DIRTY :: bool
  FRESH :: bool

record CAnchorsSaplingCacheEntry =
  anchor_entered :: bool
  anchor_tree :: IncrementalMerkleTree
  anchor_DIRTY :: bool

record CNullifiersCacheEntry =
  nf_entered :: bool
  nf_DIRTY :: bool

type_synonym CCoinsMap = "(COutPoint \<times> CCoinsCacheEntry) list"
type_synonym CAnchorsSaplingMap = "(bytes \<times> CAnchorsSaplingCacheEntry) list"
type_synonym CNullifiersMap = "(bytes \<times> CNullifiersCacheEntry) list"

record CCoinsViewCache =
  hashBlock :: bytes
  cacheCoins :: CCoinsMap
  hashSaplingAnchor :: bytes
  cacheSaplingAnchors :: CAnchorsSaplingMap
  cacheSaplingNullifiers :: CNullifiersMap

text \<open>The records of the database; \<open>None\<close> and \<open>False\<close> where there is none.\<close>

record CCoinsViewDB =
  db_coin :: "COutPoint \<Rightarrow> Coin option"
  db_best_block :: "bytes option"
  db_head_blocks :: "bytes list option"
  db_anchor :: "bytes \<Rightarrow> IncrementalMerkleTree option"
  db_nullifier :: "bytes \<Rightarrow> bool"
  db_best_anchor :: "bytes option"

datatype CCoinsView = DBView CCoinsViewDB | CacheView CCoinsViewCache CCoinsView

section \<open>Reading coins\<close>

text \<open>\<open>FetchCoin c b outpoint r\<close>: \<open>r\<close> is the answer of the base view \<open>b\<close>, used when the cache has no entry.\<close>

definition FetchCoin ::
  "CCoinsViewCache \<Rightarrow> CCoinsView \<Rightarrow> COutPoint \<Rightarrow> Coin option \<times> CCoinsView \<Rightarrow> CCoinsCacheEntry option \<times> CCoinsView" where
  "FetchCoin c b outpoint r =
     (case map_of (cacheCoins c) outpoint of
        Some it \<Rightarrow> (Some it, CacheView c b)
      | None \<Rightarrow>
          (case r of
             (None, b') \<Rightarrow> (None, CacheView c b')
           | (Some tmp, b') \<Rightarrow>
               let ret = \<lparr>coin = tmp, DIRTY = False, FRESH = IsSpent tmp\<rparr>
               in (Some ret, CacheView (c\<lparr>cacheCoins := AList.update outpoint ret (cacheCoins c)\<rparr>) b')))"

fun GetCoin :: "CCoinsView \<Rightarrow> COutPoint \<Rightarrow> Coin option \<times> CCoinsView" where
  "GetCoin (DBView db) outpoint = (db_coin db outpoint, DBView db)"
| "GetCoin (CacheView c b) outpoint =
     (let (it, v) = FetchCoin c b outpoint (GetCoin b outpoint) in (map_option coin it, v))"

fun HaveCoin :: "CCoinsView \<Rightarrow> COutPoint \<Rightarrow> bool \<times> CCoinsView" where
  "HaveCoin (DBView db) outpoint = (db_coin db outpoint \<noteq> None, DBView db)"
| "HaveCoin (CacheView c b) outpoint =
     (let (it, v) = FetchCoin c b outpoint (GetCoin b outpoint)
      in (case it of None \<Rightarrow> False | Some e \<Rightarrow> \<not> IsSpent (coin e), v))"

definition AccessCoin :: "CCoinsView \<Rightarrow> COutPoint \<Rightarrow> Coin \<times> CCoinsView" where
  "AccessCoin view outpoint =
     (let (it, v) = GetCoin view outpoint in (case it of None \<Rightarrow> Coin_Clear | Some c \<Rightarrow> c, v))"

fun GetBestBlock :: "CCoinsView \<Rightarrow> bytes \<times> CCoinsView" where
  "GetBestBlock (DBView db) =
     (case db_best_block db of None \<Rightarrow> replicate 32 0 | Some hashBestChain \<Rightarrow> hashBestChain, DBView db)"
| "GetBestBlock (CacheView c b) =
     (if uint256_IsNull (hashBlock c)
      then let (h, b') = GetBestBlock b in (h, CacheView (c\<lparr>hashBlock := h\<rparr>) b')
      else (hashBlock c, CacheView c b))"

section \<open>Changing coins\<close>

text \<open>The entry that \<^verbatim>\<open>emplace\<close> finds or makes.\<close>

definition emplaced :: "CCoinsViewCache \<Rightarrow> COutPoint \<Rightarrow> CCoinsCacheEntry" where
  "emplaced c outpoint =
     (case map_of (cacheCoins c) outpoint of
        Some it \<Rightarrow> it
      | None \<Rightarrow> \<lparr>coin = Coin_Clear, DIRTY = False, FRESH = False\<rparr>)"

fun AddCoin :: "CCoinsView \<Rightarrow> COutPoint \<Rightarrow> Coin \<Rightarrow> bool \<Rightarrow> CCoinsView option" where
  "AddCoin (CacheView c b) outpoint newcoin possible_overwrite =
     (if IsSpent newcoin then None
      else if IsUnspendable (scriptPubKey (coin_out newcoin)) then Some (CacheView c b)
      else let it = emplaced c outpoint in
        if \<not> possible_overwrite \<and> \<not> IsSpent (coin it) then None
        else let fresh = (\<not> possible_overwrite \<and> \<not> DIRTY it) in
          Some (CacheView (c\<lparr>cacheCoins :=
              AList.update outpoint \<lparr>coin = newcoin, DIRTY = True, FRESH = FRESH it \<or> fresh\<rparr> (cacheCoins c)\<rparr>) b))"
| "AddCoin (DBView db) outpoint newcoin possible_overwrite = None"

text \<open>The coin for \<^verbatim>\<open>moveout\<close> is \<open>None\<close> where the call leaves it alone.\<close>

fun SpendCoin :: "CCoinsView \<Rightarrow> COutPoint \<Rightarrow> Coin option \<times> CCoinsView" where
  "SpendCoin (CacheView c b) outpoint =
     (case FetchCoin c b outpoint (GetCoin b outpoint) of
        (Some it, CacheView c' b') \<Rightarrow>
          (Some (coin it),
           CacheView
             (c'\<lparr>cacheCoins :=
                  (if FRESH it then AList.delete outpoint (cacheCoins c')
                   else AList.update outpoint (it\<lparr>coin := Coin_Clear, DIRTY := True\<rparr>) (cacheCoins c'))\<rparr>) b')
      | (_, v) \<Rightarrow> (None, v))"
| "SpendCoin (DBView db) outpoint = (None, DBView db)"

fun Uncache :: "CCoinsView \<Rightarrow> COutPoint \<Rightarrow> CCoinsView" where
  "Uncache (CacheView c b) outpoint =
     (case map_of (cacheCoins c) outpoint of
        Some it \<Rightarrow>
          if \<not> DIRTY it \<and> \<not> FRESH it
          then CacheView (c\<lparr>cacheCoins := AList.delete outpoint (cacheCoins c)\<rparr>) b
          else CacheView c b
      | None \<Rightarrow> CacheView c b)"
| "Uncache (DBView db) outpoint = DBView db"

fun SetBestBlock :: "CCoinsView \<Rightarrow> bytes \<Rightarrow> CCoinsView" where
  "SetBestBlock (CacheView c b) hashBlockIn = CacheView (c\<lparr>hashBlock := hashBlockIn\<rparr>) b"
| "SetBestBlock (DBView db) hashBlockIn = DBView db"

section \<open>Sapling anchors and nullifiers\<close>

fun GetSaplingAnchorAt :: "CCoinsView \<Rightarrow> bytes \<Rightarrow> IncrementalMerkleTree option \<times> CCoinsView" where
  "GetSaplingAnchorAt (DBView db) rt = (if rt = empty_root then Some empty_tree else db_anchor db rt, DBView db)"
| "GetSaplingAnchorAt (CacheView c b) rt =
     (case map_of (cacheSaplingAnchors c) rt of
        Some it \<Rightarrow> (if anchor_entered it then Some (anchor_tree it) else None, CacheView c b)
      | None \<Rightarrow>
          (case GetSaplingAnchorAt b rt of
             (None, b') \<Rightarrow> (None, CacheView c b')
           | (Some tree, b') \<Rightarrow>
               (Some tree,
                CacheView (c\<lparr>cacheSaplingAnchors :=
                    AList.update rt \<lparr>anchor_entered = True, anchor_tree = tree, anchor_DIRTY = False\<rparr>
                      (cacheSaplingAnchors c)\<rparr>) b')))"

fun GetNullifier :: "CCoinsView \<Rightarrow> bytes \<Rightarrow> bool \<times> CCoinsView" where
  "GetNullifier (DBView db) nullifier = (db_nullifier db nullifier, DBView db)"
| "GetNullifier (CacheView c b) nullifier =
     (case map_of (cacheSaplingNullifiers c) nullifier of
        Some it \<Rightarrow> (nf_entered it, CacheView c b)
      | None \<Rightarrow>
          let (tmp, b') = GetNullifier b nullifier
          in (tmp, CacheView (c\<lparr>cacheSaplingNullifiers :=
                AList.update nullifier \<lparr>nf_entered = tmp, nf_DIRTY = False\<rparr> (cacheSaplingNullifiers c)\<rparr>) b'))"

fun GetBestAnchor :: "CCoinsView \<Rightarrow> bytes \<times> CCoinsView" where
  "GetBestAnchor (DBView db) =
     (case db_best_anchor db of None \<Rightarrow> empty_root | Some hashBestAnchor \<Rightarrow> hashBestAnchor, DBView db)"
| "GetBestAnchor (CacheView c b) =
     (if uint256_IsNull (hashSaplingAnchor c)
      then let (h, b') = GetBestAnchor b in (h, CacheView (c\<lparr>hashSaplingAnchor := h\<rparr>) b')
      else (hashSaplingAnchor c, CacheView c b))"

text \<open>\<open>merkle_hash\<close> is the hash function of librustzcash.\<close>

definition PushAnchor :: "(bytes \<Rightarrow> bytes \<Rightarrow> nat \<Rightarrow> bytes) \<Rightarrow> CCoinsView \<Rightarrow> IncrementalMerkleTree \<Rightarrow> CCoinsView" where
  "PushAnchor merkle_hash view tree =
     (let newrt = tree_root merkle_hash PedersenHash_EmptyRoot tree SAPLING_INCREMENTAL_MERKLE_TREE_DEPTH [] in
      case GetBestAnchor view of
        (currentRoot, CacheView c b) \<Rightarrow>
          if currentRoot \<noteq> newrt
          then CacheView (c\<lparr>cacheSaplingAnchors :=
                   AList.update newrt \<lparr>anchor_entered = True, anchor_tree = tree, anchor_DIRTY = True\<rparr>
                     (cacheSaplingAnchors c),
                 hashSaplingAnchor := newrt\<rparr>) b
          else CacheView c b
      | (_, v) \<Rightarrow> v)"

definition PopAnchor :: "CCoinsView \<Rightarrow> bytes \<Rightarrow> CCoinsView option" where
  "PopAnchor view newrt =
     (let (currentRoot, v) = GetBestAnchor view in
      if currentRoot = newrt then Some v
      else case GetSaplingAnchorAt v currentRoot of
             (Some _, CacheView c b) \<Rightarrow>
               (case map_of (cacheSaplingAnchors c) currentRoot of
                  Some it \<Rightarrow>
                    Some (CacheView (c\<lparr>cacheSaplingAnchors :=
                        AList.update currentRoot (it\<lparr>anchor_entered := False, anchor_DIRTY := True\<rparr>)
                          (cacheSaplingAnchors c),
                      hashSaplingAnchor := newrt\<rparr>) b)
                | None \<Rightarrow> None)
           | _ \<Rightarrow> None)"

fun SetNullifiers :: "CCoinsView \<Rightarrow> CTransaction \<Rightarrow> bool \<Rightarrow> CCoinsView" where
  "SetNullifiers (CacheView c b) tx spent =
     CacheView (c\<lparr>cacheSaplingNullifiers :=
       (case sapData tx of
          None \<Rightarrow> cacheSaplingNullifiers c
        | Some d \<Rightarrow>
            foldl (\<lambda>m spendDescription. AList.update (sd_nullifier spendDescription) \<lparr>nf_entered = spent, nf_DIRTY = True\<rparr> m)
              (cacheSaplingNullifiers c) (vShieldedSpend d))\<rparr>) b"
| "SetNullifiers (DBView db) tx spent = DBView db"

section \<open>Writing a cache into its base\<close>

text \<open>One entry of the child against the coins of the parent cache.\<close>

definition BatchWrite_entry :: "CCoinsMap \<Rightarrow> COutPoint \<times> CCoinsCacheEntry \<Rightarrow> CCoinsMap option" where
  "BatchWrite_entry m kv =
     (let (outpoint, it) = kv in
      if \<not> DIRTY it then Some m
      else case map_of m outpoint of
             None \<Rightarrow>
               Some (if FRESH it \<and> IsSpent (coin it) then m
                     else AList.update outpoint \<lparr>coin = coin it, DIRTY = True, FRESH = FRESH it\<rparr> m)
           | Some itUs \<Rightarrow>
               if FRESH it \<and> \<not> IsSpent (coin itUs) then None
               else if FRESH itUs \<and> IsSpent (coin it) then Some (AList.delete outpoint m)
               else Some (AList.update outpoint (itUs\<lparr>coin := coin it, DIRTY := True\<rparr>) m))"

fun BatchWrite_coins :: "CCoinsMap \<Rightarrow> CCoinsMap \<Rightarrow> CCoinsMap option" where
  "BatchWrite_coins m [] = Some m"
| "BatchWrite_coins m (kv # child) = Option.bind (BatchWrite_entry m kv) (\<lambda>m'. BatchWrite_coins m' child)"

fun BatchWriteAnchors :: "CAnchorsSaplingMap \<Rightarrow> CAnchorsSaplingMap \<Rightarrow> CAnchorsSaplingMap" where
  "BatchWriteAnchors m [] = m"
| "BatchWriteAnchors m ((rt, it) # child) =
     BatchWriteAnchors
       (if anchor_DIRTY it
        then case map_of m rt of
               None \<Rightarrow> AList.update rt \<lparr>anchor_entered = anchor_entered it, anchor_tree = anchor_tree it, anchor_DIRTY = True\<rparr> m
             | Some itUs \<Rightarrow>
                 if anchor_entered itUs \<noteq> anchor_entered it
                 then AList.update rt (itUs\<lparr>anchor_entered := anchor_entered it, anchor_DIRTY := True\<rparr>) m
                 else m
        else m) child"

fun BatchWriteNullifiers :: "CNullifiersMap \<Rightarrow> CNullifiersMap \<Rightarrow> CNullifiersMap" where
  "BatchWriteNullifiers m [] = m"
| "BatchWriteNullifiers m ((nf, it) # child) =
     BatchWriteNullifiers
       (if nf_DIRTY it
        then case map_of m nf of
               None \<Rightarrow> AList.update nf \<lparr>nf_entered = nf_entered it, nf_DIRTY = True\<rparr> m
             | Some itUs \<Rightarrow>
                 if nf_entered itUs \<noteq> nf_entered it
                 then AList.update nf \<lparr>nf_entered = nf_entered it, nf_DIRTY = True\<rparr> m
                 else m
        else m) child"

text \<open>The database takes the changed entries; its batches together have the effect of one.\<close>

definition db_write_coins :: "(COutPoint \<Rightarrow> Coin option) \<Rightarrow> CCoinsMap \<Rightarrow> COutPoint \<Rightarrow> Coin option" where
  "db_write_coins db child =
     foldl (\<lambda>db (outpoint, it).
         if DIRTY it then db(outpoint := (if IsSpent (coin it) then None else Some (coin it))) else db)
       db child"

definition BatchWriteSapling ::
  "CCoinsViewDB \<Rightarrow> bytes \<Rightarrow> CAnchorsSaplingMap \<Rightarrow> CNullifiersMap \<Rightarrow> CCoinsViewDB" where
  "BatchWriteSapling db hashAnchor anchors nullifiers =
     db\<lparr>db_anchor :=
          foldl (\<lambda>m (rt, it).
              if anchor_DIRTY it
              then if \<not> anchor_entered it then m(rt := None)
                   else if rt \<noteq> empty_root then m(rt := Some (anchor_tree it)) else m
              else m) (db_anchor db) anchors,
        db_nullifier := foldl (\<lambda>m (nf, it). if nf_DIRTY it then m(nf := nf_entered it) else m) (db_nullifier db) nullifiers,
        db_best_anchor := (if uint256_IsNull hashAnchor then db_best_anchor db else Some hashAnchor)\<rparr>"

fun BatchWrite ::
  "CCoinsView \<Rightarrow> CCoinsMap \<Rightarrow> bytes \<Rightarrow> bytes \<Rightarrow> CAnchorsSaplingMap \<Rightarrow> CNullifiersMap \<Rightarrow> CCoinsView option" where
  "BatchWrite (DBView db) mapCoins hashBlockIn hashAnchorIn anchors nullifiers =
     (if uint256_IsNull hashBlockIn then None
      else if (case db_head_blocks db of
                 Some [new, old] \<Rightarrow> uint256_IsNull (fst (GetBestBlock (DBView db))) \<and> new \<noteq> hashBlockIn
               | _ \<Rightarrow> False) then None
      else Some (DBView ((BatchWriteSapling (db\<lparr>db_coin := db_write_coins (db_coin db) mapCoins\<rparr>) hashAnchorIn anchors nullifiers)
                   \<lparr>db_head_blocks := None, db_best_block := Some hashBlockIn\<rparr>)))"
| "BatchWrite (CacheView c b) mapCoins hashBlockIn hashAnchorIn anchors nullifiers =
     map_option
       (\<lambda>coins. CacheView \<lparr>hashBlock = hashBlockIn, cacheCoins = coins, hashSaplingAnchor = hashAnchorIn,
          cacheSaplingAnchors = BatchWriteAnchors (cacheSaplingAnchors c) anchors,
          cacheSaplingNullifiers = BatchWriteNullifiers (cacheSaplingNullifiers c) nullifiers\<rparr> b)
       (BatchWrite_coins (cacheCoins c) mapCoins)"

fun Flush :: "CCoinsView \<Rightarrow> CCoinsView option" where
  "Flush (CacheView c b) =
     map_option (CacheView (c\<lparr>cacheCoins := [], cacheSaplingAnchors := [], cacheSaplingNullifiers := []\<rparr>))
       (BatchWrite b (cacheCoins c) (hashBlock c) (hashSaplingAnchor c) (cacheSaplingAnchors c) (cacheSaplingNullifiers c))"
| "Flush (DBView db) = None"

section \<open>What a view means\<close>

definition unspent :: "Coin \<Rightarrow> Coin option" where
  "unspent c = (if IsSpent c then None else Some c)"

text \<open>The unspent outputs, the spent nullifiers and the known anchors of a view.\<close>

fun utxo :: "CCoinsView \<Rightarrow> COutPoint \<Rightarrow> Coin option" where
  "utxo (DBView db) outpoint = Option.bind (db_coin db outpoint) unspent"
| "utxo (CacheView c b) outpoint =
     (case map_of (cacheCoins c) outpoint of Some e \<Rightarrow> unspent (coin e) | None \<Rightarrow> utxo b outpoint)"

fun nullifiers :: "CCoinsView \<Rightarrow> bytes \<Rightarrow> bool" where
  "nullifiers (DBView db) nf = db_nullifier db nf"
| "nullifiers (CacheView c b) nf =
     (case map_of (cacheSaplingNullifiers c) nf of Some e \<Rightarrow> nf_entered e | None \<Rightarrow> nullifiers b nf)"

fun anchors :: "CCoinsView \<Rightarrow> bytes \<Rightarrow> bool" where
  "anchors (DBView db) rt = (db_anchor db rt \<noteq> None)"
| "anchors (CacheView c b) rt =
     (case map_of (cacheSaplingAnchors c) rt of Some e \<Rightarrow> anchor_entered e | None \<Rightarrow> anchors b rt)"

text \<open>
  What the flags of the entries promise about the view below: an entry that is not \<open>DIRTY\<close> agrees with
  it, and below a \<open>FRESH\<close> entry there is no unspent coin.
\<close>

definition coins_ok :: "CCoinsMap \<Rightarrow> (COutPoint \<Rightarrow> Coin option) \<Rightarrow> bool" where
  "coins_ok m u =
     (distinct (map fst m) \<and>
      (\<forall>p e. map_of m p = Some e \<longrightarrow> (\<not> DIRTY e \<longrightarrow> unspent (coin e) = u p) \<and> (FRESH e \<longrightarrow> u p = None)))"

text \<open>The same for the keys outside \<open>S\<close> of the two other maps, with the flag and the value of an entry as arguments.\<close>

definition synced :: "('e \<Rightarrow> bool) \<Rightarrow> ('e \<Rightarrow> bool) \<Rightarrow> 'k set \<Rightarrow> ('k \<times> 'e) list \<Rightarrow> ('k \<Rightarrow> bool) \<Rightarrow> bool" where
  "synced dirty get S m u =
     (distinct (map fst m) \<and> (\<forall>k e. map_of m k = Some e \<longrightarrow> k \<notin> S \<longrightarrow> \<not> dirty e \<longrightarrow> get e = u k))"

abbreviation nullifiers_ok :: "CNullifiersMap \<Rightarrow> (bytes \<Rightarrow> bool) \<Rightarrow> bool" where
  "nullifiers_ok \<equiv> synced nf_DIRTY nf_entered {}"

text \<open>The database knows the empty tree without a record.\<close>

abbreviation anchors_ok :: "CAnchorsSaplingMap \<Rightarrow> (bytes \<Rightarrow> bool) \<Rightarrow> bool" where
  "anchors_ok \<equiv> synced anchor_DIRTY anchor_entered {empty_root}"

fun view_ok :: "CCoinsView \<Rightarrow> bool" where
  "view_ok (DBView db) = True"
| "view_ok (CacheView c b) =
     (view_ok b \<and> coins_ok (cacheCoins c) (utxo b) \<and> nullifiers_ok (cacheSaplingNullifiers c) (nullifiers b) \<and>
      anchors_ok (cacheSaplingAnchors c) (anchors b))"

text \<open>Two views with the same meaning.\<close>

definition same_view :: "CCoinsView \<Rightarrow> CCoinsView \<Rightarrow> bool" where
  "same_view v w =
     (utxo v = utxo w \<and> nullifiers v = nullifiers w \<and> (\<forall>rt. rt \<noteq> empty_root \<longrightarrow> anchors v rt = anchors w rt))"

lemma same_view_refl [simp]: "same_view v v"
  by (simp add: same_view_def)

lemma same_view_utxo: "same_view v w \<Longrightarrow> utxo v = utxo w"
  by (simp add: same_view_def)

lemma unspent_simps [simp]: "unspent Coin_Clear = None" "IsSpent Coin_Clear"
  by (simp_all add: unspent_def IsSpent_def Coin_Clear_def CTxOut_IsNull_def CTxOut_SetNull_def)

lemma unspent_None [simp]: "unspent c = None \<longleftrightarrow> IsSpent c"
  by (simp add: unspent_def)

lemma unspent_spent [simp]: "IsSpent c \<Longrightarrow> unspent c = None"
  by simp

lemma unspent_Some [simp]: "\<not> IsSpent c \<Longrightarrow> unspent c = Some c"
  by (simp add: unspent_def)

section \<open>Cached coins\<close>

lemma coins_ok_update:
  assumes "coins_ok m u" "\<not> DIRTY e \<longrightarrow> unspent (coin e) = u p" "FRESH e \<longrightarrow> u p = None"
  shows "coins_ok (AList.update p e m) u"
  using assms by (auto simp: coins_ok_def distinct_update update_conv')

lemma coins_ok_delete: "coins_ok m u \<Longrightarrow> coins_ok (AList.delete p m) u"
  by (auto simp: coins_ok_def distinct_delete delete_conv' split: if_splits)

lemma coins_ok_D:
  assumes "coins_ok m u" "map_of m p = Some e"
  shows "\<not> DIRTY e \<Longrightarrow> unspent (coin e) = u p" and "FRESH e \<Longrightarrow> u p = None"
  using assms by (auto simp: coins_ok_def)

lemma view_ok_coins: "view_ok (CacheView c b) \<Longrightarrow> coins_ok m (utxo b) \<Longrightarrow> view_ok (CacheView (c\<lparr>cacheCoins := m\<rparr>) b)"
  by simp

lemma cache_same_base:
  assumes "same_view b' b" "view_ok b'" "view_ok (CacheView c b)"
  shows "same_view (CacheView c b') (CacheView c b)" and "view_ok (CacheView c b')"
proof -
  show "same_view (CacheView c b') (CacheView c b)"
    using assms(1) by (auto simp: same_view_def fun_eq_iff split: option.splits)
  show "view_ok (CacheView c b')"
    using assms by (auto simp: same_view_def synced_def)
qed

text \<open>Whatever the base view answers, fetching keeps the meaning and leaves the coin in the cache, if there is one.\<close>

lemma FetchCoin_step:
  assumes ok: "view_ok (CacheView c b)" and g: "GetCoin b p = (r, b')"
    and b: "view_ok b'" "same_view b' b" "Option.bind r unspent = utxo b p"
  shows "\<exists>c'. FetchCoin c b p (GetCoin b p) = (map_of (cacheCoins c') p, CacheView c' (if map_of (cacheCoins c) p = None then b' else b)) \<and>
    view_ok (snd (FetchCoin c b p (GetCoin b p))) \<and> same_view (snd (FetchCoin c b p (GetCoin b p))) (CacheView c b) \<and>
    Option.bind (map_option coin (fst (FetchCoin c b p (GetCoin b p)))) unspent = utxo (CacheView c b) p"
proof (cases "map_of (cacheCoins c) p")
  case (Some e)
  then show ?thesis using ok by (intro exI [of _ c]) (simp add: FetchCoin_def)
next
  case n: None
  note same = cache_same_base(1) [OF b(2,1) ok] and ok' = cache_same_base(2) [OF b(2,1) ok]
  show ?thesis
  proof (cases r)
    case None
    then show ?thesis
      using n g b same ok' by (intro exI [of _ c]) (simp add: FetchCoin_def)
  next
    case (Some tmp)
    let ?e = "\<lparr>coin = tmp, DIRTY = False, FRESH = IsSpent tmp\<rparr>"
    have u: "unspent tmp = utxo b p"
      using b(3) Some by simp
    have "coins_ok (AList.update p ?e (cacheCoins c)) (utxo b')"
      using ok' u same_view_utxo [OF b(2)] by (intro coins_ok_update) (auto simp: unspent_def split: if_splits)
    moreover have "same_view (CacheView (c\<lparr>cacheCoins := AList.update p ?e (cacheCoins c)\<rparr>) b') (CacheView c b)"
      using same u n by (auto simp: same_view_def fun_eq_iff update_conv' split: option.splits)
    ultimately show ?thesis
      using n g ok' u Some
      by (intro exI [of _ "c\<lparr>cacheCoins := AList.update p ?e (cacheCoins c)\<rparr>"])
        (simp add: FetchCoin_def Let_def update_conv')
  qed
qed

lemma GetCoin_ok:
  "view_ok v \<Longrightarrow> view_ok (snd (GetCoin v p)) \<and> same_view (snd (GetCoin v p)) v \<and>
   Option.bind (fst (GetCoin v p)) unspent = utxo v p"
proof (induction v)
  case (CacheView c b)
  obtain r b' where g: "GetCoin b p = (r, b')"
    by (cases "GetCoin b p")
  then show ?case
    using FetchCoin_step [OF CacheView.prems g] CacheView by (auto simp: case_prod_unfold)
qed simp

lemma FetchCoin_ok:
  assumes "view_ok (CacheView c b)"
  obtains c' b' where "FetchCoin c b p (GetCoin b p) = (map_of (cacheCoins c') p, CacheView c' b')"
    "view_ok (CacheView c' b')" "same_view (CacheView c' b') (CacheView c b)"
    "map_of (cacheCoins c') p = None \<longrightarrow> utxo (CacheView c b) p = None"
proof -
  obtain r b' where g: "GetCoin b p = (r, b')"
    by (cases "GetCoin b p")
  then show ?thesis
    using FetchCoin_step [OF assms g] GetCoin_ok [of b p] assms that by fastforce
qed

lemma AccessCoin_ok:
  assumes "view_ok v"
  shows "unspent (fst (AccessCoin v p)) = utxo v p \<and> view_ok (snd (AccessCoin v p)) \<and>
    same_view (snd (AccessCoin v p)) v"
  using GetCoin_ok [OF assms, of p]
  by (cases "fst (GetCoin v p)") (auto simp: AccessCoin_def case_prod_unfold Let_def)

text \<open>
  The database answers \<^verbatim>\<open>HaveCoin\<close> by the presence of a record, a cache by an unspent coin; they agree
  as the database keeps no spent coins.
\<close>

fun db_clean :: "CCoinsView \<Rightarrow> bool" where
  "db_clean (DBView db) = (\<forall>p c. db_coin db p = Some c \<longrightarrow> \<not> IsSpent c)"
| "db_clean (CacheView c b) = db_clean b"

lemma HaveCoin_cache:
  assumes "view_ok (CacheView c b)"
  shows "(fst (HaveCoin (CacheView c b) p) \<longleftrightarrow> utxo (CacheView c b) p \<noteq> None) \<and>
    view_ok (snd (HaveCoin (CacheView c b) p)) \<and> same_view (snd (HaveCoin (CacheView c b) p)) (CacheView c b)"
proof -
  obtain c' b' where f: "FetchCoin c b p (GetCoin b p) = (map_of (cacheCoins c') p, CacheView c' b')"
    "view_ok (CacheView c' b')" "same_view (CacheView c' b') (CacheView c b)"
    "map_of (cacheCoins c') p = None \<longrightarrow> utxo (CacheView c b) p = None"
    by (rule FetchCoin_ok [OF assms])
  have "utxo (CacheView c b) p = utxo (CacheView c' b') p"
    using f(3) by (simp add: same_view_def del: utxo.simps)
  then show ?thesis
    using f by (auto simp del: view_ok.simps simp: unspent_def split: option.splits if_splits)
qed

lemma utxo_fun_upd:
  "utxo (CacheView (c\<lparr>cacheCoins := AList.update p e (cacheCoins c)\<rparr>) b) = (utxo (CacheView c b))(p := unspent (coin e))"
  by (auto simp: fun_eq_iff update_conv')

lemma utxo_delete:
  "utxo b p = None \<Longrightarrow>
   utxo (CacheView (c\<lparr>cacheCoins := AList.delete p (cacheCoins c)\<rparr>) b) = (utxo (CacheView c b))(p := None)"
  by (auto simp: fun_eq_iff delete_conv')

text \<open>An operation that changes nothing but the unspent coins.\<close>

definition coins_step :: "CCoinsView \<Rightarrow> CCoinsView \<Rightarrow> (COutPoint \<Rightarrow> Coin option) \<Rightarrow> bool" where
  "coins_step v v' u =
     (view_ok v' \<and> utxo v' = u \<and> nullifiers v' = nullifiers v \<and> (\<forall>rt. rt \<noteq> empty_root \<longrightarrow> anchors v' rt = anchors v rt))"

lemma coins_step_same: "same_view v' v \<Longrightarrow> view_ok v' \<Longrightarrow> coins_step v v' (utxo v)"
  by (simp add: coins_step_def same_view_def)

lemma coins_step_trans: "coins_step v v' u \<Longrightarrow> coins_step v' v'' u' \<Longrightarrow> coins_step v v'' u'"
  by (simp add: coins_step_def)

lemma coins_step_coins:
  assumes "view_ok (CacheView c b)" "coins_ok m (utxo b)" "u = utxo (CacheView (c\<lparr>cacheCoins := m\<rparr>) b)"
  shows "coins_step (CacheView c b) (CacheView (c\<lparr>cacheCoins := m\<rparr>) b) u"
  using assms by (auto simp: coins_step_def)

fun is_cache :: "CCoinsView \<Rightarrow> bool" where
  "is_cache (CacheView c b) = True"
| "is_cache (DBView db) = False"

lemma is_cache_iff: "is_cache v \<longleftrightarrow> (\<exists>c b. v = CacheView c b)"
  by (cases v) auto

lemma SpendCoin_ok:
  assumes "view_ok v" "is_cache v"
  shows "coins_step v (snd (SpendCoin v p)) ((utxo v)(p := None)) \<and> is_cache (snd (SpendCoin v p)) \<and>
    Option.bind (fst (SpendCoin v p)) unspent = utxo v p"
proof -
  obtain c b where v: "v = CacheView c b"
    using assms(2) by (auto simp: is_cache_iff)
  obtain c' b' where f: "FetchCoin c b p (GetCoin b p) = (map_of (cacheCoins c') p, CacheView c' b')"
    "view_ok (CacheView c' b')" "same_view (CacheView c' b') (CacheView c b)"
    "map_of (cacheCoins c') p = None \<longrightarrow> utxo (CacheView c b) p = None"
    using assms(1) unfolding v by (rule FetchCoin_ok)
  note s = coins_step_same [OF f(3,2)]
  have u: "utxo (CacheView c' b') = utxo v"
    using f(3) v by (simp add: same_view_def)
  have k: "coins_ok (cacheCoins c') (utxo b')"
    using f(2) by simp
  show ?thesis
  proof (cases "map_of (cacheCoins c') p")
    case None
    then have "(utxo v)(p := None) = utxo v"
      using f(4) v by (auto simp: fun_eq_iff)
    then show ?thesis
      using None f(1,4) s v by (simp del: utxo.simps)
  next
    case (Some e)
    have e: "unspent (coin e) = utxo v p"
      using fun_cong [OF u, of p] Some by simp
    let ?m = "if FRESH e then AList.delete p (cacheCoins c')
      else AList.update p (e\<lparr>coin := Coin_Clear, DIRTY := True\<rparr>) (cacheCoins c')"
    have "coins_ok ?m (utxo b')"
      using coins_ok_delete [OF k] coins_ok_update [OF k] by simp
    moreover have "(utxo v)(p := None) = utxo (CacheView (c'\<lparr>cacheCoins := ?m\<rparr>) b')"
      using utxo_delete [of b' p c'] coins_ok_D(2) [OF k Some] utxo_fun_upd [where c = c' and b = b'] u by simp
    ultimately have "coins_step (CacheView c' b') (CacheView (c'\<lparr>cacheCoins := ?m\<rparr>) b') ((utxo v)(p := None))"
      using f(2) by (intro coins_step_coins) auto
    then show ?thesis
      using coins_step_trans [OF s] Some f(1) v e by simp
  qed
qed

lemma AddCoin_ok:
  assumes ok: "view_ok v" "is_cache v" and c: "\<not> IsSpent newcoin" "\<not> IsUnspendable (scriptPubKey (coin_out newcoin))"
    and new: "possible_overwrite \<or> utxo v p = None"
  shows "\<exists>v'. AddCoin v p newcoin possible_overwrite = Some v' \<and> coins_step v v' ((utxo v)(p := Some newcoin)) \<and> is_cache v'"
proof -
  obtain c b where v: "v = CacheView c b"
    using ok(2) by (auto simp: is_cache_iff)
  let ?it = "emplaced c p"
  let ?e = "\<lparr>coin = newcoin, DIRTY = True, FRESH = FRESH ?it \<or> \<not> possible_overwrite \<and> \<not> DIRTY ?it\<rparr>"
  have k: "coins_ok (cacheCoins c) (utxo b)"
    using ok v by simp
  have sp: "\<not> possible_overwrite \<longrightarrow> IsSpent (coin ?it)"
    using new v by (auto simp: emplaced_def split: option.splits)
  have fr: "FRESH ?e \<longrightarrow> utxo b p = None"
  proof (cases "map_of (cacheCoins c) p")
    case None
    then show ?thesis using new v by (auto simp: emplaced_def)
  next
    case (Some e)
    have "unspent (coin e) = utxo b p" if "\<not> DIRTY e"
      using coins_ok_D(1) [OF k Some that] .
    then show ?thesis
      using coins_ok_D(2) [OF k Some] sp Some by (auto simp: emplaced_def)
  qed
  have "coins_step v (CacheView (c\<lparr>cacheCoins := AList.update p ?e (cacheCoins c)\<rparr>) b) ((utxo v)(p := Some newcoin))"
    unfolding v using ok v c(1) fr utxo_fun_upd [where c = c and p = p and e = ?e and b = b]
    by (intro coins_step_coins coins_ok_update [OF k]) simp_all
  then show ?thesis
    using c sp v by (auto simp: Let_def)
qed

lemma AddCoin_unspendable:
  "\<not> IsSpent newcoin \<Longrightarrow> IsUnspendable (scriptPubKey (coin_out newcoin)) \<Longrightarrow> is_cache v \<Longrightarrow>
   AddCoin v p newcoin possible_overwrite = Some v"
  by (cases v) auto

lemma Uncache_ok:
  assumes "view_ok v"
  shows "view_ok (Uncache v p) \<and> same_view (Uncache v p) v"
proof (cases v)
  case (CacheView c b)
  show ?thesis
  proof (cases "map_of (cacheCoins c) p")
    case (Some e)
    have k: "coins_ok (cacheCoins c) (utxo b)"
      using assms CacheView by simp
    show ?thesis
    proof (cases "DIRTY e \<or> FRESH e")
      case False
      then have "unspent (coin e) = utxo b p"
        using coins_ok_D(1) [OF k Some] by simp
      then have "same_view (CacheView (c\<lparr>cacheCoins := AList.delete p (cacheCoins c)\<rparr>) b) (CacheView c b)"
        using Some by (auto simp: same_view_def fun_eq_iff delete_conv')
      then show ?thesis
        using False CacheView Some assms coins_ok_delete [OF k, of p] by simp
    qed (use Some CacheView assms in auto)
  qed (use CacheView assms in simp)
qed (use assms in simp)

section \<open>Flushing\<close>

text \<open>The coins, nullifiers and anchors seen through a map over the view below.\<close>

definition over :: "('k \<times> 'e) list \<Rightarrow> ('e \<Rightarrow> 'v) \<Rightarrow> ('k \<Rightarrow> 'v) \<Rightarrow> 'k \<Rightarrow> 'v" where
  "over m get u k = (case map_of m k of Some e \<Rightarrow> get e | None \<Rightarrow> u k)"

lemma utxo_over: "utxo (CacheView c b) = over (cacheCoins c) (\<lambda>e. unspent (coin e)) (utxo b)"
  by (simp add: fun_eq_iff over_def)

lemma nullifiers_over: "nullifiers (CacheView c b) = over (cacheSaplingNullifiers c) nf_entered (nullifiers b)"
  by (simp add: fun_eq_iff over_def)

lemma anchors_over: "anchors (CacheView c b) = over (cacheSaplingAnchors c) anchor_entered (anchors b)"
  by (simp add: fun_eq_iff over_def)

lemma over_update: "over (AList.update k e m) get u = (over m get u)(k := get e)"
  by (auto simp: over_def fun_eq_iff update_conv')

lemma over_delete: "over (AList.delete k m) get u = (over m get u)(k := u k)"
  by (auto simp: over_def fun_eq_iff delete_conv')

lemma over_Cons: "k \<notin> fst ` set m \<Longrightarrow> over ((k, e) # m) get u = over m get (u(k := get e))"
  by (auto simp: over_def fun_eq_iff map_of_eq_None_iff [symmetric] split: option.splits)

abbreviation coin_over :: "CCoinsMap \<Rightarrow> (COutPoint \<Rightarrow> Coin option) \<Rightarrow> COutPoint \<Rightarrow> Coin option" where
  "coin_over m u \<equiv> over m (\<lambda>e. unspent (coin e)) u"

lemma coins_ok_Cons:
  "coins_ok ((p, e) # m) u \<longleftrightarrow>
     p \<notin> fst ` set m \<and> coins_ok m u \<and> (\<not> DIRTY e \<longrightarrow> unspent (coin e) = u p) \<and> (FRESH e \<longrightarrow> u p = None)"
proof (cases "p \<in> fst ` set m")
  case False
  then have "map_of m p = None"
    by (simp add: map_of_eq_None_iff)
  then have "(\<forall>q e'. map_of ((p, e) # m) q = Some e' \<longrightarrow> P q e') \<longleftrightarrow> P p e \<and> (\<forall>q e'. map_of m q = Some e' \<longrightarrow> P q e')" for P
    by (simp split: if_split) (metis option.distinct(1))
  then show ?thesis
    using False unfolding coins_ok_def by auto
qed (simp add: coins_ok_def)

lemma coins_ok_cong: "coins_ok m u \<Longrightarrow> (\<And>p. p \<in> fst ` set m \<Longrightarrow> u p = u' p) \<Longrightarrow> coins_ok m u'"
  by (force simp: coins_ok_def dest: map_of_SomeD)

lemma BatchWrite_entry_ok:
  assumes m: "coins_ok m u" and d: "\<not> DIRTY e \<longrightarrow> unspent (coin e) = coin_over m u p" and f: "FRESH e \<longrightarrow> coin_over m u p = None"
  shows "\<exists>m'. BatchWrite_entry m (p, e) = Some m' \<and> coins_ok m' u \<and> coin_over m' u = (coin_over m u)(p := unspent (coin e))"
proof (cases "DIRTY e")
  case False
  then show ?thesis using m d by (simp add: BatchWrite_entry_def fun_upd_idem)
next
  case True
  show ?thesis
  proof (cases "map_of m p")
    case None
    have c: "coin_over m u p = u p"
      using None by (simp add: over_def)
    show ?thesis
    proof (cases "FRESH e \<and> IsSpent (coin e)")
      case True
      then have "unspent (coin e) = coin_over m u p"
        using f by simp
      then show ?thesis
        using None True \<open>DIRTY e\<close> m by (simp add: BatchWrite_entry_def fun_upd_idem)
    next
      case False
      then show ?thesis
        using None True m f c by (auto simp: BatchWrite_entry_def over_update intro!: coins_ok_update)
    qed
  next
    case (Some it)
    have "coin_over m u p = unspent (coin it)"
      using Some by (simp add: over_def)
    then show ?thesis
      using Some True m f coins_ok_D [OF m Some]
      by (auto simp: BatchWrite_entry_def over_update over_delete intro!: coins_ok_update coins_ok_delete)
  qed
qed

lemma BatchWrite_coins_ok:
  "coins_ok m u \<Longrightarrow> coins_ok child (coin_over m u) \<Longrightarrow>
   \<exists>m'. BatchWrite_coins m child = Some m' \<and> coins_ok m' u \<and> coin_over m' u = coin_over child (coin_over m u)"
proof (induction child arbitrary: m)
  case Nil
  then show ?case by (auto simp: over_def fun_eq_iff)
next
  case (Cons kv child)
  obtain p e where kv: "kv = (p, e)"
    by (cases kv)
  have ch: "p \<notin> fst ` set child" "coins_ok child (coin_over m u)"
      "\<not> DIRTY e \<longrightarrow> unspent (coin e) = coin_over m u p" "FRESH e \<longrightarrow> coin_over m u p = None"
    using Cons.prems(2) by (simp_all add: kv coins_ok_Cons)
  obtain m1 where m1: "BatchWrite_entry m (p, e) = Some m1" "coins_ok m1 u"
      "coin_over m1 u = (coin_over m u)(p := unspent (coin e))"
    using BatchWrite_entry_ok [OF Cons.prems(1) ch(3,4)] by blast
  have "coins_ok child (coin_over m1 u)"
    using coins_ok_cong [OF ch(2)] ch(1) m1(3) by fastforce
  then have "\<exists>m'. BatchWrite_coins m1 child = Some m' \<and> coins_ok m' u \<and> coin_over m' u = coin_over child (coin_over m1 u)"
    by (rule Cons.IH [OF m1(2)])
  then show ?case
    by (simp only: m1(1,3) kv over_Cons [OF ch(1)] BatchWrite_coins.simps bind.bind_lunit)
qed

lemma db_write_coins_ok:
  "coins_ok child (\<lambda>p. Option.bind (db p) unspent) \<Longrightarrow>
   (\<lambda>p. Option.bind (db_write_coins db child p) unspent) = coin_over child (\<lambda>p. Option.bind (db p) unspent)"
proof (induction child arbitrary: db)
  case Nil
  then show ?case by (simp add: db_write_coins_def over_def fun_eq_iff)
next
  case (Cons kv child)
  obtain p e where kv: "kv = (p, e)"
    by (cases kv)
  have ch: "p \<notin> fst ` set child" "coins_ok child (\<lambda>p. Option.bind (db p) unspent)"
      "\<not> DIRTY e \<longrightarrow> unspent (coin e) = Option.bind (db p) unspent"
    using Cons.prems by (simp_all add: kv coins_ok_Cons)
  let ?db = "if DIRTY e then db(p := (if IsSpent (coin e) then None else Some (coin e))) else db"
  have u: "(\<lambda>q. Option.bind (?db q) unspent) = (\<lambda>q. Option.bind (db q) unspent)(p := unspent (coin e))"
    using ch(3) by (auto simp: fun_eq_iff unspent_def)
  have "coins_ok child (\<lambda>q. Option.bind (?db q) unspent)"
    unfolding u by (rule coins_ok_cong [OF ch(2)]) (use ch(1) in auto)
  then have "(\<lambda>p. Option.bind (db_write_coins ?db child p) unspent) = coin_over child (\<lambda>q. Option.bind (?db q) unspent)"
    by (rule Cons.IH)
  moreover have "db_write_coins db (kv # child) = db_write_coins ?db child"
    by (simp add: db_write_coins_def kv)
  ultimately show ?case
    using over_Cons [OF ch(1), of e "\<lambda>e. unspent (coin e)"] u kv by simp
qed

lemma synced_update:
  "synced dirty get S m u \<Longrightarrow> dirty e \<or> get e = u k \<Longrightarrow> synced dirty get S (AList.update k e m) u"
  by (auto simp: synced_def distinct_update update_conv')

lemma synced_cong:
  "synced dirty get S m u \<Longrightarrow> (\<And>k. k \<in> fst ` set m \<Longrightarrow> k \<notin> S \<Longrightarrow> u k = u' k) \<Longrightarrow> synced dirty get S m u'"
  by (force simp: synced_def dest: map_of_SomeD)

lemma synced_Cons:
  assumes "synced dirty get S ((k, e) # m) u"
  shows "k \<notin> fst ` set m" "synced dirty get S m u" "k \<notin> S \<longrightarrow> \<not> dirty e \<longrightarrow> get e = u k"
proof -
  show k: "k \<notin> fst ` set m"
    using assms by (auto simp: synced_def)
  then have "map_of m k = None"
    by (simp add: map_of_eq_None_iff)
  then show "synced dirty get S m u" "k \<notin> S \<longrightarrow> \<not> dirty e \<longrightarrow> get e = u k"
    using assms by (auto simp: synced_def split: if_splits)
qed

lemma over_cong: "u k = u' k \<Longrightarrow> over m get u k = over m get u' k"
  by (simp add: over_def split: option.split)

lemma over_Some: "map_of m k = Some e \<Longrightarrow> over m get u k = get e"
  by (simp add: over_def)

text \<open>
  Writing the entries of a child one by one: if every step keeps the promises of the map and gives the
  key of the entry its value, then in the end the map shows what the child showed.
\<close>

lemma synced_write:
  assumes step: "\<And>m k e. synced dirty get S m u \<Longrightarrow> (k \<notin> S \<longrightarrow> \<not> dirty e \<longrightarrow> get e = over m get u k) \<Longrightarrow>
      synced dirty get S (step m (k, e)) u \<and>
      (\<forall>q. q \<notin> S \<longrightarrow> over (step m (k, e)) get u q = ((over m get u)(k := get e)) q)"
  shows "synced dirty get S m u \<Longrightarrow> synced dirty get S child (over m get u) \<Longrightarrow>
    synced dirty get S (foldl step m child) u \<and>
    (\<forall>q. q \<notin> S \<longrightarrow> over (foldl step m child) get u q = over child get (over m get u) q)"
proof (induction child arbitrary: m)
  case Nil
  then show ?case by (simp add: over_def)
next
  case (Cons kv child)
  obtain k e where kv: "kv = (k, e)"
    by (cases kv)
  note c = synced_Cons [OF Cons.prems(2) [unfolded kv]]
  have s: "synced dirty get S (step m kv) u"
      "\<And>q. q \<notin> S \<Longrightarrow> over (step m kv) get u q = ((over m get u)(k := get e)) q"
    using step [OF Cons.prems(1) c(3)] kv by auto
  have sc: "synced dirty get S child (over (step m kv) get u)"
    by (rule synced_cong [OF c(2)]) (use c(1) s(2) in auto)
  have oc: "over child get (over (step m kv) get u) q = over child get ((over m get u)(k := get e)) q" if "q \<notin> S" for q
    by (rule over_cong) (rule s(2) [OF that])
  show ?case
    using Cons.IH [OF s(1) sc] oc over_Cons [OF c(1), of e get "over m get u"] kv
    by (simp del: fun_upd_apply)
qed

lemma BatchWriteNullifiers_ok:
  assumes "nullifiers_ok m u" "nullifiers_ok child (over m nf_entered u)"
  shows "nullifiers_ok (BatchWriteNullifiers m child) u \<and>
    over (BatchWriteNullifiers m child) nf_entered u = over child nf_entered (over m nf_entered u)"
proof -
  let ?step = "\<lambda>m (nf, it).
     if nf_DIRTY it
     then case map_of m nf of
            None \<Rightarrow> AList.update nf \<lparr>nf_entered = nf_entered it, nf_DIRTY = True\<rparr> m
          | Some itUs \<Rightarrow>
              if nf_entered itUs \<noteq> nf_entered it
              then AList.update nf \<lparr>nf_entered = nf_entered it, nf_DIRTY = True\<rparr> m
              else m
     else m"
  have "BatchWriteNullifiers m child = foldl ?step m child"
    by (induction m child rule: BatchWriteNullifiers.induct) simp_all
  moreover have "nullifiers_ok (?step m (k, e)) u \<and>
      (\<forall>q. q \<notin> {} \<longrightarrow> over (?step m (k, e)) nf_entered u q = ((over m nf_entered u)(k := nf_entered e)) q)"
    if "nullifiers_ok m u" "k \<notin> {} \<longrightarrow> \<not> nf_DIRTY e \<longrightarrow> nf_entered e = over m nf_entered u k" for m k e
  proof (cases "nf_DIRTY e")
    case True
    show ?thesis
    proof (cases "map_of m k")
      case (Some it)
      then have "over m nf_entered u k = nf_entered it"
        by (rule over_Some)
      then show ?thesis
        using that(1) True Some by (simp add: over_update synced_update)
    qed (use that(1) True in \<open>simp add: over_update synced_update\<close>)
  qed (use that in auto)
  moreover have "nullifiers_ok (foldl ?step m child) u \<and>
      (\<forall>q. q \<notin> {} \<longrightarrow> over (foldl ?step m child) nf_entered u q = over child nf_entered (over m nf_entered u) q)"
    using calculation(2) by (rule synced_write [OF _ assms])
  ultimately show ?thesis
    by (simp add: fun_eq_iff)
qed

lemma BatchWriteAnchors_ok:
  assumes "anchors_ok m u" "anchors_ok child (over m anchor_entered u)"
  shows "anchors_ok (BatchWriteAnchors m child) u \<and>
    (\<forall>rt. rt \<noteq> empty_root \<longrightarrow>
       over (BatchWriteAnchors m child) anchor_entered u rt = over child anchor_entered (over m anchor_entered u) rt)"
proof -
  let ?step = "\<lambda>m (rt, it).
     if anchor_DIRTY it
     then case map_of m rt of
            None \<Rightarrow> AList.update rt \<lparr>anchor_entered = anchor_entered it, anchor_tree = anchor_tree it, anchor_DIRTY = True\<rparr> m
          | Some itUs \<Rightarrow>
              if anchor_entered itUs \<noteq> anchor_entered it
              then AList.update rt (itUs\<lparr>anchor_entered := anchor_entered it, anchor_DIRTY := True\<rparr>) m
              else m
     else m"
  have "BatchWriteAnchors m child = foldl ?step m child"
    by (induction m child rule: BatchWriteAnchors.induct) simp_all
  moreover have "anchors_ok (?step m (k, e)) u \<and>
      (\<forall>q. q \<notin> {empty_root} \<longrightarrow> over (?step m (k, e)) anchor_entered u q = ((over m anchor_entered u)(k := anchor_entered e)) q)"
    if "anchors_ok m u" "k \<notin> {empty_root} \<longrightarrow> \<not> anchor_DIRTY e \<longrightarrow> anchor_entered e = over m anchor_entered u k" for m k e
  proof (cases "anchor_DIRTY e")
    case True
    show ?thesis
    proof (cases "map_of m k")
      case (Some it)
      then have "over m anchor_entered u k = anchor_entered it"
        by (rule over_Some)
      then show ?thesis
        using that(1) True Some by (simp add: over_update synced_update)
    qed (use that(1) True in \<open>simp add: over_update synced_update\<close>)
  qed (use that in auto)
  moreover have "anchors_ok (foldl ?step m child) u \<and>
      (\<forall>q. q \<notin> {empty_root} \<longrightarrow> over (foldl ?step m child) anchor_entered u q = over child anchor_entered (over m anchor_entered u) q)"
    using calculation(2) by (rule synced_write [OF _ assms])
  ultimately show ?thesis
    by simp
qed

lemma db_write_synced:
  assumes step: "\<And>m k e. (k \<notin> S \<longrightarrow> \<not> dirty e \<longrightarrow> get e = rd m k) \<Longrightarrow> \<forall>q. q \<notin> S \<longrightarrow> rd (step m (k, e)) q = ((rd m)(k := get e)) q"
  shows "synced dirty get S child (rd m) \<Longrightarrow> \<forall>q. q \<notin> S \<longrightarrow> rd (foldl step m child) q = over child get (rd m) q"
proof (induction child arbitrary: m)
  case Nil
  then show ?case by (simp add: over_def)
next
  case (Cons kv child)
  obtain k e where kv: "kv = (k, e)"
    by (cases kv)
  note c = synced_Cons [OF Cons.prems [unfolded kv]]
  have s: "\<And>q. q \<notin> S \<Longrightarrow> rd (step m kv) q = ((rd m)(k := get e)) q"
    using step [OF c(3)] kv by auto
  have sc: "synced dirty get S child (rd (step m kv))"
    by (rule synced_cong [OF c(2)]) (use c(1) s in auto)
  have oc: "over child get (rd (step m kv)) q = over child get ((rd m)(k := get e)) q" if "q \<notin> S" for q
    by (rule over_cong) (rule s [OF that])
  show ?case
    using Cons.IH [OF sc] oc over_Cons [OF c(1), of e get "rd m"] kv
    by (simp del: fun_upd_apply)
qed

text \<open>The assertions of the database on the best block it is given; a cache takes any.\<close>

fun accepts :: "CCoinsView \<Rightarrow> bytes \<Rightarrow> bool" where
  "accepts (DBView db) h =
     (\<not> uint256_IsNull h \<and>
      \<not> (case db_head_blocks db of
           Some [new, old] \<Rightarrow> uint256_IsNull (fst (GetBestBlock (DBView db))) \<and> new \<noteq> h
         | _ \<Rightarrow> False))"
| "accepts (CacheView c b) h = True"

lemma BatchWriteSapling_ok:
  assumes "nullifiers_ok n (db_nullifier db)" "anchors_ok a (\<lambda>rt. db_anchor db rt \<noteq> None)"
  shows "db_nullifier (BatchWriteSapling db h a n) = over n nf_entered (db_nullifier db)"
    and "rt \<noteq> empty_root \<Longrightarrow>
      (db_anchor (BatchWriteSapling db h a n) rt \<noteq> None) = over a anchor_entered (\<lambda>rt. db_anchor db rt \<noteq> None) rt"
    and "db_coin (BatchWriteSapling db h a n) = db_coin db"
proof -
  let ?nf = "\<lambda>m (nf, it). if nf_DIRTY it then m(nf := nf_entered it) else m"
  let ?an = "\<lambda>m (rt, it). if anchor_DIRTY it
              then if \<not> anchor_entered it then m(rt := None)
                   else if rt \<noteq> empty_root then m(rt := Some (anchor_tree it)) else m
              else m"
  have "\<forall>q. q \<notin> {} \<longrightarrow> foldl ?nf (db_nullifier db) n q = over n nf_entered (db_nullifier db) q"
    by (rule db_write_synced [where dirty = nf_DIRTY and rd = "\<lambda>m. m"]) (use assms(1) in auto)
  then show "db_nullifier (BatchWriteSapling db h a n) = over n nf_entered (db_nullifier db)"
    by (simp add: BatchWriteSapling_def fun_eq_iff)
  have "\<forall>q. q \<notin> {empty_root} \<longrightarrow>
      (foldl ?an (db_anchor db) a q \<noteq> None) = over a anchor_entered (\<lambda>rt. db_anchor db rt \<noteq> None) q"
    by (rule db_write_synced [where dirty = anchor_DIRTY and rd = "\<lambda>m rt. m rt \<noteq> None"]) (use assms(2) in auto)
  then show "rt \<noteq> empty_root \<Longrightarrow>
      (db_anchor (BatchWriteSapling db h a n) rt \<noteq> None) = over a anchor_entered (\<lambda>rt. db_anchor db rt \<noteq> None) rt"
    by (simp add: BatchWriteSapling_def)
  show "db_coin (BatchWriteSapling db h a n) = db_coin db"
    by (simp add: BatchWriteSapling_def)
qed

lemma BatchWrite_ok:
  assumes "view_ok b" "coins_ok m (utxo b)" "nullifiers_ok n (nullifiers b)" "anchors_ok a (anchors b)" "accepts b h"
  shows "\<exists>b'. BatchWrite b m h ha a n = Some b' \<and> view_ok b' \<and> utxo b' = coin_over m (utxo b) \<and>
    nullifiers b' = over n nf_entered (nullifiers b) \<and> accepts b' h \<and>
    (\<forall>rt. rt \<noteq> empty_root \<longrightarrow> anchors b' rt = over a anchor_entered (anchors b) rt)"
proof (cases b)
  case (CacheView c g)
  have k: "coins_ok (cacheCoins c) (utxo g)" "nullifiers_ok (cacheSaplingNullifiers c) (nullifiers g)"
      "anchors_ok (cacheSaplingAnchors c) (anchors g)" "view_ok g"
    using assms(1) CacheView by simp_all
  obtain m' where m': "BatchWrite_coins (cacheCoins c) m = Some m'" "coins_ok m' (utxo g)"
      "coin_over m' (utxo g) = coin_over m (utxo b)"
    using BatchWrite_coins_ok [OF k(1), of m] assms(2) CacheView by (auto simp: utxo_over)
  note n = BatchWriteNullifiers_ok [OF k(2), of n] and a = BatchWriteAnchors_ok [OF k(3), of a]
  let ?b' = "CacheView \<lparr>hashBlock = h, cacheCoins = m', hashSaplingAnchor = ha,
      cacheSaplingAnchors = BatchWriteAnchors (cacheSaplingAnchors c) a,
      cacheSaplingNullifiers = BatchWriteNullifiers (cacheSaplingNullifiers c) n\<rparr> g"
  have "BatchWrite b m h ha a n = Some ?b'"
    using m'(1) CacheView by simp
  moreover have "utxo ?b' = coin_over m (utxo b)"
    using m'(3) by (simp add: utxo_over del: utxo.simps)
  moreover have "nullifiers ?b' = over n nf_entered (nullifiers b)" "nullifiers_ok (BatchWriteNullifiers (cacheSaplingNullifiers c) n) (nullifiers g)"
    using n assms(3) CacheView by (simp_all add: nullifiers_over del: nullifiers.simps)
  moreover have "anchors ?b' rt = over a anchor_entered (anchors b) rt" if "rt \<noteq> empty_root" for rt
    using a assms(4) CacheView that by (simp add: anchors_over del: anchors.simps)
  moreover have "anchors_ok (BatchWriteAnchors (cacheSaplingAnchors c) a) (anchors g)"
    using a assms(4) CacheView by (simp add: anchors_over del: anchors.simps)
  ultimately show ?thesis
    using m'(2) k(4) by simp
next
  case (DBView db)
  have ub: "utxo b = (\<lambda>p. Option.bind (db_coin db p) unspent)" "nullifiers b = db_nullifier db"
      "anchors b = (\<lambda>rt. db_anchor db rt \<noteq> None)"
    using DBView by (simp_all add: fun_eq_iff)
  let ?d = "BatchWriteSapling (db\<lparr>db_coin := db_write_coins (db_coin db) m\<rparr>) ha a n"
  let ?b' = "DBView (?d\<lparr>db_head_blocks := None, db_best_block := Some h\<rparr>)"
  have s: "nullifiers_ok n (db_nullifier (db\<lparr>db_coin := db_write_coins (db_coin db) m\<rparr>))"
      "anchors_ok a (\<lambda>rt. db_anchor (db\<lparr>db_coin := db_write_coins (db_coin db) m\<rparr>) rt \<noteq> None)"
    using assms(3,4) ub by simp_all
  note w = BatchWriteSapling_ok [OF s, where h = ha]
  have "BatchWrite b m h ha a n = Some ?b'"
    using assms(5) DBView by simp
  moreover have "utxo ?b' = coin_over m (utxo b)"
    using db_write_coins_ok [of m "db_coin db"] assms(2) w(3) unfolding ub(1) by (simp add: fun_eq_iff)
  moreover have "nullifiers ?b' = over n nf_entered (nullifiers b)"
    using w(1) unfolding ub(2) by (simp add: fun_eq_iff)
  moreover have "anchors ?b' rt = over a anchor_entered (anchors b) rt" if "rt \<noteq> empty_root" for rt
    using w(2) [OF that] ub(3) by simp
  moreover have "accepts ?b' h"
    using assms(5) DBView by simp
  ultimately show ?thesis
    by simp
qed

lemma Flush_ok:
  assumes "view_ok (CacheView c b)" "accepts b (hashBlock c)"
  shows "\<exists>b'. Flush (CacheView c b) =
      Some (CacheView (c\<lparr>cacheCoins := [], cacheSaplingAnchors := [], cacheSaplingNullifiers := []\<rparr>) b') \<and>
    view_ok b' \<and> same_view b' (CacheView c b) \<and> accepts b' (hashBlock c)"
proof -
  have "view_ok b" "coins_ok (cacheCoins c) (utxo b)" "nullifiers_ok (cacheSaplingNullifiers c) (nullifiers b)"
      "anchors_ok (cacheSaplingAnchors c) (anchors b)"
    using assms(1) by simp_all
  from BatchWrite_ok [OF this assms(2), of "hashSaplingAnchor c"] show ?thesis
    by (auto simp: same_view_def utxo_over nullifiers_over anchors_over simp del: utxo.simps nullifiers.simps anchors.simps)
qed

section \<open>The cache as a map of unspent coins\<close>

text \<open>The operations of a client, what the cache answers to them, and what a plain map would answer.\<close>

datatype coin_op =
  OpAccess COutPoint | OpSpend COutPoint | OpAdd COutPoint Coin bool | OpUncache COutPoint | OpSetBest bytes | OpFlush

fun run_op :: "CCoinsView \<Rightarrow> coin_op \<Rightarrow> (Coin option \<times> CCoinsView) option" where
  "run_op v (OpAccess p) = Some (unspent (fst (AccessCoin v p)), snd (AccessCoin v p))"
| "run_op v (OpSpend p) = Some (Option.bind (fst (SpendCoin v p)) unspent, snd (SpendCoin v p))"
| "run_op v (OpAdd p c possible_overwrite) = map_option (\<lambda>v'. (None, v')) (AddCoin v p c possible_overwrite)"
| "run_op v (OpUncache p) = Some (None, Uncache v p)"
| "run_op v (OpSetBest h) = Some (None, SetBestBlock v h)"
| "run_op v OpFlush = map_option (\<lambda>v'. (None, v')) (Flush v)"

fun spec_op :: "(COutPoint \<Rightarrow> Coin option) \<Rightarrow> coin_op \<Rightarrow> (Coin option \<times> (COutPoint \<Rightarrow> Coin option)) option" where
  "spec_op u (OpAccess p) = Some (u p, u)"
| "spec_op u (OpSpend p) = Some (u p, u(p := None))"
| "spec_op u (OpAdd p c possible_overwrite) =
     (if IsSpent c then None
      else if IsUnspendable (scriptPubKey (coin_out c)) then Some (None, u)
      else if possible_overwrite \<or> u p = None then Some (None, u(p := Some c))
      else None)"
| "spec_op u (OpUncache p) = Some (None, u)"
| "spec_op u (OpSetBest h) = (if uint256_IsNull h then None else Some (None, u))"
| "spec_op u OpFlush = Some (None, u)"

fun run_ops :: "('s \<Rightarrow> coin_op \<Rightarrow> (Coin option \<times> 's) option) \<Rightarrow> 's \<Rightarrow> coin_op list \<Rightarrow> (Coin option list \<times> 's) option" where
  "run_ops run s [] = Some ([], s)"
| "run_ops run s (x # xs) =
     Option.bind (run s x) (\<lambda>(r, s'). map_option (\<lambda>(rs, s''). (r # rs, s'')) (run_ops run s' xs))"

text \<open>A cache that may be flushed: over another cache, or over a database that no rewrite was interrupted in.\<close>

fun flushable :: "CCoinsView \<Rightarrow> bool" where
  "flushable (CacheView c (CacheView c' b)) = True"
| "flushable (CacheView c (DBView db)) = (\<not> uint256_IsNull (hashBlock c) \<and> db_head_blocks db = None)"
| "flushable (DBView db) = False"

fun base :: "CCoinsView \<Rightarrow> CCoinsView" where
  "base (CacheView c b) = b"
| "base (DBView db) = DBView db"

lemma flushable_cache: "flushable v \<Longrightarrow> is_cache v"
  by (cases v) auto

lemma flushable_accepts: "flushable (CacheView c b) \<Longrightarrow> accepts b (hashBlock c)"
  by (cases b) auto

lemma GetCoin_flushable:
  "(is_cache (snd (GetCoin v p)) \<longleftrightarrow> is_cache v) \<and> (\<forall>db. v = DBView db \<longrightarrow> snd (GetCoin v p) = DBView db)"
  by (cases v) (auto simp: FetchCoin_def Let_def split: option.splits prod.splits)

lemma flushable_iff:
  "flushable (CacheView c b) \<longleftrightarrow>
     is_cache b \<or> (\<exists>db. b = DBView db \<and> \<not> uint256_IsNull (hashBlock c) \<and> db_head_blocks db = None)"
  by (cases b) auto

lemma FetchCoin_flushable:
  assumes "flushable (CacheView c b)"
  shows "\<exists>it c' b'. FetchCoin c b p (GetCoin b p) = (it, CacheView c' b') \<and>
    (\<forall>m. flushable (CacheView (c'\<lparr>cacheCoins := m\<rparr>) b')) \<and> flushable (CacheView c' b')"
proof -
  obtain it c' b' where f: "FetchCoin c b p (GetCoin b p) = (it, CacheView c' b')"
      "hashBlock c' = hashBlock c" "b' = b \<or> b' = snd (GetCoin b p)"
    by (cases "GetCoin b p"; cases "fst (GetCoin b p)"; cases "map_of (cacheCoins c) p")
      (auto simp: FetchCoin_def Let_def)
  then show ?thesis
    using assms GetCoin_flushable [of b p] by (auto simp: flushable_iff simp del: GetCoin.simps)
qed

lemma SpendCoin_flushable: "flushable v \<Longrightarrow> flushable (snd (SpendCoin v p))"
proof (cases v)
  case (CacheView c b)
  assume "flushable v"
  with FetchCoin_flushable [of c b p] CacheView show ?thesis
    by (auto split: option.splits)
qed simp

lemma AccessCoin_flushable: "flushable v \<Longrightarrow> flushable (snd (AccessCoin v p))"
proof (cases v)
  case (CacheView c b)
  assume "flushable v"
  with FetchCoin_flushable [of c b p] CacheView show ?thesis
    by (auto simp: AccessCoin_def)
qed simp

lemma flushable_coins: "flushable (CacheView c b) \<Longrightarrow> flushable (CacheView (c\<lparr>cacheCoins := m\<rparr>) b)"
  by (cases b) auto

lemma AddCoin_flushable: "flushable v \<Longrightarrow> AddCoin v p c f = Some v' \<Longrightarrow> flushable v'"
  by (cases v) (auto simp: Let_def flushable_coins split: if_splits)

lemma Uncache_flushable: "flushable v \<Longrightarrow> flushable (Uncache v p)"
  by (cases v) (auto simp: flushable_coins split: option.splits)

lemma SetBestBlock_flushable: "flushable v \<Longrightarrow> \<not> uint256_IsNull h \<Longrightarrow> flushable (SetBestBlock v h)"
  by (induction v rule: flushable.induct) auto

lemma SetBestBlock_ok: "view_ok v \<Longrightarrow> view_ok (SetBestBlock v h) \<and> same_view (SetBestBlock v h) v"
  by (cases v) (auto simp: same_view_def)

lemma Flush_view:
  assumes "view_ok v" "flushable v"
  shows "\<exists>v'. Flush v = Some v' \<and> view_ok v' \<and> same_view v' v \<and> same_view (base v') v \<and> flushable v'"
proof -
  obtain c b where v: "v = CacheView c b"
    using assms(2) by (cases v) auto
  let ?c = "c\<lparr>cacheCoins := [], cacheSaplingAnchors := [], cacheSaplingNullifiers := []\<rparr>"
  obtain b' where f: "Flush v = Some (CacheView ?c b')" "view_ok b'" "same_view b' v"
    using Flush_ok [of c b] assms v flushable_accepts [of c b] by auto
  have "view_ok (CacheView ?c b')" "same_view (CacheView ?c b') b'"
    using f(2) by (simp_all add: coins_ok_def synced_def same_view_def fun_eq_iff)
  moreover have "flushable (CacheView ?c b')"
    using f(1) assms(2) v by (cases b) (auto split: if_splits)
  ultimately show ?thesis
    using f by (auto simp: same_view_def)
qed

text \<open>One operation: the cache answers like the map and keeps its promises.\<close>

lemma run_op_refines:
  assumes ok: "view_ok v" "flushable v" and s: "spec_op (utxo v) x = Some (r, u)"
  shows "\<exists>v'. run_op v x = Some (r, v') \<and> coins_step v v' u \<and> flushable v'"
proof (cases x)
  case (OpAccess p)
  then show ?thesis
    using AccessCoin_ok [OF ok(1), of p] AccessCoin_flushable [OF ok(2), of p] coins_step_same [of _ v] s by auto
next
  case (OpSpend p)
  then show ?thesis
    using SpendCoin_ok [OF ok(1) flushable_cache [OF ok(2)], of p] SpendCoin_flushable [OF ok(2), of p] s by auto
next
  case (OpAdd p c f)
  show ?thesis
  proof (cases "IsUnspendable (scriptPubKey (coin_out c))")
    case True
    then show ?thesis
      using OpAdd s AddCoin_unspendable [OF _ True flushable_cache [OF ok(2)], of p f] ok coins_step_same [of v v]
      by (auto split: if_splits)
  next
    case False
    then have "\<not> IsSpent c" "f \<or> utxo v p = None" "u = (utxo v)(p := Some c)" "r = None"
      using OpAdd s by (auto split: if_splits)
    with AddCoin_ok [OF ok(1) flushable_cache [OF ok(2)] this(1) False this(2)] AddCoin_flushable [OF ok(2), of p c f]
    show ?thesis
      using OpAdd by auto
  qed
next
  case (OpUncache p)
  then show ?thesis
    using Uncache_ok [OF ok(1), of p] Uncache_flushable [OF ok(2), of p] coins_step_same [of _ v] s by auto
next
  case (OpSetBest h)
  then show ?thesis
    using SetBestBlock_ok [OF ok(1), of h] SetBestBlock_flushable [OF ok(2), of h] coins_step_same [of _ v] s
    by (auto split: if_splits)
next
  case OpFlush
  then show ?thesis
    using Flush_view [OF ok] coins_step_same [of _ v] s by auto
qed

lemma run_ops_refines:
  "view_ok v \<Longrightarrow> flushable v \<Longrightarrow> run_ops spec_op (utxo v) xs = Some (rs, u) \<Longrightarrow>
   \<exists>v'. run_ops run_op v xs = Some (rs, v') \<and> coins_step v v' u \<and> flushable v'"
proof (induction xs arbitrary: v rs)
  case Nil
  then show ?case using coins_step_same [of v v] by auto
next
  case (Cons x xs)
  obtain r u1 rs1 where r: "spec_op (utxo v) x = Some (r, u1)" "run_ops spec_op u1 xs = Some (rs1, u)" "rs = r # rs1"
    using Cons.prems(3) by (auto simp: bind_eq_Some_conv)
  obtain v1 where v1: "run_op v x = Some (r, v1)" "coins_step v v1 u1" "flushable v1"
    using run_op_refines [OF Cons.prems(1,2) r(1)] by blast
  then have "view_ok v1" "utxo v1 = u1"
    by (auto simp: coins_step_def)
  then show ?case
    using Cons.IH [of v1 rs1] v1 r(2,3) coins_step_trans [OF v1(2)] by auto
qed

lemma coins_stepD:
  assumes "coins_step v v' u"
  shows "view_ok v'" "utxo v' = u"
  using assms by (simp_all add: coins_step_def)

text \<open>An empty database, and a cache over it.\<close>

definition demo_db :: CCoinsViewDB where
  "demo_db = \<lparr>db_coin = (\<lambda>_. None), db_best_block = None, db_head_blocks = None, db_anchor = (\<lambda>_. None),
     db_nullifier = (\<lambda>_. False), db_best_anchor = None\<rparr>"

definition demo_cache :: CCoinsView where
  "demo_cache = CacheView \<lparr>hashBlock = [1], cacheCoins = [], hashSaplingAnchor = [], cacheSaplingAnchors = [],
     cacheSaplingNullifiers = []\<rparr> (DBView demo_db)"

definition demo_coin :: "int \<Rightarrow> Coin" where
  "demo_coin v = \<lparr>fCoinBase = False, fCoinStake = False,
     coin_out = \<lparr>nValue = v, scriptPubKey = [0x51], nRounds = - 10\<rparr>, coin_nHeight = 7\<rparr>"

lemma demo_cache_ok: "view_ok demo_cache" "flushable demo_cache" "is_cache demo_cache" "utxo demo_cache = (\<lambda>_. None)"
  by (simp_all add: demo_cache_def demo_db_def coins_ok_def synced_def uint256_IsNull_def fun_eq_iff)

lemma demo_coin_ok [simp]: "\<not> IsSpent (demo_coin 5)" "\<not> IsUnspendable (scriptPubKey (coin_out (demo_coin 5)))"
  by (simp_all add: demo_coin_def IsSpent_def CTxOut_IsNull_def IsUnspendable_def MAX_SCRIPT_SIZE_def)

text \<open>
  C20. The coin cache is a faithful, lazily filled and written copy of a map from outpoints to unspent
  coins: over a consistent stack of caches and database, every sequence of \<^verbatim>\<open>AccessCoin\<close>, \<^verbatim>\<open>SpendCoin\<close>,
  \<^verbatim>\<open>AddCoin\<close>, \<^verbatim>\<open>Uncache\<close>, \<^verbatim>\<open>SetBestBlock\<close> and \<^verbatim>\<open>Flush\<close> that is legal for the map runs without an exception, gives the
  answers of the map, and flushing at the end leaves exactly the map in the view below.
\<close>

theorem coins_cache_refines:
  assumes "view_ok v" "flushable v" "run_ops spec_op (utxo v) ops = Some (answers, u)"
  shows "\<exists>v' w. run_ops run_op v ops = Some (answers, v') \<and> view_ok v' \<and> utxo v' = u \<and>
    Flush v' = Some w \<and> view_ok w \<and> utxo w = u \<and> utxo (base w) = u"
proof -
  obtain v' where v': "run_ops run_op v ops = Some (answers, v')" "coins_step v v' u" "flushable v'"
    using run_ops_refines [OF assms] by blast
  obtain w where "Flush v' = Some w" "view_ok w" "same_view w v'" "same_view (base w) v'"
    using Flush_view [OF coins_stepD(1) [OF v'(2)] v'(3)] by blast
  then show ?thesis
    using v' coins_stepD [OF v'(2)] by (auto simp: same_view_def)
qed

theorem coins_cache_refines_witness:
  "\<exists>v' w. run_ops run_op demo_cache
      [OpAdd \<lparr>outpoint_hash = [1], outpoint_n = 0\<rparr> (demo_coin 5) False, OpFlush,
       OpSpend \<lparr>outpoint_hash = [1], outpoint_n = 0\<rparr>, OpAccess \<lparr>outpoint_hash = [1], outpoint_n = 0\<rparr>] =
      Some ([None, None, Some (demo_coin 5), None], v') \<and> Flush v' = Some w \<and> utxo (base w) = (\<lambda>_. None)"
  using coins_cache_refines [OF demo_cache_ok(1,2),
      of "[OpAdd \<lparr>outpoint_hash = [1], outpoint_n = 0\<rparr> (demo_coin 5) False, OpFlush,
         OpSpend \<lparr>outpoint_hash = [1], outpoint_n = 0\<rparr>, OpAccess \<lparr>outpoint_hash = [1], outpoint_n = 0\<rparr>]"
        "[None, None, Some (demo_coin 5), None]" "\<lambda>_. None"]
  by (simp add: demo_cache_ok(4) fun_eq_iff) blast

section \<open>Anchors and nullifiers\<close>

lemma SetNullifiers_ok:
  assumes "view_ok v" "is_cache v"
  shows "view_ok (SetNullifiers v tx spent) \<and> utxo (SetNullifiers v tx spent) = utxo v \<and>
    nullifiers (SetNullifiers v tx spent) =
      (\<lambda>nf. if nf \<in> sd_nullifier ` set (case sapData tx of None \<Rightarrow> [] | Some d \<Rightarrow> vShieldedSpend d) then spent
             else nullifiers v nf)"
proof -
  obtain c b where v: "v = CacheView c b"
    using assms(2) by (auto simp: is_cache_iff)
  let ?f = "\<lambda>m spendDescription. AList.update (sd_nullifier spendDescription) \<lparr>nf_entered = spent, nf_DIRTY = True\<rparr> m"
  have "nullifiers_ok (foldl ?f m ss) u \<and>
      over (foldl ?f m ss) nf_entered u = (\<lambda>nf. if nf \<in> sd_nullifier ` set ss then spent else over m nf_entered u nf)"
    if "nullifiers_ok m u" for m ss u
    using that
  proof (induction ss arbitrary: m)
    case (Cons s ss)
    have "nullifiers_ok (?f m s) u"
      using Cons.prems by (simp add: synced_update)
    then show ?case
      using Cons.IH [of "?f m s"] by (auto simp: over_update fun_eq_iff)
  qed simp
  note f = this [of "cacheSaplingNullifiers c" "nullifiers b"]
  have u: "utxo (CacheView (c\<lparr>cacheSaplingNullifiers := m\<rparr>) b) = utxo (CacheView c b)" for m
    by (simp add: fun_eq_iff)
  show ?thesis
    using assms(1) f v u by (cases "sapData tx") (simp_all add: nullifiers_over del: nullifiers.simps utxo.simps split del: if_split cong: if_cong)
qed

lemma GetBestAnchor_ok:
  "view_ok v \<Longrightarrow> view_ok (snd (GetBestAnchor v)) \<and> same_view (snd (GetBestAnchor v)) v \<and>
   (is_cache (snd (GetBestAnchor v)) \<longleftrightarrow> is_cache v)"
proof (induction v)
  case (CacheView c b)
  obtain h b' where g: "GetBestAnchor b = (h, b')"
    by (cases "GetBestAnchor b")
  then have b: "same_view b' b" "view_ok b'"
    using CacheView by auto
  note n = cache_same_base [OF b CacheView.prems]
  then have "same_view (CacheView (c\<lparr>hashSaplingAnchor := h\<rparr>) b') (CacheView c b)"
    by (auto simp: same_view_def fun_eq_iff)
  then show ?case
    using g n(2) CacheView.prems by simp
qed simp

text \<open>Pushing a tree makes its root a known anchor; nothing else changes.\<close>

lemma PushAnchor_ok:
  assumes "view_ok v" "is_cache v"
  shows "let newrt = tree_root merkle_hash PedersenHash_EmptyRoot tree SAPLING_INCREMENTAL_MERKLE_TREE_DEPTH [];
      v' = PushAnchor merkle_hash v tree
    in view_ok v' \<and> utxo v' = utxo v \<and> nullifiers v' = nullifiers v \<and>
      (\<forall>rt. rt \<noteq> empty_root \<longrightarrow> anchors v' rt = (if fst (GetBestAnchor v) \<noteq> newrt \<and> rt = newrt then True else anchors v rt))"
proof -
  obtain r c b where g: "GetBestAnchor v = (r, CacheView c b)"
    using GetBestAnchor_ok [OF assms(1)] assms(2) by (cases "GetBestAnchor v") (auto simp: is_cache_iff)
  have n: "view_ok (CacheView c b)" "same_view (CacheView c b) v"
    using GetBestAnchor_ok [OF assms(1)] g by auto
  let ?rt = "tree_root merkle_hash PedersenHash_EmptyRoot tree SAPLING_INCREMENTAL_MERKLE_TREE_DEPTH []"
  have u: "utxo (CacheView c b) = utxo v" "nullifiers (CacheView c b) = nullifiers v"
      "rt \<noteq> empty_root \<Longrightarrow> anchors (CacheView c b) rt = anchors v rt" for rt
    using n(2) by (simp_all add: same_view_def)
  show ?thesis
  proof (cases "r = ?rt")
    case True
    then show ?thesis
      using g n u by (simp add: PushAnchor_def Let_def del: utxo.simps nullifiers.simps anchors.simps)
  next
    case False
    let ?c = "c\<lparr>cacheSaplingAnchors :=
        AList.update ?rt \<lparr>anchor_entered = True, anchor_tree = tree, anchor_DIRTY = True\<rparr> (cacheSaplingAnchors c),
        hashSaplingAnchor := ?rt\<rparr>"
    have "anchors (CacheView ?c b) = (anchors (CacheView c b))(?rt := True)"
      by (simp add: anchors_over over_update del: anchors.simps)
    moreover have "utxo (CacheView ?c b) = utxo v" "nullifiers (CacheView ?c b) = nullifiers v"
      using u(1,2) by (auto simp: fun_eq_iff)
    moreover have "view_ok (CacheView ?c b)"
      using n(1) by (simp add: synced_update)
    ultimately show ?thesis
      using g u(3) False by (simp add: PushAnchor_def Let_def del: utxo.simps nullifiers.simps anchors.simps view_ok.simps)
  qed
qed

end
