(* ===== verification/Coins_Blocks.thy ===== *)
theory Coins_Blocks
  imports Coins
begin

text \<open>
  What transactions and blocks do to the unspent coins: \<^verbatim>\<open>AddCoins\<close> and \<^verbatim>\<open>AccessByTxid\<close> of \<^verbatim>\<open>src/coins.cpp\<close>,
  \<^verbatim>\<open>UpdateCoins\<close>, \<^verbatim>\<open>ApplyTxInUndo\<close>, \<^verbatim>\<open>CheckTxInputs\<close> and the coins of \<^verbatim>\<open>ConnectBlock\<close> and \<^verbatim>\<open>DisconnectBlock\<close> of
  \<^verbatim>\<open>src/validation.cpp\<close>, over the views of \<^verbatim>\<open>Coins\<close>.  The specification \<open>apply_tx\<close> works on the map of
  unspent coins.
\<close>

section \<open>Transactions and blocks\<close>

text \<open>
  \<open>invalid\<close> is the set of banned outpoints, which the code reads from an embedded file
  (\<^verbatim>\<open>invalid_out::ContainsOutPoint\<close>).
\<close>

fun AddCoins_loop ::
  "(COutPoint \<Rightarrow> bool) \<Rightarrow> bytes \<Rightarrow> nat \<Rightarrow> bool \<Rightarrow> bool \<Rightarrow> bool \<Rightarrow> bool \<Rightarrow> nat \<Rightarrow> CTxOut list \<Rightarrow> CCoinsView \<Rightarrow> CCoinsView option" where
  "AddCoins_loop invalid txid h cb cs check fSkipInvalid i [] cache = Some cache"
| "AddCoins_loop invalid txid h cb cs check fSkipInvalid i (o1 # os) cache =
     (let out = \<lparr>outpoint_hash = txid, outpoint_n = i\<rparr> in
      if fSkipInvalid \<and> invalid out
      then AddCoins_loop invalid txid h cb cs check fSkipInvalid (i + 1) os (snd (SpendCoin cache out))
      else let (overwrite, cache') = (if check then HaveCoin cache out else (False, cache)) in
        Option.bind
          (AddCoin cache' out \<lparr>fCoinBase = cb, fCoinStake = cs, coin_out = o1, coin_nHeight = h\<rparr> overwrite)
          (AddCoins_loop invalid txid h cb cs check fSkipInvalid (i + 1) os))"

definition AddCoins ::
  "(COutPoint \<Rightarrow> bool) \<Rightarrow> CCoinsView \<Rightarrow> CTransaction \<Rightarrow> nat \<Rightarrow> bool \<Rightarrow> bool \<Rightarrow> CCoinsView option" where
  "AddCoins invalid cache tx nHeight check fSkipInvalid =
     AddCoins_loop invalid (CTransaction_GetHash tx) nHeight (IsCoinBase tx) (IsCoinStake tx) check fSkipInvalid 0
       (vout tx) cache"

text \<open>The inputs are spent into \<^verbatim>\<open>txundo.vprevout\<close>.\<close>

fun spend_inputs :: "CCoinsView \<Rightarrow> CTxIn list \<Rightarrow> Coin list \<times> CCoinsView" where
  "spend_inputs inputs [] = ([], inputs)"
| "spend_inputs inputs (txin # rest) =
     (let (moved, inputs') = SpendCoin inputs (prevout txin);
          (vprevout, inputs'') = spend_inputs inputs' rest
      in ((case moved of None \<Rightarrow> Coin_Clear | Some c \<Rightarrow> c) # vprevout, inputs''))"

definition UpdateCoins ::
  "(COutPoint \<Rightarrow> bool) \<Rightarrow> CTransaction \<Rightarrow> CCoinsView \<Rightarrow> nat \<Rightarrow> bool \<Rightarrow> (Coin list \<times> CCoinsView) option" where
  "UpdateCoins invalid tx inputs nHeight fSkipInvalid =
     (let (vprevout, inputs') =
            (if \<not> IsCoinBase tx \<and> \<not> ContainsAssets tx then spend_inputs inputs (vin tx) else ([], inputs))
      in map_option (\<lambda>inputs''. (vprevout, inputs'')) (AddCoins invalid inputs' tx nHeight False fSkipInvalid))"

fun HaveInputs_loop :: "CCoinsView \<Rightarrow> CTxIn list \<Rightarrow> bool \<times> CCoinsView" where
  "HaveInputs_loop view [] = (True, view)"
| "HaveInputs_loop view (txin # rest) =
     (let (have_coin, view') = HaveCoin view (prevout txin)
      in if have_coin then HaveInputs_loop view' rest else (False, view'))"

definition HaveInputs :: "CCoinsView \<Rightarrow> CTransaction \<Rightarrow> bool \<times> CCoinsView" where
  "HaveInputs view tx =
     (if \<not> IsCoinBase tx \<and> \<not> ContainsAssets tx then HaveInputs_loop view (vin tx) else (True, view))"

text \<open>
  What \<^verbatim>\<open>ConnectBlock\<close> does to the coins, transaction by transaction, with the undo records of all but the first;
  \<open>None\<close> also stands for the rejection \<^verbatim>\<open>bad-txns-inputs-missingorspent\<close>.
\<close>

fun ConnectBlock_coins ::
  "(COutPoint \<Rightarrow> bool) \<Rightarrow> nat \<Rightarrow> bool \<Rightarrow> CTransaction list \<Rightarrow> CCoinsView \<Rightarrow> (Coin list list \<times> CCoinsView) option" where
  "ConnectBlock_coins invalid nHeight fSkipInvalid [] view = Some ([], view)"
| "ConnectBlock_coins invalid nHeight fSkipInvalid (tx # vtx) view =
     (let (have_inputs, view') = (if IsCoinBase tx then (True, view) else HaveInputs view tx) in
      if \<not> have_inputs then None
      else case UpdateCoins invalid tx view' nHeight fSkipInvalid of
             None \<Rightarrow> None
           | Some (txundo, view'') \<Rightarrow>
               map_option (\<lambda>(vtxundo, v). (txundo # vtxundo, v)) (ConnectBlock_coins invalid nHeight fSkipInvalid vtx view''))"

definition MAX_OUTPUTS_PER_BLOCK :: nat where
  "MAX_OUTPUTS_PER_BLOCK = 2000000 div length (Serialize_CTxOut CTxOut_SetNull)"

fun AccessByTxid_loop :: "nat \<Rightarrow> CCoinsView \<Rightarrow> bytes \<Rightarrow> nat \<Rightarrow> Coin \<times> CCoinsView" where
  "AccessByTxid_loop 0 view txid n = (Coin_Clear, view)"
| "AccessByTxid_loop (Suc k) view txid n =
     (let (alternate, view') = AccessCoin view \<lparr>outpoint_hash = txid, outpoint_n = n\<rparr>
      in if \<not> IsSpent alternate then (alternate, view') else AccessByTxid_loop k view' txid (n + 1))"

definition AccessByTxid :: "CCoinsView \<Rightarrow> bytes \<Rightarrow> Coin \<times> CCoinsView" where
  "AccessByTxid view txid = AccessByTxid_loop MAX_OUTPUTS_PER_BLOCK view txid 0"

datatype DisconnectResult = DISCONNECT_OK | DISCONNECT_UNCLEAN | DISCONNECT_FAILED

definition ApplyTxInUndo :: "Coin \<Rightarrow> CCoinsView \<Rightarrow> COutPoint \<Rightarrow> (DisconnectResult \<times> CCoinsView) option" where
  "ApplyTxInUndo undo view out =
     (let (have_coin, v1) = HaveCoin view out;
          fClean = (\<not> have_coin);
          (undo', v2) =
            (if coin_nHeight undo = 0
             then let (alternate, v2) = AccessByTxid v1 (outpoint_hash out) in
               if \<not> IsSpent alternate
               then (Some (undo\<lparr>coin_nHeight := coin_nHeight alternate, fCoinBase := fCoinBase alternate,
                                 fCoinStake := fCoinStake alternate\<rparr>), v2)
               else (None, v2)
             else (Some undo, v1))
      in case undo' of
           None \<Rightarrow> Some (DISCONNECT_FAILED, v2)
         | Some c \<Rightarrow>
             map_option (\<lambda>v3. (if fClean then DISCONNECT_OK else DISCONNECT_UNCLEAN, v3)) (AddCoin v2 out c (\<not> fClean)))"

fun disconnect_outputs :: "bytes \<Rightarrow> nat \<Rightarrow> CTxOut list \<Rightarrow> CCoinsView \<Rightarrow> bool \<Rightarrow> bool \<times> CCoinsView" where
  "disconnect_outputs hash i [] view fClean = (fClean, view)"
| "disconnect_outputs hash i (o1 # os) view fClean =
     (if \<not> IsUnspendable (scriptPubKey o1)
      then let (moved, view') = SpendCoin view \<lparr>outpoint_hash = hash, outpoint_n = i\<rparr>;
               c = (case moved of None \<Rightarrow> Coin_Clear | Some c \<Rightarrow> c)
           in disconnect_outputs hash (i + 1) os view' (if o1 \<noteq> coin_out c then False else fClean)
      else disconnect_outputs hash (i + 1) os view fClean)"

text \<open>The inputs with their undo coins, the last one first.\<close>

fun restore_inputs :: "(CTxIn \<times> Coin) list \<Rightarrow> CCoinsView \<Rightarrow> bool \<Rightarrow> (DisconnectResult \<times> CCoinsView) option" where
  "restore_inputs [] view fClean = Some (if fClean then DISCONNECT_OK else DISCONNECT_UNCLEAN, view)"
| "restore_inputs ((txin, undo) # rest) view fClean =
     (case ApplyTxInUndo undo view (prevout txin) of
        None \<Rightarrow> None
      | Some (res, view') \<Rightarrow>
          if res = DISCONNECT_FAILED then Some (DISCONNECT_FAILED, view')
          else restore_inputs rest view' (fClean \<and> res \<noteq> DISCONNECT_UNCLEAN))"

text \<open>
  The coins of \<^verbatim>\<open>DisconnectBlock\<close>: transactions with their undo records, the last one first.  There is
  no record for the first transaction: \<^verbatim>\<open>blockUndo.vtxundo[i - 1]\<close> is out of range for it, should it be needed.
\<close>

fun DisconnectBlock_loop ::
  "(CTransaction \<times> Coin list option) list \<Rightarrow> CCoinsView \<Rightarrow> bool \<Rightarrow> (DisconnectResult \<times> CCoinsView) option" where
  "DisconnectBlock_loop [] view fClean = Some (if fClean then DISCONNECT_OK else DISCONNECT_UNCLEAN, view)"
| "DisconnectBlock_loop ((tx, txundo) # rest) view fClean =
     (let (fClean', view') = disconnect_outputs (CTransaction_GetHash tx) 0 (vout tx) view fClean in
      if IsCoinBase tx \<or> ContainsAssets tx then DisconnectBlock_loop rest view' fClean'
      else case txundo of
             None \<Rightarrow> None
           | Some vprevout \<Rightarrow>
               if length vprevout \<noteq> length (vin tx) then Some (DISCONNECT_FAILED, view')
               else case restore_inputs (rev (zip (vin tx) vprevout)) view' fClean' of
                      None \<Rightarrow> None
                    | Some (res, view'') \<Rightarrow>
                        if res = DISCONNECT_FAILED then Some (DISCONNECT_FAILED, view'')
                        else DisconnectBlock_loop rest view'' (res = DISCONNECT_OK))"

definition DisconnectBlock_coins ::
  "CTransaction list \<Rightarrow> Coin list list \<Rightarrow> CCoinsView \<Rightarrow> (DisconnectResult \<times> CCoinsView) option" where
  "DisconnectBlock_coins vtx vtxundo view =
     (if length vtxundo + 1 \<noteq> length vtx then Some (DISCONNECT_FAILED, view)
      else DisconnectBlock_loop (rev (zip vtx (None # map Some vtxundo))) view True)"

section \<open>The effect of transactions\<close>

text \<open>What a transaction does to the map of unspent coins.\<close>

fun add_outputs ::
  "bytes \<Rightarrow> nat \<Rightarrow> bool \<Rightarrow> bool \<Rightarrow> nat \<Rightarrow> CTxOut list \<Rightarrow> (COutPoint \<Rightarrow> Coin option) \<Rightarrow> COutPoint \<Rightarrow> Coin option" where
  "add_outputs txid h cb cs i [] u = u"
| "add_outputs txid h cb cs i (o1 # os) u =
     add_outputs txid h cb cs (i + 1) os
       (if IsUnspendable (scriptPubKey o1) then u
        else u(\<lparr>outpoint_hash = txid, outpoint_n = i\<rparr> :=
               Some \<lparr>fCoinBase = cb, fCoinStake = cs, coin_out = o1, coin_nHeight = h\<rparr>))"

definition remove_inputs :: "CTransaction \<Rightarrow> (COutPoint \<Rightarrow> Coin option) \<Rightarrow> COutPoint \<Rightarrow> Coin option" where
  "remove_inputs tx u =
     (if IsCoinBase tx \<or> ContainsAssets tx then u
      else foldl (\<lambda>u txin. u(prevout txin := None)) u (vin tx))"

definition apply_tx :: "nat \<Rightarrow> (COutPoint \<Rightarrow> Coin option) \<Rightarrow> CTransaction \<Rightarrow> COutPoint \<Rightarrow> Coin option" where
  "apply_tx h u tx =
     add_outputs (CTransaction_GetHash tx) h (IsCoinBase tx) (IsCoinStake tx) 0 (vout tx) (remove_inputs tx u)"

text \<open>
  The transaction can be connected: its inputs are distinct and unspent, its outputs have values and
  are new, and none of them is banned.
\<close>

definition tx_connectable :: "(COutPoint \<Rightarrow> bool) \<Rightarrow> bool \<Rightarrow> (COutPoint \<Rightarrow> Coin option) \<Rightarrow> CTransaction \<Rightarrow> bool" where
  "tx_connectable invalid fSkipInvalid u tx =
     ((IsCoinBase tx \<or> ContainsAssets tx \<or>
       distinct (map prevout (vin tx)) \<and> list_all (\<lambda>txin. u (prevout txin) \<noteq> None) (vin tx)) \<and>
      list_all (\<lambda>o1. nValue o1 \<ge> 0) (vout tx) \<and>
      list_all (\<lambda>i. let p = \<lparr>outpoint_hash = CTransaction_GetHash tx, outpoint_n = i\<rparr>
                    in remove_inputs tx u p = None \<and> \<not> (fSkipInvalid \<and> invalid p)) [0..<length (vout tx)])"

fun block_connectable ::
  "(COutPoint \<Rightarrow> bool) \<Rightarrow> bool \<Rightarrow> nat \<Rightarrow> (COutPoint \<Rightarrow> Coin option) \<Rightarrow> CTransaction list \<Rightarrow> bool" where
  "block_connectable invalid fSkipInvalid h u [] = True"
| "block_connectable invalid fSkipInvalid h u (tx # vtx) =
     (tx_connectable invalid fSkipInvalid u tx \<and> block_connectable invalid fSkipInvalid h (apply_tx h u tx) vtx)"

lemma utxo_unspent: "utxo v p = Some c \<Longrightarrow> \<not> IsSpent c"
  by (induction v) (auto simp: unspent_def bind_eq_Some_conv split: option.splits if_splits)

lemma unspent_eq_Some: "unspent c = Some d \<longleftrightarrow> c = d \<and> \<not> IsSpent d"
  by (auto simp: unspent_def)

subsection \<open>Outputs\<close>

lemma IsSpent_new: "nValue o1 \<ge> 0 \<Longrightarrow> \<not> IsSpent \<lparr>fCoinBase = cb, fCoinStake = cs, coin_out = o1, coin_nHeight = h\<rparr>"
  by (simp add: IsSpent_def CTxOut_IsNull_def)

lemma AddCoins_loop_ok:
  "view_ok v \<Longrightarrow> is_cache v \<Longrightarrow> list_all (\<lambda>o1. nValue o1 \<ge> 0) os \<Longrightarrow>
   (\<And>j. j < length os \<Longrightarrow> utxo v \<lparr>outpoint_hash = txid, outpoint_n = i + j\<rparr> = None \<and>
      \<not> (skip \<and> invalid \<lparr>outpoint_hash = txid, outpoint_n = i + j\<rparr>)) \<Longrightarrow>
   \<exists>v'. AddCoins_loop invalid txid h cb cs False skip i os v = Some v' \<and>
     coins_step v v' (add_outputs txid h cb cs i os (utxo v)) \<and> is_cache v'"
proof (induction os arbitrary: i v)
  case Nil
  then show ?case using coins_step_same [of v v] by simp
next
  case (Cons o1 os)
  let ?p = "\<lparr>outpoint_hash = txid, outpoint_n = i\<rparr>"
  let ?c = "\<lparr>fCoinBase = cb, fCoinStake = cs, coin_out = o1, coin_nHeight = h\<rparr>"
  let ?u = "if IsUnspendable (scriptPubKey o1) then utxo v else (utxo v)(?p := Some ?c)"
  have new: "utxo v ?p = None" "\<not> (skip \<and> invalid ?p)" and c: "\<not> IsSpent ?c"
    using Cons.prems(4) [of 0] Cons.prems(3) by (simp_all add: IsSpent_new)
  obtain v1 where v1: "AddCoin v ?p ?c False = Some v1" "coins_step v v1 ?u" "is_cache v1"
  proof (cases "IsUnspendable (scriptPubKey o1)")
    case True
    then show thesis
      using that AddCoin_unspendable [of ?c v ?p False] c Cons.prems(1,2) coins_step_same [of v v] by simp
  next
    case False
    then show thesis
      using that AddCoin_ok [OF Cons.prems(1,2) c, of False ?p] new(1) by auto
  qed
  have "\<exists>v'. AddCoins_loop invalid txid h cb cs False skip (i + 1) os v1 = Some v' \<and>
      coins_step v1 v' (add_outputs txid h cb cs (i + 1) os (utxo v1)) \<and> is_cache v'"
    using Cons.prems(3,4) coins_stepD [OF v1(2)] v1(3) by (intro Cons.IH) (fastforce dest: Cons.prems(4) [of "Suc _"])+
  then show ?case
    using new(2) v1(1) coins_stepD(2) [OF v1(2)] coins_step_trans [OF v1(2)] by (auto simp: Let_def)
qed

lemma add_outputs_other:
  "(\<And>j. i \<le> j \<Longrightarrow> p \<noteq> \<lparr>outpoint_hash = txid, outpoint_n = j\<rparr>) \<Longrightarrow>
   add_outputs txid h cb cs i os (u(p := x)) = (add_outputs txid h cb cs i os u)(p := x)"
proof (induction os arbitrary: i u)
  case (Cons o1 os)
  have "p \<noteq> \<lparr>outpoint_hash = txid, outpoint_n = i\<rparr>"
    using Cons.prems by blast
  then have t: "u(p := x, \<lparr>outpoint_hash = txid, outpoint_n = i\<rparr> := y) = u(\<lparr>outpoint_hash = txid, outpoint_n = i\<rparr> := y, p := x)" for y
    by (rule fun_upd_twist)
  have IH: "add_outputs txid h cb cs (Suc i) os (w(p := x)) = (add_outputs txid h cb cs (Suc i) os w)(p := x)" for w
    by (rule Cons.IH) (use Cons.prems in auto)
  show ?case
    by (simp only: add_outputs.simps if_distrib [of "\<lambda>w. w(p := x)", symmetric] t IH Suc_eq_plus1 [symmetric] split: if_split)
qed simp

lemma disconnect_outputs_ok:
  "view_ok v \<Longrightarrow> is_cache v \<Longrightarrow> utxo v = add_outputs txid h cb cs i os u \<Longrightarrow> list_all (\<lambda>o1. nValue o1 \<ge> 0) os \<Longrightarrow>
   (\<And>j. j < length os \<Longrightarrow> u \<lparr>outpoint_hash = txid, outpoint_n = i + j\<rparr> = None) \<Longrightarrow>
   \<exists>v'. disconnect_outputs txid i os v b = (b, v') \<and> coins_step v v' u \<and> is_cache v'"
proof (induction os arbitrary: i v u)
  case Nil
  then show ?case using coins_step_same [of v v] by simp
next
  case (Cons o1 os)
  let ?p = "\<lparr>outpoint_hash = txid, outpoint_n = i\<rparr>"
  let ?c = "\<lparr>fCoinBase = cb, fCoinStake = cs, coin_out = o1, coin_nHeight = h\<rparr>"
  have rest: "u \<lparr>outpoint_hash = txid, outpoint_n = i + 1 + j\<rparr> = None" if "j < length os" for j
    using Cons.prems(5) [of "Suc j"] that by simp
  show ?case
  proof (cases "IsUnspendable (scriptPubKey o1)")
    case True
    then show ?thesis
      using Cons.IH [OF Cons.prems(1,2), of "i + 1" u] Cons.prems(3,4) rest by simp
  next
    case False
    have oth: "add_outputs txid h cb cs (i + 1) os (u(?p := x)) = (add_outputs txid h cb cs (i + 1) os u)(?p := x)" for x
      by (rule add_outputs_other) auto
    have u: "utxo v = (add_outputs txid h cb cs (i + 1) os u)(?p := Some ?c)"
      using Cons.prems(3) False oth by (simp del: fun_upd_apply)
    have "u(?p := None) = u"
      using Cons.prems(5) [of 0] by (simp add: fun_upd_idem)
    then have un: "(utxo v)(?p := None) = add_outputs txid h cb cs (i + 1) os u"
      using u oth [of None] by (simp del: fun_upd_apply)
    obtain m v1 where m: "SpendCoin v ?p = (m, v1)"
      by (cases "SpendCoin v ?p")
    then have s: "coins_step v v1 ((utxo v)(?p := None))" "is_cache v1" "Option.bind m unspent = Some ?c"
      using SpendCoin_ok [OF Cons.prems(1,2), of ?p] u by auto
    have "m = Some ?c"
      using s(3) by (auto simp: bind_eq_Some_conv unspent_eq_Some)
    moreover obtain v2 where "disconnect_outputs txid (i + 1) os v1 b = (b, v2)" "coins_step v1 v2 u" "is_cache v2"
      using Cons.IH [OF coins_stepD(1) [OF s(1)] s(2), of "i + 1" u] coins_stepD(2) [OF s(1)] un Cons.prems(4) rest by auto
    ultimately show ?thesis
      using m False coins_step_trans [OF s(1)] by auto
  qed
qed

subsection \<open>Inputs\<close>

lemma foldl_remove: "foldl (\<lambda>u txin. u(prevout txin := None)) u ins = (\<lambda>p. if p \<in> prevout ` set ins then None else u p)"
  by (induction ins arbitrary: u) (auto simp: fun_eq_iff)

lemma spend_inputs_ok:
  "view_ok v \<Longrightarrow> is_cache v \<Longrightarrow> distinct (map prevout ins) \<Longrightarrow> list_all (\<lambda>txin. utxo v (prevout txin) \<noteq> None) ins \<Longrightarrow>
   \<exists>cs v'. spend_inputs v ins = (cs, v') \<and> coins_step v v' (foldl (\<lambda>u txin. u(prevout txin := None)) (utxo v) ins) \<and>
     is_cache v' \<and> map Some cs = map (\<lambda>txin. utxo v (prevout txin)) ins"
proof (induction ins arbitrary: v)
  case Nil
  then show ?case using coins_step_same [of v v] by simp
next
  case (Cons txin ins)
  obtain m v1 where m: "SpendCoin v (prevout txin) = (m, v1)"
    by (cases "SpendCoin v (prevout txin)")
  then have s: "coins_step v v1 ((utxo v)(prevout txin := None))" "is_cache v1"
      "Option.bind m unspent = utxo v (prevout txin)"
    using SpendCoin_ok [OF Cons.prems(1,2), of "prevout txin"] by auto
  obtain c where c: "utxo v (prevout txin) = Some c" "m = Some c"
    using s(3) Cons.prems(4) by (auto simp: bind_eq_Some_conv unspent_eq_Some)
  have u: "utxo v1 (prevout t) = utxo v (prevout t)" if "t \<in> set ins" for t
    using coins_stepD(2) [OF s(1)] Cons.prems(3) imageI [OF that, of prevout] by auto
  then have l: "list_all (\<lambda>txin. utxo v1 (prevout txin) \<noteq> None) ins" and d: "distinct (map prevout ins)"
    using Cons.prems(3,4) by (auto simp: list_all_iff)
  obtain cs v2 where r: "spend_inputs v1 ins = (cs, v2)" "is_cache v2"
      "coins_step v1 v2 (foldl (\<lambda>u txin. u(prevout txin := None)) (utxo v1) ins)"
      "map Some cs = map (\<lambda>txin. utxo v1 (prevout txin)) ins"
    using Cons.IH [OF coins_stepD(1) [OF s(1)] s(2) d l] by blast
  have "map Some cs = map (\<lambda>txin. utxo v (prevout txin)) ins"
    using r(4) u by simp
  then show ?case
    using m c r(1,2) coins_step_trans [OF s(1) r(3)] coins_stepD(2) [OF s(1)] by (simp del: fun_upd_apply)
qed

lemma HaveCoin_ok:
  assumes "view_ok v" "is_cache v"
  shows "fst (HaveCoin v p) \<longleftrightarrow> utxo v p \<noteq> None" "coins_step v (snd (HaveCoin v p)) (utxo v)" "is_cache (snd (HaveCoin v p))"
proof -
  obtain c b where v: "v = CacheView c b"
    using assms(2) by (auto simp: is_cache_iff)
  note h = HaveCoin_cache [OF assms(1) [unfolded v], of p]
  show "fst (HaveCoin v p) \<longleftrightarrow> utxo v p \<noteq> None" "coins_step v (snd (HaveCoin v p)) (utxo v)"
    using h v by (auto intro: coins_step_same)
  show "is_cache (snd (HaveCoin v p))"
    using v by (auto simp: FetchCoin_def Let_def split: option.splits prod.splits)
qed

lemma HaveInputs_loop_ok:
  "view_ok v \<Longrightarrow> is_cache v \<Longrightarrow> list_all (\<lambda>txin. utxo v (prevout txin) \<noteq> None) ins \<Longrightarrow>
   \<exists>v'. HaveInputs_loop v ins = (True, v') \<and> coins_step v v' (utxo v) \<and> is_cache v'"
proof (induction ins arbitrary: v)
  case Nil
  then show ?case using coins_step_same [of v v] by simp
next
  case (Cons txin ins)
  let ?v = "snd (HaveCoin v (prevout txin))"
  note h = HaveCoin_ok [OF Cons.prems(1,2), of "prevout txin"]
  have "\<exists>v'. HaveInputs_loop ?v ins = (True, v') \<and> coins_step ?v v' (utxo ?v) \<and> is_cache v'"
    using Cons.prems(3) coins_stepD [OF h(2)] h(3) by (intro Cons.IH) auto
  then show ?case
    using h Cons.prems(3) coins_step_trans [OF h(2)] coins_stepD(2) [OF h(2)]
    by (auto simp: case_prod_unfold)
qed

definition restorable :: "Coin \<Rightarrow> bool" where
  "restorable c = (coin_nHeight c \<noteq> 0 \<and> \<not> IsUnspendable (scriptPubKey (coin_out c)))"

lemma ApplyTxInUndo_ok:
  assumes "view_ok v" "is_cache v" "utxo v p = None" "\<not> IsSpent c" "restorable c"
  shows "\<exists>v'. ApplyTxInUndo c v p = Some (DISCONNECT_OK, v') \<and> coins_step v v' ((utxo v)(p := Some c)) \<and> is_cache v'"
proof -
  note h = HaveCoin_ok [OF assms(1,2), of p]
  let ?v = "snd (HaveCoin v p)"
  have n: "\<not> fst (HaveCoin v p)" "utxo ?v p = None" "utxo ?v = utxo v"
    using h(1) assms(3) coins_stepD(2) [OF h(2)] by auto
  obtain v' where "AddCoin ?v p c False = Some v'" "coins_step ?v v' ((utxo ?v)(p := Some c))" "is_cache v'"
    using AddCoin_ok [OF coins_stepD(1) [OF h(2)] h(3) assms(4), of False p] assms(5) n(2) by (auto simp: restorable_def)
  then show ?thesis
    using n assms(5) coins_step_trans [OF h(2)] by (auto simp: ApplyTxInUndo_def restorable_def case_prod_unfold Let_def)
qed

lemma restore_inputs_ok:
  "view_ok v \<Longrightarrow> is_cache v \<Longrightarrow> distinct (map (prevout \<circ> fst) l) \<Longrightarrow>
   list_all (\<lambda>(txin, c). utxo v (prevout txin) = None \<and> \<not> IsSpent c \<and> restorable c) l \<Longrightarrow>
   \<exists>v'. restore_inputs l v True = Some (DISCONNECT_OK, v') \<and> is_cache v' \<and>
     coins_step v v' (foldl (\<lambda>u (txin, c). u(prevout txin := Some c)) (utxo v) l)"
proof (induction l arbitrary: v)
  case Nil
  then show ?case using coins_step_same [of v v] by simp
next
  case (Cons tc l)
  obtain txin c where tc: "tc = (txin, c)"
    by (cases tc)
  obtain v1 where v1: "ApplyTxInUndo c v (prevout txin) = Some (DISCONNECT_OK, v1)" "is_cache v1"
      "coins_step v v1 ((utxo v)(prevout txin := Some c))"
    using ApplyTxInUndo_ok [OF Cons.prems(1,2), of "prevout txin" c] Cons.prems(4) tc by auto
  have "prevout txin \<notin> (\<lambda>a. prevout (fst a)) ` set l" and d: "distinct (map (prevout \<circ> fst) l)"
    using Cons.prems(3) tc by (simp_all add: comp_def)
  then have "prevout (fst t) \<noteq> prevout txin" if "t \<in> set l" for t
    using that by (metis imageI)
  then have l: "list_all (\<lambda>(txin, c). utxo v1 (prevout txin) = None \<and> \<not> IsSpent c \<and> restorable c) l"
    using Cons.prems(4) coins_stepD(2) [OF v1(3)] by (auto simp: list_all_iff)
  obtain v2 where "restore_inputs l v1 True = Some (DISCONNECT_OK, v2)" "is_cache v2"
      "coins_step v1 v2 (foldl (\<lambda>u (txin, c). u(prevout txin := Some c)) (utxo v1) l)"
    using Cons.IH [OF coins_stepD(1) [OF v1(3)] v1(2) d l] by blast
  then show ?case
    using v1(1) tc coins_stepD(2) [OF v1(3)] coins_step_trans [OF v1(3)] by (simp del: fun_upd_apply)
qed

lemma foldl_restore:
  "list_all (\<lambda>(txin, c). u (prevout txin) = Some c) l \<Longrightarrow>
   foldl (\<lambda>u (txin, c). u(prevout txin := Some c)) m l = (\<lambda>p. if p \<in> prevout ` fst ` set l then u p else m p)"
  by (induction l arbitrary: m) (auto simp: fun_eq_iff)

subsection \<open>Connecting and disconnecting\<close>

definition undo_of :: "(COutPoint \<Rightarrow> Coin option) \<Rightarrow> CTransaction \<Rightarrow> Coin list \<Rightarrow> bool" where
  "undo_of u tx undo \<longleftrightarrow> IsCoinBase tx \<or> ContainsAssets tx \<or> map Some undo = map (\<lambda>txin. u (prevout txin)) (vin tx)"

lemma tx_connectable_outputs:
  assumes "tx_connectable invalid skip u tx" "j < length (vout tx)"
  shows "remove_inputs tx u \<lparr>outpoint_hash = CTransaction_GetHash tx, outpoint_n = 0 + j\<rparr> = None"
    "\<not> (skip \<and> invalid \<lparr>outpoint_hash = CTransaction_GetHash tx, outpoint_n = 0 + j\<rparr>)"
  using assms by (auto simp: tx_connectable_def list_all_iff Let_def)

lemma UpdateCoins_ok:
  assumes ok: "view_ok v" "is_cache v" and c: "tx_connectable invalid skip (utxo v) tx"
  shows "\<exists>undo v'. UpdateCoins invalid tx v h skip = Some (undo, v') \<and> coins_step v v' (apply_tx h (utxo v) tx) \<and>
    is_cache v' \<and> undo_of (utxo v) tx undo"
proof -
  obtain undo v1 where v1: "(if \<not> IsCoinBase tx \<and> \<not> ContainsAssets tx then spend_inputs v (vin tx) else ([], v)) = (undo, v1)"
      "coins_step v v1 (remove_inputs tx (utxo v))" "is_cache v1" "undo_of (utxo v) tx undo"
  proof (cases "IsCoinBase tx \<or> ContainsAssets tx")
    case True
    then show thesis
      using that [of "[]" v] ok coins_step_same [of v v] by (auto simp: remove_inputs_def undo_of_def)
  next
    case False
    then have "distinct (map prevout (vin tx))" "list_all (\<lambda>txin. utxo v (prevout txin) \<noteq> None) (vin tx)"
      using c by (auto simp: tx_connectable_def)
    from spend_inputs_ok [OF ok this] obtain cs v1 where "spend_inputs v (vin tx) = (cs, v1)"
        "coins_step v v1 (foldl (\<lambda>u txin. u(prevout txin := None)) (utxo v) (vin tx))" "is_cache v1"
        "map Some cs = map (\<lambda>txin. utxo v (prevout txin)) (vin tx)"
      by blast
    then show thesis
      using that [of cs v1] False by (simp add: remove_inputs_def undo_of_def del: fun_upd_apply)
  qed
  have vo: "list_all (\<lambda>o1. nValue o1 \<ge> 0) (vout tx)"
    using c by (simp add: tx_connectable_def)
  have "\<exists>v'. AddCoins_loop invalid (CTransaction_GetHash tx) h (IsCoinBase tx) (IsCoinStake tx) False skip 0 (vout tx) v1 = Some v' \<and>
      coins_step v1 v' (add_outputs (CTransaction_GetHash tx) h (IsCoinBase tx) (IsCoinStake tx) 0 (vout tx) (utxo v1)) \<and> is_cache v'"
    using tx_connectable_outputs [OF c] coins_stepD(2) [OF v1(2)]
    by (intro AddCoins_loop_ok [OF coins_stepD(1) [OF v1(2)] v1(3) vo]) simp
  then show ?thesis
    using v1(1,4) coins_stepD(2) [OF v1(2)] coins_step_trans [OF v1(2)]
    by (auto simp: UpdateCoins_def AddCoins_def apply_tx_def)
qed

lemma HaveInputs_ok:
  assumes "view_ok v" "is_cache v" "tx_connectable invalid skip (utxo v) tx"
  shows "\<exists>v'. (if IsCoinBase tx then (True, v) else HaveInputs v tx) = (True, v') \<and> coins_step v v' (utxo v) \<and> is_cache v'"
  using assms HaveInputs_loop_ok [OF assms(1,2), of "vin tx"] coins_step_same [of v v]
  by (auto simp: HaveInputs_def tx_connectable_def)

lemma restore_tx_ok:
  assumes ok: "view_ok v" "is_cache v" "utxo v = remove_inputs tx u" and c: "tx_connectable invalid skip u tx"
    and n: "\<not> IsCoinBase tx" "\<not> ContainsAssets tx" and un: "undo_of u tx undo"
    and good: "\<forall>p c. u p = Some c \<longrightarrow> \<not> IsSpent c \<and> restorable c"
  shows "\<exists>v'. restore_inputs (rev (zip (vin tx) undo)) v True = Some (DISCONNECT_OK, v') \<and> coins_step v v' u \<and> is_cache v'"
proof -
  have d: "distinct (map prevout (vin tx))" and m: "map Some undo = map (\<lambda>txin. u (prevout txin)) (vin tx)"
    using c un n by (auto simp: tx_connectable_def undo_of_def)
  have len: "length undo = length (vin tx)"
    using arg_cong [OF m, of length] by simp
  have v: "utxo v = (\<lambda>p. if p \<in> prevout ` set (vin tx) then None else u p)"
    using ok(3) n by (simp add: remove_inputs_def foldl_remove)
  let ?l = "rev (zip (vin tx) undo)"
  have el: "u (prevout txin) = Some cc" if "(txin, cc) \<in> set ?l" for txin cc
  proof -
    have "(txin, cc) \<in> set (zip (vin tx) undo)"
      using that by simp
    then obtain i where "i < length undo" "txin = vin tx ! i" "cc = undo ! i"
      by (auto simp: in_set_zip)
    then show ?thesis
      using arg_cong [OF m, of "\<lambda>l. l ! i"] len by simp
  qed
  have dl: "distinct (map (prevout \<circ> fst) ?l)"
    using d len by (simp add: rev_map [symmetric] map_map [symmetric] del: map_map)
  have "list_all (\<lambda>(txin, cc). utxo v (prevout txin) = None \<and> \<not> IsSpent cc \<and> restorable cc) ?l"
    using el good v by (auto simp: list_all_iff dest: set_zip_leftD)
  from restore_inputs_ok [OF ok(1,2) dl this] obtain v' where
      r: "restore_inputs ?l v True = Some (DISCONNECT_OK, v')" "is_cache v'"
      "coins_step v v' (foldl (\<lambda>u (txin, c). u(prevout txin := Some c)) (utxo v) ?l)"
    by blast
  have "foldl (\<lambda>u (txin, c). u(prevout txin := Some c)) (utxo v) ?l = (\<lambda>p. if p \<in> prevout ` fst ` set ?l then u p else utxo v p)"
    using el by (intro foldl_restore) (auto simp: list_all_iff)
  also have "fst ` set ?l = set (vin tx)"
    using len by (metis map_fst_zip set_map set_rev)
  also have "(\<lambda>p. if p \<in> prevout ` set (vin tx) then u p else utxo v p) = u"
    by (simp add: v fun_eq_iff)
  finally have e: "foldl (\<lambda>u (txin, c). u(prevout txin := Some c)) (utxo v) ?l = u" .
  show ?thesis
    using r(1,2) r(3) [unfolded e] by blast
qed

lemma disconnect_tx_ok:
  assumes ok: "view_ok v" "is_cache v" "utxo v = apply_tx h u tx" and c: "tx_connectable invalid skip u tx"
    and un: "undo_of u tx undo" "txundo = Some undo \<or> IsCoinBase tx \<or> ContainsAssets tx"
    and good: "\<forall>p c. u p = Some c \<longrightarrow> \<not> IsSpent c \<and> restorable c"
  shows "\<exists>v'. DisconnectBlock_loop ((tx, txundo) # rest) v True = DisconnectBlock_loop rest v' True \<and>
    coins_step v v' u \<and> is_cache v'"
proof -
  have vo: "list_all (\<lambda>o1. nValue o1 \<ge> 0) (vout tx)"
    using c by (simp add: tx_connectable_def)
  obtain v1 where v1: "disconnect_outputs (CTransaction_GetHash tx) 0 (vout tx) v True = (True, v1)"
      "coins_step v v1 (remove_inputs tx u)" "is_cache v1"
    using disconnect_outputs_ok [OF ok(1,2) ok(3) [unfolded apply_tx_def] vo tx_connectable_outputs(1) [OF c], of True]
    by auto
  show ?thesis
  proof (cases "IsCoinBase tx \<or> ContainsAssets tx")
    case True
    then show ?thesis
      using v1 by (auto simp: remove_inputs_def)
  next
    case False
    obtain v2 where v2: "restore_inputs (rev (zip (vin tx) undo)) v1 True = Some (DISCONNECT_OK, v2)"
        "coins_step v1 v2 u" "is_cache v2"
      using restore_tx_ok [OF coins_stepD(1) [OF v1(2)] v1(3) coins_stepD(2) [OF v1(2)] c _ _ un(1) good] False by blast
    have "length undo = length (vin tx)"
      using un(1) False by (auto simp: undo_of_def dest: map_eq_imp_length_eq)
    then show ?thesis
      using v1(1) v2 False un(2) coins_step_trans [OF v1(2)] by auto
  qed
qed

lemma DisconnectBlock_loop_append:
  "DisconnectBlock_loop xs v b = Some (DISCONNECT_OK, v') \<Longrightarrow>
   DisconnectBlock_loop (xs @ ys) v b = DisconnectBlock_loop ys v' True"
proof (induction xs arbitrary: v b)
  case Nil
  then show ?case by (simp split: if_splits)
next
  case (Cons x xs)
  obtain tx txundo where x: "x = (tx, txundo)"
    by (cases x)
  obtain fc v1 where d: "disconnect_outputs (CTransaction_GetHash tx) 0 (vout tx) v b = (fc, v1)"
    by (cases "disconnect_outputs (CTransaction_GetHash tx) 0 (vout tx) v b")
  show ?case
  proof (cases "IsCoinBase tx \<or> ContainsAssets tx")
    case True
    then show ?thesis
      using Cons.prems Cons.IH x d by simp
  next
    case False
    then obtain undo where u: "txundo = Some undo" "length undo = length (vin tx)"
      using Cons.prems x d by (auto split: option.splits if_splits)
    obtain r v2 where r: "restore_inputs (rev (zip (vin tx) undo)) v1 fc = Some (r, v2)"
      using Cons.prems x d u False by (auto split: option.splits)
    then show ?thesis
      using Cons.prems Cons.IH [of v2 "r = DISCONNECT_OK"] x d u False by (simp split: if_splits)
  qed
qed

lemma restorable_apply_tx:
  assumes "h \<noteq> 0" "\<forall>p c. u p = Some c \<longrightarrow> \<not> IsSpent c \<and> restorable c" "tx_connectable invalid skip u tx"
  shows "\<forall>p c. apply_tx h u tx p = Some c \<longrightarrow> \<not> IsSpent c \<and> restorable c"
proof -
  have rem: "\<forall>p c. remove_inputs tx u p = Some c \<longrightarrow> \<not> IsSpent c \<and> restorable c"
    using assms(2) by (auto simp: remove_inputs_def foldl_remove)
  have add: "\<forall>p c. add_outputs txid h cb cs i os w p = Some c \<longrightarrow> \<not> IsSpent c \<and> restorable c"
    if "\<forall>p c. w p = Some c \<longrightarrow> \<not> IsSpent c \<and> restorable c" "list_all (\<lambda>o1. nValue o1 \<ge> 0) os" for txid cb cs i os w
    using that
  proof (induction os arbitrary: i w)
    case (Cons o1 os)
    have "\<forall>p c. (if IsUnspendable (scriptPubKey o1) then w
          else w(\<lparr>outpoint_hash = txid, outpoint_n = i\<rparr> :=
             Some \<lparr>fCoinBase = cb, fCoinStake = cs, coin_out = o1, coin_nHeight = h\<rparr>)) p = Some c \<longrightarrow> \<not> IsSpent c \<and> restorable c"
      using Cons.prems assms(1) by (auto simp: restorable_def IsSpent_new split: if_splits)
    moreover have "list_all (\<lambda>o1. nValue o1 \<ge> 0) os"
      using Cons.prems(2) by simp
    ultimately show ?case
      unfolding add_outputs.simps by (rule Cons.IH)
  qed simp
  show ?thesis
    unfolding apply_tx_def using rem assms(3) by (intro add) (simp_all add: tx_connectable_def)
qed

lemma connect_disconnect:
  "view_ok v \<Longrightarrow> is_cache v \<Longrightarrow> h \<noteq> 0 \<Longrightarrow> block_connectable invalid skip h (utxo v) vtx \<Longrightarrow>
   \<forall>p c. utxo v p = Some c \<longrightarrow> restorable c \<Longrightarrow>
   \<exists>undos v'. ConnectBlock_coins invalid h skip vtx v = Some (undos, v') \<and> length undos = length vtx \<and>
     coins_step v v' (foldl (apply_tx h) (utxo v) vtx) \<and> is_cache v' \<and>
     (\<forall>w l. view_ok w \<longrightarrow> is_cache w \<longrightarrow> utxo w = utxo v' \<longrightarrow>
        length l = length vtx \<longrightarrow>
        (\<forall>i<length vtx. l ! i = Some (undos ! i) \<or> IsCoinBase (vtx ! i) \<or> ContainsAssets (vtx ! i)) \<longrightarrow>
        (\<exists>w'. DisconnectBlock_loop (rev (zip vtx l)) w True = Some (DISCONNECT_OK, w') \<and>
          coins_step w w' (utxo v) \<and> is_cache w'))"
proof (induction vtx arbitrary: v)
  case Nil
  then show ?case
    by (auto simp: coins_step_def)
next
  case (Cons tx vtx)
  have c: "tx_connectable invalid skip (utxo v) tx" "block_connectable invalid skip h (apply_tx h (utxo v) tx) vtx"
    using Cons.prems(4) by simp_all
  have good: "\<forall>p c. utxo v p = Some c \<longrightarrow> \<not> IsSpent c \<and> restorable c"
    using Cons.prems(5) utxo_unspent by blast
  obtain v0 where v0: "(if IsCoinBase tx then (True, v) else HaveInputs v tx) = (True, v0)" "coins_step v v0 (utxo v)" "is_cache v0"
    using HaveInputs_ok [OF Cons.prems(1,2) c(1)] by blast
  have c0: "tx_connectable invalid skip (utxo v0) tx"
    using c(1) coins_stepD(2) [OF v0(2)] by simp
  obtain undo v1 where v1: "UpdateCoins invalid tx v0 h skip = Some (undo, v1)" "coins_step v0 v1 (apply_tx h (utxo v0) tx)"
      "is_cache v1" "undo_of (utxo v0) tx undo"
    using UpdateCoins_ok [OF coins_stepD(1) [OF v0(2)] v0(3) c0] by blast
  have u1: "utxo v1 = apply_tx h (utxo v) tx" "view_ok v1" "undo_of (utxo v) tx undo"
    using coins_stepD [OF v1(2)] coins_stepD(2) [OF v0(2)] v1(4) by simp_all
  have "block_connectable invalid skip h (utxo v1) vtx" "\<forall>p c. utxo v1 p = Some c \<longrightarrow> restorable c"
    using c(2) u1(1) restorable_apply_tx [OF Cons.prems(3) good c(1)] by simp_all
  from Cons.IH [OF u1(2) v1(3) Cons.prems(3) this] obtain undos v' where
    r: "ConnectBlock_coins invalid h skip vtx v1 = Some (undos, v')" "length undos = length vtx"
      "coins_step v1 v' (foldl (apply_tx h) (utxo v1) vtx)" "is_cache v'"
    and dis: "\<And>w l. view_ok w \<Longrightarrow> is_cache w \<Longrightarrow> utxo w = utxo v' \<Longrightarrow> length l = length vtx \<Longrightarrow>
        \<forall>i<length vtx. l ! i = Some (undos ! i) \<or> IsCoinBase (vtx ! i) \<or> ContainsAssets (vtx ! i) \<Longrightarrow>
        \<exists>w'. DisconnectBlock_loop (rev (zip vtx l)) w True = Some (DISCONNECT_OK, w') \<and> coins_step w w' (utxo v1) \<and> is_cache w'"
    by blast
  have "\<exists>w'. DisconnectBlock_loop (rev (zip (tx # vtx) l)) w True = Some (DISCONNECT_OK, w') \<and> coins_step w w' (utxo v) \<and> is_cache w'"
    if w: "view_ok w" "is_cache w" "utxo w = utxo v'" "length l = length (tx # vtx)"
      "\<forall>i<length (tx # vtx). l ! i = Some ((undo # undos) ! i) \<or> IsCoinBase ((tx # vtx) ! i) \<or> ContainsAssets ((tx # vtx) ! i)" for w l
  proof -
    obtain x l' where l: "l = x # l'"
      using w(4) by (cases l) auto
    have x: "x = Some undo \<or> IsCoinBase tx \<or> ContainsAssets tx" and
      l': "\<forall>i<length vtx. l' ! i = Some (undos ! i) \<or> IsCoinBase (vtx ! i) \<or> ContainsAssets (vtx ! i)"
      using w(5) l by force+
    obtain w1 where w1: "DisconnectBlock_loop (rev (zip vtx l')) w True = Some (DISCONNECT_OK, w1)"
        "coins_step w w1 (utxo v1)" "is_cache w1"
      using dis [OF w(1,2,3) _ l'] w(4) l by auto
    obtain w2 where w2: "DisconnectBlock_loop ((tx, x) # []) w1 True = DisconnectBlock_loop [] w2 True"
        "coins_step w1 w2 (utxo v)" "is_cache w2"
      using disconnect_tx_ok [OF coins_stepD(1) [OF w1(2)] w1(3) _ c(1) u1(3) x good, of h "[]"]
        coins_stepD(2) [OF w1(2)] u1(1) by auto
    have "DisconnectBlock_loop (rev (zip (tx # vtx) l)) w True = Some (DISCONNECT_OK, w2)"
      using DisconnectBlock_loop_append [OF w1(1), of "[(tx, x)]"] w2(1) l by (simp del: DisconnectBlock_loop.simps(2))
    then show ?thesis
      using w2 coins_step_trans [OF w1(2)] by blast
  qed
  moreover have "coins_step v v' (foldl (apply_tx h) (utxo v) (tx # vtx))"
    using coins_step_trans [OF coins_step_trans [OF v0(2) v1(2)] r(3)] u1(1) by simp
  ultimately show ?case
    using v0(1) v1(1) r by (intro exI [of _ "undo # undos"] exI [of _ v']) auto
qed

section \<open>Checking the inputs of a transaction\<close>

fun shielded_spends_ok :: "SpendDescription list \<Rightarrow> CCoinsView \<Rightarrow> bool \<times> CCoinsView" where
  "shielded_spends_ok [] view = (True, view)"
| "shielded_spends_ok (spendDescription # rest) view =
     (let (spent, v1) = GetNullifier view (sd_nullifier spendDescription) in
      if spent then (False, v1)
      else let (tree, v2) = GetSaplingAnchorAt v1 (sd_anchor spendDescription) in
        if tree = None then (False, v2) else shielded_spends_ok rest v2)"

definition HaveShieldedRequirements :: "CCoinsView \<Rightarrow> CTransaction \<Rightarrow> bool \<times> CCoinsView" where
  "HaveShieldedRequirements view tx =
     (case sapData tx of
        Some d \<Rightarrow> if IsShieldedTx tx then shielded_spends_ok (vShieldedSpend d) view else (True, view)
      | None \<Rightarrow> (True, view))"

text \<open>
  \<^verbatim>\<open>CheckTxInputs\<close> with the parameters \<open>nMaxMoneyOut\<close> and \<open>nCoinbaseMaturity\<close>; \<open>None\<close> is a failed assertion or
  the exception of \<^verbatim>\<open>GetValueOut\<close>.
\<close>

fun CheckTxInputs_loop ::
  "int \<Rightarrow> int \<Rightarrow> int \<Rightarrow> CTxIn list \<Rightarrow> CCoinsView \<Rightarrow> int \<Rightarrow> ((tx_error + int) \<times> CCoinsView) option" where
  "CheckTxInputs_loop maxMoney maturity nSpendHeight [] view nValueIn = Some (Inr nValueIn, view)"
| "CheckTxInputs_loop maxMoney maturity nSpendHeight (txin # rest) view nValueIn =
     (let (c, view') = AccessCoin view (prevout txin) in
      if IsSpent c then None
      else if (fCoinBase c \<or> fCoinStake c) \<and> nSpendHeight - int (coin_nHeight c) < maturity
      then Some (Inl (DoS 0 ''bad-txns-premature-spend-of-coinbase-coinstake''), view')
      else let nValueIn' = wrap64 (nValueIn + nValue (coin_out c)) in
        if \<not> MoneyRange maxMoney (nValue (coin_out c)) \<or> \<not> MoneyRange maxMoney nValueIn'
        then Some (Inl (DoS 100 ''bad-txns-inputvalues-outofrange''), view')
        else CheckTxInputs_loop maxMoney maturity nSpendHeight rest view' nValueIn')"

definition CheckTxInputs_fee :: "int \<Rightarrow> CTransaction \<Rightarrow> int \<Rightarrow> (tx_error + unit) option" where
  "CheckTxInputs_fee maxMoney tx nValueIn =
     (if IsCoinStake tx then Some (Inr ())
      else case GetValueOut tx of
             None \<Rightarrow> None
           | Some nValueOut \<Rightarrow>
               Some (if nValueIn < nValueOut then Inl (DoS 100 ''bad-txns-in-belowout'')
                     else let nTxFee = wrap64 (nValueIn - nValueOut) in
                       if nTxFee < 0 then Inl (DoS 100 ''bad-txns-fee-negative'')
                       else if \<not> MoneyRange maxMoney nTxFee then Inl (DoS 100 ''bad-txns-fee-outofrange'')
                       else Inr ()))"

definition CheckTxInputs ::
  "int \<Rightarrow> int \<Rightarrow> CTransaction \<Rightarrow> CCoinsView \<Rightarrow> int \<Rightarrow> ((tx_error + unit) \<times> CCoinsView) option" where
  "CheckTxInputs maxMoney maturity tx inputs nSpendHeight =
     (let (have_inputs, v1) = HaveInputs inputs tx in
      if \<not> have_inputs then Some (Inl (DoS 0 ''Inputs unavailable''), v1)
      else let (shielded, v2) = HaveShieldedRequirements v1 tx in
        if \<not> shielded then Some (Inl (DoS 0 ''Sapling requirements not met''), v2)
        else case CheckTxInputs_loop maxMoney maturity nSpendHeight (vin tx) v2 0 of
               None \<Rightarrow> None
             | Some (Inl e, v3) \<Rightarrow> Some (Inl e, v3)
             | Some (Inr nValueIn, v3) \<Rightarrow> map_option (\<lambda>r. (r, v3)) (CheckTxInputs_fee maxMoney tx nValueIn))"

lemma GetNullifier_ok:
  "view_ok v \<Longrightarrow> view_ok (snd (GetNullifier v nf)) \<and> same_view (snd (GetNullifier v nf)) v \<and>
   fst (GetNullifier v nf) = nullifiers v nf"
proof (induction v)
  case (CacheView c b)
  show ?case
  proof (cases "map_of (cacheSaplingNullifiers c) nf")
    case None
    obtain t b' where g: "GetNullifier b nf = (t, b')"
      by (cases "GetNullifier b nf")
    then have b: "view_ok b'" "same_view b' b" "t = nullifiers b nf"
      using CacheView by auto
    have "nullifiers_ok (AList.update nf \<lparr>nf_entered = t, nf_DIRTY = False\<rparr> (cacheSaplingNullifiers c)) (nullifiers b')"
      using CacheView.prems b by (intro synced_update) (auto simp: same_view_def)
    moreover have "same_view (CacheView (c\<lparr>cacheSaplingNullifiers :=
        AList.update nf \<lparr>nf_entered = t, nf_DIRTY = False\<rparr> (cacheSaplingNullifiers c)\<rparr>) b') (CacheView c b)"
      using b None by (auto simp: same_view_def fun_eq_iff update_conv' split: option.splits)
    ultimately show ?thesis
      using None g b cache_same_base(2) [OF b(2,1) CacheView.prems] by simp
  qed (use CacheView.prems in simp)
qed simp

lemma GetSaplingAnchorAt_ok:
  "view_ok v \<Longrightarrow> view_ok (snd (GetSaplingAnchorAt v rt)) \<and> same_view (snd (GetSaplingAnchorAt v rt)) v \<and>
   (rt \<noteq> empty_root \<longrightarrow> (fst (GetSaplingAnchorAt v rt) \<noteq> None) = anchors v rt)"
proof (induction v)
  case (CacheView c b)
  show ?case
  proof (cases "map_of (cacheSaplingAnchors c) rt")
    case n: None
    obtain t b' where g: "GetSaplingAnchorAt b rt = (t, b')"
      by (cases "GetSaplingAnchorAt b rt")
    then have b: "view_ok b'" "same_view b' b" "rt \<noteq> empty_root \<longrightarrow> (t \<noteq> None) = anchors b rt"
      using CacheView by auto
    note same = cache_same_base(1) [OF b(2,1) CacheView.prems] and ok = cache_same_base(2) [OF b(2,1) CacheView.prems]
    show ?thesis
    proof (cases t)
      case None
      then show ?thesis using n g same ok b by simp
    next
      case (Some tree)
      let ?e = "\<lparr>anchor_entered = True, anchor_tree = tree, anchor_DIRTY = False\<rparr>"
      have "anchors_ok (AList.update rt ?e (cacheSaplingAnchors c)) (anchors b')"
        using ok b Some by (auto simp: synced_def distinct_update update_conv' same_view_def)
      moreover have "same_view (CacheView (c\<lparr>cacheSaplingAnchors := AList.update rt ?e (cacheSaplingAnchors c)\<rparr>) b') (CacheView c b)"
        using same n b Some by (auto simp: same_view_def fun_eq_iff update_conv' split: option.splits)
      ultimately show ?thesis
        using n g ok b Some by simp
    qed
  qed (use CacheView.prems in auto)
qed auto

definition value_in :: "(COutPoint \<Rightarrow> Coin option) \<Rightarrow> CTxIn list \<Rightarrow> int" where
  "value_in u ins = sum_list (map (\<lambda>txin. case u (prevout txin) of Some c \<Rightarrow> nValue (coin_out c) | None \<Rightarrow> 0) ins)"

text \<open>The coin may be spent at this height.\<close>

definition input_ok :: "int \<Rightarrow> int \<Rightarrow> int \<Rightarrow> (COutPoint \<Rightarrow> Coin option) \<Rightarrow> CTxIn \<Rightarrow> bool" where
  "input_ok maxMoney maturity nSpendHeight u txin =
     (case u (prevout txin) of
        None \<Rightarrow> False
      | Some c \<Rightarrow> MoneyRange maxMoney (nValue (coin_out c)) \<and>
          (fCoinBase c \<or> fCoinStake c \<longrightarrow> nSpendHeight \<ge> int (coin_nHeight c) + maturity))"

lemma CheckTxInputs_loop_sound:
  assumes max: "2 * maxMoney < 2 ^ 63"
  shows "view_ok v \<Longrightarrow> 0 \<le> acc \<Longrightarrow> acc \<le> maxMoney \<Longrightarrow>
    CheckTxInputs_loop maxMoney maturity nSpendHeight ins v acc = Some (Inr nValueIn, v') \<Longrightarrow>
    list_all (input_ok maxMoney maturity nSpendHeight (utxo v)) ins \<and> nValueIn = acc + value_in (utxo v) ins \<and>
    MoneyRange maxMoney nValueIn \<and> view_ok v' \<and> same_view v' v"
proof (induction ins arbitrary: v acc)
  case Nil
  then show ?case by (auto simp: value_in_def MoneyRange_def)
next
  case (Cons txin ins)
  obtain c v1 where a: "AccessCoin v (prevout txin) = (c, v1)"
    by (cases "AccessCoin v (prevout txin)")
  then have c: "unspent c = utxo v (prevout txin)" "view_ok v1" "same_view v1 v"
    using AccessCoin_ok [OF Cons.prems(1), of "prevout txin"] by auto
  let ?acc = "wrap64 (acc + nValue (coin_out c))"
  have n: "\<not> IsSpent c" "\<not> ((fCoinBase c \<or> fCoinStake c) \<and> nSpendHeight - int (coin_nHeight c) < maturity)"
      "MoneyRange maxMoney (nValue (coin_out c))" "MoneyRange maxMoney ?acc"
      "CheckTxInputs_loop maxMoney maturity nSpendHeight ins v1 ?acc = Some (Inr nValueIn, v')"
    using Cons.prems(4) a by (auto simp: Let_def split: if_splits)
  have w: "?acc = acc + nValue (coin_out c)"
    using n(3) Cons.prems(2,3) max by (intro wrap64_id) (auto simp: MoneyRange_def)
  have "utxo v (prevout txin) = Some c"
    using c(1) n(1) by simp
  moreover have "utxo v1 = utxo v"
    using c(3) by (simp add: same_view_def)
  ultimately show ?case
    using Cons.IH [OF c(2) _ _ n(5)] n(2,3,4) w c(3) by (auto simp: MoneyRange_def input_ok_def value_in_def same_view_def)
qed

lemma shielded_spends_view:
  "view_ok v \<Longrightarrow> view_ok (snd (shielded_spends_ok ds v)) \<and> same_view (snd (shielded_spends_ok ds v)) v"
proof (induction ds arbitrary: v)
  case (Cons d ds)
  let ?v1 = "snd (GetNullifier v (sd_nullifier d))"
  let ?v2 = "snd (GetSaplingAnchorAt ?v1 (sd_anchor d))"
  have 1: "view_ok ?v1" "same_view ?v1 v"
    using GetNullifier_ok [OF Cons.prems] by auto
  have 2: "view_ok ?v2" "same_view ?v2 v"
    using GetSaplingAnchorAt_ok [OF 1(1), of "sd_anchor d"] 1(2) by (auto simp: same_view_def)
  show ?case
    using 1 2 Cons.IH [OF 2(1)] by (auto simp: case_prod_unfold Let_def same_view_def)
qed simp

lemma HaveInputs_view:
  assumes "view_ok v" "is_cache v"
  shows "view_ok (snd (HaveInputs v tx)) \<and> same_view (snd (HaveInputs v tx)) v"
proof -
  have "view_ok (snd (HaveInputs_loop w ins)) \<and> same_view (snd (HaveInputs_loop w ins)) w"
    if "view_ok w" "is_cache w" for w ins
    using that
  proof (induction ins arbitrary: w)
    case (Cons txin ins)
    let ?w = "snd (HaveCoin w (prevout txin))"
    obtain c b where w: "w = CacheView c b"
      using Cons.prems(2) by (auto simp: is_cache_iff)
    have h: "view_ok ?w" "same_view ?w w" "is_cache ?w"
      using HaveCoin_cache [of c b "prevout txin"] HaveCoin_ok(3) [OF Cons.prems] Cons.prems(1) w by auto
    show ?case
      using h Cons.IH [OF h(1,3)] by (auto simp: case_prod_unfold Let_def same_view_def)
  qed simp
  then show ?thesis
    using assms by (auto simp: HaveInputs_def)
qed

lemma wrap64_lower: "- 9223372036854775808 \<le> wrap64 v"
proof -
  have "0 \<le> v mod 18446744073709551616"
    by simp
  then show ?thesis
    unfolding wrap64_def to_signed_def to_unsigned_def by (simp split: if_split) linarith
qed

lemma GetValueOut_lower: "GetValueOut tx = Some v \<Longrightarrow> - (2 ^ 63) \<le> v"
proof -
  have "- (2 ^ 63) \<le> r" if "GetValueOut_loop os a = Some r" "- (2 ^ 63) \<le> a" for os a r
    using that by (induction os arbitrary: a) (auto simp: wrap64_lower split: if_splits)
  then show "GetValueOut tx = Some v \<Longrightarrow> - (2 ^ 63) \<le> v"
    by (auto simp: GetValueOut_def wrap64_lower split: option.splits if_splits)
qed

lemma wrap64_nonneg: "0 \<le> x \<Longrightarrow> x < 2 ^ 64 \<Longrightarrow> 0 \<le> wrap64 x \<Longrightarrow> wrap64 x = x"
  by (auto simp: wrap64_def to_signed_def to_unsigned_def split: if_splits)

lemma CheckTxInputs_fee_sound:
  assumes "CheckTxInputs_fee maxMoney tx nValueIn = Some (Inr ())" "MoneyRange maxMoney nValueIn" "2 * maxMoney < 2 ^ 63"
  shows "IsCoinStake tx \<or> (\<exists>nValueOut. GetValueOut tx = Some nValueOut \<and> nValueOut \<le> nValueIn \<and>
      MoneyRange maxMoney (nValueIn - nValueOut))"
proof (cases "IsCoinStake tx")
  case False
  then obtain v where v: "GetValueOut tx = Some v" "v \<le> nValueIn" "MoneyRange maxMoney (wrap64 (nValueIn - v))"
    using assms(1) by (auto simp: CheckTxInputs_fee_def Let_def split: option.splits if_splits)
  have "wrap64 (nValueIn - v) = nValueIn - v"
    using v assms(2,3) GetValueOut_lower [OF v(1)] by (intro wrap64_nonneg) (auto simp: MoneyRange_def)
  then show ?thesis
    using v by auto
qed simp

text \<open>
  C22. A transaction that \<^verbatim>\<open>CheckTxInputs\<close> accepts spends only existing, mature coins and creates no money: every input
  is an unspent coin of the view with a value in range, coinbase and coinstake outputs are at least
  \<^verbatim>\<open>nCoinbaseMaturity\<close> deep, the values add up without overflow to an amount in range, and unless it
  is a coinstake, the outputs are worth no more and the fee is in range.
\<close>

theorem CheckTxInputs_sound:
  assumes "view_ok inputs" "is_cache inputs" "2 * maxMoney < 2 ^ 63" "0 \<le> maxMoney"
    and "CheckTxInputs maxMoney maturity tx inputs nSpendHeight = Some (Inr (), v')"
  shows "list_all (input_ok maxMoney maturity nSpendHeight (utxo inputs)) (vin tx) \<and>
    MoneyRange maxMoney (value_in (utxo inputs) (vin tx)) \<and>
    (IsCoinStake tx \<or>
     (\<exists>nValueOut. GetValueOut tx = Some nValueOut \<and> nValueOut \<le> value_in (utxo inputs) (vin tx) \<and>
        MoneyRange maxMoney (value_in (utxo inputs) (vin tx) - nValueOut))) \<and>
    utxo v' = utxo inputs"
proof -
  let ?v1 = "snd (HaveInputs inputs tx)"
  let ?v2 = "snd (HaveShieldedRequirements ?v1 tx)"
  have 1: "view_ok ?v1" "same_view ?v1 inputs"
    using HaveInputs_view [OF assms(1,2)] by auto
  have 2: "view_ok ?v2" "same_view ?v2 inputs"
    using shielded_spends_view [OF 1(1)] 1
    by (auto simp: HaveShieldedRequirements_def same_view_def split: option.splits)
  obtain nValueIn where l: "CheckTxInputs_loop maxMoney maturity nSpendHeight (vin tx) ?v2 0 = Some (Inr nValueIn, v')"
      "CheckTxInputs_fee maxMoney tx nValueIn = Some (Inr ())"
    using assms(5) by (auto simp: CheckTxInputs_def case_prod_unfold Let_def split: if_splits option.splits sum.splits)
  note s = CheckTxInputs_loop_sound [OF assms(3) 2(1) order_refl assms(4) l(1)]
  have u: "utxo ?v2 = utxo inputs"
    using 2(2) by (simp add: same_view_def)
  have t: "nValueIn = value_in (utxo inputs) (vin tx)" "MoneyRange maxMoney nValueIn"
    using s u by auto
  have "IsCoinStake tx \<or> (\<exists>nValueOut. GetValueOut tx = Some nValueOut \<and> nValueOut \<le> nValueIn \<and>
      MoneyRange maxMoney (nValueIn - nValueOut))"
    using CheckTxInputs_fee_sound [OF l(2) t(2) assms(3)] .
  then show ?thesis
    using s u t by (auto simp: same_view_def)
qed

definition demo_point :: COutPoint where
  "demo_point = \<lparr>outpoint_hash = [1], outpoint_n = 0\<rparr>"

definition demo_full :: CCoinsView where
  "demo_full = CacheView \<lparr>hashBlock = [1], cacheCoins = [(demo_point, \<lparr>coin = demo_coin 5, DIRTY = True, FRESH = True\<rparr>)],
     hashSaplingAnchor = [], cacheSaplingAnchors = [], cacheSaplingNullifiers = []\<rparr> (DBView demo_db)"

definition demo_tx :: CTransaction where
  "demo_tx = \<lparr>nVersion = 1, nType = 0, vin = [\<lparr>prevout = demo_point, scriptSig = [], nSequence = 0\<rparr>],
     vout = [\<lparr>nValue = 3, scriptPubKey = [0x51], nRounds = - 10\<rparr>], nLockTime = 0, sapData = None,
     extraPayload = None, walletSenderId = []\<rparr>"

lemmas tx_kind_defs = IsCoinBase_def IsCoinStake_def ContainsAssets_def HasAssetsMintOutputs_def HasAssetsSpendInputs_def
  HasAssetsDposMintOutputs_def IsMultiMiningMint_def IsAssetDposMint_def CTxIn_IsMultiMiningSpend_def
  IsPayAssetScriptHash_def IsPayAssetDposScript_def IsMultiMiningSpend_def COutPoint_IsNull_def uint256_IsNull_def
  CTxOut_IsEmpty_def StartsWithOpcode_def

lemma demo_CheckTxInputs: "CheckTxInputs 100 10 demo_tx demo_full 20 = Some (Inr (), demo_full)"
proof -
  have k: "\<not> IsCoinBase demo_tx" "\<not> ContainsAssets demo_tx" "\<not> IsCoinStake demo_tx"
    by (simp_all add: tx_kind_defs demo_tx_def demo_point_def)
  have f: "HaveCoin demo_full demo_point = (True, demo_full)" "AccessCoin demo_full demo_point = (demo_coin 5, demo_full)"
    by (simp_all add: demo_full_def FetchCoin_def AccessCoin_def)
  have w: "wrap64 5 = 5" "wrap64 3 = 3" "wrap64 2 = 2"
    by (simp_all add: wrap64_id)
  have g: "GetValueOut demo_tx = Some 3"
    by (simp add: GetValueOut_def demo_tx_def w)
  have v: "nValue (coin_out (demo_coin 5)) = 5" "\<not> fCoinBase (demo_coin 5)" "\<not> fCoinStake (demo_coin 5)"
      "vin demo_tx = [\<lparr>prevout = demo_point, scriptSig = [], nSequence = 0\<rparr>]" "sapData demo_tx = None"
    by (simp_all add: demo_coin_def demo_tx_def)
  show ?thesis
    using k f g v w
    by (simp add: CheckTxInputs_def HaveInputs_def HaveShieldedRequirements_def CheckTxInputs_fee_def MoneyRange_def Let_def)
qed

theorem CheckTxInputs_sound_witness:
  "list_all (input_ok 100 10 20 (utxo demo_full)) (vin demo_tx) \<and> MoneyRange 100 (value_in (utxo demo_full) (vin demo_tx)) \<and>
   (IsCoinStake demo_tx \<or>
     (\<exists>nValueOut. GetValueOut demo_tx = Some nValueOut \<and> nValueOut \<le> value_in (utxo demo_full) (vin demo_tx)))"
proof -
  have "view_ok demo_full" "is_cache demo_full"
    by (simp_all add: demo_full_def demo_db_def coins_ok_def synced_def)
  from CheckTxInputs_sound [OF this _ _ demo_CheckTxInputs] show ?thesis
    by auto
qed

text \<open>
  C21. Disconnecting a block undoes connecting it: for a block whose transactions spend distinct unspent
  coins, whose outputs are new and not banned, connecting succeeds and applies the transactions to the
  unspent coins one after the other; disconnecting it with the undo records that connecting produced
  reports \<^verbatim>\<open>DISCONNECT_OK\<close> and restores the unspent coins.  Neither touches the nullifiers.
\<close>

theorem disconnect_undoes_connect:
  assumes "view_ok v" "is_cache v" "nHeight \<noteq> 0" "vtx \<noteq> []" "IsCoinBase (hd vtx) \<or> ContainsAssets (hd vtx)"
    and "block_connectable invalid fSkipInvalid nHeight (utxo v) vtx"
    and "\<forall>p c. utxo v p = Some c \<longrightarrow> restorable c"
  shows "\<exists>undos v' v''. ConnectBlock_coins invalid nHeight fSkipInvalid vtx v = Some (undos, v') \<and>
    view_ok v' \<and> utxo v' = foldl (apply_tx nHeight) (utxo v) vtx \<and> nullifiers v' = nullifiers v \<and>
    DisconnectBlock_coins vtx (tl undos) v' = Some (DISCONNECT_OK, v'') \<and>
    view_ok v'' \<and> utxo v'' = utxo v \<and> nullifiers v'' = nullifiers v"
proof -
  from connect_disconnect [OF assms(1,2,3,6,7)] obtain undos v' where
    c: "ConnectBlock_coins invalid nHeight fSkipInvalid vtx v = Some (undos, v')" "length undos = length vtx"
      "coins_step v v' (foldl (apply_tx nHeight) (utxo v) vtx)" "is_cache v'"
    and d: "\<And>w l. view_ok w \<Longrightarrow> is_cache w \<Longrightarrow> utxo w = utxo v' \<Longrightarrow> length l = length vtx \<Longrightarrow>
        \<forall>i<length vtx. l ! i = Some (undos ! i) \<or> IsCoinBase (vtx ! i) \<or> ContainsAssets (vtx ! i) \<Longrightarrow>
        \<exists>w'. DisconnectBlock_loop (rev (zip vtx l)) w True = Some (DISCONNECT_OK, w') \<and> coins_step w w' (utxo v) \<and> is_cache w'"
    by blast
  let ?l = "None # map Some (tl undos)"
  have len: "length ?l = length vtx" "length (tl undos) + 1 = length vtx"
    using c(2) assms(4) by (cases vtx; cases undos; simp)+
  have "?l ! i = Some (undos ! i) \<or> IsCoinBase (vtx ! i) \<or> ContainsAssets (vtx ! i)" if "i < length vtx" for i
    using that c(2) assms(4,5) by (cases i) (auto simp: hd_conv_nth nth_tl)
  then obtain w' where w': "DisconnectBlock_loop (rev (zip vtx ?l)) v' True = Some (DISCONNECT_OK, w')" "coins_step v' w' (utxo v)"
    using d [OF coins_stepD(1) [OF c(3)] c(4) refl len(1)] by blast
  show ?thesis
    using c(1,3) w' len(2) by (auto simp: DisconnectBlock_coins_def coins_step_def)
qed

text \<open>A block of a coinbase and a transaction that spends it.\<close>

definition demo_coinbase :: CTransaction where
  "demo_coinbase = \<lparr>nVersion = 1, nType = 0,
     vin = [\<lparr>prevout = \<lparr>outpoint_hash = [0], outpoint_n = uint32_max\<rparr>, scriptSig = [0x51], nSequence = 0\<rparr>],
     vout = [\<lparr>nValue = 5, scriptPubKey = [0x51], nRounds = - 10\<rparr>], nLockTime = 0, sapData = None,
     extraPayload = None, walletSenderId = []\<rparr>"

definition demo_spend :: CTransaction where
  "demo_spend = demo_coinbase
     \<lparr>vin := [\<lparr>prevout = \<lparr>outpoint_hash = CTransaction_GetHash demo_coinbase, outpoint_n = 0\<rparr>, scriptSig = [], nSequence = 0\<rparr>]\<rparr>"

theorem disconnect_undoes_connect_witness:
  "\<exists>undos v' v''. ConnectBlock_coins (\<lambda>_. False) 1 True [demo_coinbase, demo_spend] demo_cache = Some (undos, v') \<and>
     DisconnectBlock_coins [demo_coinbase, demo_spend] (tl undos) v' = Some (DISCONNECT_OK, v'') \<and> utxo v'' = (\<lambda>_. None)"
proof -
  have k: "IsCoinBase demo_coinbase" "\<not> IsCoinBase demo_spend" "\<not> ContainsAssets demo_spend"
    by (simp_all add: tx_kind_defs demo_coinbase_def demo_spend_def)
  have u: "\<not> IsUnspendable [0x51]"
    by (simp add: IsUnspendable_def MAX_SCRIPT_SIZE_def)
  have o: "vout demo_coinbase = [\<lparr>nValue = 5, scriptPubKey = [0x51], nRounds = - 10\<rparr>]" "vout demo_spend = vout demo_coinbase"
      "vin demo_spend = [\<lparr>prevout = \<lparr>outpoint_hash = CTransaction_GetHash demo_coinbase, outpoint_n = 0\<rparr>, scriptSig = [], nSequence = 0\<rparr>]"
    by (simp_all add: demo_coinbase_def demo_spend_def)
  have "block_connectable (\<lambda>_. False) True 1 (utxo demo_cache) [demo_coinbase, demo_spend]"
    using k u o by (simp add: demo_cache_ok(4) tx_connectable_def apply_tx_def remove_inputs_def Let_def)
  then show ?thesis
    using disconnect_undoes_connect [OF demo_cache_ok(1,3), of 1 "[demo_coinbase, demo_spend]" "\<lambda>_. False" True] k(1)
    by (auto simp: demo_cache_ok(4))
qed

end
