(* ===== verification/Compressor.thy ===== *)
theory Compressor
  imports Coins_Blocks Script_Standard
begin

text \<open>
  The compact format of unspent coins and of undo records: \<^verbatim>\<open>CScriptCompressor\<close> and \<^verbatim>\<open>CTxOutCompressor\<close> of
  \<^verbatim>\<open>src/compressor.h\<close> and \<^verbatim>\<open>src/compressor.cpp\<close>, the serialisation of \<^verbatim>\<open>Coin\<close> of \<^verbatim>\<open>src/coins.h\<close> and the undo records of
  \<^verbatim>\<open>src/undo.h\<close>.  Parsing and decompressing a public key is done by libsecp256k1: \<open>IsFullyValid\<close> and \<open>pubkey_Decompress\<close>
  are arguments.
\<close>

section \<open>Scripts\<close>

definition nSpecialScripts :: nat where "nSpecialScripts = 6"

definition IsToKeyID :: "bytes \<Rightarrow> bytes option" where
  "IsToKeyID script =
     (if length script = 25 \<and> script ! 0 = OP_DUP \<and> script ! 1 = OP_HASH160 \<and> script ! 2 = 20 \<and>
         script ! 23 = OP_EQUALVERIFY \<and> script ! 24 = OP_CHECKSIG
      then Some (take 20 (drop 3 script)) else None)"

definition IsToScriptID :: "bytes \<Rightarrow> bytes option" where
  "IsToScriptID script =
     (if length script = 23 \<and> script ! 0 = OP_HASH160 \<and> script ! 1 = 20 \<and> script ! 22 = OP_EQUAL
      then Some (take 20 (drop 2 script)) else None)"

definition IsToPubKey :: "(bytes \<Rightarrow> bool) \<Rightarrow> bytes \<Rightarrow> bytes option" where
  "IsToPubKey IsFullyValid script =
     (if length script = 35 \<and> script ! 0 = 33 \<and> script ! 34 = OP_CHECKSIG \<and> (script ! 1 = 0x02 \<or> script ! 1 = 0x03)
      then Some (take 33 (drop 1 script))
      else if length script = 67 \<and> script ! 0 = 65 \<and> script ! 66 = OP_CHECKSIG \<and> script ! 1 = 0x04
      then let pubkey = take 65 (drop 1 script) in if IsFullyValid pubkey then Some pubkey else None
      else None)"

definition Compress :: "(bytes \<Rightarrow> bool) \<Rightarrow> bytes \<Rightarrow> bytes option" where
  "Compress IsFullyValid script =
     (case IsToKeyID script of
        Some keyID \<Rightarrow> Some (0x00 # keyID)
      | None \<Rightarrow>
          (case IsToScriptID script of
             Some scriptID \<Rightarrow> Some (0x01 # scriptID)
           | None \<Rightarrow>
               (case IsToPubKey IsFullyValid script of
                  None \<Rightarrow> None
                | Some pubkey \<Rightarrow>
                    let x = take 32 (drop 1 pubkey) in
                    if pubkey ! 0 = 0x02 \<or> pubkey ! 0 = 0x03 then Some (pubkey ! 0 # x)
                    else if pubkey ! 0 = 0x04 then Some ((0x04 OR (pubkey ! 64 AND 0x01)) # x)
                    else None)))"

definition GetSpecialSize :: "nat \<Rightarrow> nat" where
  "GetSpecialSize nSize =
     (if nSize = 0 \<or> nSize = 1 then 20
      else if nSize = 2 \<or> nSize = 3 \<or> nSize = 4 \<or> nSize = 5 then 32 else 0)"

text \<open>\<open>None\<close> is the result false, which leaves the script as it was.\<close>

definition Decompress :: "(bytes \<Rightarrow> bytes option) \<Rightarrow> nat \<Rightarrow> bytes \<Rightarrow> bytes option" where
  "Decompress pubkey_Decompress nSize inp =
     (if nSize = 0 then Some ([OP_DUP, OP_HASH160, 20] @ take 20 inp @ [OP_EQUALVERIFY, OP_CHECKSIG])
      else if nSize = 1 then Some ([OP_HASH160, 20] @ take 20 inp @ [OP_EQUAL])
      else if nSize = 2 \<or> nSize = 3 then Some ([33, of_nat nSize] @ take 32 inp @ [OP_CHECKSIG])
      else if nSize = 4 \<or> nSize = 5
      then map_option (\<lambda>pubkey. [65] @ take 65 pubkey @ [OP_CHECKSIG]) (pubkey_Decompress (of_nat (nSize - 2) # take 32 inp))
      else None)"

definition Serialize_CScriptCompressor :: "(bytes \<Rightarrow> bool) \<Rightarrow> bytes \<Rightarrow> bytes" where
  "Serialize_CScriptCompressor IsFullyValid script =
     (case Compress IsFullyValid script of
        Some compr \<Rightarrow> compr
      | None \<Rightarrow> WriteVarInt ((length script + nSpecialScripts) mod 2 ^ 32) @ script)"

text \<open>Into an empty script, as the coins and undo records do.\<close>

definition Unserialize_CScriptCompressor :: "(bytes \<Rightarrow> bytes option) \<Rightarrow> bytes \<Rightarrow> (bytes \<times> bytes) option" where
  "Unserialize_CScriptCompressor pubkey_Decompress s = do {
     (nSize, s') \<leftarrow> ReadVarInt 32 s;
     if nSize < nSpecialScripts
     then do {
       (vch, s'') \<leftarrow> stream_read (GetSpecialSize nSize) s';
       Some (case Decompress pubkey_Decompress nSize vch of Some script \<Rightarrow> script | None \<Rightarrow> [], s'')
     }
     else do {
       (script, s'') \<leftarrow> stream_read (nSize - nSpecialScripts) s';
       Some (if nSize - nSpecialScripts > MAX_SCRIPT_SIZE then [OP_RETURN] else script, s'')
     }
   }"

section \<open>Amounts\<close>

text \<open>Amounts are 64-bit; the loop takes out at most nine factors of ten.\<close>

function compress_loop :: "nat \<Rightarrow> nat \<Rightarrow> nat \<times> nat" where
  "compress_loop n e = (if n mod 10 = 0 \<and> e < 9 then compress_loop (n div 10) (e + 1) else (n, e))"
  by pat_completeness auto
termination
  by (relation "measure (\<lambda>(n, e). 9 - e)") auto

declare compress_loop.simps [simp del]

definition CompressAmount :: "nat \<Rightarrow> nat option" where
  "CompressAmount n =
     (if n = 0 then Some 0
      else let (n', e) = compress_loop n 0 in
        if e < 9
        then let d = n' mod 10 in
          if 1 \<le> d \<and> d \<le> 9 then Some ((1 + (n' div 10 * 9 + d - 1) * 10 + e) mod 2 ^ 64) else None
        else Some ((1 + (n' - 1) * 10 + 9) mod 2 ^ 64))"

fun decompress_loop :: "nat \<Rightarrow> nat \<Rightarrow> nat" where
  "decompress_loop n 0 = n"
| "decompress_loop n (Suc e) = decompress_loop ((n * 10) mod 2 ^ 64) e"

definition DecompressAmount :: "nat \<Rightarrow> nat" where
  "DecompressAmount x =
     (if x = 0 then 0
      else let x1 = x - 1; e = x1 mod 10; x2 = x1 div 10;
               n = (if e < 9 then (x2 div 9 * 10 + (x2 mod 9 + 1)) mod 2 ^ 64 else (x2 + 1) mod 2 ^ 64)
           in decompress_loop n e)"

section \<open>Coins and undo records\<close>

definition Serialize_CTxOutCompressor :: "(bytes \<Rightarrow> bool) \<Rightarrow> CTxOut \<Rightarrow> bytes option" where
  "Serialize_CTxOutCompressor IsFullyValid txout =
     map_option (\<lambda>nVal. WriteVarInt nVal @ Serialize_CScriptCompressor IsFullyValid (scriptPubKey txout))
       (CompressAmount (to_unsigned 64 (nValue txout)))"

definition Unserialize_CTxOutCompressor :: "(bytes \<Rightarrow> bytes option) \<Rightarrow> bytes \<Rightarrow> (CTxOut \<times> bytes) option" where
  "Unserialize_CTxOutCompressor pubkey_Decompress s = do {
     (nVal, s') \<leftarrow> ReadVarInt 64 s;
     (script, s'') \<leftarrow> Unserialize_CScriptCompressor pubkey_Decompress s';
     Some (CTxOut_SetNull\<lparr>nValue := to_signed 64 (DecompressAmount nVal), scriptPubKey := script\<rparr>, s'')
   }"

definition coin_code :: "Coin \<Rightarrow> nat" where
  "coin_code c = (coin_nHeight c * 4 + (if fCoinBase c then 2 else 0) + (if fCoinStake c then 1 else 0)) mod 2 ^ 32"

definition coin_of_code :: "nat \<Rightarrow> CTxOut \<Rightarrow> Coin" where
  "coin_of_code code out =
     \<lparr>fCoinBase = (code div 2 mod 2 = 1), fCoinStake = (code mod 2 = 1), coin_out = out, coin_nHeight = code div 4\<rparr>"

definition Serialize_Coin :: "(bytes \<Rightarrow> bool) \<Rightarrow> Coin \<Rightarrow> bytes option" where
  "Serialize_Coin IsFullyValid c =
     (if IsSpent c then None
      else map_option (\<lambda>out. WriteVarInt (coin_code c) @ out) (Serialize_CTxOutCompressor IsFullyValid (coin_out c)))"

definition Unserialize_Coin :: "(bytes \<Rightarrow> bytes option) \<Rightarrow> bytes \<Rightarrow> (Coin \<times> bytes) option" where
  "Unserialize_Coin pubkey_Decompress s = do {
     (code, s') \<leftarrow> ReadVarInt 32 s;
     (out, s'') \<leftarrow> Unserialize_CTxOutCompressor pubkey_Decompress s';
     Some (coin_of_code code out, s'')
   }"

definition TxInUndoSerializer :: "(bytes \<Rightarrow> bool) \<Rightarrow> Coin \<Rightarrow> bytes option" where
  "TxInUndoSerializer IsFullyValid c =
     map_option (\<lambda>out. WriteVarInt (coin_code c) @ (if coin_nHeight c > 0 then ser_writedata8 0 else []) @ out)
       (Serialize_CTxOutCompressor IsFullyValid (coin_out c))"

definition TxInUndoDeserializer :: "(bytes \<Rightarrow> bytes option) \<Rightarrow> bytes \<Rightarrow> (Coin \<times> bytes) option" where
  "TxInUndoDeserializer pubkey_Decompress s = do {
     (nCode, s1) \<leftarrow> ReadVarInt 32 s;
     (nVersionDummy, s2) \<leftarrow> (if nCode div 4 > 0 then ReadVarInt 32 s1 else Some (0, s1));
     (out, s3) \<leftarrow> Unserialize_CTxOutCompressor pubkey_Decompress s2;
     Some (coin_of_code nCode out, s3)
   }"

definition MAX_INPUTS_PER_BLOCK :: nat where
  "MAX_INPUTS_PER_BLOCK =
     2000000 div length (Serialize_CTxIn
       \<lparr>prevout = \<lparr>outpoint_hash = replicate 32 0, outpoint_n = uint32_max\<rparr>, scriptSig = [], nSequence = uint32_max\<rparr>)"

fun Serialize_undos :: "(bytes \<Rightarrow> bool) \<Rightarrow> Coin list \<Rightarrow> bytes option" where
  "Serialize_undos IsFullyValid [] = Some []"
| "Serialize_undos IsFullyValid (c # cs) = do {
     b \<leftarrow> TxInUndoSerializer IsFullyValid c;
     rest \<leftarrow> Serialize_undos IsFullyValid cs;
     Some (b @ rest)
   }"

definition Serialize_CTxUndo :: "(bytes \<Rightarrow> bool) \<Rightarrow> Coin list \<Rightarrow> bytes option" where
  "Serialize_CTxUndo IsFullyValid vprevout =
     map_option (\<lambda>b. WriteCompactSize (length vprevout) @ b) (Serialize_undos IsFullyValid vprevout)"

definition Unserialize_CTxUndo :: "(bytes \<Rightarrow> bytes option) \<Rightarrow> bytes \<Rightarrow> (Coin list \<times> bytes) option" where
  "Unserialize_CTxUndo pubkey_Decompress s = do {
     (count, s') \<leftarrow> ReadCompactSize s;
     if count > MAX_INPUTS_PER_BLOCK then None
     else read_elements (TxInUndoDeserializer pubkey_Decompress) count s'
   }"

fun Serialize_txundos :: "(bytes \<Rightarrow> bool) \<Rightarrow> Coin list list \<Rightarrow> bytes option" where
  "Serialize_txundos IsFullyValid [] = Some []"
| "Serialize_txundos IsFullyValid (u # us) = do {
     b \<leftarrow> Serialize_CTxUndo IsFullyValid u;
     rest \<leftarrow> Serialize_txundos IsFullyValid us;
     Some (b @ rest)
   }"

definition Serialize_CBlockUndo :: "(bytes \<Rightarrow> bool) \<Rightarrow> Coin list list \<Rightarrow> bytes option" where
  "Serialize_CBlockUndo IsFullyValid vtxundo =
     map_option (\<lambda>b. WriteCompactSize (length vtxundo) @ b) (Serialize_txundos IsFullyValid vtxundo)"

definition Unserialize_CBlockUndo :: "(bytes \<Rightarrow> bytes option) \<Rightarrow> bytes \<Rightarrow> (Coin list list \<times> bytes) option" where
  "Unserialize_CBlockUndo pubkey_Decompress s = Unserialize_vector (Unserialize_CTxUndo pubkey_Decompress) s"

section \<open>Lemmas\<close>

subsection \<open>Amounts\<close>

lemma compress_loop_eq:
  "0 < n \<Longrightarrow> e \<le> 9 \<Longrightarrow> compress_loop n e = (n', e') \<Longrightarrow>
   n = n' * 10 ^ (e' - e) \<and> e \<le> e' \<and> e' \<le> 9 \<and> 0 < n' \<and> (e' < 9 \<longrightarrow> n' mod 10 \<noteq> 0)"
proof (induction n e rule: compress_loop.induct)
  case (1 n e)
  show ?case
  proof (cases "n mod 10 = 0 \<and> e < 9")
    case True
    then have d: "n = n div 10 * 10" by auto
    then have "0 < n div 10" using "1.prems"(1) by (cases "n div 10") auto
    moreover have "compress_loop (n div 10) (e + 1) = (n', e')"
      using "1.prems"(3) True by (simp add: compress_loop.simps [of n e])
    ultimately have "n div 10 = n' * 10 ^ (e' - (e + 1)) \<and> e + 1 \<le> e' \<and> e' \<le> 9 \<and> 0 < n' \<and> (e' < 9 \<longrightarrow> n' mod 10 \<noteq> 0)"
      using "1.IH" True by simp
    moreover from this have "10 ^ (e' - e) = (10 :: nat) ^ (e' - (e + 1)) * 10"
      by (metis Suc_diff_le Suc_eq_plus1 diff_Suc_Suc power_Suc2)
    ultimately show ?thesis using d by simp
  next
    case False
    then show ?thesis
      using "1.prems" by (auto simp: compress_loop.simps [of n e])
  qed
qed

lemma decompress_loop_eq: "n * 10 ^ e < 2 ^ 64 \<Longrightarrow> decompress_loop n e = n * 10 ^ e"
proof (induction n e rule: decompress_loop.induct)
  case (2 n e)
  have "n * 10 \<le> n * 10 ^ Suc e" by simp
  then have "n * 10 < 2 ^ 64" using "2.prems" by (rule le_less_trans)
  then have "(n * 10) mod 2 ^ 64 = n * 10" by simp
  then show ?case using 2 by (simp add: algebra_simps)
qed simp

lemma DecompressAmount_CompressAmount:
  assumes "n < 2 ^ 60"
  shows "\<exists>x. CompressAmount n = Some x \<and> DecompressAmount x = n \<and> x < 2 ^ 64"
proof (cases "n = 0")
  case False
  obtain n' e where l: "compress_loop n 0 = (n', e)" by fastforce
  then have n: "n = n' * 10 ^ e" "e \<le> 9" "0 < n'" "e < 9 \<longrightarrow> n' mod 10 \<noteq> 0"
    using compress_loop_eq [of n 0 n' e] False by auto
  have "n' \<le> n" unfolding n(1) by simp
  then have small: "n' < 2 ^ 60" using assms by (rule le_less_trans)
  show ?thesis
  proof (cases "e < 9")
    case True
    obtain q r where q: "n' = 10 * q + Suc r" "r < 9"
    proof
      show "n' = 10 * (n' div 10) + Suc (n' mod 10 - 1)" "n' mod 10 - 1 < 9" using n(4) True by auto
    qed
    have dm: "n' mod 10 = Suc r" "n' div 10 = q" unfolding q(1) using q(2) by simp_all
    have y: "1 + (q * 9 + r) * 10 + e < 2 ^ 64" using small q True by simp
    have m: "((q * 9 + r) * 10 + e) mod 10 = e" "((q * 9 + r) * 10 + e) div 10 = q * 9 + r"
        "(q * 9 + r) div 9 = q" "(q * 9 + r) mod 9 = r"
      using True q(2) by (simp_all only: mod_mult_self3 div_mult_self3 mod_less div_less)
    have n'': "(q * 10 + (r + 1)) mod 2 ^ 64 = n'" using q(1) small by simp
    have x: "1 + (q * 9 + r) * 10 + e - 1 = (q * 9 + r) * 10 + e" "1 + (q * 9 + r) * 10 + e \<noteq> 0" by simp_all
    have "DecompressAmount (1 + (q * 9 + r) * 10 + e) = decompress_loop n' e"
      unfolding DecompressAmount_def Let_def x(1) m n'' using True x(2) by simp
    also have "\<dots> = n" using n(1) assms by (simp add: decompress_loop_eq)
    finally have r: "DecompressAmount (1 + (q * 9 + r) * 10 + e) = n" .
    have "CompressAmount n = Some (1 + (q * 9 + r) * 10 + e)"
      using False l True y q(2) by (simp add: CompressAmount_def Let_def dm)
    then show ?thesis using r y by blast
  next
    case False
    then have e: "e = 9" using n(2) by simp
    have s: "1 + (n' - 1) * 10 + 9 = 1 + ((n' - 1) * 10 + 9)" by simp
    have "DecompressAmount (1 + (n' - 1) * 10 + 9) = decompress_loop n' 9"
      using small n(3) unfolding s by (simp add: DecompressAmount_def Let_def)
    also have "\<dots> = n" using n(1) assms e by (simp add: decompress_loop_eq)
    finally have r: "DecompressAmount (1 + (n' - 1) * 10 + 9) = n" .
    moreover have b: "1 + (n' - 1) * 10 + 9 < 2 ^ 64" using small by simp
    ultimately show ?thesis
      using \<open>n \<noteq> 0\<close> l e by (intro exI [of _ "1 + (n' - 1) * 10 + 9"]) (simp add: CompressAmount_def Let_def)
  qed
qed (simp add: CompressAmount_def DecompressAmount_def)

subsection \<open>Scripts\<close>

lemma IsToKeyID_Some:
  assumes "IsToKeyID script = Some h"
  shows "length h = 20" "script = [OP_DUP, OP_HASH160, 20] @ h @ [OP_EQUALVERIFY, OP_CHECKSIG]"
proof -
  have l: "length script = 25" and h: "h = slice 3 23 script" and b: "script ! 0 = OP_DUP" "script ! 1 = OP_HASH160" "script ! 2 = 20"
      "script ! 23 = OP_EQUALVERIFY" "script ! 24 = OP_CHECKSIG"
    using assms by (auto simp: IsToKeyID_def slice_def split: if_splits)
  show "length h = 20" using l h by (simp add: length_slice)
  have "take 3 script = [script ! 0, script ! 1, script ! 2]" "drop 23 script = [script ! 23, script ! 24]"
    using l by (simp_all add: take_list drop_list numeral_eq_Suc)
  with slice_shape [OF l, of 3 23] b h show "script = [OP_DUP, OP_HASH160, 20] @ h @ [OP_EQUALVERIFY, OP_CHECKSIG]"
    by simp
qed

lemma IsToScriptID_Some:
  assumes "IsToScriptID script = Some h"
  shows "length h = 20" "script = [OP_HASH160, 20] @ h @ [OP_EQUAL]"
proof -
  have l: "length script = 23" and h: "h = slice 2 22 script" and b: "script ! 0 = OP_HASH160" "script ! 1 = 20" "script ! 22 = OP_EQUAL"
    using assms by (auto simp: IsToScriptID_def slice_def split: if_splits)
  show "length h = 20" using l h by (simp add: length_slice)
  have "take 2 script = [script ! 0, script ! 1]" "drop 22 script = [script ! 22]"
    using l by (simp_all add: take_list drop_list numeral_eq_Suc)
  with slice_shape [OF l, of 2 22] b h show "script = [OP_HASH160, 20] @ h @ [OP_EQUAL]"
    by simp
qed

lemma IsToPubKey_Some:
  assumes "IsToPubKey fv script = Some pk"
  obtains (compressed) x where "length x = 32" "script = [33] @ pk @ [OP_CHECKSIG]" "pk = 0x02 # x \<or> pk = 0x03 # x"
  | (uncompressed) x y where "length x = 32" "length y = 32" "script = [65] @ pk @ [OP_CHECKSIG]" "pk = 0x04 # x @ y" "fv pk"
proof -
  have shape: "script = [script ! 0] @ slice 1 (n + 1) script @ [script ! (n + 1)] \<and>
      slice 1 (n + 1) script = script ! 1 # slice 2 (n + 1) script" if l: "length script = n + 2" "1 \<le> n" for n
  proof -
    have "take 1 script = [script ! 0]" "drop (n + 1) script = [script ! (n + 1)]"
      using l by (simp_all add: take_list drop_list)
    moreover have "slice 1 (n + 1) script = script ! 1 # slice 2 (n + 1) script"
      using l by (cases n) (auto simp: slice_def numeral_2_eq_2 Cons_nth_drop_Suc [symmetric])
    ultimately show ?thesis using slice_shape [OF l(1), of 1 "n + 1"] by simp
  qed
  consider "length script = 33 + 2" "script ! 0 = 33" "script ! 34 = OP_CHECKSIG" "script ! 1 = 0x02 \<or> script ! 1 = 0x03" "pk = slice 1 34 script"
    | "length script = 65 + 2" "script ! 0 = 65" "script ! 66 = OP_CHECKSIG" "script ! 1 = 0x04" "pk = slice 1 66 script" "fv pk"
    using assms by (auto simp: IsToPubKey_def slice_def Let_def split: if_splits)
  then show thesis
  proof cases
    case 1
    with shape [OF 1(1)] show thesis
      by (intro compressed [of "slice 2 34 script"]) (auto simp: length_slice)
  next
    case 2
    have "slice 2 66 script = take 32 (slice 2 66 script) @ drop 32 (slice 2 66 script)" by simp
    with 2 shape [OF 2(1)] show thesis
      by (intro uncompressed [of "take 32 (slice 2 66 script)" "drop 32 (slice 2 66 script)"]) (auto simp: length_slice)
  qed
qed

text \<open>
  What the format relies on of libsecp256k1: a valid uncompressed key is the decompression of its first coordinate and
  the parity of the second.
\<close>

definition key_compression :: "(bytes \<Rightarrow> bool) \<Rightarrow> (bytes \<Rightarrow> bytes option) \<Rightarrow> bool" where
  "key_compression IsFullyValid pubkey_Decompress \<longleftrightarrow>
     (\<forall>x y. length x = 32 \<longrightarrow> length y = 32 \<longrightarrow> IsFullyValid (0x04 # x @ y) \<longrightarrow>
        pubkey_Decompress ((if odd (last y) then 0x03 else 0x02) # x) = Some (0x04 # x @ y))"

lemma ReadVarInt_byte: "n < 128 \<Longrightarrow> ReadVarInt 32 (of_nat n # s) = Some (n, s)"
  using VarInt_read_write [of 32 n s] by (simp add: WriteVarInt_def varint_tmp.simps)

lemma odd_byte: "b AND 1 = (if odd b then 1 else 0 :: byte)"
  by (simp add: and_one_eq mod_2_eq_odd)

lemma Unserialize_special:
  assumes "n < 6" "length d = GetSpecialSize n" "Decompress dec n d = Some script" "b = of_nat n"
  shows "Unserialize_CScriptCompressor dec (b # d @ s) = Some (script, s)"
  using assms by (simp add: Unserialize_CScriptCompressor_def ReadVarInt_byte nSpecialScripts_def stream_read_append)

lemma Unserialize_CScriptCompressor_Serialize:
  assumes k: "key_compression fv dec" and l: "length script \<le> MAX_SCRIPT_SIZE"
  shows "Unserialize_CScriptCompressor dec (Serialize_CScriptCompressor fv script @ s) = Some (script, s)"
proof (cases "Compress fv script")
  case None
  have "ReadVarInt 32 (WriteVarInt (length script + 6) @ script @ s) = Some (length script + 6, script @ s)"
    using VarInt_read_write [of 32 "length script + 6" "script @ s"] l by (simp add: MAX_SCRIPT_SIZE_def)
  then show ?thesis
    using None l by (simp add: Serialize_CScriptCompressor_def Unserialize_CScriptCompressor_def nSpecialScripts_def
        MAX_SCRIPT_SIZE_def stream_read_append)
next
  case (Some compr)
  consider (key) h where "IsToKeyID script = Some h" "compr = 0 # h"
    | (sid) h where "IsToScriptID script = Some h" "compr = 1 # h"
    | (pub) pk where "IsToPubKey fv script = Some pk" "compr = (if pk ! 0 = 0x02 \<or> pk ! 0 = 0x03 then pk ! 0 else 0x04 OR (pk ! 64 AND 0x01)) # take 32 (drop 1 pk)"
    using Some by (auto simp: Compress_def Let_def split: option.splits if_splits)
  moreover have ser: "Serialize_CScriptCompressor fv script = compr"
    using Some by (simp add: Serialize_CScriptCompressor_def)
  ultimately show ?thesis
  proof cases
    case key
    have "Decompress dec 0 h = Some script" unfolding IsToKeyID_Some(2) [OF key(1)]
      using IsToKeyID_Some(1) [OF key(1)] by (simp add: Decompress_def)
    then show ?thesis unfolding ser key(2)
      using Unserialize_special [of 0 h dec script 0 s] IsToKeyID_Some(1) [OF key(1)] by (simp add: GetSpecialSize_def)
  next
    case sid
    have "Decompress dec 1 h = Some script" unfolding IsToScriptID_Some(2) [OF sid(1)]
      using IsToScriptID_Some(1) [OF sid(1)] by (simp add: Decompress_def)
    then show ?thesis unfolding ser sid(2)
      using Unserialize_special [of 1 h dec script 1 s] IsToScriptID_Some(1) [OF sid(1)] by (simp add: GetSpecialSize_def)
  next
    case pub
    from pub(1) show ?thesis
    proof (cases rule: IsToPubKey_Some)
      case (compressed x)
      have d: "Decompress dec 2 x = Some ([33] @ (2 # x) @ [OP_CHECKSIG])" "Decompress dec 3 x = Some ([33] @ (3 # x) @ [OP_CHECKSIG])"
        using compressed(1) by (simp_all add: Decompress_def)
      have "compr = 2 # x \<and> script = [33] @ (2 # x) @ [OP_CHECKSIG] \<or> compr = 3 # x \<and> script = [33] @ (3 # x) @ [OP_CHECKSIG]"
        using compressed pub(2) by auto
      then show ?thesis unfolding ser
        using Unserialize_special [OF _ _ d(1), of 2 s] Unserialize_special [OF _ _ d(2), of 3 s] compressed(1)
        by (auto simp: GetSpecialSize_def)
    next
      case (uncompressed x y)
      have "y \<noteq> []" using uncompressed(2) by auto
      then have p: "pk ! 64 = last y"
        using uncompressed(1,2,4) by (simp add: nth_append last_conv_nth)
      have d: "dec ((if odd (last y) then 0x03 else 0x02) # x) = Some pk"
        using k uncompressed by (auto simp: key_compression_def)
      have c: "compr = (if odd (last y) then 5 else 4) # x"
        using pub(2) uncompressed(1,4) unfolding p by (simp add: odd_byte)
      have "Decompress dec (if odd (last y) then 5 else 4) x = Some script"
        using d uncompressed by (auto simp: Decompress_def split: if_splits)
      then show ?thesis unfolding ser c
        using uncompressed(1) Unserialize_special [of 4 x dec script 4 s] Unserialize_special [of 5 x dec script 5 s]
        by (auto simp: GetSpecialSize_def split: if_splits)
    qed
  qed
qed

subsection \<open>Coins and undo records\<close>

definition compressible :: "CTxOut \<Rightarrow> bool" where
  "compressible out \<longleftrightarrow> 0 \<le> nValue out \<and> nValue out < 2 ^ 60 \<and> length (scriptPubKey out) \<le> MAX_SCRIPT_SIZE \<and> nRounds out = - 10"

definition Coin_ok :: "Coin \<Rightarrow> bool" where
  "Coin_ok c \<longleftrightarrow> coin_nHeight c < 2 ^ 30 \<and> compressible (coin_out c)"

lemma CTxOutCompressor_roundtrip:
  assumes "key_compression fv dec" "compressible out"
  shows "\<exists>b. Serialize_CTxOutCompressor fv out = Some b \<and> (\<forall>s. Unserialize_CTxOutCompressor dec (b @ s) = Some (out, s))"
proof -
  have u: "to_unsigned 64 (nValue out) = nat (nValue out)" and n: "nat (nValue out) < 2 ^ 60"
    using assms(2) by (simp_all add: compressible_def to_unsigned_def nat_less_iff)
  obtain x where x: "CompressAmount (nat (nValue out)) = Some x" "DecompressAmount x = nat (nValue out)" "x < 2 ^ 64"
    using DecompressAmount_CompressAmount [OF n] by blast
  have "to_signed 64 (nat (nValue out)) = nValue out"
    using n assms(2) by (simp add: to_signed_def compressible_def)
  then have "CTxOut_SetNull\<lparr>nValue := to_signed 64 (DecompressAmount x), scriptPubKey := scriptPubKey out\<rparr> = out"
    using assms(2) x(2) by (simp add: CTxOut_SetNull_def compressible_def)
  moreover have "ReadVarInt 64 (WriteVarInt x @ t) = Some (x, t)" for t
    using VarInt_read_write [of 64 x t] x(3) by simp
  ultimately show ?thesis
    using x(1) u Unserialize_CScriptCompressor_Serialize [OF assms(1), of "scriptPubKey out"] assms(2)
    by (simp add: Serialize_CTxOutCompressor_def Unserialize_CTxOutCompressor_def compressible_def)
qed

lemma coin_code_inverse:
  assumes "coin_nHeight c < 2 ^ 30"
  shows "coin_code c < 2 ^ 32" "coin_of_code (coin_code c) (coin_out c) = c" "coin_code c div 4 = coin_nHeight c"
proof -
  have e: "coin_code c = coin_nHeight c * 4 + (if fCoinBase c then 2 else 0) + (if fCoinStake c then 1 else 0)"
    using assms by (simp add: coin_code_def)
  show "coin_code c < 2 ^ 32" "coin_code c div 4 = coin_nHeight c"
    using assms unfolding e by auto
  have "coin_code c mod 2 = (if fCoinStake c then 1 else 0)" "coin_code c div 2 mod 2 = (if fCoinBase c then 1 else 0)"
    unfolding e by auto presburger+
  then show "coin_of_code (coin_code c) (coin_out c) = c"
    using \<open>coin_code c div 4 = coin_nHeight c\<close> by (simp add: coin_of_code_def)
qed

lemma Coin_roundtrip:
  assumes "key_compression fv dec" "Coin_ok c"
  shows "\<exists>b. Serialize_Coin fv c = Some b \<and> (\<forall>s. Unserialize_Coin dec (b @ s) = Some (c, s))"
proof -
  obtain b where b: "Serialize_CTxOutCompressor fv (coin_out c) = Some b"
      "\<And>s. Unserialize_CTxOutCompressor dec (b @ s) = Some (coin_out c, s)"
    using CTxOutCompressor_roundtrip [OF assms(1), of "coin_out c"] assms(2) by (auto simp: Coin_ok_def)
  have h: "coin_nHeight c < 2 ^ 30" "\<not> IsSpent c"
    using assms(2) by (auto simp: Coin_ok_def compressible_def IsSpent_def CTxOut_IsNull_def)
  have "ReadVarInt 32 (WriteVarInt (coin_code c) @ t) = Some (coin_code c, t)" for t
    using VarInt_read_write [of 32 "coin_code c" t] coin_code_inverse(1) [OF h(1)] by simp
  then show ?thesis
    using b h coin_code_inverse(2) [OF h(1)] by (simp add: Serialize_Coin_def Unserialize_Coin_def)
qed

lemma TxInUndo_roundtrip:
  assumes "key_compression fv dec" "Coin_ok c"
  shows "\<exists>b. TxInUndoSerializer fv c = Some b \<and> (\<forall>s. TxInUndoDeserializer dec (b @ s) = Some (c, s))"
proof -
  obtain b where b: "Serialize_CTxOutCompressor fv (coin_out c) = Some b"
      "\<And>s. Unserialize_CTxOutCompressor dec (b @ s) = Some (coin_out c, s)"
    using CTxOutCompressor_roundtrip [OF assms(1), of "coin_out c"] assms(2) by (auto simp: Coin_ok_def)
  have h: "coin_nHeight c < 2 ^ 30"
    using assms(2) by (simp add: Coin_ok_def)
  have "ReadVarInt 32 (WriteVarInt (coin_code c) @ t) = Some (coin_code c, t)" for t
    using VarInt_read_write [of 32 "coin_code c" t] coin_code_inverse(1) [OF h] by simp
  moreover have "ReadVarInt 32 (ser_writedata8 0 @ t) = Some (0, t)" for t
    using ReadVarInt_byte [of 0 t] by (simp add: read_defs le_encode.simps)
  ultimately show ?thesis
    using b h coin_code_inverse(2,3) [OF h] by (simp add: TxInUndoSerializer_def TxInUndoDeserializer_def)
qed

lemma Serialize_undos_roundtrip:
  assumes "key_compression fv dec"
  shows "list_all Coin_ok cs \<Longrightarrow>
    \<exists>b. Serialize_undos fv cs = Some b \<and> (\<forall>s. read_elements (TxInUndoDeserializer dec) (length cs) (b @ s) = Some (cs, s))"
proof (induction cs)
  case (Cons c cs)
  then show ?case using TxInUndo_roundtrip [OF assms, of c] by fastforce
qed simp

lemma MAX_INPUTS_PER_BLOCK_eq: "MAX_INPUTS_PER_BLOCK = 48780"
  by (simp add: MAX_INPUTS_PER_BLOCK_def Serialize_CTxIn_def Serialize_COutPoint_def Serialize_bytes_def Serialize_uint32_def
      length_WriteCompactSize GetSizeOfCompactSize_def read_defs length_le_encode)

lemma CTxUndo_roundtrip:
  assumes "key_compression fv dec" "list_all Coin_ok cs" "length cs \<le> MAX_INPUTS_PER_BLOCK"
  shows "\<exists>b. Serialize_CTxUndo fv cs = Some b \<and> (\<forall>s. Unserialize_CTxUndo dec (b @ s) = Some (cs, s))"
  using Serialize_undos_roundtrip [OF assms(1,2)] assms(3)
  by (auto simp: Serialize_CTxUndo_def Unserialize_CTxUndo_def ReadCompactSize_Write MAX_INPUTS_PER_BLOCK_eq MAX_SIZE_def)

definition CBlockUndo_ok :: "Coin list list \<Rightarrow> bool" where
  "CBlockUndo_ok us \<longleftrightarrow> list_all (\<lambda>u. list_all Coin_ok u \<and> length u \<le> MAX_INPUTS_PER_BLOCK) us \<and> length us \<le> MAX_SIZE"

lemma Serialize_txundos_roundtrip:
  assumes "key_compression fv dec"
  shows "list_all (\<lambda>u. list_all Coin_ok u \<and> length u \<le> MAX_INPUTS_PER_BLOCK) us \<Longrightarrow>
    \<exists>b. Serialize_txundos fv us = Some b \<and> (\<forall>s. read_elements (Unserialize_CTxUndo dec) (length us) (b @ s) = Some (us, s))"
proof (induction us)
  case (Cons u us)
  then show ?case using CTxUndo_roundtrip [OF assms, of u] by fastforce
qed simp

lemma CBlockUndo_roundtrip:
  assumes "key_compression fv dec" "CBlockUndo_ok us"
  shows "\<exists>b. Serialize_CBlockUndo fv us = Some b \<and> (\<forall>s. Unserialize_CBlockUndo dec (b @ s) = Some (us, s))"
  using Serialize_txundos_roundtrip [OF assms(1), of us] assms(2)
  by (auto simp: CBlockUndo_ok_def Serialize_CBlockUndo_def Unserialize_CBlockUndo_def Unserialize_vector_def ReadCompactSize_Write)

text \<open>
  C23. \<^bold>\<open>Coins and undo records are read back.\<close>  If the library decompresses a valid key to itself, a coin below height
  $2^{30}$ with an amount below $2^{60}$ and a script of at most 10000 bytes, the limit above which an output is
  unspendable, is read back from its entry in the coin database, and a block of undo records of such coins from the undo
  file; the amounts and the scripts are compressed and decompressed without loss.
\<close>

theorem coin_formats_roundtrip:
  assumes "key_compression IsFullyValid pubkey_Decompress"
  shows "(Coin_ok c \<longrightarrow> (\<exists>b. Serialize_Coin IsFullyValid c = Some b \<and> Unserialize_Coin pubkey_Decompress (b @ s) = Some (c, s))) \<and>
    (CBlockUndo_ok vtxundo \<longrightarrow>
       (\<exists>b. Serialize_CBlockUndo IsFullyValid vtxundo = Some b \<and> Unserialize_CBlockUndo pubkey_Decompress (b @ s) = Some (vtxundo, s)))"
  using Coin_roundtrip [OF assms] CBlockUndo_roundtrip [OF assms] by blast

definition demo_fully_valid :: "bytes \<Rightarrow> bool" where
  "demo_fully_valid pk \<longleftrightarrow> pk = 0x04 # replicate 64 1"

definition demo_decompress :: "bytes \<Rightarrow> bytes option" where
  "demo_decompress pk = (if pk = 0x03 # replicate 32 1 then Some (0x04 # replicate 64 1) else None)"

definition demo_key_coin :: Coin where
  "demo_key_coin = \<lparr>fCoinBase = False, fCoinStake = True,
     coin_out = \<lparr>nValue = 1200400, scriptPubKey = 65 # 0x04 # replicate 64 1 @ [OP_CHECKSIG], nRounds = - 10\<rparr>, coin_nHeight = 7\<rparr>"

lemma demo_key_compression: "key_compression demo_fully_valid demo_decompress"
proof -
  have "replicate 64 (1 :: byte) = replicate 32 1 @ replicate 32 1"
    by (simp flip: replicate_add)
  then show ?thesis
    by (auto simp: key_compression_def demo_fully_valid_def demo_decompress_def)
qed

theorem coin_formats_roundtrip_witness:
  "key_compression demo_fully_valid demo_decompress \<and> Compress demo_fully_valid (scriptPubKey (coin_out demo_key_coin)) = Some (5 # replicate 32 1) \<and>
   (\<exists>b. Serialize_Coin demo_fully_valid demo_key_coin = Some b \<and> Unserialize_Coin demo_decompress (b @ [9]) = Some (demo_key_coin, [9])) \<and>
   (\<exists>b. Serialize_CBlockUndo demo_fully_valid [[demo_key_coin]] = Some b \<and>
      Unserialize_CBlockUndo demo_decompress (b @ [9]) = Some ([[demo_key_coin]], [9]))"
proof -
  have "Coin_ok demo_key_coin"
    by (simp add: Coin_ok_def demo_key_coin_def compressible_def MAX_SCRIPT_SIZE_def)
  moreover from this have "CBlockUndo_ok [[demo_key_coin]]"
    by (simp add: CBlockUndo_ok_def MAX_INPUTS_PER_BLOCK_eq MAX_SIZE_def)
  moreover have "Compress demo_fully_valid (scriptPubKey (coin_out demo_key_coin)) = Some (5 # replicate 32 1)"
    by (simp add: demo_key_coin_def Compress_def IsToKeyID_def IsToScriptID_def IsToPubKey_def demo_fully_valid_def nth_append)
  ultimately show ?thesis
    using coin_formats_roundtrip [OF demo_key_compression, of demo_key_coin "[9]" "[[demo_key_coin]]"] demo_key_compression by blast
qed

end
