(* ===== verification/Address_Index.thy ===== *)
theory Address_Index
  imports Coins_Blocks Script_Standard
begin

text \<open>
  The address, delegation, spent, supply and identification indexes: their keys and values (\<^verbatim>\<open>src/spentindex.h\<close>), the
  operations of the block tree database on them (\<^verbatim>\<open>src/txdb.cpp\<close>), and the records that \<^verbatim>\<open>ConnectBlock\<close> and
  \<^verbatim>\<open>DisconnectBlock\<close> of \<^verbatim>\<open>src/validation.cpp\<close> make for the inputs and outputs of a transaction.  Keys have a fixed-width
  encoding, so the database is a record of maps.
\<close>

section \<open>Keys and values\<close>

datatype Base58Type = UNKNOWN_TYPE | PUBKEY_ADDRESS | SCRIPT_ADDRESS | SECRET_KEY | EXT_PUBLIC_KEY | EXT_SECRET_KEY |
  EXT_COIN_TYPE | STAKING_ADDRESS

record CAddressIndexKey =
  aik_type :: Base58Type
  aik_hashBytes :: bytes
  aik_blockHeight :: int
  aik_txindex :: nat
  aik_txhash :: bytes
  aik_index :: nat
  aik_spending :: bool
  aik_delegated :: bool

record CAddressUnspentKey =
  auk_type :: Base58Type
  auk_hashBytes :: bytes
  auk_txhash :: bytes
  auk_index :: nat

record CAddressUnspentValue =
  auv_satoshis :: int
  auv_script :: bytes
  auv_blockHeight :: int

record CAddressDelegationIndexKey =
  adk_stakerHash :: bytes
  adk_ownerHash :: bytes
  adk_blockHeight :: int
  adk_txindex :: nat
  adk_txhash :: bytes
  adk_index :: nat
  adk_spending :: bool

record CAddressDelegationUnspentKey =
  aduk_stakerHash :: bytes
  aduk_ownerHash :: bytes
  aduk_txhash :: bytes
  aduk_index :: nat

record CSpentIndexValue =
  siv_txid :: bytes
  siv_inputIndex :: nat
  siv_blockHeight :: int
  siv_satoshis :: int
  siv_addressType :: Base58Type
  siv_addressHash :: bytes

record CAddressOwnerIdentificator =
  aoi_type :: Base58Type
  aoi_hashBytes :: bytes
  aoi_blockHeight :: int

record CDiskTxPos =
  dtp_nFile :: int
  dtp_nPos :: nat
  dtp_nTxOffset :: nat

text \<open>The key of a spent output is its outpoint; identifications, which are searched in their order, are a list.\<close>

record CBlockTreeDB =
  bt_txindex :: "bytes \<Rightarrow> CDiskTxPos option"
  bt_addressIndex :: "CAddressIndexKey \<Rightarrow> int option"
  bt_addressUnspent :: "CAddressUnspentKey \<Rightarrow> CAddressUnspentValue option"
  bt_delegation :: "CAddressDelegationIndexKey \<Rightarrow> int option"
  bt_delegationUnspent :: "CAddressDelegationUnspentKey \<Rightarrow> CAddressUnspentValue option"
  bt_spent :: "COutPoint \<Rightarrow> CSpentIndexValue option"
  bt_supply :: "int \<Rightarrow> int option"
  bt_ident :: "((int \<times> bytes) \<times> CAddressOwnerIdentificator) list"

definition CAddressUnspentValue_SetNull :: CAddressUnspentValue where
  "CAddressUnspentValue_SetNull = \<lparr>auv_satoshis = - 1, auv_script = [], auv_blockHeight = 0\<rparr>"

definition CAddressUnspentValue_IsNull :: "CAddressUnspentValue \<Rightarrow> bool" where
  "CAddressUnspentValue_IsNull v \<longleftrightarrow> auv_satoshis v = - 1"

definition CSpentIndexValue_SetNull :: CSpentIndexValue where
  "CSpentIndexValue_SetNull = \<lparr>siv_txid = UINT256_ZERO, siv_inputIndex = 0, siv_blockHeight = 0, siv_satoshis = 0,
     siv_addressType = UNKNOWN_TYPE, siv_addressHash = replicate 20 0\<rparr>"

definition CSpentIndexValue_IsNull :: "CSpentIndexValue \<Rightarrow> bool" where
  "CSpentIndexValue_IsNull v \<longleftrightarrow> uint256_IsNull (siv_txid v)"

section \<open>The database\<close>

text \<open>A batch is applied in its order; null values erase.\<close>

fun write_batch :: "('v \<Rightarrow> bool) \<Rightarrow> ('k \<times> 'v) list \<Rightarrow> ('k \<Rightarrow> 'v option) \<Rightarrow> 'k \<Rightarrow> 'v option" where
  "write_batch null [] m = m"
| "write_batch null ((k, v) # batch) m = write_batch null batch (m(k := (if null v then None else Some v)))"

fun erase_batch :: "'k list \<Rightarrow> ('k \<Rightarrow> 'v option) \<Rightarrow> 'k \<Rightarrow> 'v option" where
  "erase_batch [] m = m"
| "erase_batch (k # batch) m = erase_batch batch (m(k := None))"

definition WriteTxIndex :: "(bytes \<times> CDiskTxPos) list \<Rightarrow> CBlockTreeDB \<Rightarrow> CBlockTreeDB" where
  "WriteTxIndex vect db = db\<lparr>bt_txindex := write_batch (\<lambda>_. False) vect (bt_txindex db)\<rparr>"

definition UpdateSpentIndex :: "(COutPoint \<times> CSpentIndexValue) list \<Rightarrow> CBlockTreeDB \<Rightarrow> CBlockTreeDB" where
  "UpdateSpentIndex vect db = db\<lparr>bt_spent := write_batch CSpentIndexValue_IsNull vect (bt_spent db)\<rparr>"

definition UpdateAddressUnspentIndex :: "(CAddressUnspentKey \<times> CAddressUnspentValue) list \<Rightarrow> CBlockTreeDB \<Rightarrow> CBlockTreeDB" where
  "UpdateAddressUnspentIndex vect db =
     db\<lparr>bt_addressUnspent := write_batch CAddressUnspentValue_IsNull vect (bt_addressUnspent db)\<rparr>"

definition UpdateAddressDelegationUnspentIndex ::
    "(CAddressDelegationUnspentKey \<times> CAddressUnspentValue) list \<Rightarrow> CBlockTreeDB \<Rightarrow> CBlockTreeDB" where
  "UpdateAddressDelegationUnspentIndex vect db =
     db\<lparr>bt_delegationUnspent := write_batch CAddressUnspentValue_IsNull vect (bt_delegationUnspent db)\<rparr>"

definition UpdateSupplyIndex :: "int \<Rightarrow> int \<Rightarrow> CBlockTreeDB \<Rightarrow> CBlockTreeDB" where
  "UpdateSupplyIndex height satoshis db =
     db\<lparr>bt_supply := (bt_supply db)(height := (if satoshis = - 1 then None else Some satoshis))\<rparr>"

text \<open>The outpoint that is looked up among the banned ones has the index of the record, which for an input is that of the input.\<close>

definition WriteAddressIndex :: "(COutPoint \<Rightarrow> bool) \<Rightarrow> (CAddressIndexKey \<times> int) list \<Rightarrow> CBlockTreeDB \<Rightarrow> CBlockTreeDB" where
  "WriteAddressIndex invalid vect db =
     db\<lparr>bt_addressIndex :=
       write_batch (\<lambda>_. False)
         (filter (\<lambda>(k, _). \<not> invalid \<lparr>outpoint_hash = aik_txhash k, outpoint_n = aik_index k mod 2 ^ 32\<rparr>) vect)
         (bt_addressIndex db)\<rparr>"

definition WriteDelegationAddressIndex :: "(CAddressDelegationIndexKey \<times> int) list \<Rightarrow> CBlockTreeDB \<Rightarrow> CBlockTreeDB" where
  "WriteDelegationAddressIndex vect db = db\<lparr>bt_delegation := write_batch (\<lambda>_. False) vect (bt_delegation db)\<rparr>"

definition EraseAddressIndex :: "(CAddressIndexKey \<times> int) list \<Rightarrow> CBlockTreeDB \<Rightarrow> CBlockTreeDB" where
  "EraseAddressIndex vect db = db\<lparr>bt_addressIndex := erase_batch (map fst vect) (bt_addressIndex db)\<rparr>"

definition EraseAddressDelegationIndex :: "(CAddressDelegationIndexKey \<times> int) list \<Rightarrow> CBlockTreeDB \<Rightarrow> CBlockTreeDB" where
  "EraseAddressDelegationIndex vect db = db\<lparr>bt_delegation := erase_batch (map fst vect) (bt_delegation db)\<rparr>"

text \<open>
  The cursor is placed on the first identification that is not before the key in the order of the encoded keys; its hash
  is compared with that of the key, its type is not.
\<close>

fun bytes_le :: "bytes \<Rightarrow> bytes \<Rightarrow> bool" where
  "bytes_le [] t = True"
| "bytes_le (a # s) [] = False"
| "bytes_le (a # s) (b # t) \<longleftrightarrow> a < b \<or> (a = b \<and> bytes_le s t)"

definition ident_le :: "int \<times> bytes \<Rightarrow> int \<times> bytes \<Rightarrow> bool" where
  "ident_le k l = bytes_le (Serialize_int16 (fst k) @ snd k) (Serialize_int16 (fst l) @ snd l)"

definition Seek_ident :: "int \<times> bytes \<Rightarrow> ((int \<times> bytes) \<times> 'v) list \<Rightarrow> ((int \<times> bytes) \<times> 'v) option" where
  "Seek_ident k idents =
     foldl (\<lambda>best e. if \<not> ident_le k (fst e) then best
                     else case best of None \<Rightarrow> Some e | Some b \<Rightarrow> if ident_le (fst e) (fst b) then Some e else best) None idents"

definition ReadAdressIdentification :: "bytes \<Rightarrow> int \<Rightarrow> CBlockTreeDB \<Rightarrow> CAddressOwnerIdentificator option" where
  "ReadAdressIdentification addressHash typ db =
     (case Seek_ident (typ, addressHash) (bt_ident db) of
        None \<Rightarrow> None
      | Some (key, ident) \<Rightarrow> if snd key = addressHash then Some ident else None)"

definition WriteAddressIdentification :: "((int \<times> bytes) \<times> CAddressOwnerIdentificator) list \<Rightarrow> CBlockTreeDB \<Rightarrow> CBlockTreeDB" where
  "WriteAddressIdentification vect db =
     db\<lparr>bt_ident :=
       foldl (\<lambda>idents (k, v). if ReadAdressIdentification (snd k) (fst k) db = None then AList.update k v idents else idents)
         (bt_ident db) vect\<rparr>"

definition EraseAddressIdentification :: "(int \<times> bytes) list \<Rightarrow> CBlockTreeDB \<Rightarrow> CBlockTreeDB" where
  "EraseAddressIdentification vect db = db\<lparr>bt_ident := foldl (\<lambda>idents k. AList.delete k idents) (bt_ident db) vect\<rparr>"

section \<open>Records of a block\<close>

text \<open>The vectors a block is indexed with, in the order of their \<^verbatim>\<open>push_back\<close>.\<close>

record index_batch =
  ib_address :: "(CAddressIndexKey \<times> int) list"
  ib_unspent :: "(CAddressUnspentKey \<times> CAddressUnspentValue) list"
  ib_spent :: "(COutPoint \<times> CSpentIndexValue) list"
  ib_delegation :: "(CAddressDelegationIndexKey \<times> int) list"
  ib_delegationUnspent :: "(CAddressDelegationUnspentKey \<times> CAddressUnspentValue) list"

definition empty_batch :: index_batch where
  "empty_batch = \<lparr>ib_address = [], ib_unspent = [], ib_spent = [], ib_delegation = [], ib_delegationUnspent = []\<rparr>"

text \<open>The address of a script: its type, its hash, and for a delegation that of the staker.\<close>

record script_address =
  sa_type :: Base58Type
  sa_hash :: bytes
  sa_typeStaker :: Base58Type
  sa_hashStaker :: bytes
  sa_isColdstake :: bool
  sa_isDposReward :: bool

definition single_address :: "Base58Type \<Rightarrow> bytes \<Rightarrow> script_address" where
  "single_address typ hashBytes =
     \<lparr>sa_type = typ, sa_hash = hashBytes, sa_typeStaker = UNKNOWN_TYPE, sa_hashStaker = replicate 20 0,
      sa_isColdstake = False, sa_isDposReward = False\<rparr>"

text \<open>\<open>g\<close> is \<^verbatim>\<open>g_newP2CSRules\<close>.\<close>

definition address_of_script :: "bool \<Rightarrow> bytes \<Rightarrow> script_address" where
  "address_of_script g script =
     (if IsPayToScriptHash script then single_address SCRIPT_ADDRESS (slice 2 22 script)
      else if IsPayToPublicKeyHash script then single_address PUBKEY_ADDRESS (slice 3 23 script)
      else if IsPayToPublicKey script then single_address PUBKEY_ADDRESS (Hash160 (slice 1 (length script - 1) script))
      else if IsPayAssetScriptHash script then single_address PUBKEY_ADDRESS (slice 4 24 script)
      else if IsPayToColdStaking g script
      then \<lparr>sa_type = PUBKEY_ADDRESS, sa_hash = slice 28 48 script, sa_typeStaker = STAKING_ADDRESS,
            sa_hashStaker = slice 6 26 script, sa_isColdstake = True, sa_isDposReward = False\<rparr>
      else if IsPayAssetDposScript script
      then \<lparr>sa_type = PUBKEY_ADDRESS, sa_hash = slice 28 48 script, sa_typeStaker = PUBKEY_ADDRESS,
            sa_hashStaker = slice 6 26 script, sa_isColdstake = False, sa_isDposReward = True\<rparr>
      else single_address UNKNOWN_TYPE (replicate 20 0))"

text \<open>Input \<open>j\<close> of transaction \<open>i\<close> in \<^verbatim>\<open>ConnectBlock\<close>.\<close>

definition index_input ::
    "bool \<Rightarrow> bool \<Rightarrow> bool \<Rightarrow> int \<Rightarrow> nat \<Rightarrow> bytes \<Rightarrow> nat \<Rightarrow> COutPoint \<Rightarrow> CTxOut \<Rightarrow> index_batch \<Rightarrow> index_batch" where
  "index_input g fAddressIndex fSpentIndex height i txhash j outpoint out b =
     (let a = address_of_script g (scriptPubKey out);
          b1 = (if fAddressIndex \<and> sa_type a \<noteq> UNKNOWN_TYPE
                then b\<lparr>ib_address := ib_address b @
                         [(\<lparr>aik_type = sa_type a, aik_hashBytes = sa_hash a, aik_blockHeight = height, aik_txindex = i, aik_txhash = txhash,
                            aik_index = j, aik_spending = True, aik_delegated = sa_isColdstake a\<rparr>, nValue out * - 1)],
                       ib_unspent := ib_unspent b @
                         [(\<lparr>auk_type = sa_type a, auk_hashBytes = sa_hash a, auk_txhash = outpoint_hash outpoint,
                            auk_index = outpoint_n outpoint\<rparr>, CAddressUnspentValue_SetNull)]\<rparr>
                else b);
          b2 = (if fAddressIndex \<and> sa_type a \<noteq> UNKNOWN_TYPE \<and> sa_isColdstake a
                then b1\<lparr>ib_delegation := ib_delegation b1 @
                          [(\<lparr>adk_stakerHash = sa_hashStaker a, adk_ownerHash = sa_hash a, adk_blockHeight = height, adk_txindex = i,
                             adk_txhash = txhash, adk_index = j, adk_spending = True\<rparr>, nValue out * - 1)],
                        ib_delegationUnspent := ib_delegationUnspent b1 @
                          [(\<lparr>aduk_stakerHash = sa_hashStaker a, aduk_ownerHash = sa_hash a, aduk_txhash = outpoint_hash outpoint,
                             aduk_index = outpoint_n outpoint\<rparr>, CAddressUnspentValue_SetNull)]\<rparr>
                else b1);
          spent = (\<lambda>typ h. (outpoint, \<lparr>siv_txid = txhash, siv_inputIndex = j, siv_blockHeight = height,
                     siv_satoshis = nValue out, siv_addressType = typ, siv_addressHash = h\<rparr>))
      in if fSpentIndex \<and> sa_type a \<noteq> UNKNOWN_TYPE
         then b2\<lparr>ib_spent := ib_spent b2 @ [spent (sa_type a) (sa_hash a)] @
                (if (sa_isColdstake a \<or> sa_isDposReward a) \<and> sa_typeStaker a \<noteq> UNKNOWN_TYPE
                 then [spent (sa_typeStaker a) (sa_hashStaker a)] else [])\<rparr>
         else b2)"

text \<open>Output \<open>k\<close> of transaction \<open>i\<close> in \<^verbatim>\<open>ConnectBlock\<close>.\<close>

definition index_output :: "bool \<Rightarrow> int \<Rightarrow> nat \<Rightarrow> bytes \<Rightarrow> nat \<Rightarrow> CTxOut \<Rightarrow> index_batch \<Rightarrow> index_batch" where
  "index_output g height i txhash k out b =
     (let a = address_of_script g (scriptPubKey out);
          value = \<lparr>auv_satoshis = nValue out, auv_script = scriptPubKey out, auv_blockHeight = height\<rparr>;
          b1 = (if sa_type a \<noteq> UNKNOWN_TYPE
                then b\<lparr>ib_address := ib_address b @
                         [(\<lparr>aik_type = sa_type a, aik_hashBytes = sa_hash a, aik_blockHeight = height, aik_txindex = i, aik_txhash = txhash,
                            aik_index = k, aik_spending = False, aik_delegated = sa_isColdstake a\<rparr>, nValue out)],
                       ib_unspent := ib_unspent b @
                         [(\<lparr>auk_type = sa_type a, auk_hashBytes = sa_hash a, auk_txhash = txhash, auk_index = k\<rparr>, value)]\<rparr>
                else b)
      in if sa_isColdstake a
         then b1\<lparr>ib_delegation := ib_delegation b1 @
                   [(\<lparr>adk_stakerHash = sa_hashStaker a, adk_ownerHash = sa_hash a, adk_blockHeight = height, adk_txindex = i,
                      adk_txhash = txhash, adk_index = k, adk_spending = False\<rparr>, nValue out)],
                 ib_delegationUnspent := ib_delegationUnspent b1 @
                   [(\<lparr>aduk_stakerHash = sa_hashStaker a, aduk_ownerHash = sa_hash a, aduk_txhash = txhash, aduk_index = k\<rparr>, value)]\<rparr>
         else b1)"

definition GetHashBytesFromScriptPubKey :: "bool \<Rightarrow> bytes \<Rightarrow> bytes list" where
  "GetHashBytesFromScriptPubKey g script =
     (if IsPayToScriptHash script then [slice 2 22 script]
      else if IsPayToPublicKeyHash script then [slice 3 23 script]
      else if IsPayToPublicKey script then [Hash160 (slice 1 (length script - 1) script)]
      else if IsPayAssetScriptHash script then [slice 4 24 script]
      else if IsPayToColdStaking g script \<or> IsPayAssetDposScript script then [slice 6 26 script, slice 28 48 script]
      else [])"

text \<open>The same in \<^verbatim>\<open>DisconnectBlock\<close>; a script with one hash is one of the four kinds tested.\<close>

definition undo_type :: "bytes \<Rightarrow> Base58Type" where
  "undo_type script =
     (if IsPayToScriptHash script then SCRIPT_ADDRESS
      else if IsPayToPublicKeyHash script \<or> IsPayToPublicKey script \<or> IsPayAssetScriptHash script then PUBKEY_ADDRESS
      else UNKNOWN_TYPE)"

definition undo_record ::
    "bool \<Rightarrow> bytes \<Rightarrow> int \<Rightarrow> nat \<Rightarrow> bytes \<Rightarrow> nat \<Rightarrow> bool \<Rightarrow> int \<Rightarrow> COutPoint \<Rightarrow> CAddressUnspentValue \<Rightarrow> index_batch \<Rightarrow> index_batch" where
  "undo_record g script height i txhash k spending amount outpoint value b =
     (let list = GetHashBytesFromScriptPubKey g script; isColdStake = IsPayToColdStaking g script;
          record_for = (\<lambda>typ h delegated b. b\<lparr>
            ib_address := ib_address b @
              [(\<lparr>aik_type = typ, aik_hashBytes = h, aik_blockHeight = height, aik_txindex = i, aik_txhash = txhash, aik_index = k,
                 aik_spending = spending, aik_delegated = delegated\<rparr>, amount)],
            ib_unspent := ib_unspent b @
              [(\<lparr>auk_type = typ, auk_hashBytes = h, auk_txhash = outpoint_hash outpoint, auk_index = outpoint_n outpoint\<rparr>, value)]\<rparr>)
      in if length list = 1 then record_for (undo_type script) (list ! 0) False b
         else if length list = 2
         then record_for PUBKEY_ADDRESS (list ! 1) isColdStake
                (if isColdStake
                 then b\<lparr>ib_delegation := ib_delegation b @
                          [(\<lparr>adk_stakerHash = list ! 0, adk_ownerHash = list ! 1, adk_blockHeight = height, adk_txindex = i,
                             adk_txhash = txhash, adk_index = k, adk_spending = spending\<rparr>, amount)],
                        ib_delegationUnspent := ib_delegationUnspent b @
                          [(\<lparr>aduk_stakerHash = list ! 0, aduk_ownerHash = list ! 1, aduk_txhash = outpoint_hash outpoint,
                             aduk_index = outpoint_n outpoint\<rparr>, value)]\<rparr>
                 else b)
         else b)"

definition unindex_output :: "bool \<Rightarrow> int \<Rightarrow> nat \<Rightarrow> bytes \<Rightarrow> nat \<Rightarrow> CTxOut \<Rightarrow> index_batch \<Rightarrow> index_batch" where
  "unindex_output g height i txhash k out b =
     undo_record g (scriptPubKey out) height i txhash k False (nValue out * - 1) \<lparr>outpoint_hash = txhash, outpoint_n = k\<rparr>
       CAddressUnspentValue_SetNull b"

definition unindex_input ::
    "bool \<Rightarrow> bool \<Rightarrow> bool \<Rightarrow> int \<Rightarrow> nat \<Rightarrow> bytes \<Rightarrow> nat \<Rightarrow> COutPoint \<Rightarrow> CTxOut \<Rightarrow> int \<Rightarrow> index_batch \<Rightarrow> index_batch" where
  "unindex_input g fAddressIndex fSpentIndex height i txhash j outpoint out undoHeight b =
     (let b1 = (if fSpentIndex then b\<lparr>ib_spent := ib_spent b @ [(outpoint, CSpentIndexValue_SetNull)]\<rparr> else b)
      in if fAddressIndex
         then undo_record g (scriptPubKey out) height i txhash j True (nValue out) outpoint
                \<lparr>auv_satoshis = nValue out, auv_script = scriptPubKey out, auv_blockHeight = undoHeight\<rparr> b1
         else b1)"

section \<open>Indexes of the unspent coins\<close>

text \<open>
  An index holds, for every unspent coin that has an entry, the value of the entry under its key; the key determines the
  outpoint.
\<close>

definition index_of :: "(COutPoint \<Rightarrow> Coin \<Rightarrow> ('k \<times> 'v) option) \<Rightarrow> ('k \<Rightarrow> COutPoint) \<Rightarrow> (COutPoint \<Rightarrow> Coin option) \<Rightarrow> 'k \<Rightarrow> 'v option" where
  "index_of entry point_of u k =
     (case Option.bind (u (point_of k)) (entry (point_of k)) of
        Some (k', v) \<Rightarrow> if k' = k then Some v else None
      | None \<Rightarrow> None)"

definition add_entry :: "(COutPoint \<Rightarrow> Coin \<Rightarrow> ('k \<times> 'v) option) \<Rightarrow> COutPoint \<Rightarrow> Coin \<Rightarrow> ('k \<times> 'v) list" where
  "add_entry entry p c = (case entry p c of Some kv \<Rightarrow> [kv] | None \<Rightarrow> [])"

definition del_entry :: "(COutPoint \<Rightarrow> Coin \<Rightarrow> ('k \<times> 'v) option) \<Rightarrow> 'v \<Rightarrow> COutPoint \<Rightarrow> Coin \<Rightarrow> ('k \<times> 'v) list" where
  "del_entry entry nullv p c = map (\<lambda>(k, _). (k, nullv)) (add_entry entry p c)"

text \<open>What a transaction writes: null values for its inputs, then its outputs.\<close>

definition input_batch ::
    "(COutPoint \<Rightarrow> Coin \<Rightarrow> ('k \<times> 'v) option) \<Rightarrow> 'v \<Rightarrow> (COutPoint \<Rightarrow> Coin option) \<Rightarrow> CTxIn list \<Rightarrow> ('k \<times> 'v) list" where
  "input_batch entry nullv u ins =
     concat (map (\<lambda>txin. case u (prevout txin) of Some c \<Rightarrow> del_entry entry nullv (prevout txin) c | None \<Rightarrow> []) ins)"

fun output_batch ::
    "(COutPoint \<Rightarrow> Coin \<Rightarrow> ('k \<times> 'v) option) \<Rightarrow> bytes \<Rightarrow> nat \<Rightarrow> bool \<Rightarrow> bool \<Rightarrow> nat \<Rightarrow> CTxOut list \<Rightarrow> ('k \<times> 'v) list" where
  "output_batch entry txid h cb cs i [] = []"
| "output_batch entry txid h cb cs i (o1 # os) =
     add_entry entry \<lparr>outpoint_hash = txid, outpoint_n = i\<rparr> \<lparr>fCoinBase = cb, fCoinStake = cs, coin_out = o1, coin_nHeight = h\<rparr> @
     output_batch entry txid h cb cs (i + 1) os"

lemma write_batch_append: "write_batch null (xs @ ys) m = write_batch null ys (write_batch null xs m)"
  by (induction xs arbitrary: m) (auto simp del: fun_upd_apply)

locale outpoint_index =
  fixes entry :: "COutPoint \<Rightarrow> Coin \<Rightarrow> ('k \<times> 'v) option"
    and point_of :: "'k \<Rightarrow> COutPoint"
    and null :: "'v \<Rightarrow> bool"
    and nullv :: 'v
  assumes point_of_entry: "entry p c = Some (k, v) \<Longrightarrow> point_of k = p"
    and null_nullv: "null nullv"
    and entry_value: "entry p c = Some (k, v) \<Longrightarrow> 0 \<le> nValue (coin_out c) \<Longrightarrow> \<not> null v"
begin

lemma index_of_remove:
  assumes "u p = Some c"
  shows "index_of entry point_of (u(p := None)) = write_batch null (del_entry entry nullv p c) (index_of entry point_of u)"
proof
  fix k
  show "index_of entry point_of (u(p := None)) k = write_batch null (del_entry entry nullv p c) (index_of entry point_of u) k"
  proof (cases "entry p c")
    case None
    then show ?thesis using assms by (simp add: index_of_def del_entry_def add_entry_def)
  next
    case (Some kv)
    then obtain k0 v0 where e: "entry p c = Some (k0, v0)" by (cases kv) simp
    then show ?thesis using assms point_of_entry [OF e] by (auto simp: index_of_def del_entry_def add_entry_def null_nullv)
  qed
qed

lemma index_of_add:
  assumes "u p = None" "0 \<le> nValue (coin_out c)"
  shows "index_of entry point_of (u(p := Some c)) = write_batch null (add_entry entry p c) (index_of entry point_of u)"
proof
  fix k
  show "index_of entry point_of (u(p := Some c)) k = write_batch null (add_entry entry p c) (index_of entry point_of u) k"
  proof (cases "entry p c")
    case None
    then show ?thesis using assms by (simp add: index_of_def add_entry_def)
  next
    case (Some kv)
    then obtain k0 v0 where e: "entry p c = Some (k0, v0)" by (cases kv) simp
    then show ?thesis using assms point_of_entry [OF e] entry_value [OF e assms(2)]
      by (auto simp: index_of_def add_entry_def)
  qed
qed

lemma index_of_inputs:
  "distinct (map prevout ins) \<Longrightarrow> list_all (\<lambda>txin. u (prevout txin) \<noteq> None) ins \<Longrightarrow>
   index_of entry point_of (foldl (\<lambda>u txin. u(prevout txin := None)) u ins) =
     write_batch null (input_batch entry nullv u ins) (index_of entry point_of u)"
proof (induction ins arbitrary: u)
  case (Cons txin ins)
  obtain c where c: "u (prevout txin) = Some c" using Cons.prems by auto
  have o: "(u(prevout txin := None)) (prevout t) = u (prevout t)" if "t \<in> set ins" for t
    using Cons.prems(1) that by (metis (mono_tags) distinct.simps(2) fun_upd_other image_eqI list.simps(9) list.set_map)
  then have "input_batch entry nullv (u(prevout txin := None)) ins = input_batch entry nullv u ins"
    unfolding input_batch_def by (intro arg_cong [where f = concat] map_cong) (simp_all del: fun_upd_apply)
  moreover have "list_all (\<lambda>t. (u(prevout txin := None)) (prevout t) \<noteq> None) ins"
    using Cons.prems(2) o by (simp add: list_all_iff del: fun_upd_apply)
  moreover have "input_batch entry nullv u (txin # ins) = del_entry entry nullv (prevout txin) c @ input_batch entry nullv u ins"
    using c by (simp add: input_batch_def)
  ultimately show ?case
    using Cons.IH [of "u(prevout txin := None)"] Cons.prems(1) index_of_remove [of u "prevout txin" c] c
    by (simp add: write_batch_append del: fun_upd_apply)
qed (simp add: input_batch_def)

lemma index_of_outputs:
  "(\<And>j. j < length os \<Longrightarrow> u \<lparr>outpoint_hash = txid, outpoint_n = i + j\<rparr> = None) \<Longrightarrow> list_all (\<lambda>o1. 0 \<le> nValue o1) os \<Longrightarrow>
   (\<And>p o1. o1 \<in> set os \<Longrightarrow> IsUnspendable (scriptPubKey o1) \<Longrightarrow>
      entry p \<lparr>fCoinBase = cb, fCoinStake = cs, coin_out = o1, coin_nHeight = h\<rparr> = None) \<Longrightarrow>
   index_of entry point_of (add_outputs txid h cb cs i os u) =
     write_batch null (output_batch entry txid h cb cs i os) (index_of entry point_of u)"
proof (induction os arbitrary: i u)
  case (Cons o1 os)
  let ?p = "\<lparr>outpoint_hash = txid, outpoint_n = i\<rparr>"
  let ?c = "\<lparr>fCoinBase = cb, fCoinStake = cs, coin_out = o1, coin_nHeight = h\<rparr>"
  let ?u = "if IsUnspendable (scriptPubKey o1) then u else u(?p := Some ?c)"
  have "u ?p = None" using Cons.prems(1) [of 0] by simp
  then have 1: "index_of entry point_of ?u = write_batch null (add_entry entry ?p ?c) (index_of entry point_of u)"
    using index_of_add [of u ?p ?c] Cons.prems(2,3) by (auto simp: add_entry_def)
  have "?u \<lparr>outpoint_hash = txid, outpoint_n = i + 1 + j\<rparr> = None" if "j < length os" for j
    using Cons.prems(1) [of "Suc j"] that by simp
  then have "index_of entry point_of (add_outputs txid h cb cs (i + 1) os ?u) =
      write_batch null (output_batch entry txid h cb cs (i + 1) os) (index_of entry point_of ?u)"
    using Cons.prems(2,3) by (intro Cons.IH) auto
  then show ?case using 1 by (simp add: write_batch_append del: fun_upd_apply)
qed simp

end

subsection \<open>The two indexes of unspent outputs\<close>

definition unspent_entry :: "bool \<Rightarrow> COutPoint \<Rightarrow> Coin \<Rightarrow> (CAddressUnspentKey \<times> CAddressUnspentValue) option" where
  "unspent_entry g p c =
     (let a = address_of_script g (scriptPubKey (coin_out c)) in
      if sa_type a = UNKNOWN_TYPE then None
      else Some (\<lparr>auk_type = sa_type a, auk_hashBytes = sa_hash a, auk_txhash = outpoint_hash p, auk_index = outpoint_n p\<rparr>,
                 \<lparr>auv_satoshis = nValue (coin_out c), auv_script = scriptPubKey (coin_out c), auv_blockHeight = int (coin_nHeight c)\<rparr>))"

definition unspent_point :: "CAddressUnspentKey \<Rightarrow> COutPoint" where
  "unspent_point k = \<lparr>outpoint_hash = auk_txhash k, outpoint_n = auk_index k\<rparr>"

definition delegation_entry :: "bool \<Rightarrow> COutPoint \<Rightarrow> Coin \<Rightarrow> (CAddressDelegationUnspentKey \<times> CAddressUnspentValue) option" where
  "delegation_entry g p c =
     (let a = address_of_script g (scriptPubKey (coin_out c)) in
      if \<not> sa_isColdstake a then None
      else Some (\<lparr>aduk_stakerHash = sa_hashStaker a, aduk_ownerHash = sa_hash a, aduk_txhash = outpoint_hash p, aduk_index = outpoint_n p\<rparr>,
                 \<lparr>auv_satoshis = nValue (coin_out c), auv_script = scriptPubKey (coin_out c), auv_blockHeight = int (coin_nHeight c)\<rparr>))"

definition delegation_point :: "CAddressDelegationUnspentKey \<Rightarrow> COutPoint" where
  "delegation_point k = \<lparr>outpoint_hash = aduk_txhash k, outpoint_n = aduk_index k\<rparr>"

interpretation unspent_index: outpoint_index "unspent_entry g" unspent_point CAddressUnspentValue_IsNull CAddressUnspentValue_SetNull
  for g
  by unfold_locales
    (auto simp: unspent_entry_def unspent_point_def CAddressUnspentValue_IsNull_def CAddressUnspentValue_SetNull_def Let_def
      split: if_splits)

interpretation delegation_index: outpoint_index "delegation_entry g" delegation_point CAddressUnspentValue_IsNull CAddressUnspentValue_SetNull
  for g
  by unfold_locales
    (auto simp: delegation_entry_def delegation_point_def CAddressUnspentValue_IsNull_def CAddressUnspentValue_SetNull_def Let_def
      split: if_splits)

text \<open>The address of a script as \<^verbatim>\<open>DisconnectBlock\<close> finds it.\<close>

lemma coldstake_known: "sa_isColdstake (address_of_script g script) \<Longrightarrow> sa_type (address_of_script g script) \<noteq> UNKNOWN_TYPE"
  by (auto simp: address_of_script_def single_address_def split: if_splits)

lemma GetHashBytes_address:
  "GetHashBytesFromScriptPubKey g script =
    (let a = address_of_script g script in
     if sa_type a = UNKNOWN_TYPE then []
     else if sa_isColdstake a \<or> sa_isDposReward a then [sa_hashStaker a, sa_hash a] else [sa_hash a])"
  by (auto simp: GetHashBytesFromScriptPubKey_def address_of_script_def single_address_def)

lemma undo_address:
  assumes "a = address_of_script g script"
  shows "sa_type a \<noteq> UNKNOWN_TYPE \<Longrightarrow> \<not> (sa_isColdstake a \<or> sa_isDposReward a) \<Longrightarrow> undo_type script = sa_type a"
    "sa_isColdstake a \<or> sa_isDposReward a \<Longrightarrow> IsPayToColdStaking g script = sa_isColdstake a \<and> sa_type a = PUBKEY_ADDRESS"
  using assms by (auto simp: undo_type_def address_of_script_def single_address_def split: if_splits)

lemma ib_unspent_index_input:
  "ib_unspent (index_input g True fSpentIndex height i txhash j p (coin_out c) b) =
     ib_unspent b @ del_entry (unspent_entry g) CAddressUnspentValue_SetNull p c"
  "ib_delegationUnspent (index_input g True fSpentIndex height i txhash j p (coin_out c) b) =
     ib_delegationUnspent b @ del_entry (delegation_entry g) CAddressUnspentValue_SetNull p c"
  using coldstake_known [of g "scriptPubKey (coin_out c)"]
  by (auto simp: index_input_def del_entry_def add_entry_def unspent_entry_def delegation_entry_def Let_def)

lemma ib_unspent_index_output:
  assumes "coin_out c = out" "height = int (coin_nHeight c)"
  shows "ib_unspent (index_output g height i txhash k out b) =
      ib_unspent b @ add_entry (unspent_entry g) \<lparr>outpoint_hash = txhash, outpoint_n = k\<rparr> c"
    "ib_delegationUnspent (index_output g height i txhash k out b) =
      ib_delegationUnspent b @ add_entry (delegation_entry g) \<lparr>outpoint_hash = txhash, outpoint_n = k\<rparr> c"
  using assms by (auto simp: index_output_def add_entry_def unspent_entry_def delegation_entry_def Let_def)

lemma undo_record_address:
  assumes "a = address_of_script g script"
  shows "ib_unspent (undo_record g script height i txhash k spending amount p v b) = ib_unspent b @
      (if sa_type a = UNKNOWN_TYPE then []
       else [(\<lparr>auk_type = sa_type a, auk_hashBytes = sa_hash a, auk_txhash = outpoint_hash p, auk_index = outpoint_n p\<rparr>, v)])"
    "ib_delegationUnspent (undo_record g script height i txhash k spending amount p v b) = ib_delegationUnspent b @
      (if \<not> sa_isColdstake a then []
       else [(\<lparr>aduk_stakerHash = sa_hashStaker a, aduk_ownerHash = sa_hash a, aduk_txhash = outpoint_hash p, aduk_index = outpoint_n p\<rparr>, v)])"
  using undo_address [OF assms] coldstake_known [of g script] assms
  by (auto simp: undo_record_def GetHashBytes_address Let_def)

lemma ib_unspent_unindex_output:
  assumes "coin_out c = out"
  shows "ib_unspent (unindex_output g height i txhash k out b) =
      ib_unspent b @ del_entry (unspent_entry g) CAddressUnspentValue_SetNull \<lparr>outpoint_hash = txhash, outpoint_n = k\<rparr> c"
    "ib_delegationUnspent (unindex_output g height i txhash k out b) =
      ib_delegationUnspent b @ del_entry (delegation_entry g) CAddressUnspentValue_SetNull \<lparr>outpoint_hash = txhash, outpoint_n = k\<rparr> c"
  using assms by (auto simp: unindex_output_def undo_record_address [OF refl] del_entry_def add_entry_def unspent_entry_def delegation_entry_def Let_def)

lemma ib_unspent_unindex_input:
  "ib_unspent (unindex_input g True fSpentIndex height i txhash j p (coin_out c) (int (coin_nHeight c)) b) =
     ib_unspent b @ add_entry (unspent_entry g) p c"
  "ib_delegationUnspent (unindex_input g True fSpentIndex height i txhash j p (coin_out c) (int (coin_nHeight c)) b) =
     ib_delegationUnspent b @ add_entry (delegation_entry g) p c"
  by (auto simp: unindex_input_def undo_record_address [OF refl] add_entry_def unspent_entry_def delegation_entry_def Let_def)

end
