(* ===== verification/Connect_Block.thy ===== *)
theory Connect_Block
  imports Block_Checks Compressor Address_Index
begin

text \<open>
  Connecting and disconnecting a block: \<^verbatim>\<open>ConnectBlock\<close> and \<^verbatim>\<open>DisconnectBlock\<close> of \<^verbatim>\<open>src/validation.cpp\<close> with the checks
  of inputs and scripts, the sigop count of \<^verbatim>\<open>src/consensus/tx_verify.cpp\<close>, the limit of new coins of
  \<^verbatim>\<open>src/masternode-payments.cpp\<close>, the undo files, the indexes, the money supply of \<^verbatim>\<open>src/moneysupply.h\<close> and the tree of
  note commitments.  The results of the signature cache are those of the verification it saves.
\<close>

section \<open>State and environment\<close>

text \<open>
  Flags of the node, the banned outpoints, the magic bytes of the network, the free disk space and the functions of
  libraries: ECDSA verification and the low-S test, BLAKE2b, the Pedersen hash, the validity and decompression of keys.
\<close>

record connect_env =
  ce_fTxIndex :: bool
  ce_fSpentIndex :: bool
  ce_nScriptCheckThreads :: nat
  ce_fVerifyingBlocks :: bool
  ce_invalid :: "COutPoint \<Rightarrow> bool"
  ce_MessageStart :: bytes
  ce_CheckDiskSpace :: "nat \<Rightarrow> bool"
  ce_Verify :: "bytes \<Rightarrow> bytes \<Rightarrow> bytes \<Rightarrow> bool"
  ce_CheckLowS :: "bytes \<Rightarrow> bool"
  ce_blake2b :: blake2b
  ce_merkle_hash :: "bytes \<Rightarrow> bytes \<Rightarrow> nat \<Rightarrow> bytes"
  ce_IsFullyValid :: "bytes \<Rightarrow> bool"
  ce_Decompress :: "bytes \<Rightarrow> bytes option"

text \<open>Calls into the budget manager and into the multimining library, which are not modelled.\<close>

datatype node_event = RemoveByFeeTxId bytes | EraseHistoryRecord int | SetAddressIndexList "(CAddressIndexKey \<times> int) list" bool
  | RemoveRegistration CAssetRegistration

text \<open>What is kept on disk or in global variables, other than the coins and the block index.\<close>

record chain_db =
  cd_undo_files :: "int \<Rightarrow> bytes"
  cd_nUndoSize :: "int \<Rightarrow> nat"
  cd_setDirtyFileInfo :: "int set"
  cd_setDirtyBlockIndex :: "ptr set"
  cd_blocktree :: CBlockTreeDB
  cd_MoneySupply :: int
  cd_supplyHeight :: int
  cd_events :: "node_event list"

text \<open>Signed 64-bit addition; overflow is undefined.\<close>

definition add64 :: "int \<Rightarrow> int \<Rightarrow> int option" where
  "add64 a b = (if - (2 ^ 63) \<le> a + b \<and> a + b < 2 ^ 63 then Some (a + b) else None)"

section \<open>Amounts and signature operations of the inputs\<close>

fun GetValueIn_loop :: "CTxIn list \<Rightarrow> CCoinsView \<Rightarrow> int \<Rightarrow> (int \<times> CCoinsView) option" where
  "GetValueIn_loop [] view nResult = Some (nResult, view)"
| "GetValueIn_loop (txin # rest) view nResult =
     (let (c, view') = AccessCoin view (prevout txin)
      in Option.bind (add64 nResult (nValue (coin_out c))) (GetValueIn_loop rest view'))"

definition GetValueIn :: "CCoinsView \<Rightarrow> CTransaction \<Rightarrow> (int \<times> CCoinsView) option" where
  "GetValueIn view tx = (if IsCoinBase tx \<or> ContainsAssets tx then Some (0, view) else GetValueIn_loop (vin tx) view 0)"

fun GetP2SHSigOpCount_loop :: "CTxIn list \<Rightarrow> CCoinsView \<Rightarrow> nat \<Rightarrow> nat \<times> CCoinsView" where
  "GetP2SHSigOpCount_loop [] view nSigOps = (nSigOps, view)"
| "GetP2SHSigOpCount_loop (txin # rest) view nSigOps =
     (let (c, view') = AccessCoin view (prevout txin); script = scriptPubKey (coin_out c)
      in GetP2SHSigOpCount_loop rest view'
           (if IsPayToScriptHash script then (nSigOps + GetSigOpCount_P2SH script (scriptSig txin)) mod 2 ^ 32 else nSigOps))"

definition GetP2SHSigOpCount :: "CCoinsView \<Rightarrow> CTransaction \<Rightarrow> nat \<times> CCoinsView" where
  "GetP2SHSigOpCount view tx =
     (if IsCoinBase tx \<or> ContainsAssets tx then (0, view) else GetP2SHSigOpCount_loop (vin tx) view 0)"

section \<open>Scripts\<close>

record CScriptCheck =
  sc_scriptPubKey :: bytes
  sc_amount :: int
  sc_tx :: CTransaction
  sc_nIn :: nat
  sc_nFlags :: script_flags

definition run_check :: "connect_env \<Rightarrow> bool \<Rightarrow> CScriptCheck \<Rightarrow> bool option" where
  "run_check env g check =
     map_option fst
       (VerifyScript (ce_CheckLowS env) (scriptSig (vin (sc_tx check) ! sc_nIn check)) (sc_scriptPubKey check) (sc_nFlags check)
         (TransactionSignatureChecker (ce_blake2b env) (ce_Verify env) (ce_CheckLowS env) g (sc_tx check) (sc_nIn check)
           (sc_amount check) (Some (PrecomputedTransactionData (ce_blake2b env) (sc_tx check))))
         (GetRequiredSigVersion (sc_tx check)))"

definition MANDATORY_SCRIPT_VERIFY_FLAGS :: script_flags where
  "MANDATORY_SCRIPT_VERIFY_FLAGS = SCRIPT_VERIFY_P2SH"

definition STANDARD_SCRIPT_VERIFY_FLAGS :: script_flags where
  "STANDARD_SCRIPT_VERIFY_FLAGS = MANDATORY_SCRIPT_VERIFY_FLAGS OR SCRIPT_VERIFY_DERSIG OR SCRIPT_VERIFY_STRICTENC OR
     SCRIPT_VERIFY_MINIMALDATA OR SCRIPT_VERIFY_NULLDUMMY OR SCRIPT_VERIFY_DISCOURAGE_UPGRADABLE_NOPS OR SCRIPT_VERIFY_LOW_S"

definition STANDARD_NOT_MANDATORY_VERIFY_FLAGS :: script_flags where
  "STANDARD_NOT_MANDATORY_VERIFY_FLAGS = STANDARD_SCRIPT_VERIFY_FLAGS AND NOT MANDATORY_SCRIPT_VERIFY_FLAGS"

definition script_failure :: "connect_env \<Rightarrow> bool \<Rightarrow> CScriptCheck \<Rightarrow> tx_error option" where
  "script_failure env g check =
     (if sc_nFlags check AND STANDARD_NOT_MANDATORY_VERIFY_FLAGS \<noteq> 0
      then map_option (\<lambda>ok2. if ok2 then DoS 0 ''non-mandatory-script-verify-flag'' else DoS 100 ''mandatory-script-verify-flag-failed'')
             (run_check env g (check\<lparr>sc_nFlags := sc_nFlags check AND NOT STANDARD_NOT_MANDATORY_VERIFY_FLAGS\<rparr>))
      else Some (DoS 100 ''mandatory-script-verify-flag-failed''))"

text \<open>With script check threads the checks are collected, otherwise each is run at once.\<close>

fun CheckInputs_loop ::
    "connect_env \<Rightarrow> bool \<Rightarrow> script_flags \<Rightarrow> CTransaction \<Rightarrow> nat \<Rightarrow> CTxIn list \<Rightarrow> CCoinsView \<Rightarrow> CScriptCheck list \<Rightarrow>
     ((tx_error + CScriptCheck list) \<times> CCoinsView) option" where
  "CheckInputs_loop env g flags tx i [] view pvChecks = Some (Inr pvChecks, view)"
| "CheckInputs_loop env g flags tx i (txin # rest) view pvChecks =
     (let (c, view') = AccessCoin view (prevout txin);
          check = \<lparr>sc_scriptPubKey = scriptPubKey (coin_out c), sc_amount = nValue (coin_out c), sc_tx = tx, sc_nIn = i, sc_nFlags = flags\<rparr>
      in if IsSpent c then None
         else if ce_nScriptCheckThreads env > 0 then CheckInputs_loop env g flags tx (i + 1) rest view' (pvChecks @ [check])
         else case run_check env g check of
                None \<Rightarrow> None
              | Some True \<Rightarrow> CheckInputs_loop env g flags tx (i + 1) rest view' pvChecks
              | Some False \<Rightarrow> map_option (\<lambda>e. (Inl e, view')) (script_failure env g check))"

definition GetSpendHeight :: "node_state \<Rightarrow> CCoinsView \<Rightarrow> (int \<times> CCoinsView) option" where
  "GetSpendHeight ns inputs =
     (let (best, inputs') = GetBestBlock inputs
      in map_option (\<lambda>pindexPrev. (nHeight pindexPrev + 1, inputs')) (Option.bind (ns_mapBlockIndex ns best) (ns_index ns)))"

definition CheckInputs ::
    "connect_env \<Rightarrow> node_state \<Rightarrow> CTransaction \<Rightarrow> CCoinsView \<Rightarrow> bool \<Rightarrow> script_flags \<Rightarrow>
     ((tx_error + CScriptCheck list) \<times> CCoinsView) option" where
  "CheckInputs env ns tx inputs fScriptChecks flags =
     (if IsCoinBase tx \<or> ContainsAssets tx then Some (Inr [], inputs)
      else case GetSpendHeight ns inputs of
             None \<Rightarrow> None
           | Some (nSpendHeight, v1) \<Rightarrow>
               (case CheckTxInputs (nMaxMoneyOut (ns_consensus ns)) (nCoinbaseMaturity (ns_consensus ns)) tx v1 nSpendHeight of
                  None \<Rightarrow> None
                | Some (Inl e, v2) \<Rightarrow> Some (Inl e, v2)
                | Some (Inr _, v2) \<Rightarrow>
                    if fScriptChecks then CheckInputs_loop env (ns_newP2CSRules ns) flags tx 0 (vin tx) v2 []
                    else Some (Inr [], v2)))"

section \<open>Connecting a block\<close>

text \<open>The variables of the loop over the transactions.\<close>

record connect_state =
  cb_view :: CCoinsView
  cb_nFees :: int
  cb_nSigOps :: nat
  cb_nValueOut :: int
  cb_nValueIn :: int
  cb_nAssetValue :: int
  cb_vtxundo :: "Coin list list"
  cb_tree :: IncrementalMerkleTree
  cb_batch :: index_batch
  cb_vPos :: "(bytes \<times> CDiskTxPos) list"
  cb_pos :: CDiskTxPos
  cb_checks :: "CScriptCheck list"

definition SkipInvalidUTXOS :: "node_state \<Rightarrow> int \<Rightarrow> bool" where
  "SkipInvalidUTXOS ns height \<longleftrightarrow>
     networkID (ns_params ns) = MAIN \<and> NetworkUpgradeActive (ns_consensus ns) height ACTIVATE_POS"

definition nMaxBlockSigOps :: nat where
  "nMaxBlockSigOps = MAX_BLOCK_SIGOPS_CURRENT"

text \<open>Sigops, maintenance mode and the availability of the inputs.\<close>

definition connect_require :: "connect_env \<Rightarrow> node_state \<Rightarrow> bool \<Rightarrow> CTransaction \<Rightarrow> connect_state \<Rightarrow> connect_state check" where
  "connect_require env ns fSaplingMaintenance tx st =
     (let nSigOps = (cb_nSigOps st + GetLegacySigOpCount tx) mod 2 ^ 32 in
      if nSigOps > nMaxBlockSigOps then failV 100 ''bad-blk-sigops''
      else if \<not> ns_IsInitialBlockDownload ns \<and> fSaplingMaintenance \<and> IsShieldedTx tx then failV 100 []
      else if IsCoinBase tx then okV (st\<lparr>cb_nSigOps := nSigOps\<rparr>)
      else let (have_inputs, v1) = HaveInputs (cb_view st) tx in
        if \<not> have_inputs then failV 100 ''bad-txns-inputs-missingorspent''
        else let (shielded, v2) = HaveShieldedRequirements v1 tx in
          if \<not> shielded then failV 100 ''bad-txns-sapling-requirements-not-met''
          else let (p2sh, v3) = GetP2SHSigOpCount v2 tx; nSigOps' = (nSigOps + p2sh) mod 2 ^ 32 in
            if nSigOps' > nMaxBlockSigOps then failV 100 ''bad-blk-sigops''
            else okV (st\<lparr>cb_nSigOps := nSigOps', cb_view := v3\<rparr>))"

text \<open>The records of the inputs.\<close>

fun index_inputs ::
    "bool \<Rightarrow> bool \<Rightarrow> bool \<Rightarrow> int \<Rightarrow> nat \<Rightarrow> bytes \<Rightarrow> nat \<Rightarrow> CTxIn list \<Rightarrow> CCoinsView \<Rightarrow> index_batch \<Rightarrow> index_batch \<times> CCoinsView" where
  "index_inputs g fAddressIndex fSpentIndex height i txhash j [] view b = (b, view)"
| "index_inputs g fAddressIndex fSpentIndex height i txhash j (txin # rest) view b =
     (let (c, view') = AccessCoin view (prevout txin)
      in index_inputs g fAddressIndex fSpentIndex height i txhash (j + 1) rest view'
           (index_input g fAddressIndex fSpentIndex height i txhash j (prevout txin) (coin_out c) b))"

definition connect_flags :: script_flags where
  "connect_flags = SCRIPT_VERIFY_P2SH OR SCRIPT_VERIFY_DERSIG OR SCRIPT_VERIFY_CHECKLOCKTIMEVERIFY"

text \<open>Amounts, checks and records of the inputs of a transaction that spends coins.\<close>

definition connect_inputs ::
    "connect_env \<Rightarrow> node_state \<Rightarrow> int \<Rightarrow> bool \<Rightarrow> nat \<Rightarrow> CTransaction \<Rightarrow> connect_state \<Rightarrow> connect_state check" where
  "connect_inputs env ns height fScriptChecks i tx st =
     (if IsCoinBase tx \<or> ContainsAssets tx then okV st
      else
        case (if IsCoinStake tx then Some (cb_nFees st, cb_view st)
              else Option.bind (GetValueIn (cb_view st) tx) (\<lambda>(v, w). map_option (\<lambda>f. (f, w)) (add64 (cb_nFees st) v))) of
          None \<Rightarrow> None
        | Some (nFees, v1) \<Rightarrow>
            (case Option.bind (GetValueIn v1 tx) (\<lambda>(v, w). map_option (\<lambda>f. (f, w)) (add64 (cb_nValueIn st) v)) of
               None \<Rightarrow> None
             | Some (nValueIn, v2) \<Rightarrow>
                 (case CheckInputs env ns tx v2 fScriptChecks connect_flags of
                    None \<Rightarrow> None
                  | Some (Inl e, v3) \<Rightarrow> Some (Inl e)
                  | Some (Inr vChecks, v3) \<Rightarrow>
                      let (b, v4) = (if ns_fAddressIndex ns \<or> ce_fSpentIndex env
                                     then index_inputs (ns_newP2CSRules ns) (ns_fAddressIndex ns) (ce_fSpentIndex env) height i
                                            (CTransaction_GetHash tx) 0 (vin tx) v3 (cb_batch st)
                                     else (cb_batch st, v3))
                      in okV (st\<lparr>cb_nFees := nFees, cb_nValueIn := nValueIn, cb_checks := cb_checks st @ vChecks, cb_batch := b,
                              cb_view := v4\<rparr>))))"

text \<open>Amounts and records of the outputs, with the address index only; banned outputs are left out.\<close>

fun connect_outputs :: "connect_env \<Rightarrow> bool \<Rightarrow> int \<Rightarrow> nat \<Rightarrow> CTransaction \<Rightarrow> nat \<Rightarrow> CTxOut list \<Rightarrow> connect_state \<Rightarrow> connect_state option" where
  "connect_outputs env g height i tx k [] st = Some st"
| "connect_outputs env g height i tx k (out # rest) st =
     (let txhash = CTransaction_GetHash tx in
      if ce_invalid env \<lparr>outpoint_hash = txhash, outpoint_n = k\<rparr> then connect_outputs env g height i tx (k + 1) rest st
      else case add64 (cb_nValueOut st) (nValue out) of
             None \<Rightarrow> None
           | Some nValueOut \<Rightarrow>
               (case (if IsCoinStake tx then Some (cb_nFees st) else add64 (cb_nFees st) (- nValue out)) of
                  None \<Rightarrow> None
                | Some nFees \<Rightarrow>
                    connect_outputs env g height i tx (k + 1) rest
                      (st\<lparr>cb_nValueOut := nValueOut, cb_nFees := nFees, cb_batch := index_output g height i txhash k out (cb_batch st)\<rparr>)))"

fun append_notes :: "connect_env \<Rightarrow> OutputDescription list \<Rightarrow> IncrementalMerkleTree \<Rightarrow> IncrementalMerkleTree option" where
  "append_notes env [] tree = Some tree"
| "append_notes env (d # rest) tree =
     Option.bind (tree_append (ce_merkle_hash env) SAPLING_INCREMENTAL_MERKLE_TREE_DEPTH tree (od_cmu d)) (append_notes env rest)"

text \<open>The coins, the undo record, the tree of note commitments and the position in the block file.\<close>

definition connect_update :: "connect_env \<Rightarrow> node_state \<Rightarrow> int \<Rightarrow> nat \<Rightarrow> CTransaction \<Rightarrow> connect_state \<Rightarrow> connect_state option" where
  "connect_update env ns height i tx st =
     (case UpdateCoins (ce_invalid env) tx (cb_view st) (to_unsigned 32 height) (SkipInvalidUTXOS ns height) of
        None \<Rightarrow> None
      | Some (txundo, view) \<Rightarrow>
          (case (case sapData tx of Some d \<Rightarrow> if IsShieldedTx tx then append_notes env (vShieldedOutput d) (cb_tree st) else Some (cb_tree st)
                                  | None \<Rightarrow> Some (cb_tree st)) of
             None \<Rightarrow> None
           | Some tree \<Rightarrow>
               Some (st\<lparr>cb_view := view, cb_vtxundo := (if i > 0 then cb_vtxundo st @ [txundo] else cb_vtxundo st), cb_tree := tree,
                       cb_vPos := cb_vPos st @ [(CTransaction_GetHash tx, cb_pos st)],
                       cb_pos := (cb_pos st)\<lparr>dtp_nTxOffset := (dtp_nTxOffset (cb_pos st) + length (SerializeTransaction tx)) mod 2 ^ 32\<rparr>\<rparr>)))"

definition connect_tx ::
    "connect_env \<Rightarrow> node_state \<Rightarrow> int \<Rightarrow> bool \<Rightarrow> bool \<Rightarrow> nat \<Rightarrow> CTransaction \<Rightarrow> connect_state \<Rightarrow> connect_state check" where
  "connect_tx env ns height fScriptChecks fSaplingMaintenance i tx st =
     bindV (connect_require env ns fSaplingMaintenance tx st) (\<lambda>st1.
     bindV (connect_inputs env ns height fScriptChecks i tx st1) (\<lambda>st2.
       case (if ns_fAddressIndex ns then connect_outputs env (ns_newP2CSRules ns) height i tx 0 (vout tx) st2 else Some st2) of
         None \<Rightarrow> None
       | Some st3 \<Rightarrow>
           (case (if ContainsAssets tx then add64 (cb_nAssetValue st3) (GetMultiMiningSpend tx) else Some (cb_nAssetValue st3)) of
              None \<Rightarrow> None
            | Some nAssetValue \<Rightarrow> map_option Inr (connect_update env ns height i tx (st3\<lparr>cb_nAssetValue := nAssetValue\<rparr>)))))"

fun connect_txs ::
    "connect_env \<Rightarrow> node_state \<Rightarrow> int \<Rightarrow> bool \<Rightarrow> bool \<Rightarrow> nat \<Rightarrow> CTransaction list \<Rightarrow> connect_state \<Rightarrow> connect_state check" where
  "connect_txs env ns height fScriptChecks fSaplingMaintenance i [] st = okV st"
| "connect_txs env ns height fScriptChecks fSaplingMaintenance i (tx # txs) st =
     bindV (connect_tx env ns height fScriptChecks fSaplingMaintenance i tx st)
       (connect_txs env ns height fScriptChecks fSaplingMaintenance (i + 1) txs)"

section \<open>New coins\<close>

definition GetTotalBudget :: "CChainParams \<Rightarrow> int \<Rightarrow> int" where
  "GetTotalBudget params height = GetBlockValue params height sdiv 5 * nBudgetCycleBlocks (consensus params)"

text \<open>\<^verbatim>\<open>nExpectedValue\<close> is passed by reference; its new value is not used by the caller after an acceptance.\<close>

definition IsBlockValueValid :: "node_state \<Rightarrow> int \<Rightarrow> int \<Rightarrow> int \<Rightarrow> bool option" where
  "IsBlockValueValid ns height nExpectedValue nMinted =
     (if \<not> ns_IsSynced ns
      then if height smod nBudgetCycleBlocks (ns_consensus ns) < 100
           then if IsTestnet (ns_params ns) then Some True
                else map_option (\<lambda>e. nMinted \<le> e) (add64 nExpectedValue (GetTotalBudget (ns_params ns) height))
           else Some (nMinted \<le> nExpectedValue)
      else if ns_SPORK_13 ns
      then (case ns_GetExpectedPayeeAmount ns height of
              None \<Rightarrow> Some (nMinted \<le> nExpectedValue)
            | Some expectedPayAmount \<Rightarrow> map_option (\<lambda>e. nMinted \<le> e) (add64 nExpectedValue expectedPayAmount))
      else Some (nMinted \<le> nExpectedValue))"

text \<open>\<open>None\<close> stands for an overflow.\<close>

definition connect_mint :: "node_state \<Rightarrow> int \<Rightarrow> connect_state \<Rightarrow> bool option" where
  "connect_mint ns height st = do {
     let assetValidation = NetworkUpgradeActive (ns_consensus ns) height ACTIVATE_ASSET_VALIDATION;
     diff \<leftarrow> add64 (cb_nValueOut st) (- cb_nValueIn st);
     minted \<leftarrow> add64 diff (cb_nFees st);
     nMint \<leftarrow> add64 minted (if assetValidation then 0 else - cb_nAssetValue st);
     reward \<leftarrow> add64 (GetBlockValue (ns_params ns) height) (cb_nFees st);
     expected \<leftarrow> add64 reward (GetMasternodePayment (ns_params ns) height);
     nExpectedMint \<leftarrow> (if assetValidation then add64 expected (ns_GetSummaryAssetsToReward ns) else Some expected);
     IsBlockValueValid ns height nExpectedMint nMint
   }"

section \<open>Undo files\<close>

definition UNDOFILE_CHUNK_SIZE :: nat where "UNDOFILE_CHUNK_SIZE = 0x100000"

text \<open>The preallocation of a chunk of the file does not change what is read from it; sizes are 32-bit.\<close>

definition FindUndoPos :: "connect_env \<Rightarrow> int \<Rightarrow> nat \<Rightarrow> chain_db \<Rightarrow> (tx_error + CDiskBlockPos) \<times> chain_db" where
  "FindUndoPos env file nAddSize cd =
     (let pos = cd_nUndoSize cd file;
          nNewSize = (pos + nAddSize) mod 2 ^ 32;
          cd' = cd\<lparr>cd_nUndoSize := (cd_nUndoSize cd)(file := nNewSize), cd_setDirtyFileInfo := insert file (cd_setDirtyFileInfo cd)\<rparr>;
          nOldChunks = (pos + UNDOFILE_CHUNK_SIZE - 1) mod 2 ^ 32 div UNDOFILE_CHUNK_SIZE;
          nNewChunks = (nNewSize + UNDOFILE_CHUNK_SIZE - 1) mod 2 ^ 32 div UNDOFILE_CHUNK_SIZE
      in if nNewChunks > nOldChunks \<and> \<not> ce_CheckDiskSpace env (nNewChunks * UNDOFILE_CHUNK_SIZE - pos)
         then (Inl (DoS 0 ''out of disk space''), cd')
         else (Inr \<lparr>pos_nFile = file, pos_nPos = pos\<rparr>, cd'))"

text \<open>Writing into a file at a position beyond its end fills the gap with zeros.\<close>

definition file_write :: "bytes \<Rightarrow> nat \<Rightarrow> bytes \<Rightarrow> bytes" where
  "file_write file pos data = take pos (file @ replicate (pos - length file) 0) @ data @ drop (pos + length data) file"

definition undo_checksum :: "bytes \<Rightarrow> bytes \<Rightarrow> bytes" where
  "undo_checksum blockHash undo = Hash256 (blockHash @ undo)"

definition UndoWriteToDisk :: "connect_env \<Rightarrow> bytes \<Rightarrow> CDiskBlockPos \<Rightarrow> bytes \<Rightarrow> chain_db \<Rightarrow> CDiskBlockPos \<times> chain_db" where
  "UndoWriteToDisk env undo pos blockHash cd =
     (let header = ce_MessageStart env @ Serialize_uint32 (length undo mod 2 ^ 32);
          file = cd_undo_files cd (pos_nFile pos)
      in (pos\<lparr>pos_nPos := (pos_nPos pos + length header) mod 2 ^ 32\<rparr>,
          cd\<lparr>cd_undo_files := (cd_undo_files cd)(pos_nFile pos :=
                file_write file (pos_nPos pos) (header @ undo @ undo_checksum blockHash undo))\<rparr>))"

text \<open>The verifier hashes the bytes that the reader consumed.\<close>

definition UndoReadFromDisk :: "connect_env \<Rightarrow> CDiskBlockPos \<Rightarrow> bytes \<Rightarrow> chain_db \<Rightarrow> Coin list list option" where
  "UndoReadFromDisk env pos blockHash cd =
     (let s = drop (pos_nPos pos) (cd_undo_files cd (pos_nFile pos)) in do {
        (blockundo, s') \<leftarrow> Unserialize_CBlockUndo (ce_Decompress env) s;
        (hashChecksum, s'') \<leftarrow> stream_read 32 s';
        if hashChecksum \<noteq> undo_checksum blockHash (take (length s - length s') s) then None else Some blockundo
      })"

section \<open>ConnectBlock\<close>

fun run_checks :: "connect_env \<Rightarrow> bool \<Rightarrow> CScriptCheck list \<Rightarrow> bool option" where
  "run_checks env g [] = Some True"
| "run_checks env g (check # rest) =
     (case run_check env g check of None \<Rightarrow> None | Some False \<Rightarrow> Some False | Some True \<Rightarrow> run_checks env g rest)"

text \<open>Registrations of the block, without empty ones.\<close>

definition registrations :: "CBlock \<Rightarrow> CAssetRegistration list" where
  "registrations block = filter (\<lambda>reg. \<not> (list_all (\<lambda>c. c = 0) (reg_owner reg) \<or> list_all (\<lambda>c. c = 0) (reg_key reg))) (vReg block)"

text \<open>What is checked once the transactions are connected.\<close>

definition connect_verdict :: "connect_env \<Rightarrow> node_state \<Rightarrow> CBlock \<Rightarrow> int \<Rightarrow> connect_state \<Rightarrow> connect_state check" where
  "connect_verdict env ns block height st =
     (let st' = st\<lparr>cb_view := PushAnchor (ce_merkle_hash env) (cb_view st) (cb_tree st)\<rparr> in
      if NetworkUpgradeActive (ns_consensus ns) height ACTIVATE_HUSH \<and>
         hd_hashFinalSaplingRoot block \<noteq>
           tree_root (ce_merkle_hash env) PedersenHash_EmptyRoot (cb_tree st) SAPLING_INCREMENTAL_MERKLE_TREE_DEPTH []
      then failV 100 ''bad-sapling-root-in-block''
      else case connect_mint ns height st' of
             None \<Rightarrow> None
           | Some False \<Rightarrow> failV 100 ''bad-cb-amount''
           | Some True \<Rightarrow>
               if \<not> ns_IsInitialBlockDownload ns \<and> \<not> ns_IsBlockPayeeValid ns block height then failV 0 ''bad-cb-payee''
               else case run_checks env (ns_newP2CSRules ns) (cb_checks st') of
                      None \<Rightarrow> None
                    | Some False \<Rightarrow> failV 100 ''block-validation-failed''
                    | Some True \<Rightarrow> okV st')"

definition connect_checks ::
    "connect_env \<Rightarrow> node_state \<Rightarrow> CBlock \<Rightarrow> CBlockIndex \<Rightarrow> CCoinsView \<Rightarrow> connect_state check" where
  "connect_checks env ns block pindex view =
     (let height = nHeight pindex; consensus = ns_consensus ns; isPoSActive = NetworkUpgradeActive consensus height ACTIVATE_POS in
      if \<not> isPoSActive \<and> CBlock_IsProofOfStake block then failV 100 ''PoS-early''
      else if isPoSActive \<and> CBlock_IsProofOfWork block then failV 100 ''PoW-ended''
      else if (case nChainSaplingValue pindex of Some v \<Rightarrow> v < 0 | None \<Rightarrow> False)
      then failV 100 ''turnstile-violation-sapling-shielded-pool''
      else let (anchor, v1) = GetBestAnchor view; (sapling_tree, v2) = GetSaplingAnchorAt v1 anchor in
        case sapling_tree of
          None \<Rightarrow> None
        | Some tree \<Rightarrow>
            (case GetTotalBlocksEstimate ns of
               None \<Rightarrow> None
             | Some estimate \<Rightarrow>
                 bindV (connect_txs env ns height (height \<ge> estimate) (int (hd_nTime block) > ns_SPORK_20 ns) 0 (vtx block)
                    \<lparr>cb_view = v2, cb_nFees = 0, cb_nSigOps = 0, cb_nValueOut = 0, cb_nValueIn = 0, cb_nAssetValue = 0, cb_vtxundo = [],
                     cb_tree = tree, cb_batch = empty_batch, cb_vPos = [],
                     cb_pos = \<lparr>dtp_nFile = pos_nFile (GetBlockPos pindex), dtp_nPos = pos_nPos (GetBlockPos pindex),
                               dtp_nTxOffset = GetSizeOfCompactSize (length (vtx block))\<rparr>, cb_checks = []\<rparr>)
                    (connect_verdict env ns block height)))"

text \<open>The undo record is written once; then the entry of the block index is raised to the validity of its scripts.\<close>

definition write_undo ::
    "connect_env \<Rightarrow> CBlockIndex \<Rightarrow> bytes \<Rightarrow> Coin list list \<Rightarrow> chain_db \<Rightarrow> (CBlockIndex \<times> chain_db) check" where
  "write_undo env pindex hashPrevBlock vtxundo cd =
     (case (if pprev pindex = None then None else Serialize_CBlockUndo (ce_IsFullyValid env) vtxundo) of
        None \<Rightarrow> None
      | Some undo \<Rightarrow>
          (case FindUndoPos env (nFile pindex) (length undo + 40) cd of
             (Inl e, cd1) \<Rightarrow> Some (Inl e)
           | (Inr pos, cd1) \<Rightarrow>
               let (pos', cd2) = UndoWriteToDisk env undo pos hashPrevBlock cd1
               in okV (pindex\<lparr>nUndoPos := pos_nPos pos', nStatus := nStatus pindex OR BLOCK_HAVE_UNDO\<rparr>, cd2)))"

definition connect_undo ::
    "connect_env \<Rightarrow> ptr \<Rightarrow> CBlockIndex \<Rightarrow> bytes \<Rightarrow> Coin list list \<Rightarrow> chain_db \<Rightarrow> (CBlockIndex \<times> chain_db) check" where
  "connect_undo env p pindex hashPrevBlock vtxundo cd =
     (case CBlockIndex_IsValid pindex BLOCK_VALID_SCRIPTS of
        None \<Rightarrow> None
      | Some valid \<Rightarrow>
          if pos_nFile (GetUndoPos pindex) \<noteq> - 1 \<and> valid then okV (pindex, cd)
          else
            bindV (if pos_nFile (GetUndoPos pindex) = - 1 then write_undo env pindex hashPrevBlock vtxundo cd else okV (pindex, cd))
              (\<lambda>(pindex1, cd1).
                 case RaiseValidity pindex1 BLOCK_VALID_SCRIPTS of
                   None \<Rightarrow> None
                 | Some (pindex2, _) \<Rightarrow> okV (pindex2, cd1\<lparr>cd_setDirtyBlockIndex := insert p (cd_setDirtyBlockIndex cd1)\<rparr>)))"

definition connect_indexes :: "connect_env \<Rightarrow> node_state \<Rightarrow> CBlock \<Rightarrow> int \<Rightarrow> connect_state \<Rightarrow> chain_db \<Rightarrow> chain_db" where
  "connect_indexes env ns block height st cd =
     (let b = cb_batch st;
          db1 = (if ce_fTxIndex env then WriteTxIndex (cb_vPos st) (cd_blocktree cd) else cd_blocktree cd);
          identsKeys = map (\<lambda>reg. ((reg_type reg, reg_key reg),
                         \<lparr>aoi_type = PUBKEY_ADDRESS, aoi_hashBytes = reg_owner reg, aoi_blockHeight = height\<rparr>)) (registrations block);
          db2 = (if ns_fAddressIndex ns
                 then UpdateAddressDelegationUnspentIndex (ib_delegationUnspent b)
                        (WriteDelegationAddressIndex (ib_delegation b)
                          (WriteAddressIdentification identsKeys
                            (UpdateAddressUnspentIndex (ib_unspent b) (WriteAddressIndex (ce_invalid env) (ib_address b) db1))))
                 else db1);
          db3 = (if ce_fSpentIndex env then UpdateSpentIndex (ib_spent b) db2 else db2);
          events = (if ns_fAddressIndex ns then [SetAddressIndexList (ib_address b) False] else [])
      in cd\<lparr>cd_blocktree := db3, cd_events := cd_events cd @ events\<rparr>)"

definition connect_supply :: "CBlock \<Rightarrow> int \<Rightarrow> connect_state \<Rightarrow> chain_db \<Rightarrow> chain_db option" where
  "connect_supply block height st cd = do {
     diff \<leftarrow> add64 (cb_nValueOut st) (- cb_nValueIn st);
     newTotal \<leftarrow> add64 (cd_MoneySupply cd) diff;
     Some (cd\<lparr>cd_MoneySupply := newTotal, cd_supplyHeight := height,
              cd_blocktree := UpdateSupplyIndex height newTotal (cd_blocktree cd),
              cd_events := cd_events cd @ map RemoveRegistration (vReg block)\<rparr>)
   }"

definition ConnectBlock ::
    "connect_env \<Rightarrow> CBlock \<Rightarrow> ptr \<Rightarrow> bool \<Rightarrow> node_state \<times> CCoinsView \<times> chain_db \<Rightarrow> (node_state \<times> CCoinsView \<times> chain_db) check" where
  "ConnectBlock env block p fJustCheck = (\<lambda>(ns, view, cd).
     bindV (CheckBlock (ce_Verify env) ns block (\<not> fJustCheck) (\<not> fJustCheck) (\<not> fJustCheck)) (\<lambda>_.
       case ns_index ns p of
         None \<Rightarrow> None
       | Some pindex \<Rightarrow>
           (case (case pprev pindex of None \<Rightarrow> Some UINT256_ZERO | Some q \<Rightarrow> Option.bind (ns_index ns q) phashBlock) of
              None \<Rightarrow> None
            | Some hashPrevBlock \<Rightarrow>
                let (best, v1) = GetBestBlock view in
                if hashPrevBlock \<noteq> best then None
                else if CBlockHeader_GetHash block = hashGenesisBlock (ns_consensus ns)
                then if fJustCheck then okV (ns, v1, cd)
                     else map_option (\<lambda>h. Inr (ns, SetBestBlock v1 h, cd)) (phashBlock pindex)
                else bindV (connect_checks env ns block pindex v1) (\<lambda>st.
                  if fJustCheck then okV (ns, cb_view st, cd)
                  else bindV (connect_undo env p pindex hashPrevBlock (cb_vtxundo st) cd) (\<lambda>(pindex', cd1).
                    case connect_supply block (nHeight pindex) st (connect_indexes env ns block (nHeight pindex) st cd1) of
                      None \<Rightarrow> None
                    | Some cd2 \<Rightarrow>
                        map_option (\<lambda>h. Inr (ns\<lparr>ns_index := (ns_index ns)(p \<mapsto> pindex')\<rparr>, SetBestBlock (cb_view st) h, cd2))
                          (phashBlock pindex))))))"

section \<open>DisconnectBlock\<close>

record disconnect_state =
  db_view :: CCoinsView
  db_fClean :: bool
  db_nValueIn :: int
  db_nValueOut :: int
  db_nAssetValue :: int
  db_batch :: index_batch
  db_events :: "node_event list"

text \<open>The outputs are taken from the address index from the last one to the first.\<close>

definition unindex_outputs :: "bool \<Rightarrow> int \<Rightarrow> nat \<Rightarrow> bytes \<Rightarrow> CTxOut list \<Rightarrow> index_batch \<Rightarrow> index_batch" where
  "unindex_outputs g height i txhash outs b =
     foldr (\<lambda>(k, out) b. unindex_output g height i txhash k out b) (zip [0..<length outs] outs) b"

text \<open>The inputs with their undo coins, the last one first; the result says whether a restoration failed.\<close>

fun disconnect_inputs ::
    "connect_env \<Rightarrow> node_state \<Rightarrow> int \<Rightarrow> nat \<Rightarrow> bytes \<Rightarrow> (nat \<times> CTxIn \<times> Coin) list \<Rightarrow> disconnect_state \<Rightarrow> (bool \<times> disconnect_state) option" where
  "disconnect_inputs env ns height i txhash [] st = Some (True, st)"
| "disconnect_inputs env ns height i txhash ((j, txin, undo) # rest) st =
     (case ApplyTxInUndo undo (db_view st) (prevout txin) of
        None \<Rightarrow> None
      | Some (res, view) \<Rightarrow>
          if res = DISCONNECT_FAILED then Some (False, st\<lparr>db_view := view\<rparr>)
          else
            let (c, view') = (if ns_fAddressIndex ns then AccessCoin view (prevout txin) else (undo, view));
                st' = st\<lparr>db_view := view', db_fClean := db_fClean st \<and> res \<noteq> DISCONNECT_UNCLEAN,
                         db_batch := unindex_input (ns_newP2CSRules ns) (ns_fAddressIndex ns) (ce_fSpentIndex env) height i txhash j
                                       (prevout txin) (coin_out c) (int (coin_nHeight undo)) (db_batch st)\<rparr>
            in case (if ns_fAddressIndex ns then add64 (db_nValueIn st) (nValue (coin_out c)) else Some (db_nValueIn st)) of
                 None \<Rightarrow> None
               | Some nValueIn \<Rightarrow> disconnect_inputs env ns height i txhash rest (st'\<lparr>db_nValueIn := nValueIn\<rparr>))"

text \<open>\<open>None\<close> also stands for the exception of \<^verbatim>\<open>GetValueOut\<close> and for a missing undo record of the first transaction.\<close>

definition disconnect_tx ::
    "connect_env \<Rightarrow> node_state \<Rightarrow> int \<Rightarrow> nat \<Rightarrow> CTransaction \<Rightarrow> Coin list option \<Rightarrow> disconnect_state \<Rightarrow> (bool \<times> disconnect_state) option" where
  "disconnect_tx env ns height i tx txundo st = do {
     let hash = CTransaction_GetHash tx;
     let batch = (if ns_fAddressIndex ns then unindex_outputs (ns_newP2CSRules ns) height i hash (vout tx) (db_batch st) else db_batch st);
     let (fClean, view) = disconnect_outputs hash 0 (vout tx) (db_view st) (db_fClean st);
     let events = db_events st @ [RemoveByFeeTxId hash] @
           (if ContainsAssets tx \<and> \<not> ce_fVerifyingBlocks env then [EraseHistoryRecord height] else []);
     valueOut \<leftarrow> GetValueOut tx;
     nValueOut \<leftarrow> add64 (db_nValueOut st) valueOut;
     nAssetValue \<leftarrow> (if ContainsAssets tx then add64 (db_nAssetValue st) (GetMultiMiningSpend tx) else Some (db_nAssetValue st));
     let st' = st\<lparr>db_view := view, db_fClean := fClean, db_batch := batch, db_events := events, db_nValueOut := nValueOut,
                  db_nAssetValue := nAssetValue\<rparr>;
     if IsCoinBase tx \<or> ContainsAssets tx then Some (True, st')
     else do {
       vprevout \<leftarrow> txundo;
       if length vprevout \<noteq> length (vin tx) then Some (False, st')
       else disconnect_inputs env ns height i hash (rev (zip [0..<length (vin tx)] (zip (vin tx) vprevout))) st'
     }
   }"

fun disconnect_txs ::
    "connect_env \<Rightarrow> node_state \<Rightarrow> int \<Rightarrow> (nat \<times> CTransaction \<times> Coin list option) list \<Rightarrow> disconnect_state \<Rightarrow> (bool \<times> disconnect_state) option" where
  "disconnect_txs env ns height [] st = Some (True, st)"
| "disconnect_txs env ns height ((i, tx, txundo) # rest) st =
     (case disconnect_tx env ns height i tx txundo st of
        None \<Rightarrow> None
      | Some (ok, st') \<Rightarrow> if ok then disconnect_txs env ns height rest st' else Some (False, st'))"

definition disconnect_indexes :: "connect_env \<Rightarrow> node_state \<Rightarrow> CBlock \<Rightarrow> disconnect_state \<Rightarrow> chain_db \<Rightarrow> chain_db" where
  "disconnect_indexes env ns block st cd =
     (let b = db_batch st;
          db1 = (if ce_fSpentIndex env then UpdateSpentIndex (ib_spent b) (cd_blocktree cd) else cd_blocktree cd);
          db2 = (if ns_fAddressIndex ns
                 then EraseAddressIdentification (map (\<lambda>reg. (reg_type reg, reg_key reg)) (registrations block))
                        (UpdateAddressDelegationUnspentIndex (ib_delegationUnspent b)
                          (UpdateAddressUnspentIndex (ib_unspent b)
                            (EraseAddressDelegationIndex (ib_delegation b) (EraseAddressIndex (ib_address b) db1))))
                 else db1)
      in cd\<lparr>cd_blocktree := db2,
            cd_events := cd_events cd @ db_events st @ (if ns_fAddressIndex ns then [SetAddressIndexList (ib_address b) False] else [])\<rparr>)"

definition DisconnectBlock ::
    "connect_env \<Rightarrow> CBlock \<Rightarrow> ptr \<Rightarrow> node_state \<Rightarrow> CCoinsView \<Rightarrow> chain_db \<Rightarrow> (DisconnectResult \<times> CCoinsView \<times> chain_db) option" where
  "DisconnectBlock env block p ns view cd =
     (case ns_index ns p of
        None \<Rightarrow> None
      | Some pindex \<Rightarrow>
          if pos_nFile (GetUndoPos pindex) = - 1 then Some (DISCONNECT_FAILED, view, cd)
          else case Option.bind (Option.bind (pprev pindex) (ns_index ns)) (\<lambda>prev. map_option (\<lambda>h. (prev, h)) (phashBlock prev)) of
            None \<Rightarrow> None
          | Some (prev, hashPrev) \<Rightarrow>
              (case UndoReadFromDisk env (GetUndoPos pindex) hashPrev cd of
                 None \<Rightarrow> Some (DISCONNECT_FAILED, view, cd)
               | Some vtxundo \<Rightarrow>
                   if length vtxundo + 1 \<noteq> length (vtx block) then Some (DISCONNECT_FAILED, view, cd)
                   else do {
                     (ok, st) \<leftarrow> disconnect_txs env ns (nHeight pindex)
                       (rev (zip [0..<length (vtx block)] (zip (vtx block) (None # map Some vtxundo))))
                       \<lparr>db_view = view, db_fClean = True, db_nValueIn = 0, db_nValueOut = 0, db_nAssetValue = 0, db_batch = empty_batch,
                        db_events = []\<rparr>;
                     if \<not> ok then Some (DISCONNECT_FAILED, db_view st, cd\<lparr>cd_events := cd_events cd @ db_events st\<rparr>)
                     else do {
                       let cd1 = disconnect_indexes env ns block st cd;
                       diff \<leftarrow> add64 (db_nValueOut st) (- db_nValueIn st);
                       newTotal \<leftarrow> add64 (cd_MoneySupply cd) (- diff);
                       v1 \<leftarrow> PopAnchor (db_view st)
                         (if NetworkUpgradeActive (ns_consensus ns) (nHeight prev) ACTIVATE_HUSH then bi_hashFinalSaplingRoot prev else empty_root);
                       Some (if db_fClean st then DISCONNECT_OK else DISCONNECT_UNCLEAN, SetBestBlock v1 hashPrev,
                             cd1\<lparr>cd_MoneySupply := newTotal, cd_supplyHeight := nHeight prev,
                                 cd_blocktree := UpdateSupplyIndex (nHeight pindex) (- 1) (cd_blocktree cd1)\<rparr>)
                     }
                   }))"

section \<open>Lemmas\<close>

subsection \<open>Reading does not change what a view means\<close>

definition view_reads :: "CCoinsView \<Rightarrow> CCoinsView \<Rightarrow> bool" where
  "view_reads v w \<longleftrightarrow> view_ok w \<and> is_cache w \<and> same_view w v"

lemma view_reads_refl: "view_ok v \<Longrightarrow> is_cache v \<Longrightarrow> view_reads v v"
  by (simp add: view_reads_def)

lemma view_reads_trans: "view_reads v w \<Longrightarrow> view_reads w x \<Longrightarrow> view_reads v x"
  by (auto simp: view_reads_def same_view_def)

lemma view_readsD: "view_reads v w \<Longrightarrow> view_ok w" "view_reads v w \<Longrightarrow> is_cache w" "view_reads v w \<Longrightarrow> utxo w = utxo v"
  by (simp_all add: view_reads_def same_view_def)

lemma FetchCoin_is_cache: "is_cache (snd (FetchCoin c b p r))"
  by (auto simp: FetchCoin_def Let_def split: option.splits prod.splits)

lemma AccessCoin_reads:
  assumes "view_ok v" "is_cache v" "AccessCoin v p = (c, w)"
  shows "view_reads v w" "unspent c = utxo v p"
proof -
  have "is_cache w"
    using assms(2,3) by (cases v) (auto simp: AccessCoin_def case_prod_unfold Let_def FetchCoin_is_cache)
  then show "view_reads v w" "unspent c = utxo v p"
    using AccessCoin_ok [OF assms(1), of p] assms(3) by (auto simp: view_reads_def)
qed

lemma HaveInputs_reads:
  assumes "view_ok v" "is_cache v" "HaveInputs v tx = (b, w)"
  shows "view_reads v w" "\<not> IsCoinBase tx \<Longrightarrow> \<not> ContainsAssets tx \<Longrightarrow> b \<Longrightarrow> list_all (\<lambda>txin. utxo v (prevout txin) \<noteq> None) (vin tx)"
proof -
  have l: "view_ok v \<Longrightarrow> is_cache v \<Longrightarrow> HaveInputs_loop v ins = (b, w) \<Longrightarrow>
      is_cache w \<and> (b \<longrightarrow> list_all (\<lambda>txin. utxo v (prevout txin) \<noteq> None) ins)" for ins v
  proof (induction ins arbitrary: v)
    case (Cons txin ins)
    note h = HaveCoin_ok [OF Cons.prems(1,2), of "prevout txin"]
    note i = Cons.IH [OF coins_stepD(1) [OF h(2)] h(3)]
    show ?case
      using h Cons.prems(3) i coins_stepD(2) [OF h(2)] by (auto simp: case_prod_unfold Let_def split: if_splits)
  qed auto
  then have "is_cache w"
    using assms by (auto simp: HaveInputs_def split: if_splits)
  then show "view_reads v w"
    using HaveInputs_view [OF assms(1,2), of tx] assms(3) by (simp add: view_reads_def)
  show "\<not> IsCoinBase tx \<Longrightarrow> \<not> ContainsAssets tx \<Longrightarrow> b \<Longrightarrow> list_all (\<lambda>txin. utxo v (prevout txin) \<noteq> None) (vin tx)"
    using l [OF assms(1,2)] assms(3) by (auto simp: HaveInputs_def)
qed

lemma GetNullifier_is_cache: "is_cache (snd (GetNullifier v nf)) \<longleftrightarrow> is_cache v"
  by (cases v) (auto simp: case_prod_unfold Let_def split: option.splits)

lemma GetSaplingAnchorAt_is_cache: "is_cache (snd (GetSaplingAnchorAt v rt)) \<longleftrightarrow> is_cache v"
  by (cases v) (auto split: option.splits prod.splits)

lemma HaveShieldedRequirements_reads:
  assumes "view_ok v" "is_cache v" "HaveShieldedRequirements v tx = (b, w)"
  shows "view_reads v w"
proof -
  have "is_cache (snd (shielded_spends_ok ds v)) \<longleftrightarrow> is_cache v" for ds v
    by (induction ds arbitrary: v) (auto simp: case_prod_unfold Let_def GetNullifier_is_cache GetSaplingAnchorAt_is_cache)
  then show ?thesis
    using shielded_spends_view [OF assms(1)] assms
    by (auto simp: HaveShieldedRequirements_def view_reads_def case_prod_unfold split: option.splits if_splits) (metis snd_conv)+
qed

lemma GetP2SHSigOpCount_reads:
  assumes "view_ok v" "is_cache v" "GetP2SHSigOpCount v tx = (n, w)"
  shows "view_reads v w"
proof -
  have "view_ok v \<Longrightarrow> is_cache v \<Longrightarrow> GetP2SHSigOpCount_loop ins v a = (n, w) \<Longrightarrow> view_reads v w" for ins v a
  proof (induction ins arbitrary: v a)
    case (Cons txin ins)
    obtain c v' where a: "AccessCoin v (prevout txin) = (c, v')" by fastforce
    note r = AccessCoin_reads(1) [OF Cons.prems(1,2) a]
    show ?case
      using Cons.IH [OF view_readsD(1) [OF r] view_readsD(2) [OF r]] Cons.prems(3) a r by (auto simp: Let_def dest: view_reads_trans)
  qed (simp add: view_reads_refl)
  then show ?thesis
    using assms by (auto simp: GetP2SHSigOpCount_def view_reads_refl split: if_splits)
qed

lemma nValue_unspent: "unspent c = Some d \<Longrightarrow> c = d"
  by (auto simp: unspent_def split: if_splits)

lemma GetValueIn_reads:
  assumes "view_ok v" "is_cache v" "GetValueIn v tx = Some (n, w)" "\<not> IsCoinBase tx" "\<not> ContainsAssets tx"
    and "list_all (\<lambda>txin. utxo v (prevout txin) \<noteq> None) (vin tx)"
  shows "view_reads v w" "n = value_in (utxo v) (vin tx)"
proof -
  have "view_ok v \<Longrightarrow> is_cache v \<Longrightarrow> list_all (\<lambda>txin. utxo v (prevout txin) \<noteq> None) ins \<Longrightarrow> GetValueIn_loop ins v a = Some (n, w) \<Longrightarrow>
      view_reads v w \<and> n = a + value_in (utxo v) ins" for ins v a
  proof (induction ins arbitrary: v a)
    case (Cons txin ins)
    obtain c v' where a: "AccessCoin v (prevout txin) = (c, v')" by fastforce
    note r = AccessCoin_reads [OF Cons.prems(1,2) a]
    have "utxo v (prevout txin) = Some c"
      using r(2) Cons.prems(3) nValue_unspent by (cases "utxo v (prevout txin)") auto
    then show ?case
      using Cons.IH [OF view_readsD(1) [OF r(1)] view_readsD(2) [OF r(1)], of "a + nValue (coin_out c)"] Cons.prems(3,4) a r(1) view_readsD(3) [OF r(1)]
      by (auto simp: value_in_def add64_def Let_def split: if_splits dest: view_reads_trans)
  qed (simp add: view_reads_refl value_in_def)
  from this [OF assms(1,2,6), of 0] show "view_reads v w" "n = value_in (utxo v) (vin tx)"
    using assms by (auto simp: GetValueIn_def)
qed

lemma GetBestBlock_reads:
  assumes "view_ok v" "is_cache v" "GetBestBlock v = (h, w)"
  shows "view_reads v w"
proof -
  have "view_ok v \<Longrightarrow> view_ok (snd (GetBestBlock v)) \<and> same_view (snd (GetBestBlock v)) v \<and> (is_cache (snd (GetBestBlock v)) \<longleftrightarrow> is_cache v)" for v
  proof (induction v)
    case (CacheView c b)
    obtain h b' where g: "GetBestBlock b = (h, b')"
      by (cases "GetBestBlock b")
    then have b: "same_view b' b" "view_ok b'"
      using CacheView by auto
    note n = cache_same_base [OF b CacheView.prems]
    then have "same_view (CacheView (c\<lparr>hashBlock := h\<rparr>) b') (CacheView c b)"
      by (auto simp: same_view_def fun_eq_iff)
    then show ?case
      using g n(2) CacheView.prems by simp
  qed auto
  from this [OF assms(1)] show ?thesis using assms by (simp add: view_reads_def)
qed

subsection \<open>The steps of a transaction\<close>

definition spends :: "CTransaction \<Rightarrow> bool" where
  "spends tx \<longleftrightarrow> \<not> IsCoinBase tx \<and> \<not> ContainsAssets tx"

definition inputs_unspent :: "(COutPoint \<Rightarrow> Coin option) \<Rightarrow> CTransaction \<Rightarrow> bool" where
  "inputs_unspent u tx \<longleftrightarrow> (spends tx \<longrightarrow> list_all (\<lambda>txin. u (prevout txin) \<noteq> None) (vin tx))"

lemma bindV_ok: "bindV m f = okV y \<longleftrightarrow> (\<exists>x. m = okV x \<and> f x = okV y)"
  by (auto simp: bindV_def split: option.splits sum.splits)

lemma connect_require_ok:
  assumes "connect_require env ns m tx st = okV st1" "view_ok (cb_view st)" "is_cache (cb_view st)"
  obtains n w where "st1 = st\<lparr>cb_nSigOps := n, cb_view := w\<rparr>" "view_reads (cb_view st) w" "inputs_unspent (utxo (cb_view st)) tx"
proof (cases "IsCoinBase tx")
  case True
  then show thesis
    using assms(1) that [where w = "cb_view st"] view_reads_refl [OF assms(2,3)]
    by (auto simp: connect_require_def Let_def inputs_unspent_def spends_def split: if_splits)
next
  case False
  obtain b1 v1 where 1: "HaveInputs (cb_view st) tx = (b1, v1)" by fastforce
  obtain b2 v2 where 2: "HaveShieldedRequirements v1 tx = (b2, v2)" by fastforce
  obtain n v3 where 3: "GetP2SHSigOpCount v2 tx = (n, v3)" by fastforce
  note r1 = HaveInputs_reads [OF assms(2,3) 1]
  note r2 = HaveShieldedRequirements_reads [OF view_readsD(1) [OF r1(1)] view_readsD(2) [OF r1(1)] 2]
  note r3 = GetP2SHSigOpCount_reads [OF view_readsD(1) [OF r2] view_readsD(2) [OF r2] 3]
  have b: "b1" "st1 = st\<lparr>cb_nSigOps := cb_nSigOps st1, cb_view := v3\<rparr>"
    using assms(1) False 1 2 3 by (auto simp: connect_require_def Let_def split: if_splits)
  show thesis
    using that [OF b(2)] view_reads_trans [OF view_reads_trans [OF r1(1) r2] r3] r1(2) b(1) by (simp add: inputs_unspent_def spends_def)
qed

lemma CheckInputs_loop_reads:
  "view_ok v \<Longrightarrow> is_cache v \<Longrightarrow> CheckInputs_loop env g flags tx i ins v checks = Some (Inr checks', w) \<Longrightarrow> view_reads v w"
proof (induction ins arbitrary: v i checks)
  case (Cons txin ins)
  obtain c v' where a: "AccessCoin v (prevout txin) = (c, v')" by fastforce
  note r = AccessCoin_reads(1) [OF Cons.prems(1,2) a]
  show ?case
    using Cons.IH [OF view_readsD(1) [OF r] view_readsD(2) [OF r]] Cons.prems(3) a r
    by (auto simp: Let_def split: if_splits option.splits bool.splits dest: view_reads_trans)
qed (simp add: view_reads_refl)

lemma CheckTxInputs_reads:
  assumes "view_ok v" "is_cache v" "CheckTxInputs maxMoney maturity tx v h = Some (Inr (), w)"
  shows "view_reads v w"
proof -
  have l: "view_ok v \<Longrightarrow> is_cache v \<Longrightarrow> CheckTxInputs_loop maxMoney maturity h ins v a = Some (Inr n, w) \<Longrightarrow> view_reads v w" for ins v a n
  proof (induction ins arbitrary: v a)
    case (Cons txin ins)
    obtain c v' where a: "AccessCoin v (prevout txin) = (c, v')" by fastforce
    note r = AccessCoin_reads(1) [OF Cons.prems(1,2) a]
    show ?case
      using Cons.IH [OF view_readsD(1) [OF r] view_readsD(2) [OF r]] Cons.prems(3) a r
      by (auto simp: Let_def split: if_splits dest: view_reads_trans)
  qed (simp add: view_reads_refl)
  obtain b1 v1 where 1: "HaveInputs v tx = (b1, v1)" by fastforce
  obtain b2 v2 where 2: "HaveShieldedRequirements v1 tx = (b2, v2)" by fastforce
  note r1 = HaveInputs_reads(1) [OF assms(1,2) 1]
  note r2 = HaveShieldedRequirements_reads [OF view_readsD(1) [OF r1] view_readsD(2) [OF r1] 2]
  have "\<exists>n. CheckTxInputs_loop maxMoney maturity h (vin tx) v2 0 = Some (Inr n, w)"
    using assms(3) 1 2 by (auto simp: CheckTxInputs_def Let_def split: if_splits option.splits sum.splits)
  then show ?thesis
    using l [OF view_readsD(1) [OF r2] view_readsD(2) [OF r2]] r1 r2 by (blast intro: view_reads_trans)
qed

lemma CheckInputs_reads:
  assumes "view_ok v" "is_cache v" "CheckInputs env ns tx v fScriptChecks flags = Some (Inr checks, w)"
  shows "view_reads v w"
proof (cases "spends tx")
  case False
  then show ?thesis using assms by (auto simp: CheckInputs_def spends_def view_reads_refl)
next
  case True
  obtain h v1 where 1: "GetBestBlock v = (h, v1)" by fastforce
  note r1 = GetBestBlock_reads [OF assms(1,2) 1]
  obtain sh v2 where 2: "CheckTxInputs (nMaxMoneyOut (ns_consensus ns)) (nCoinbaseMaturity (ns_consensus ns)) tx v1 sh = Some (Inr (), v2)"
      "if fScriptChecks then CheckInputs_loop env (ns_newP2CSRules ns) flags tx 0 (vin tx) v2 [] = Some (Inr checks, w) else w = v2"
    using assms(3) 1 True by (auto simp: CheckInputs_def GetSpendHeight_def spends_def split: if_splits option.splits sum.splits)
  note r2 = CheckTxInputs_reads [OF view_readsD(1) [OF r1] view_readsD(2) [OF r1] 2(1)]
  show ?thesis
    using CheckInputs_loop_reads [OF view_readsD(1) [OF r2] view_readsD(2) [OF r2]] 2(2) view_reads_trans [OF r1 r2] view_reads_trans
    by (metis (full_types))
qed

lemma index_inputs_ok:
  "view_ok v \<Longrightarrow> is_cache v \<Longrightarrow> list_all (\<lambda>txin. utxo v (prevout txin) \<noteq> None) ins \<Longrightarrow>
   index_inputs g fAddressIndex fSpentIndex height i txhash j ins v b = (b', w) \<Longrightarrow>
   view_reads v w \<and> (fAddressIndex \<longrightarrow>
     ib_unspent b' = ib_unspent b @ input_batch (unspent_entry g) CAddressUnspentValue_SetNull (utxo v) ins \<and>
     ib_delegationUnspent b' = ib_delegationUnspent b @ input_batch (delegation_entry g) CAddressUnspentValue_SetNull (utxo v) ins)"
proof (induction ins arbitrary: v j b)
  case (Cons txin ins)
  obtain c v' where a: "AccessCoin v (prevout txin) = (c, v')" by fastforce
  note r = AccessCoin_reads [OF Cons.prems(1,2) a]
  have c: "utxo v (prevout txin) = Some c"
    using r(2) Cons.prems(3) nValue_unspent by (cases "utxo v (prevout txin)") auto
  let ?b = "index_input g fAddressIndex fSpentIndex height i txhash j (prevout txin) (coin_out c) b"
  have "index_inputs g fAddressIndex fSpentIndex height i txhash (j + 1) ins v' ?b = (b', w)"
    using Cons.prems(4) a by simp
  from Cons.IH [OF view_readsD(1) [OF r(1)] view_readsD(2) [OF r(1)] _ this] show ?case
    using Cons.prems(3) c view_readsD(3) [OF r(1)] view_reads_trans [OF r(1)]
    by (auto simp: input_batch_def ib_unspent_index_input)
qed (simp add: view_reads_refl input_batch_def)

lemma add64_Some: "add64 a b = Some c \<Longrightarrow> c = a + b"
  by (simp add: add64_def split: if_splits)

lemma connect_inputs_ok:
  assumes "connect_inputs env ns height sc i tx st = okV st1" "view_ok (cb_view st)" "is_cache (cb_view st)"
    and "inputs_unspent (utxo (cb_view st)) tx"
  obtains f c b w where
    "st1 = st\<lparr>cb_nFees := f, cb_nValueIn := cb_nValueIn st + (if spends tx then value_in (utxo (cb_view st)) (vin tx) else 0),
        cb_checks := c, cb_batch := b, cb_view := w\<rparr>" "view_reads (cb_view st) w"
    "ns_fAddressIndex ns \<Longrightarrow> ib_unspent b = ib_unspent (cb_batch st) @
       (if spends tx then input_batch (unspent_entry (ns_newP2CSRules ns)) CAddressUnspentValue_SetNull (utxo (cb_view st)) (vin tx) else [])"
    "ns_fAddressIndex ns \<Longrightarrow> ib_delegationUnspent b = ib_delegationUnspent (cb_batch st) @
       (if spends tx then input_batch (delegation_entry (ns_newP2CSRules ns)) CAddressUnspentValue_SetNull (utxo (cb_view st)) (vin tx) else [])"
proof (cases "spends tx")
  case False
  then show thesis
    using assms(1) that [where f = "cb_nFees st" and c = "cb_checks st" and b = "cb_batch st" and w = "cb_view st"] view_reads_refl [OF assms(2,3)]
    by (auto simp: connect_inputs_def spends_def)
next
  case True
  let ?v = "cb_view st"
  have n: "\<not> IsCoinBase tx" "\<not> ContainsAssets tx" "list_all (\<lambda>txin. utxo ?v (prevout txin) \<noteq> None) (vin tx)"
    using True assms(4) by (auto simp: spends_def inputs_unspent_def)
  obtain f v1 where 1: "(if IsCoinStake tx then Some (cb_nFees st, ?v)
        else Option.bind (GetValueIn ?v tx) (\<lambda>(v, w). map_option (\<lambda>f. (f, w)) (add64 (cb_nFees st) v))) = Some (f, v1)"
    using assms(1) n(1,2) by (auto simp: connect_inputs_def split: option.splits if_splits)
  have r1: "view_reads ?v v1"
    using 1 GetValueIn_reads(1) [OF assms(2,3) _ n] view_reads_refl [OF assms(2,3)] by (auto simp: bind_eq_Some_conv split: if_splits)
  obtain vi a v2 where 2: "GetValueIn v1 tx = Some (a, v2)" "add64 (cb_nValueIn st) a = Some vi"
    using assms(1) n(1,2) 1 by (auto simp: connect_inputs_def bind_eq_Some_conv split: option.splits bind_splits)
  note r2 = GetValueIn_reads [OF view_readsD(1) [OF r1] view_readsD(2) [OF r1] 2(1) n(1,2), unfolded view_readsD(3) [OF r1], OF n(3)]
  obtain ch v3 where 3: "CheckInputs env ns tx v2 sc connect_flags = Some (Inr ch, v3)"
    using assms(1) n(1,2) 1 2 by (auto simp: connect_inputs_def split: option.splits sum.splits)
  note r3 = CheckInputs_reads [OF view_readsD(1) [OF r2(1)] view_readsD(2) [OF r2(1)] 3]
  obtain b w where 4: "(if ns_fAddressIndex ns \<or> ce_fSpentIndex env
       then index_inputs (ns_newP2CSRules ns) (ns_fAddressIndex ns) (ce_fSpentIndex env) height i (CTransaction_GetHash tx) 0 (vin tx) v3 (cb_batch st)
       else (cb_batch st, v3)) = (b, w)" by fastforce
  have u: "utxo v3 = utxo ?v"
    using view_readsD(3) [OF r3] view_readsD(3) [OF r2(1)] view_readsD(3) [OF r1] by simp
  have "list_all (\<lambda>txin. utxo v3 (prevout txin) \<noteq> None) (vin tx)"
    using n(3) unfolding u .
  note x = index_inputs_ok [OF view_readsD(1) [OF r3] view_readsD(2) [OF r3] this]
  have r4: "view_reads v3 w"
    using 4 x view_reads_refl [OF view_readsD(1) [OF r3] view_readsD(2) [OF r3]] by (auto split: if_splits)
  have e: "st1 = st\<lparr>cb_nFees := f, cb_nValueIn := vi, cb_checks := cb_checks st @ ch, cb_batch := b, cb_view := w\<rparr>"
    using assms(1) n(1,2) 1 2 3 4 by (simp add: connect_inputs_def)
  have "vi = cb_nValueIn st + value_in (utxo ?v) (vin tx)"
    using add64_Some [OF 2(2)] r2(2) by simp
  moreover have "view_reads ?v w"
    using view_reads_trans [OF view_reads_trans [OF view_reads_trans [OF r1 r2(1)] r3] r4] .
  moreover have "ns_fAddressIndex ns \<Longrightarrow> ib_unspent b = ib_unspent (cb_batch st) @
        input_batch (unspent_entry (ns_newP2CSRules ns)) CAddressUnspentValue_SetNull (utxo ?v) (vin tx) \<and>
      ib_delegationUnspent b = ib_delegationUnspent (cb_batch st) @
        input_batch (delegation_entry (ns_newP2CSRules ns)) CAddressUnspentValue_SetNull (utxo ?v) (vin tx)"
    using 4 x unfolding u by simp
  ultimately show thesis
    using that [where f = f and c = "cb_checks st @ ch" and b = b and w = w] e True by simp
qed

lemma connect_outputs_ok:
  "connect_outputs env g (int h) i tx k outs st = Some st1 \<Longrightarrow>
   (\<And>j. j < length outs \<Longrightarrow> \<not> ce_invalid env \<lparr>outpoint_hash = CTransaction_GetHash tx, outpoint_n = k + j\<rparr>) \<Longrightarrow>
   \<exists>f b. st1 = st\<lparr>cb_nValueOut := cb_nValueOut st + sum_list (map nValue outs), cb_nFees := f, cb_batch := b\<rparr> \<and>
     ib_unspent b = ib_unspent (cb_batch st) @ output_batch (unspent_entry g) (CTransaction_GetHash tx) h cb cs k outs \<and>
     ib_delegationUnspent b = ib_delegationUnspent (cb_batch st) @ output_batch (delegation_entry g) (CTransaction_GetHash tx) h cb cs k outs"
proof (induction outs arbitrary: k st)
  case Nil
  then show ?case by (intro exI [of _ "cb_nFees st"] exI [of _ "cb_batch st"]) simp
next
  case (Cons out outs)
  let ?b = "index_output g (int h) i (CTransaction_GetHash tx) k out (cb_batch st)"
  let ?c = "\<lparr>fCoinBase = cb, fCoinStake = cs, coin_out = out, coin_nHeight = h\<rparr>"
  have "\<not> ce_invalid env \<lparr>outpoint_hash = CTransaction_GetHash tx, outpoint_n = k\<rparr>"
    using Cons.prems(2) [of 0] by simp
  then obtain o1 f where 1: "add64 (cb_nValueOut st) (nValue out) = Some o1"
      "connect_outputs env g (int h) i tx (k + 1) outs (st\<lparr>cb_nValueOut := o1, cb_nFees := f, cb_batch := ?b\<rparr>) = Some st1"
    using Cons.prems(1) by (auto simp: Let_def split: option.splits if_splits)
  have "\<not> ce_invalid env \<lparr>outpoint_hash = CTransaction_GetHash tx, outpoint_n = k + 1 + j\<rparr>" if "j < length outs" for j
    using Cons.prems(2) [of "Suc j"] that by simp
  from Cons.IH [OF 1(2) this] obtain f' b where 2: "st1 = st\<lparr>cb_nValueOut := o1 + sum_list (map nValue outs), cb_nFees := f', cb_batch := b\<rparr>"
      "ib_unspent b = ib_unspent ?b @ output_batch (unspent_entry g) (CTransaction_GetHash tx) h cb cs (k + 1) outs"
      "ib_delegationUnspent b = ib_delegationUnspent ?b @ output_batch (delegation_entry g) (CTransaction_GetHash tx) h cb cs (k + 1) outs"
    by auto
  show ?case
    using 2 add64_Some [OF 1(1)] ib_unspent_index_output [of ?c out "int h" g i "CTransaction_GetHash tx" k "cb_batch st"]
    by (intro exI [of _ f'] exI [of _ b]) (simp add: add.assoc)
qed

subsection \<open>The transactions of a block\<close>

text \<open>What the checks of a transaction on its own guarantee.\<close>

definition tx_shape :: "CTransaction \<Rightarrow> bool" where
  "tx_shape tx \<longleftrightarrow> distinct (map prevout (vin tx)) \<and> list_all (\<lambda>o1. 0 \<le> nValue o1) (vout tx)"

text \<open>No transaction has an output that is unspent already, nor a banned one.\<close>

fun block_fresh :: "(COutPoint \<Rightarrow> bool) \<Rightarrow> nat \<Rightarrow> (COutPoint \<Rightarrow> Coin option) \<Rightarrow> CTransaction list \<Rightarrow> bool" where
  "block_fresh invalid h u [] = True"
| "block_fresh invalid h u (tx # txs) \<longleftrightarrow>
     list_all (\<lambda>i. let p = \<lparr>outpoint_hash = CTransaction_GetHash tx, outpoint_n = i\<rparr> in u p = None \<and> \<not> invalid p) [0..<length (vout tx)] \<and>
     block_fresh invalid h (apply_tx h u tx) txs"

fun block_value_in :: "nat \<Rightarrow> (COutPoint \<Rightarrow> Coin option) \<Rightarrow> CTransaction list \<Rightarrow> int" where
  "block_value_in h u [] = 0"
| "block_value_in h u (tx # txs) = (if spends tx then value_in u (vin tx) else 0) + block_value_in h (apply_tx h u tx) txs"

definition tx_value_out :: "CTransaction \<Rightarrow> int" where
  "tx_value_out tx = sum_list (map nValue (vout tx))"

fun block_batch ::
    "(COutPoint \<Rightarrow> Coin \<Rightarrow> ('k \<times> 'v) option) \<Rightarrow> 'v \<Rightarrow> nat \<Rightarrow> (COutPoint \<Rightarrow> Coin option) \<Rightarrow> CTransaction list \<Rightarrow> ('k \<times> 'v) list" where
  "block_batch entry nullv h u [] = []"
| "block_batch entry nullv h u (tx # txs) =
     (if spends tx then input_batch entry nullv u (vin tx) else []) @
     output_batch entry (CTransaction_GetHash tx) h (IsCoinBase tx) (IsCoinStake tx) 0 (vout tx) @
     block_batch entry nullv h (apply_tx h u tx) txs"

fun undos_of :: "nat \<Rightarrow> (COutPoint \<Rightarrow> Coin option) \<Rightarrow> CTransaction list \<Rightarrow> Coin list list \<Rightarrow> bool" where
  "undos_of h u [] [] = True"
| "undos_of h u (tx # txs) (undo # undos) = (undo_of u tx undo \<and> undos_of h (apply_tx h u tx) txs undos)"
| "undos_of h u _ _ = False"

definition connected :: "node_state \<Rightarrow> nat \<Rightarrow> nat \<Rightarrow> CTransaction list \<Rightarrow> connect_state \<Rightarrow> connect_state \<Rightarrow> bool" where
  "connected ns h i txs st st' \<longleftrightarrow>
     (let u = utxo (cb_view st); g = ns_newP2CSRules ns in
      coins_step (cb_view st) (cb_view st') (foldl (apply_tx h) u txs) \<and> is_cache (cb_view st') \<and>
      cb_nValueIn st' = cb_nValueIn st + block_value_in h u txs \<and>
      cb_nValueOut st' = cb_nValueOut st + (if ns_fAddressIndex ns then sum_list (map tx_value_out txs) else 0) \<and>
      cb_nAssetValue st' = cb_nAssetValue st + sum_list (map GetMultiMiningSpend (filter ContainsAssets txs)) \<and>
      (ns_fAddressIndex ns \<longrightarrow>
         ib_unspent (cb_batch st') = ib_unspent (cb_batch st) @ block_batch (unspent_entry g) CAddressUnspentValue_SetNull h u txs \<and>
         ib_delegationUnspent (cb_batch st') =
           ib_delegationUnspent (cb_batch st) @ block_batch (delegation_entry g) CAddressUnspentValue_SetNull h u txs) \<and>
      (\<exists>undos. undos_of h u txs undos \<and> cb_vtxundo st' = cb_vtxundo st @ (if i = 0 then tl undos else undos)))"

lemma tx_connectableI:
  assumes "tx_shape tx" "inputs_unspent u tx" "block_fresh invalid h u (tx # txs)"
  shows "tx_connectable invalid skip u tx"
  using assms
  by (auto simp: tx_connectable_def tx_shape_def inputs_unspent_def spends_def remove_inputs_def foldl_remove list_all_iff Let_def)

lemma case_option_Some: "(case m of None \<Rightarrow> None | Some x \<Rightarrow> f x) = Some y \<longleftrightarrow> (\<exists>x. m = Some x \<and> f x = Some y)"
  by (auto split: option.splits)

lemma connect_update_ok:
  assumes "connect_update env ns (int h) i tx st = Some st1" "view_ok (cb_view st)" "is_cache (cb_view st)" "h < 2 ^ 32"
    and "tx_connectable (ce_invalid env) (SkipInvalidUTXOS ns (int h)) (utxo (cb_view st)) tx"
  obtains pos vpos tree undo w where
    "st1 = st\<lparr>cb_view := w, cb_vtxundo := (if i > 0 then cb_vtxundo st @ [undo] else cb_vtxundo st), cb_tree := tree, cb_vPos := vpos,
        cb_pos := pos\<rparr>"
    "coins_step (cb_view st) w (apply_tx h (utxo (cb_view st)) tx)" "is_cache w" "undo_of (utxo (cb_view st)) tx undo"
proof -
  obtain undo w where u: "UpdateCoins (ce_invalid env) tx (cb_view st) h (SkipInvalidUTXOS ns (int h)) = Some (undo, w)"
      "coins_step (cb_view st) w (apply_tx h (utxo (cb_view st)) tx)" "is_cache w" "undo_of (utxo (cb_view st)) tx undo"
    using UpdateCoins_ok [OF assms(2,3,5), of h] by blast
  have "int h mod 2 ^ 32 = int h"
    using assms(4) by (intro mod_pos_pos_trivial) auto
  then have e: "to_unsigned 32 (int h) = h"
    by (simp add: to_unsigned_def)
  obtain tree vpos pos where "Some st1 = Some (st\<lparr>cb_view := w, cb_vtxundo := (if i > 0 then cb_vtxundo st @ [undo] else cb_vtxundo st),
      cb_tree := tree, cb_vPos := vpos, cb_pos := pos\<rparr>)"
    using assms(1) unfolding connect_update_def e u(1) option.case prod.case case_option_Some by metis
  then show thesis
    using u that by blast
qed

lemma connect_tx_ok:
  assumes "connect_tx env ns (int h) sc m i tx st = okV st1" "view_ok (cb_view st)" "is_cache (cb_view st)" "h < 2 ^ 32"
    and "tx_shape tx" "block_fresh (ce_invalid env) h (utxo (cb_view st)) (tx # txs)"
  shows "connected ns h i [tx] st st1 \<and> tx_connectable (ce_invalid env) (SkipInvalidUTXOS ns (int h)) (utxo (cb_view st)) tx"
proof -
  let ?u = "utxo (cb_view st)" and ?g = "ns_newP2CSRules ns"
  obtain s1 s2 s3 a where s: "connect_require env ns m tx st = okV s1" "connect_inputs env ns (int h) sc i tx s1 = okV s2"
      "(if ns_fAddressIndex ns then connect_outputs env ?g (int h) i tx 0 (vout tx) s2 else Some s2) = Some s3"
      "(if ContainsAssets tx then add64 (cb_nAssetValue s3) (GetMultiMiningSpend tx) else Some (cb_nAssetValue s3)) = Some a"
      "connect_update env ns (int h) i tx (s3\<lparr>cb_nAssetValue := a\<rparr>) = Some st1"
    using assms(1) by (auto simp only: connect_tx_def bindV_ok case_option_Some map_option_eq_Some Inl_Inr_False sum.inject)
  obtain n w1 where 1: "s1 = st\<lparr>cb_nSigOps := n, cb_view := w1\<rparr>" "view_reads (cb_view st) w1" "inputs_unspent ?u tx"
    using connect_require_ok [OF s(1) assms(2,3)] .
  have u1: "utxo (cb_view s1) = ?u" "view_ok (cb_view s1)" "is_cache (cb_view s1)"
    using 1(1) view_readsD [OF 1(2)] by simp_all
  obtain f c b w2 where 2: "s2 = s1\<lparr>cb_nFees := f, cb_nValueIn := cb_nValueIn s1 + (if spends tx then value_in ?u (vin tx) else 0),
        cb_checks := c, cb_batch := b, cb_view := w2\<rparr>" "view_reads (cb_view s1) w2"
      "ns_fAddressIndex ns \<Longrightarrow> ib_unspent b = ib_unspent (cb_batch s1) @
        (if spends tx then input_batch (unspent_entry ?g) CAddressUnspentValue_SetNull ?u (vin tx) else [])"
      "ns_fAddressIndex ns \<Longrightarrow> ib_delegationUnspent b = ib_delegationUnspent (cb_batch s1) @
        (if spends tx then input_batch (delegation_entry ?g) CAddressUnspentValue_SetNull ?u (vin tx) else [])"
    using connect_inputs_ok [OF s(2) u1(2,3), unfolded u1(1), OF 1(3)] by metis
  have inv: "\<not> ce_invalid env \<lparr>outpoint_hash = CTransaction_GetHash tx, outpoint_n = 0 + j\<rparr>" if "j < length (vout tx)" for j
    using assms(6) that by (simp add: list_all_iff Let_def)
  obtain f' b' where 3: "s3 = s2\<lparr>cb_nValueOut := cb_nValueOut s2 + (if ns_fAddressIndex ns then tx_value_out tx else 0), cb_nFees := f', cb_batch := b'\<rparr>"
      "ns_fAddressIndex ns \<Longrightarrow> ib_unspent b' = ib_unspent (cb_batch s2) @
        output_batch (unspent_entry ?g) (CTransaction_GetHash tx) h (IsCoinBase tx) (IsCoinStake tx) 0 (vout tx)"
      "ns_fAddressIndex ns \<Longrightarrow> ib_delegationUnspent b' = ib_delegationUnspent (cb_batch s2) @
        output_batch (delegation_entry ?g) (CTransaction_GetHash tx) h (IsCoinBase tx) (IsCoinStake tx) 0 (vout tx)"
  proof (cases "ns_fAddressIndex ns")
    case True
    then have "connect_outputs env ?g (int h) i tx 0 (vout tx) s2 = Some s3"
      using s(3) by simp
    from connect_outputs_ok [OF this inv, where cb = "IsCoinBase tx" and cs = "IsCoinStake tx"] show thesis
      using that True unfolding tx_value_out_def by auto
  next
    case False
    then show thesis
      using s(3) that [where f' = "cb_nFees s2" and b' = "cb_batch s2"] by simp
  qed
  have a: "a = cb_nAssetValue s3 + (if ContainsAssets tx then GetMultiMiningSpend tx else 0)"
    using s(4) by (auto dest: add64_Some split: if_splits)
  have v: "cb_view s3 = w2" "view_reads (cb_view st) w2"
    using 1 2 3 view_reads_trans [OF 1(2)] by simp_all
  have w3: "cb_view (s3\<lparr>cb_nAssetValue := a\<rparr>) = w2" "utxo w2 = ?u" "cb_vtxundo (s3\<lparr>cb_nAssetValue := a\<rparr>) = cb_vtxundo s3"
    using v view_readsD(3) by simp_all
  have t: "tx_connectable (ce_invalid env) (SkipInvalidUTXOS ns (int h)) ?u tx"
    using tx_connectableI [OF assms(5) 1(3) assms(6)] .
  obtain undo w tree vpos pos where 4: "st1 = s3\<lparr>cb_nAssetValue := a, cb_view := w,
        cb_vtxundo := (if i > 0 then cb_vtxundo s3 @ [undo] else cb_vtxundo s3), cb_tree := tree, cb_vPos := vpos, cb_pos := pos\<rparr>"
      "coins_step w2 w (apply_tx h ?u tx)" "is_cache w" "undo_of ?u tx undo"
    using connect_update_ok [OF s(5), unfolded w3, OF view_readsD(1,2) [OF v(2)] assms(4) t] .
  have "coins_step (cb_view st) w (apply_tx h ?u tx)"
    using 4(2) v(2) coins_step_trans [OF coins_step_same] by (auto simp: view_reads_def)
  then show ?thesis
    using t 1(1) 2 3 4(1,3,4) a by (auto simp: connected_def Let_def intro!: exI [of _ "[undo]"])
qed

lemma connected_Nil: "view_ok (cb_view st) \<Longrightarrow> is_cache (cb_view st) \<Longrightarrow> connected ns h i [] st st"
  by (auto simp: connected_def Let_def coins_step_same intro!: exI [of _ "[]"])

lemma undos_of_tl: "undos_of h u [tx] us \<Longrightarrow> undos_of h (apply_tx h u tx) txs vs \<Longrightarrow> undos_of h u (tx # txs) (us @ vs) \<and> length us = 1"
  by (cases us; cases "tl us") auto

lemma connected_Cons:
  assumes "connected ns h i [tx] st st1" "connected ns h (i + 1) txs st1 st2"
  shows "connected ns h i (tx # txs) st st2"
proof -
  let ?u = "utxo (cb_view st)"
  obtain us where us: "undos_of h ?u [tx] us" "cb_vtxundo st1 = cb_vtxundo st @ (if i = 0 then tl us else us)"
    using assms(1) by (auto simp: connected_def Let_def)
  have u1: "utxo (cb_view st1) = apply_tx h ?u tx"
    using assms(1) by (auto simp: connected_def Let_def dest: coins_stepD)
  obtain vs where vs: "undos_of h (apply_tx h ?u tx) txs vs" "cb_vtxundo st2 = cb_vtxundo st1 @ vs"
    using assms(2) u1 by (auto simp: connected_def Let_def)
  have "undos_of h ?u (tx # txs) (us @ vs)" "cb_vtxundo st2 = cb_vtxundo st @ (if i = 0 then tl (us @ vs) else us @ vs)"
    using undos_of_tl [OF us(1) vs(1)] us(2) vs(2) by (cases us; simp)+
  then have "\<exists>undos. undos_of h ?u (tx # txs) undos \<and> cb_vtxundo st2 = cb_vtxundo st @ (if i = 0 then tl undos else undos)"
    by blast
  moreover have "coins_step (cb_view st) (cb_view st2) (foldl (apply_tx h) ?u (tx # txs))"
    using assms u1 unfolding connected_def Let_def by (auto elim: coins_step_trans)
  ultimately show ?thesis
    using assms u1 unfolding connected_def Let_def by simp
qed

lemma connect_txs_ok:
  "connect_txs env ns (int h) sc m i txs st = okV st1 \<Longrightarrow> view_ok (cb_view st) \<Longrightarrow> is_cache (cb_view st) \<Longrightarrow> h < 2 ^ 32 \<Longrightarrow>
   list_all tx_shape txs \<Longrightarrow> block_fresh (ce_invalid env) h (utxo (cb_view st)) txs \<Longrightarrow>
   connected ns h i txs st st1 \<and> block_connectable (ce_invalid env) (SkipInvalidUTXOS ns (int h)) h (utxo (cb_view st)) txs"
proof (induction txs arbitrary: i st)
  case (Cons tx txs)
  obtain st' where s: "connect_tx env ns (int h) sc m i tx st = okV st'" "connect_txs env ns (int h) sc m (i + 1) txs st' = okV st1"
    using Cons.prems(1) by (auto simp: bindV_ok)
  have c: "connected ns h i [tx] st st'" "tx_connectable (ce_invalid env) (SkipInvalidUTXOS ns (int h)) (utxo (cb_view st)) tx"
    using connect_tx_ok [OF s(1) Cons.prems(2-4) _ Cons.prems(6)] Cons.prems(5) by simp_all
  then have v: "view_ok (cb_view st')" "is_cache (cb_view st')" "utxo (cb_view st') = apply_tx h (utxo (cb_view st)) tx"
    by (auto simp: connected_def Let_def dest: coins_stepD)
  show ?case
    using Cons.IH [OF s(2) v(1,2) Cons.prems(4)] Cons.prems(5,6) c connected_Cons [OF c(1)] by (auto simp: v(3))
qed (simp add: connected_Nil)

end
