(* ===== verification/Money_Supply.thy ===== *)
theory Money_Supply
  imports Connect_Block
begin

text \<open>
  The effects of connecting a block (\<^verbatim>\<open>ConnectBlock\<close> of \<^verbatim>\<open>src/validation.cpp\<close>) on the money supply, on the value of the
  unspent coins and on the indexes of unspent outputs, and a block on the regression test network as an example.
\<close>


section \<open>The value of the unspent coins\<close>

definition coins_total :: "(COutPoint \<Rightarrow> Coin option) \<Rightarrow> int" where
  "coins_total u = (\<Sum>p \<in> dom u. nValue (coin_out (the (u p))))"

lemma coins_total_upd:
  assumes "finite (dom u)" "u p = None"
  shows "coins_total (u(p \<mapsto> c)) = coins_total u + nValue (coin_out c)"
proof -
  have "(\<Sum>q \<in> dom u. nValue (coin_out (the ((u(p \<mapsto> c)) q)))) = coins_total u"
    unfolding coins_total_def by (rule sum.cong) (use assms(2) in auto)
  moreover have "p \<notin> dom u"
    using assms(2) by blast
  ultimately show ?thesis
    using assms(1) by (simp add: coins_total_def)
qed

lemma coins_total_add_outputs:
  "finite (dom u) \<Longrightarrow> list_all (\<lambda>o1. 0 \<le> nValue o1) outs \<Longrightarrow>
   (\<And>j. j < length outs \<Longrightarrow> u \<lparr>outpoint_hash = txid, outpoint_n = i + j\<rparr> = None) \<Longrightarrow>
   finite (dom (add_outputs txid h cb cs i outs u)) \<and> coins_total (add_outputs txid h cb cs i outs u) \<le> coins_total u + sum_list (map nValue outs)"
proof (induction outs arbitrary: i u)
  case (Cons out outs)
  let ?p = "\<lparr>outpoint_hash = txid, outpoint_n = i\<rparr>"
  let ?u = "if IsUnspendable (scriptPubKey out) then u else u(?p \<mapsto> \<lparr>fCoinBase = cb, fCoinStake = cs, coin_out = out, coin_nHeight = h\<rparr>)"
  have "u ?p = None"
    using Cons.prems(3) [of 0] by simp
  then have t: "finite (dom ?u)" "coins_total ?u \<le> coins_total u + nValue out"
    using Cons.prems(1,2) by (auto simp: coins_total_upd)
  have "?u \<lparr>outpoint_hash = txid, outpoint_n = (i + 1) + j\<rparr> = None" if "j < length outs" for j
    using Cons.prems(3) [of "Suc j"] that by simp
  from Cons.IH [OF t(1) _ this] show ?case
    using Cons.prems(2) t(2) by (simp del: fun_upd_apply)
qed simp

lemma coins_total_remove:
  assumes "finite (dom u)" "distinct (map prevout ins)" "list_all (\<lambda>txin. u (prevout txin) \<noteq> None) ins"
  shows "finite (dom (foldl (\<lambda>u txin. u(prevout txin := None)) u ins))"
    "coins_total (foldl (\<lambda>u txin. u(prevout txin := None)) u ins) = coins_total u - value_in u ins"
proof -
  let ?A = "prevout ` set ins" and ?v = "\<lambda>p. nValue (coin_out (the (u p)))"
  have A: "?A \<subseteq> dom u"
    using assms(3) by (auto simp: list_all_iff)
  have d: "dom (\<lambda>p. if p \<in> ?A then None else u p) = dom u - ?A"
    by (auto split: if_splits)
  show "finite (dom (foldl (\<lambda>u txin. u(prevout txin := None)) u ins))"
    using assms(1) by (simp add: foldl_remove d)
  have "value_in u ins = sum_list (map ?v (map prevout ins))"
    unfolding value_in_def map_map using assms(3)
    by (intro arg_cong [where f = sum_list] map_cong) (auto simp: list_all_iff split: option.splits)
  also have "\<dots> = sum ?v ?A"
    using sum_list_distinct_conv_sum_set [OF assms(2), of ?v] by simp
  finally have "sum ?v (dom u - ?A) = coins_total u - value_in u ins"
    using sum_diff [OF assms(1) A, of ?v] by (simp add: coins_total_def)
  moreover have "coins_total (\<lambda>p. if p \<in> ?A then None else u p) = sum ?v (dom u - ?A)"
    unfolding coins_total_def d by (rule sum.cong) auto
  ultimately show "coins_total (foldl (\<lambda>u txin. u(prevout txin := None)) u ins) = coins_total u - value_in u ins"
    by (simp add: foldl_remove)
qed

lemma coins_total_apply_tx:
  assumes "finite (dom u)" "tx_connectable invalid skip u tx"
  shows "finite (dom (apply_tx h u tx))"
    "coins_total (apply_tx h u tx) \<le> coins_total u - (if spends tx then value_in u (vin tx) else 0) + tx_value_out tx"
proof -
  have r: "finite (dom (remove_inputs tx u))" "coins_total (remove_inputs tx u) = coins_total u - (if spends tx then value_in u (vin tx) else 0)"
    using assms coins_total_remove [OF assms(1), of "vin tx"] by (auto simp: remove_inputs_def spends_def tx_connectable_def)
  have "list_all (\<lambda>o1. 0 \<le> nValue o1) (vout tx)"
    using assms(2) by (simp add: tx_connectable_def)
  from coins_total_add_outputs [OF r(1) this tx_connectable_outputs(1) [OF assms(2)]]
  show "finite (dom (apply_tx h u tx))"
    "coins_total (apply_tx h u tx) \<le> coins_total u - (if spends tx then value_in u (vin tx) else 0) + tx_value_out tx"
    by (auto simp: apply_tx_def r(2) tx_value_out_def)
qed

lemma coins_total_block:
  "finite (dom u) \<Longrightarrow> block_connectable invalid skip h u txs \<Longrightarrow>
   finite (dom (foldl (apply_tx h) u txs)) \<and>
   coins_total (foldl (apply_tx h) u txs) \<le> coins_total u + sum_list (map tx_value_out txs) - block_value_in h u txs"
proof (induction txs arbitrary: u)
  case (Cons tx txs)
  note t = coins_total_apply_tx [OF Cons.prems(1), of invalid skip tx h]
  show ?case
    using Cons.IH [OF t(1)] t(2) Cons.prems(2) by fastforce
qed simp

text \<open>What \<^verbatim>\<open>CheckBlock\<close> guarantees of the transactions.\<close>

lemma CheckTransaction_tx_shape:
  assumes "CheckTransaction maxm g h tx cold sap = Inr ()"
  shows "tx_shape tx"
proof -
  obtain v v' where "CheckTransaction_vout maxm g h tx cold (vout tx) v = Inr v'" "CheckTransaction_vin tx = Inr ()"
    using assms by (auto simp: CheckTransaction_def bindE_eq_Inr split: if_splits)
  then show ?thesis
    using CheckTransaction_vout_ok [of maxm g h tx cold "vout tx" v v'] has_duplicates_distinct [of "map prevout (vin tx)" "{}"]
    by (auto simp: tx_shape_def CheckTransaction_vin_def list_all_iff split: if_splits)
qed

lemma CheckBlock_tx_shape:
  assumes "CheckBlock Verify ns block pow mer sig = okV block'" "\<not> fChecked block"
  shows "list_all tx_shape (vtx block)"
proof -
  obtain cold sap where "CheckBlock_txs ns cold sap (vtx block) = okV ()"
    using CheckBlock_okE [OF assms] by metis
  then show ?thesis
    using CheckBlock_txsD CheckTransaction_tx_shape unfolding list_all_iff by blast
qed

section \<open>The block\<close>

lemma PushAnchor_utxo:
  assumes "view_ok v" "is_cache v"
  shows "view_ok (PushAnchor merkle_hash v tree)" "utxo (PushAnchor merkle_hash v tree) = utxo v"
  using PushAnchor_ok [OF assms, of merkle_hash tree] by (simp_all add: Let_def)

text \<open>
  The block extends the block at the tip of the view and is not the genesis block, has what \<^verbatim>\<open>CheckBlock\<close> guarantees if it
  is marked as checked, and has no output that is unspent already or banned.
\<close>

definition connect_context ::
    "connect_env \<Rightarrow> CBlock \<Rightarrow> ptr \<Rightarrow> node_state \<Rightarrow> CCoinsView \<Rightarrow> nat \<Rightarrow> bool" where
  "connect_context env block p ns view h \<longleftrightarrow>
     view_ok view \<and> is_cache view \<and> map_option nHeight (ns_index ns p) = Some (int h) \<and> h < 2 ^ 32 \<and>
     CBlockHeader_GetHash block \<noteq> hashGenesisBlock (ns_consensus ns) \<and> (fChecked block \<longrightarrow> list_all tx_shape (vtx block)) \<and>
     block_fresh (ce_invalid env) h (utxo view) (vtx block)"

text \<open>The state after the transactions of a block, when they are connected to a view.\<close>

definition connect_result :: "connect_env \<Rightarrow> node_state \<Rightarrow> nat \<Rightarrow> CTransaction list \<Rightarrow> CCoinsView \<Rightarrow> connect_state \<Rightarrow> bool" where
  "connect_result env ns h txs view st \<longleftrightarrow>
     view_ok (cb_view st) \<and> utxo (cb_view st) = foldl (apply_tx h) (utxo view) txs \<and>
     block_connectable (ce_invalid env) (SkipInvalidUTXOS ns (int h)) h (utxo view) txs \<and>
     cb_nValueIn st = block_value_in h (utxo view) txs \<and>
     cb_nValueOut st = (if ns_fAddressIndex ns then sum_list (map tx_value_out txs) else 0) \<and>
     cb_nAssetValue st = sum_list (map GetMultiMiningSpend (filter ContainsAssets txs)) \<and>
     (ns_fAddressIndex ns \<longrightarrow>
        ib_unspent (cb_batch st) = block_batch (unspent_entry (ns_newP2CSRules ns)) CAddressUnspentValue_SetNull h (utxo view) txs \<and>
        ib_delegationUnspent (cb_batch st) =
          block_batch (delegation_entry (ns_newP2CSRules ns)) CAddressUnspentValue_SetNull h (utxo view) txs) \<and>
     connect_mint ns (int h) st = Some True \<and>
     (\<exists>undos. undos_of h (utxo view) txs undos \<and> cb_vtxundo st = tl undos)"

lemma connect_verdict_ok:
  assumes "connect_verdict env ns block height st1 = okV st"
  shows "st = st1\<lparr>cb_view := PushAnchor (ce_merkle_hash env) (cb_view st1) (cb_tree st1)\<rparr>" "connect_mint ns height st = Some True"
  using assms unfolding connect_verdict_def Let_def by (auto split: if_splits option.splits bool.splits)

lemma connect_checks_ok:
  assumes "connect_checks env ns block pindex view = okV st" "nHeight pindex = int h" "h < 2 ^ 32" "view_ok view" "is_cache view"
    and "list_all tx_shape (vtx block)" "block_fresh (ce_invalid env) h (utxo view) (vtx block)"
  shows "connect_result env ns h (vtx block) view st"
proof -
  obtain anchor v1 where 1: "GetBestAnchor view = (anchor, v1)" by fastforce
  have r1: "view_reads view v1"
    using GetBestAnchor_ok [OF assms(4)] 1 assms(5) by (simp add: view_reads_def)
  obtain t v2 where 2: "GetSaplingAnchorAt v1 anchor = (t, v2)" by fastforce
  have r2: "view_reads view v2"
    using GetSaplingAnchorAt_ok [OF view_readsD(1) [OF r1], of anchor] GetSaplingAnchorAt_is_cache [of v1 anchor] 2 r1 view_readsD(2) [OF r1]
    by (intro view_reads_trans [OF r1]) (simp add: view_reads_def)
  obtain sc m st0 st1 where c: "connect_txs env ns (int h) sc m 0 (vtx block) st0 = okV st1" "cb_view st0 = v2" "cb_nValueIn st0 = 0"
      "cb_nValueOut st0 = 0" "cb_nAssetValue st0 = 0" "cb_batch st0 = empty_batch" "cb_vtxundo st0 = []"
      "st = st1\<lparr>cb_view := PushAnchor (ce_merkle_hash env) (cb_view st1) (cb_tree st1)\<rparr>" "connect_mint ns (int h) st = Some True"
  proof -
    obtain sc m st0 st1 where a: "connect_txs env ns (int h) sc m 0 (vtx block) st0 = okV st1" "cb_view st0 = v2" "cb_nValueIn st0 = 0"
        "cb_nValueOut st0 = 0" "cb_nAssetValue st0 = 0" "cb_batch st0 = empty_batch" "cb_vtxundo st0 = []"
        "connect_verdict env ns block (int h) st1 = okV st"
      using assms(1) unfolding connect_checks_def Let_def 1 2 prod.case assms(2)
      by (simp only: bindV_ok case_option_Some split: if_splits) force+
    show thesis
      using that [OF a(1-7)] connect_verdict_ok [OF a(8)] .
  qed
  note ok = connect_txs_ok [OF c(1), unfolded c(2), OF view_readsD(1,2) [OF r2] assms(3,6), unfolded view_readsD(3) [OF r2], OF assms(7)]
  then have v: "view_ok (cb_view st1)" "is_cache (cb_view st1)" "utxo (cb_view st1) = foldl (apply_tx h) (utxo view) (vtx block)"
    using view_readsD(3) [OF r2] by (auto simp: connected_def Let_def c(2) dest: coins_stepD)
  show ?thesis
    using ok c(2-9) PushAnchor_utxo [OF v(1,2)] v(3) view_readsD(3) [OF r2]
    by (simp add: connect_result_def connected_def Let_def empty_batch_def)
qed

lemma if_None_Some: "(if b then None else m) = Some y \<longleftrightarrow> \<not> b \<and> m = Some y"
  by simp

lemma ConnectBlock_ok:
  assumes "ConnectBlock env block p False (ns, view, cd) = okV (ns', view', cd')" "connect_context env block p ns view h"
  obtains pindex hp st pindex' cd1 hb where "ns_index ns p = Some pindex" "nHeight pindex = int h" "phashBlock pindex = Some hb"
    "(case pprev pindex of None \<Rightarrow> Some UINT256_ZERO | Some q \<Rightarrow> Option.bind (ns_index ns q) phashBlock) = Some hp"
    "connect_result env ns h (vtx block) view st" "connect_undo env p pindex hp (cb_vtxundo st) cd = okV (pindex', cd1)"
    "connect_supply block (int h) st (connect_indexes env ns block (int h) st cd1) = Some cd'"
    "ns' = ns\<lparr>ns_index := (ns_index ns)(p \<mapsto> pindex')\<rparr>" "view' = SetBestBlock (cb_view st) hb"
proof -
  note c = assms(2) [unfolded connect_context_def]
  obtain pindex where p: "ns_index ns p = Some pindex" "nHeight pindex = int h"
    using c by auto
  obtain best v1 where b: "GetBestBlock view = (best, v1)" by fastforce
  note r = GetBestBlock_reads [OF _ _ b]
  have g: "(CBlockHeader_GetHash block = hashGenesisBlock (ns_consensus ns)) = False"
    using c by simp
  obtain b0 hp st x cd2 hb where s: "CheckBlock (ce_Verify env) ns block True True True = okV b0"
      "(case pprev pindex of None \<Rightarrow> Some UINT256_ZERO | Some q \<Rightarrow> Option.bind (ns_index ns q) phashBlock) = Some hp"
      "connect_checks env ns block pindex v1 = okV st" "connect_undo env p pindex hp (cb_vtxundo st) cd = okV x"
      "connect_supply block (int h) st (connect_indexes env ns block (int h) st (snd x)) = Some cd2" "phashBlock pindex = Some hb"
      "(ns\<lparr>ns_index := (ns_index ns)(p \<mapsto> fst x)\<rparr>, SetBestBlock (cb_view st) hb, cd2) = (ns', view', cd')"
    using assms(1) unfolding ConnectBlock_def b p prod.case Let_def g if_False not_False_eq_True
    by (simp only: bindV_ok case_option_Some map_option_eq_Some case_prod_unfold option.case if_None_Some option.inject sum.inject p(2))
      (elim exE conjE; rule that; assumption?)
  have "list_all tx_shape (vtx block)"
    using CheckBlock_tx_shape [OF s(1)] c by blast
  then have "connect_result env ns h (vtx block) v1 st"
    using connect_checks_ok [OF s(3) p(2)] r c by (simp add: view_readsD)
  then have "connect_result env ns h (vtx block) view st"
    using view_readsD(3) [OF r] c by (simp add: connect_result_def)
  then show thesis
    using that [OF p s(6,2) _ _ _ _ _, of st "fst x" "snd x"] s(4,5,7) by simp
qed

section \<open>New coins\<close>

text \<open>What the budget may add to the reward of a block; nothing is checked while a test network synchronises.\<close>

definition budget_limit :: "node_state \<Rightarrow> int \<Rightarrow> int option" where
  "budget_limit ns height =
     (if \<not> ns_IsSynced ns
      then if height smod nBudgetCycleBlocks (ns_consensus ns) < 100
           then if IsTestnet (ns_params ns) then None else Some (GetTotalBudget (ns_params ns) height)
           else Some 0
      else if ns_SPORK_13 ns then Some (case ns_GetExpectedPayeeAmount ns height of None \<Rightarrow> 0 | Some amount \<Rightarrow> amount)
      else Some 0)"

text \<open>The coins a block may create: the reward, the payment of a masternode, the budget and the rewards of assets.\<close>

definition new_coins_limit :: "node_state \<Rightarrow> int \<Rightarrow> CTransaction list \<Rightarrow> int option" where
  "new_coins_limit ns height txs =
     map_option (\<lambda>budget. GetBlockValue (ns_params ns) height + GetMasternodePayment (ns_params ns) height + budget +
         (if NetworkUpgradeActive (ns_consensus ns) height ACTIVATE_ASSET_VALIDATION then ns_GetSummaryAssetsToReward ns
          else sum_list (map GetMultiMiningSpend (filter ContainsAssets txs))))
       (budget_limit ns height)"

lemma IsBlockValueValid_limit:
  assumes "IsBlockValueValid ns height e m = Some True" "budget_limit ns height = Some b"
  shows "m \<le> e + b"
  using assms by (auto simp: IsBlockValueValid_def budget_limit_def dest!: add64_Some split: if_splits option.splits)

lemma connect_mint_limit:
  assumes "connect_mint ns height st = Some True" "new_coins_limit ns height txs = Some l"
    and "cb_nAssetValue st = sum_list (map GetMultiMiningSpend (filter ContainsAssets txs))"
  shows "cb_nValueOut st - cb_nValueIn st \<le> l"
proof -
  let ?a = "NetworkUpgradeActive (ns_consensus ns) height ACTIVATE_ASSET_VALIDATION"
  obtain budget where b: "budget_limit ns height = Some budget"
      "l = GetBlockValue (ns_params ns) height + GetMasternodePayment (ns_params ns) height + budget +
        (if ?a then ns_GetSummaryAssetsToReward ns else cb_nAssetValue st)"
    using assms(2,3) by (auto simp: new_coins_limit_def)
  obtain m e where m: "IsBlockValueValid ns height e m = Some True"
      "m = cb_nValueOut st - cb_nValueIn st + cb_nFees st + (if ?a then 0 else - cb_nAssetValue st)"
      "e = GetBlockValue (ns_params ns) height + cb_nFees st + GetMasternodePayment (ns_params ns) height +
        (if ?a then ns_GetSummaryAssetsToReward ns else 0)"
    using assms(1) by (auto simp: connect_mint_def Let_def bind_eq_Some_conv dest!: add64_Some split: if_splits)
  show ?thesis
    using IsBlockValueValid_limit [OF m(1) b(1)] b(2) m(2,3) by (auto split: if_splits)
qed

lemma write_undo_ok:
  assumes "write_undo env pindex hp vtxundo cd = okV (pindex', cd')"
  obtains undo pos cd1 where "pprev pindex \<noteq> None" "Serialize_CBlockUndo (ce_IsFullyValid env) vtxundo = Some undo"
    "FindUndoPos env (nFile pindex) (length undo + 40) cd = (Inr pos, cd1)" "cd' = snd (UndoWriteToDisk env undo pos hp cd1)"
    "pindex' = pindex\<lparr>nUndoPos := pos_nPos (fst (UndoWriteToDisk env undo pos hp cd1)), nStatus := nStatus pindex OR BLOCK_HAVE_UNDO\<rparr>"
proof -
  obtain undo where u: "pprev pindex \<noteq> None" "Serialize_CBlockUndo (ce_IsFullyValid env) vtxundo = Some undo"
    using assms unfolding write_undo_def by (auto split: option.splits if_splits)
  obtain r cd1 where f: "FindUndoPos env (nFile pindex) (length undo + 40) cd = (r, cd1)" by fastforce
  obtain pos where "r = Inr pos"
    using assms f u by (cases r) (auto simp: write_undo_def)
  then show thesis
    using that [OF u] assms f u by (simp add: write_undo_def case_prod_unfold Let_def)
qed

lemma FindUndoPos_ok:
  assumes "FindUndoPos env file n cd = (Inr pos, cd1)"
  shows "pos = \<lparr>pos_nFile = file, pos_nPos = cd_nUndoSize cd file\<rparr>"
    "cd1 = cd\<lparr>cd_nUndoSize := (cd_nUndoSize cd)(file := (cd_nUndoSize cd file + n) mod 2 ^ 32),
      cd_setDirtyFileInfo := insert file (cd_setDirtyFileInfo cd)\<rparr>"
  using assms by (auto simp: FindUndoPos_def Let_def split: if_splits)

lemma connect_undo_fields:
  assumes "connect_undo env p pindex hp vtxundo cd = okV (pindex', cd')"
  shows "cd_blocktree cd' = cd_blocktree cd \<and> cd_MoneySupply cd' = cd_MoneySupply cd"
proof -
  have w: "cd_blocktree c' = cd_blocktree cd \<and> cd_MoneySupply c' = cd_MoneySupply cd"
    if wu: "write_undo env pindex hp vtxundo cd = okV (q, c')" for q c'
  proof -
    obtain undo pos cd1 where a: "FindUndoPos env (nFile pindex) (length undo + 40) cd = (Inr pos, cd1)" "c' = snd (UndoWriteToDisk env undo pos hp cd1)"
      using write_undo_ok [OF wu] by metis
    show ?thesis
      using FindUndoPos_ok(2) [OF a(1)] a(2) by (simp add: UndoWriteToDisk_def Let_def)
  qed
  show ?thesis
    using assms unfolding connect_undo_def by (auto simp: bindV_ok case_option_Some w split: if_splits prod.splits)
qed

lemma connect_indexes_fields:
  "cd_MoneySupply (connect_indexes env ns block height st cd) = cd_MoneySupply cd"
  by (simp add: connect_indexes_def Let_def)

section \<open>The indexes of unspent outputs\<close>

text \<open>No output that can not be spent has an address.\<close>

definition unspendable_unindexed :: "bool \<Rightarrow> CTransaction list \<Rightarrow> bool" where
  "unspendable_unindexed g txs \<longleftrightarrow>
     list_all (\<lambda>tx. list_all (\<lambda>o1. IsUnspendable (scriptPubKey o1) \<longrightarrow> sa_type (address_of_script g (scriptPubKey o1)) = UNKNOWN_TYPE) (vout tx)) txs"

context outpoint_index
begin

lemma index_of_tx:
  assumes "tx_connectable invalid skip u tx"
    and "\<And>p o1. o1 \<in> set (vout tx) \<Longrightarrow> IsUnspendable (scriptPubKey o1) \<Longrightarrow>
      entry p \<lparr>fCoinBase = IsCoinBase tx, fCoinStake = IsCoinStake tx, coin_out = o1, coin_nHeight = h\<rparr> = None"
  shows "index_of entry point_of (apply_tx h u tx) =
    write_batch null ((if spends tx then input_batch entry nullv u (vin tx) else []) @
      output_batch entry (CTransaction_GetHash tx) h (IsCoinBase tx) (IsCoinStake tx) 0 (vout tx)) (index_of entry point_of u)"
proof -
  have "index_of entry point_of (remove_inputs tx u) =
      write_batch null (if spends tx then input_batch entry nullv u (vin tx) else []) (index_of entry point_of u)"
    using assms(1) index_of_inputs [of "vin tx" u] by (auto simp: remove_inputs_def spends_def tx_connectable_def)
  moreover have "list_all (\<lambda>o1. 0 \<le> nValue o1) (vout tx)"
    using assms(1) by (simp add: tx_connectable_def)
  moreover have "remove_inputs tx u \<lparr>outpoint_hash = CTransaction_GetHash tx, outpoint_n = 0 + j\<rparr> = None" if "j < length (vout tx)" for j
    using tx_connectable_outputs(1) [OF assms(1) that] .
  ultimately show ?thesis
    using index_of_outputs [of "vout tx" "remove_inputs tx u" "CTransaction_GetHash tx" 0 "IsCoinBase tx" "IsCoinStake tx" h] assms(2)
    by (simp add: apply_tx_def write_batch_append)
qed

lemma index_of_block:
  "block_connectable invalid skip h u txs \<Longrightarrow>
   (\<And>tx p o1. tx \<in> set txs \<Longrightarrow> o1 \<in> set (vout tx) \<Longrightarrow> IsUnspendable (scriptPubKey o1) \<Longrightarrow>
      entry p \<lparr>fCoinBase = IsCoinBase tx, fCoinStake = IsCoinStake tx, coin_out = o1, coin_nHeight = h\<rparr> = None) \<Longrightarrow>
   index_of entry point_of (foldl (apply_tx h) u txs) = write_batch null (block_batch entry nullv h u txs) (index_of entry point_of u)"
proof (induction txs arbitrary: u)
  case (Cons tx txs)
  have "index_of entry point_of (foldl (apply_tx h) (apply_tx h u tx) txs) =
      write_batch null (block_batch entry nullv h (apply_tx h u tx) txs) (index_of entry point_of (apply_tx h u tx))"
    using Cons.prems by (intro Cons.IH) auto
  then show ?case
    using index_of_tx [of invalid skip u tx h] Cons.prems by (simp add: write_batch_append)
qed simp

end

lemma connect_indexes_unspent:
  assumes "ns_fAddressIndex ns"
  shows "bt_addressUnspent (cd_blocktree (connect_indexes env ns block height st cd)) =
      write_batch CAddressUnspentValue_IsNull (ib_unspent (cb_batch st)) (bt_addressUnspent (cd_blocktree cd))"
    "bt_delegationUnspent (cd_blocktree (connect_indexes env ns block height st cd)) =
      write_batch CAddressUnspentValue_IsNull (ib_delegationUnspent (cb_batch st)) (bt_delegationUnspent (cd_blocktree cd))"
  using assms
  by (simp_all add: connect_indexes_def Let_def WriteTxIndex_def UpdateAddressDelegationUnspentIndex_def WriteDelegationAddressIndex_def
      WriteAddressIdentification_def UpdateAddressUnspentIndex_def WriteAddressIndex_def UpdateSpentIndex_def)

lemma connect_supply_ok:
  assumes "connect_supply block height st cd = Some cd'"
  shows "cd_MoneySupply cd' = cd_MoneySupply cd + (cb_nValueOut st - cb_nValueIn st)"
    "bt_addressUnspent (cd_blocktree cd') = bt_addressUnspent (cd_blocktree cd)"
    "bt_delegationUnspent (cd_blocktree cd') = bt_delegationUnspent (cd_blocktree cd)"
  using assms by (auto simp: connect_supply_def UpdateSupplyIndex_def bind_eq_Some_conv dest!: add64_Some)

section \<open>Properties\<close>

text \<open>
  C15. \<^bold>\<open>A block creates no more coins than it may.\<close>  If a node with the address index connects a block that is not the
  genesis block and has no output that is unspent already or banned, the money supply grows by no more than the reward, the
  payment of the masternode, the budget and the rewards of assets allow, and the value of all unspent coins grows by no more
  than the money supply.  Fees cancel out.  A test network that synchronises in a budget window has no limit.
\<close>

theorem ConnectBlock_supply:
  assumes "ConnectBlock env block p False (ns, view, cd) = okV (ns', view', cd')" "connect_context env block p ns view h"
    and "ns_fAddressIndex ns" "new_coins_limit ns (int h) (vtx block) = Some l" "finite (dom (utxo view))"
  shows "cd_MoneySupply cd' - cd_MoneySupply cd \<le> l \<and>
    coins_total (utxo view') - coins_total (utxo view) \<le> cd_MoneySupply cd' - cd_MoneySupply cd"
proof -
  obtain pindex hp st pindex' cd1 hb where c: "connect_result env ns h (vtx block) view st"
      "connect_undo env p pindex hp (cb_vtxundo st) cd = okV (pindex', cd1)"
      "connect_supply block (int h) st (connect_indexes env ns block (int h) st cd1) = Some cd'" "view' = SetBestBlock (cb_view st) hb"
    using ConnectBlock_ok [OF assms(1,2)] by metis
  note r = c(1) [unfolded connect_result_def]
  have s: "cd_MoneySupply cd' - cd_MoneySupply cd = cb_nValueOut st - cb_nValueIn st"
    using connect_supply_ok(1) [OF c(3)] connect_undo_fields [OF c(2)] by (simp add: connect_indexes_fields)
  have "utxo view' = foldl (apply_tx h) (utxo view) (vtx block)"
    using SetBestBlock_ok [of "cb_view st" hb] r c(4) by (simp add: same_view_def)
  then show ?thesis
    using connect_mint_limit [OF _ assms(4)] coins_total_block [OF assms(5)] r assms(3) unfolding s by fastforce
qed

text \<open>
  C16. \<^bold>\<open>The indexes of unspent outputs follow the unspent coins.\<close>  If the index of unspent outputs by address and that of
  delegations hold exactly the unspent coins with an address, they still do after a block other than the genesis block has been
  connected, unless it has an output that is unspent already or banned, or one that can not be spent and has an address.
\<close>

theorem ConnectBlock_indexes:
  assumes "ConnectBlock env block p False (ns, view, cd) = okV (ns', view', cd')" "connect_context env block p ns view h"
    and "ns_fAddressIndex ns" "g = ns_newP2CSRules ns" "unspendable_unindexed g (vtx block)"
    and "bt_addressUnspent (cd_blocktree cd) = index_of (unspent_entry g) unspent_point (utxo view)"
    and "bt_delegationUnspent (cd_blocktree cd) = index_of (delegation_entry g) delegation_point (utxo view)"
  shows "bt_addressUnspent (cd_blocktree cd') = index_of (unspent_entry g) unspent_point (utxo view') \<and>
    bt_delegationUnspent (cd_blocktree cd') = index_of (delegation_entry g) delegation_point (utxo view')"
proof -
  obtain pindex hp st pindex' cd1 hb where c: "connect_result env ns h (vtx block) view st"
      "connect_undo env p pindex hp (cb_vtxundo st) cd = okV (pindex', cd1)"
      "connect_supply block (int h) st (connect_indexes env ns block (int h) st cd1) = Some cd'" "view' = SetBestBlock (cb_view st) hb"
    using ConnectBlock_ok [OF assms(1,2)] by metis
  note r = c(1) [unfolded connect_result_def]
  have u: "utxo view' = foldl (apply_tx h) (utxo view) (vtx block)"
    using SetBestBlock_ok [of "cb_view st" hb] r c(4) by (simp add: same_view_def)
  have e: "unspent_entry g q x = None" "delegation_entry g q x = None"
    if "tx \<in> set (vtx block)" "o1 \<in> set (vout tx)" "IsUnspendable (scriptPubKey o1)" "coin_out x = o1" for tx o1 q x
    using assms(5) that coldstake_known [of g "scriptPubKey o1"]
    by (auto simp: unspendable_unindexed_def list_all_iff unspent_entry_def delegation_entry_def Let_def)
  have b: "block_connectable (ce_invalid env) (SkipInvalidUTXOS ns (int h)) h (utxo view) (vtx block)"
    using r by blast
  have "index_of (unspent_entry g) unspent_point (utxo view') = write_batch CAddressUnspentValue_IsNull
        (block_batch (unspent_entry g) CAddressUnspentValue_SetNull h (utxo view) (vtx block)) (index_of (unspent_entry g) unspent_point (utxo view))"
    "index_of (delegation_entry g) delegation_point (utxo view') = write_batch CAddressUnspentValue_IsNull
        (block_batch (delegation_entry g) CAddressUnspentValue_SetNull h (utxo view) (vtx block)) (index_of (delegation_entry g) delegation_point (utxo view))"
    unfolding u by (rule unspent_index.index_of_block [OF b] delegation_index.index_of_block [OF b]; simp add: e)+
  then show ?thesis
    using r assms(3,4,6,7) connect_supply_ok(2,3) [OF c(3)] connect_undo_fields [OF c(2)] connect_indexes_unspent [OF assms(3)] by simp
qed

text \<open>Without the address index the value of the outputs stays 0.\<close>

definition coins_nonneg :: "(COutPoint \<Rightarrow> Coin option) \<Rightarrow> bool" where
  "coins_nonneg u \<longleftrightarrow> (\<forall>p c. u p = Some c \<longrightarrow> 0 \<le> nValue (coin_out c))"

lemma value_in_nonneg: "coins_nonneg u \<Longrightarrow> 0 \<le> value_in u ins"
  by (auto simp: value_in_def coins_nonneg_def intro!: sum_list_nonneg split: option.splits)

lemma add_outputs_nonneg:
  "coins_nonneg u \<Longrightarrow> list_all (\<lambda>o1. 0 \<le> nValue o1) outs \<Longrightarrow> coins_nonneg (add_outputs txid h cb cs i outs u)"
proof (induction outs arbitrary: i u)
  case (Cons out outs)
  then have "coins_nonneg (if IsUnspendable (scriptPubKey out) then u
      else u(\<lparr>outpoint_hash = txid, outpoint_n = i\<rparr> \<mapsto> \<lparr>fCoinBase = cb, fCoinStake = cs, coin_out = out, coin_nHeight = h\<rparr>))"
    by (auto simp: coins_nonneg_def)
  then show ?case
    using Cons.IH [of _ "i + 1"] Cons.prems(2) by (simp del: fun_upd_apply)
qed simp

lemma apply_tx_nonneg: "coins_nonneg u \<Longrightarrow> tx_shape tx \<Longrightarrow> coins_nonneg (apply_tx h u tx)"
  unfolding apply_tx_def by (intro add_outputs_nonneg) (auto simp: coins_nonneg_def remove_inputs_def foldl_remove tx_shape_def)

lemma block_value_in_nonneg: "coins_nonneg u \<Longrightarrow> list_all tx_shape txs \<Longrightarrow> 0 \<le> block_value_in h u txs"
  by (induction txs arbitrary: u) (simp_all add: value_in_nonneg apply_tx_nonneg)

lemma IsBlockValueValid_limit_False:
  assumes "IsBlockValueValid ns height e m = Some False"
  obtains b where "budget_limit ns height = Some b" "e + b < m"
  using assms by (auto simp: IsBlockValueValid_def budget_limit_def dest!: add64_Some split: if_splits option.splits)

lemma connect_mint_False:
  assumes "connect_mint ns height st = Some False"
    and "cb_nAssetValue st = sum_list (map GetMultiMiningSpend (filter ContainsAssets txs))"
  obtains l where "new_coins_limit ns height txs = Some l" "l < cb_nValueOut st - cb_nValueIn st"
proof -
  let ?a = "NetworkUpgradeActive (ns_consensus ns) height ACTIVATE_ASSET_VALIDATION"
  obtain m e where m: "IsBlockValueValid ns height e m = Some False"
      "m = cb_nValueOut st - cb_nValueIn st + cb_nFees st + (if ?a then 0 else - cb_nAssetValue st)"
      "e = GetBlockValue (ns_params ns) height + cb_nFees st + GetMasternodePayment (ns_params ns) height +
        (if ?a then ns_GetSummaryAssetsToReward ns else 0)"
    using assms(1) by (auto simp: connect_mint_def Let_def bind_eq_Some_conv dest!: add64_Some split: if_splits)
  obtain b where b: "budget_limit ns height = Some b" "e + b < m"
    using IsBlockValueValid_limit_False [OF m(1)] .
  show thesis
    using that b m(2,3) assms(2) by (auto simp: new_coins_limit_def split: if_splits)
qed

text \<open>
  \<^bold>\<open>Without the address index the coins a block creates are not limited.\<close>  \<^verbatim>\<open>nValueOut\<close> is summed up only with the
  address index, so on a node that was started with \<^verbatim>\<open>-addressindex=0\<close> the check \<^verbatim>\<open>bad-cb-amount\<close> rejects no block, whatever
  its transactions pay out, as long as the limit is not negative.
\<close>

theorem mint_unchecked_without_index:
  assumes "connect_txs env ns (int h) fScriptChecks fSaplingMaintenance 0 txs st0 = okV st" "\<not> ns_fAddressIndex ns"
    and "cb_nValueOut st0 = 0" "cb_nValueIn st0 = 0" "cb_nAssetValue st0 = 0" "view_ok (cb_view st0)" "is_cache (cb_view st0)" "h < 2 ^ 32"
    and "list_all tx_shape txs" "block_fresh (ce_invalid env) h (utxo (cb_view st0)) txs"
    and "coins_nonneg (utxo (cb_view st0))"
    and "\<And>l. new_coins_limit ns (int h) txs = Some l \<Longrightarrow> 0 \<le> l"
  shows "connect_mint ns (int h) st \<noteq> Some False"
proof
  have c: "connected ns h 0 txs st0 st"
    using connect_txs_ok [OF assms(1,6-10)] by blast
  then have "cb_nAssetValue st = sum_list (map GetMultiMiningSpend (filter ContainsAssets txs))"
    using assms(5) by (simp add: connected_def Let_def)
  moreover assume "connect_mint ns (int h) st = Some False"
  ultimately obtain l where "new_coins_limit ns (int h) txs = Some l" "l < cb_nValueOut st - cb_nValueIn st"
    using connect_mint_False by blast
  moreover have "0 \<le> block_value_in h (utxo (cb_view st0)) txs"
    using block_value_in_nonneg [OF assms(11,9)] .
  ultimately show False
    using c assms(2-4,12) by (auto simp: connected_def Let_def)
qed

section \<open>A block on the test network\<close>

definition demo_script :: bytes where
  "demo_script = [0x76, 0xa9, 0x14] @ replicate 20 7 @ [0x88, 0xac]"

definition demo_minted :: CTransaction where
  "demo_minted = demo_coinbase\<lparr>vout := [\<lparr>nValue = 7, scriptPubKey = demo_script, nRounds = - 10\<rparr>]\<rparr>"

definition demo_env :: connect_env where
  "demo_env = \<lparr>ce_fTxIndex = True, ce_fSpentIndex = True, ce_nScriptCheckThreads = 0, ce_fVerifyingBlocks = False, ce_invalid = (\<lambda>_. False),
     ce_MessageStart = [1, 2, 3, 4], ce_CheckDiskSpace = (\<lambda>_. True), ce_Verify = (\<lambda>_ _ _. False), ce_CheckLowS = (\<lambda>_. True),
     ce_blake2b = demo_blake2b, ce_merkle_hash = (\<lambda>a b d. a), ce_IsFullyValid = demo_fully_valid, ce_Decompress = demo_decompress\<rparr>"

definition demo_entry :: "nat \<Rightarrow> CBlockIndex" where
  "demo_entry n = CBlockIndex_default\<lparr>phashBlock := Some [of_nat (n + 1)], pprev := (if n = 0 then None else Some (n - 1)), nHeight := int n\<rparr>"

definition demo_chain :: "bool \<Rightarrow> node_state" where
  "demo_chain f = demo_node\<lparr>ns_params := CRegTestParams [], ns_index := (\<lambda>p. if p \<le> 1 then Some (demo_entry p) else None), ns_fAddressIndex := f\<rparr>"

definition demo_connected :: CBlock where
  "demo_connected = demo_block\<lparr>vtx := [demo_minted], fChecked := True\<rparr>"

lemma demo_minted_kind: "IsCoinBase demo_minted" "\<not> ContainsAssets demo_minted" "\<not> IsCoinStake demo_minted" "sapData demo_minted = None"
  by (simp_all add: demo_minted_def demo_coinbase_def tx_kind_defs kind_defs demo_script_def CTxOut_IsEmpty_def list_all_iff)

lemma demo_minted_fields: "vout demo_minted = [\<lparr>nValue = 7, scriptPubKey = demo_script, nRounds = - 10\<rparr>]"
  by (simp add: demo_minted_def)

lemma demo_minted_sigops: "GetLegacySigOpCount demo_minted = 1"
  by (simp add: demo_minted_def demo_coinbase_def demo_script_def GetLegacySigOpCount_def) code_simp

lemma demo_script_spendable: "\<not> IsUnspendable demo_script" "IsPayToPublicKeyHash demo_script" "\<not> IsPayToScriptHash demo_script"
  by (simp_all add: IsUnspendable_def MAX_SCRIPT_SIZE_def demo_script_def IsPayToPublicKeyHash_def IsPayToScriptHash_def nth_append)

lemma demo_tx_connectable: "u = (\<lambda>_. None) \<Longrightarrow> tx_connectable invalid False u demo_minted"
  using demo_minted_kind by (simp add: tx_connectable_def remove_inputs_def demo_minted_fields Let_def)

lemma demo_connect_tx:
  assumes "view_ok (cb_view st)" "is_cache (cb_view st)" "utxo (cb_view st) = (\<lambda>_. None)" "cb_nSigOps st = 0"
    and "cb_nFees st = 0" "cb_nValueOut st = 0" "cb_nAssetValue st = 0"
  shows "\<exists>w tree vpos pos b. connect_tx demo_env (demo_chain f) 1 sc False 0 demo_minted st =
    okV (st\<lparr>cb_view := w, cb_nSigOps := 1, cb_nFees := (if f then - 7 else 0), cb_nValueOut := (if f then 7 else 0), cb_tree := tree,
      cb_vPos := vpos, cb_pos := pos, cb_batch := b\<rparr>) \<and> view_ok w \<and> is_cache w"
proof -
  have n: "ns_fAddressIndex (demo_chain f) = f" "ns_newP2CSRules (demo_chain f) = True" "SkipInvalidUTXOS (demo_chain f) 1 = False"
    by (simp_all add: demo_chain_def demo_node_def SkipInvalidUTXOS_def CRegTestParams_def)
  obtain undo w where u: "UpdateCoins (ce_invalid demo_env) demo_minted (cb_view st) 1 False = Some (undo, w)" "view_ok w" "is_cache w"
    using UpdateCoins_ok [OF assms(1,2) demo_tx_connectable [OF assms(3), of "ce_invalid demo_env"], of 1] coins_stepD by blast
  have t: "to_unsigned 32 1 = 1"
    by (simp add: to_unsigned_def)
  have r: "connect_require demo_env (demo_chain f) False demo_minted st = okV (st\<lparr>cb_nSigOps := 1\<rparr>)"
    using assms(4) demo_minted_kind demo_minted_sigops
    by (simp add: connect_require_def nMaxBlockSigOps_def MAX_BLOCK_SIGOPS_CURRENT_def MAX_BLOCK_SIZE_CURRENT_def)
  have o: "connect_outputs demo_env True 1 0 demo_minted 0 (vout demo_minted) (st\<lparr>cb_nSigOps := 1\<rparr>) =
      Some (st\<lparr>cb_nSigOps := 1, cb_nValueOut := 7, cb_nFees := - 7,
        cb_batch := index_output True 1 0 (CTransaction_GetHash demo_minted) 0 (vout demo_minted ! 0) (cb_batch st)\<rparr>)"
    using assms(5,6) demo_minted_kind by (simp add: demo_minted_fields demo_env_def add64_def)
  let ?b = "if f then index_output True 1 0 (CTransaction_GetHash demo_minted) 0 (vout demo_minted ! 0) (cb_batch st) else cb_batch st"
  have x: "(if f then connect_outputs demo_env True 1 0 demo_minted 0 (vout demo_minted) (st\<lparr>cb_nSigOps := 1\<rparr>) else Some (st\<lparr>cb_nSigOps := 1\<rparr>)) =
      Some (st\<lparr>cb_nSigOps := 1, cb_nValueOut := (if f then 7 else 0), cb_nFees := (if f then - 7 else 0), cb_batch := ?b\<rparr>)"
    using assms(5,6) o by (cases f) simp_all
  have i: "connect_inputs demo_env (demo_chain f) 1 sc 0 demo_minted s = okV s" for s
    using demo_minted_kind by (simp add: connect_inputs_def)
  have b: "bindV (okV y) g = g y" for y :: connect_state and g :: "connect_state \<Rightarrow> connect_state check"
    by (simp add: bindV_def)
  have a: "ContainsAssets demo_minted = False"
    using demo_minted_kind by simp
  show ?thesis
    using u(2,3) demo_minted_kind(4) assms(7)
    unfolding connect_tx_def r b i n x option.case a if_False connect_update_def t
    by (simp add: u(1) del: One_nat_def split del: if_split) (cases st; simp del: One_nat_def split del: if_split; blast)
qed

lemmas demo_defs = demo_chain_def demo_node_def CRegTestParams_def NetworkUpgradeActive_def NetworkUpgradeState_def
  NO_ACTIVATION_HEIGHT_def demo_entry_def CBlockIndex_default_def

lemma demo_connect_mint:
  assumes "cb_nValueOut st = (if f then 7 else 0)" "cb_nFees st = (if f then - 7 else 0)" "cb_nValueIn st = 0" "cb_nAssetValue st = 0"
  shows "connect_mint (demo_chain f) 1 st = Some True"
proof -
  have "GetBlockValue (ns_params (demo_chain f)) 1 = 350000000000" "GetMasternodePayment (ns_params (demo_chain f)) 1 = 5000000000"
    "ns_IsSynced (demo_chain f)" "\<not> ns_SPORK_13 (demo_chain f)" "\<not> NetworkUpgradeActive (ns_consensus (demo_chain f)) 1 ACTIVATE_ASSET_VALIDATION"
    by (simp_all add: demo_defs GetBlockValue_def GetMasternodePayment_def IsRegTestNet_def COIN_def signed_divide_int_def)
  then show ?thesis
    using assms by (simp add: connect_mint_def add64_def IsBlockValueValid_def)
qed

lemma demo_connect_checks:
  "\<exists>st. connect_checks demo_env (demo_chain f) demo_connected (demo_entry 1) demo_cache = okV st \<and> cb_vtxundo st = [] \<and>
     cb_nValueOut st = (if f then 7 else 0) \<and> cb_nValueIn st = 0"
proof -
  obtain anchor v1 where 1: "GetBestAnchor demo_cache = (anchor, v1)" by fastforce
  have r1: "view_reads demo_cache v1"
    using GetBestAnchor_ok [OF demo_cache_ok(1)] 1 demo_cache_ok(3) by (simp add: view_reads_def)
  obtain t v2 where 2: "GetSaplingAnchorAt v1 anchor = (t, v2)" by fastforce
  have r2: "view_reads demo_cache v2"
    using GetSaplingAnchorAt_ok [OF view_readsD(1) [OF r1], of anchor] GetSaplingAnchorAt_is_cache [of v1 anchor] 2 r1 view_readsD(2) [OF r1]
    by (intro view_reads_trans [OF r1]) (simp add: view_reads_def)
  have "t = Some empty_tree"
    using 1 2 by (auto simp: demo_cache_def demo_db_def uint256_IsNull_def)
  then have 2: "GetSaplingAnchorAt v1 anchor = (Some empty_tree, v2)"
    using 2 by simp
  let ?st = "\<lparr>cb_view = v2, cb_nFees = 0, cb_nSigOps = 0, cb_nValueOut = 0, cb_nValueIn = 0, cb_nAssetValue = 0, cb_vtxundo = [],
      cb_tree = empty_tree, cb_batch = empty_batch, cb_vPos = [], cb_pos = \<lparr>dtp_nFile = - 1, dtp_nPos = 0, dtp_nTxOffset = 1\<rparr>, cb_checks = []\<rparr>"
  obtain w tree vpos pos b where c: "connect_tx demo_env (demo_chain f) 1 True False 0 demo_minted ?st =
      okV (?st\<lparr>cb_view := w, cb_nSigOps := 1, cb_nFees := (if f then - 7 else 0), cb_nValueOut := (if f then 7 else 0), cb_tree := tree,
        cb_vPos := vpos, cb_pos := pos, cb_batch := b\<rparr>)"
    using demo_connect_tx [of ?st f True] view_readsD [OF r2] demo_cache_ok(4) by auto
  let ?st1 = "?st\<lparr>cb_view := w, cb_nSigOps := 1, cb_nFees := (if f then - 7 else 0), cb_nValueOut := (if f then 7 else 0), cb_tree := tree,
        cb_vPos := vpos, cb_pos := pos, cb_batch := b\<rparr>"
  let ?st2 = "?st1\<lparr>cb_view := PushAnchor (ce_merkle_hash demo_env) w tree\<rparr>"
  have "connect_mint (demo_chain f) 1 ?st2 = Some True"
    by (rule demo_connect_mint) simp_all
  then have v: "connect_verdict demo_env (demo_chain f) demo_connected 1 ?st1 = okV ?st2"
    by (simp add: connect_verdict_def demo_defs)
  have k: "CBlock_IsProofOfStake demo_connected = False" "CBlock_IsProofOfWork demo_connected" "vtx demo_connected = [demo_minted]"
      "hd_nTime demo_connected = 15"
    by (simp_all add: CBlock_IsProofOfStake_def CBlock_IsProofOfWork_def demo_connected_def demo_block_def)
  have e: "nHeight (demo_entry 1) = 1" "nChainSaplingValue (demo_entry 1) = None" "GetBlockPos (demo_entry 1) = \<lparr>pos_nFile = - 1, pos_nPos = 0\<rparr>"
      "NetworkUpgradeActive (ns_consensus (demo_chain f)) 1 ACTIVATE_POS = False" "GetTotalBlocksEstimate (demo_chain f) = Some 0"
      "ns_SPORK_20 (demo_chain f) = 4070908800"
    by (simp_all add: demo_defs GetBlockPos_def CDiskBlockPos_SetNull_def GetTotalBlocksEstimate_def)
  have "connect_txs demo_env (demo_chain f) 1 True False 0 [demo_minted] ?st = okV ?st1"
    using c by (simp only: connect_txs.simps bindV_def option.case sum.case)
  then have "connect_checks demo_env (demo_chain f) demo_connected (demo_entry 1) demo_cache = okV ?st2"
    unfolding connect_checks_def Let_def e k 1 prod.case 2 option.case
    using v by (simp add: bindV_def GetSizeOfCompactSize_def del: connect_txs.simps)
  then show ?thesis
    by (intro exI [of _ ?st2]) simp
qed

definition demo_chain_db :: chain_db where
  "demo_chain_db = \<lparr>cd_undo_files = (\<lambda>_. []), cd_nUndoSize = (\<lambda>_. 0), cd_setDirtyFileInfo = {}, cd_setDirtyBlockIndex = {},
     cd_blocktree = \<lparr>bt_txindex = (\<lambda>_. None), bt_addressIndex = (\<lambda>_. None), bt_addressUnspent = (\<lambda>_. None), bt_delegation = (\<lambda>_. None),
       bt_delegationUnspent = (\<lambda>_. None), bt_spent = (\<lambda>_. None), bt_supply = (\<lambda>_. None), bt_ident = []\<rparr>,
     cd_MoneySupply = 0, cd_supplyHeight = 0, cd_events = []\<rparr>"

lemma demo_connect_undo:
  "\<exists>pindex' cd1. connect_undo demo_env 1 (demo_entry 1) [1] [] demo_chain_db = okV (pindex', cd1) \<and> cd_MoneySupply cd1 = 0"
proof -
  obtain undo where "Serialize_CBlockUndo demo_fully_valid [] = Some undo"
    by (simp add: Serialize_CBlockUndo_def)
  then obtain pindex1 cd1 where w: "write_undo demo_env (demo_entry 1) [1] [] demo_chain_db = okV (pindex1, cd1)"
      "nStatus pindex1 = BLOCK_HAVE_UNDO" "cd_MoneySupply cd1 = 0"
    by (simp add: write_undo_def demo_env_def demo_entry_def CBlockIndex_default_def FindUndoPos_def UndoWriteToDisk_def Let_def demo_chain_db_def)
  have "CBlockIndex_IsValid (demo_entry 1) BLOCK_VALID_SCRIPTS = Some False" "pos_nFile (GetUndoPos (demo_entry 1)) = - 1"
    by (simp_all add: CBlockIndex_IsValid_def demo_entry_def CBlockIndex_default_def GetUndoPos_def CDiskBlockPos_SetNull_def
        BLOCK_VALID_SCRIPTS_def BLOCK_VALID_MASK_def BLOCK_VALID_HEADER_def BLOCK_VALID_TREE_def BLOCK_VALID_TRANSACTIONS_def
        BLOCK_VALID_CHAIN_def)
  moreover have "\<exists>q b. RaiseValidity pindex1 BLOCK_VALID_SCRIPTS = Some (q, b)"
    by (auto simp: RaiseValidity_def BLOCK_VALID_SCRIPTS_def BLOCK_VALID_MASK_def BLOCK_VALID_HEADER_def BLOCK_VALID_TREE_def
        BLOCK_VALID_TRANSACTIONS_def BLOCK_VALID_CHAIN_def)
  ultimately show ?thesis
    using w by (auto simp: connect_undo_def bindV_def)
qed

lemma demo_hash: "CBlockHeader_GetHash demo_connected \<noteq> []"
proof
  assume "CBlockHeader_GetHash demo_connected = []"
  then show False
    using length_Hash256 [of "Serialize_CBlockHeader demo_connected"] unfolding CBlockHeader_GetHash_def by simp
qed

lemma demo_ConnectBlock:
  "\<exists>ns' view' cd'. ConnectBlock demo_env demo_connected 1 False (demo_chain f, demo_cache, demo_chain_db) = okV (ns', view', cd')"
proof -
  obtain st where c: "connect_checks demo_env (demo_chain f) demo_connected (demo_entry 1) demo_cache = okV st" "cb_vtxundo st = []"
      "cb_nValueOut st = (if f then 7 else 0)" "cb_nValueIn st = 0"
    using demo_connect_checks by blast
  obtain pindex' cd1 where u: "connect_undo demo_env 1 (demo_entry 1) [1] [] demo_chain_db = okV (pindex', cd1)" "cd_MoneySupply cd1 = 0"
    using demo_connect_undo by blast
  obtain cd2 where s: "connect_supply demo_connected 1 st (connect_indexes demo_env (demo_chain f) demo_connected 1 st cd1) = Some cd2"
    using c(3,4) u(2) by (cases f) (simp_all add: connect_supply_def connect_indexes_fields add64_def)
  have b: "CheckBlock (ce_Verify demo_env) (demo_chain f) demo_connected True True True = okV demo_connected"
    by (simp add: CheckBlock_def demo_connected_def)
  have i: "ns_index (demo_chain f) 1 = Some (demo_entry 1)" "pprev (demo_entry 1) = Some 0" "ns_index (demo_chain f) 0 = Some (demo_entry 0)"
      "phashBlock (demo_entry 0) = Some [1]" "phashBlock (demo_entry 1) = Some [2]" "nHeight (demo_entry 1) = 1"
      "CBlockHeader_GetHash demo_connected = hashGenesisBlock (ns_consensus (demo_chain f)) \<longleftrightarrow> False" "GetBestBlock demo_cache = ([1], demo_cache)"
    using demo_hash by (simp_all add: demo_defs demo_cache_def uint256_IsNull_def)
  show ?thesis
    unfolding ConnectBlock_def prod.case not_False_eq_True by (simp add: bindV_def b i c(1,2) u(1) s del: One_nat_def)
qed

lemma demo_context:
  "connect_context demo_env demo_connected 1 (demo_chain f) demo_cache 1" "list_all tx_shape [demo_minted]"
  "block_fresh (ce_invalid demo_env) 1 (utxo demo_cache) [demo_minted]"
proof -
  show s: "list_all tx_shape [demo_minted]"
    by (simp add: tx_shape_def demo_minted_def demo_coinbase_def)
  show f: "block_fresh (ce_invalid demo_env) 1 (utxo demo_cache) [demo_minted]"
    by (simp add: demo_env_def demo_cache_ok(4) demo_minted_fields)
  have "vtx demo_connected = [demo_minted]" "fChecked demo_connected"
    by (simp_all add: demo_connected_def demo_block_def)
  then show "connect_context demo_env demo_connected 1 (demo_chain f) demo_cache 1"
    using demo_cache_ok demo_hash s f by (simp add: connect_context_def demo_defs)
qed

lemma demo_limit: "new_coins_limit (demo_chain f) 1 [demo_minted] = Some 355000000000"
  using demo_minted_kind
  by (simp add: new_coins_limit_def budget_limit_def demo_defs GetBlockValue_def GetMasternodePayment_def IsRegTestNet_def COIN_def signed_divide_int_def)

theorem ConnectBlock_supply_witness:
  "\<exists>ns' view' cd'. ConnectBlock demo_env demo_connected 1 False (demo_chain True, demo_cache, demo_chain_db) = okV (ns', view', cd') \<and>
     cd_MoneySupply cd' \<le> 355000000000 \<and> coins_total (utxo view') \<le> cd_MoneySupply cd'"
proof -
  obtain ns' view' cd' where c: "ConnectBlock demo_env demo_connected 1 False (demo_chain True, demo_cache, demo_chain_db) = okV (ns', view', cd')"
    using demo_ConnectBlock by blast
  have "new_coins_limit (demo_chain True) (int 1) (vtx demo_connected) = Some 355000000000" "ns_fAddressIndex (demo_chain True)"
    using demo_limit [of True] by (simp_all add: demo_connected_def demo_block_def demo_chain_def)
  from ConnectBlock_supply [OF c demo_context(1) this(2,1)]
  have "cd_MoneySupply cd' \<le> 355000000000 \<and> coins_total (utxo view') \<le> cd_MoneySupply cd'"
    by (simp add: demo_cache_ok(4) coins_total_def demo_chain_db_def)
  then show ?thesis
    using c by blast
qed

theorem ConnectBlock_indexes_witness:
  "\<exists>ns' view' cd'. ConnectBlock demo_env demo_connected 1 False (demo_chain True, demo_cache, demo_chain_db) = okV (ns', view', cd') \<and>
     bt_addressUnspent (cd_blocktree cd') = index_of (unspent_entry True) unspent_point (utxo view')"
proof -
  obtain ns' view' cd' where c: "ConnectBlock demo_env demo_connected 1 False (demo_chain True, demo_cache, demo_chain_db) = okV (ns', view', cd')"
    using demo_ConnectBlock by blast
  have "unspendable_unindexed True (vtx demo_connected)" "ns_fAddressIndex (demo_chain True)" "True = ns_newP2CSRules (demo_chain True)"
    using demo_script_spendable(1) by (simp_all add: unspendable_unindexed_def demo_connected_def demo_block_def demo_minted_fields demo_chain_def demo_node_def)
  moreover have "bt_addressUnspent (cd_blocktree demo_chain_db) = index_of (unspent_entry True) unspent_point (utxo demo_cache)"
      "bt_delegationUnspent (cd_blocktree demo_chain_db) = index_of (delegation_entry True) delegation_point (utxo demo_cache)"
    by (simp_all add: demo_chain_db_def index_of_def demo_cache_ok(4) fun_eq_iff)
  ultimately show ?thesis
    using ConnectBlock_indexes [OF c demo_context(1)] c by blast
qed

definition demo_start :: connect_state where
  "demo_start = \<lparr>cb_view = demo_cache, cb_nFees = 0, cb_nSigOps = 0, cb_nValueOut = 0, cb_nValueIn = 0, cb_nAssetValue = 0, cb_vtxundo = [],
     cb_tree = empty_tree, cb_batch = empty_batch, cb_vPos = [], cb_pos = \<lparr>dtp_nFile = - 1, dtp_nPos = 0, dtp_nTxOffset = 1\<rparr>, cb_checks = []\<rparr>"

theorem mint_unchecked_without_index_witness:
  "\<exists>st. connect_txs demo_env (demo_chain False) 1 True False 0 [demo_minted] demo_start = okV st \<and>
     connect_mint (demo_chain False) 1 st \<noteq> Some False"
proof -
  obtain st where c: "connect_txs demo_env (demo_chain False) (int 1) True False 0 [demo_minted] demo_start = okV st"
    using demo_connect_tx [of demo_start False True] demo_cache_ok by (auto simp: demo_start_def bindV_def)
  have "connect_mint (demo_chain False) (int 1) st \<noteq> Some False"
    by (rule mint_unchecked_without_index [OF c]; use demo_context(2,3) demo_limit [of False] demo_cache_ok in
        \<open>simp add: demo_start_def demo_chain_def coins_nonneg_def\<close>)
  then show ?thesis
    using c by auto
qed

end
