(* ===== verification/Spec2Isabelle.thy ===== *)
theory Spec2Isabelle
  imports Script_Standard Proof_Of_Work Money_Supply
begin

text \<open>
  A verification of the core of the QRAX node, a proof-of-stake node in C++ that descends from Bitcoin and PIVX.  File
  names are relative to \<^verbatim>\<open>src/src\<close> of the repository.

  \<^bold>\<open>Parts of the program and how they interact.\<close>  A node receives blocks of transactions.  A transaction spends outputs of
  earlier ones; each output carries a script, and the script interpreter decides whether the spending input satisfies it,
  with signatures over a hash of the spending transaction.  Blocks form a tree, the block index; each carries a proof of
  work or of stake against a target that is computed from its ancestors, and the branch with the most work becomes the
  active chain.  All data is read from and written to byte streams in one serialisation format.

  \<^bold>\<open>Theories.\<close>
  \<^item> \<open>Qrax_Prelude\<close>: bytes, little-endian numbers, the error monad.
  \<^item> \<open>Script_Num\<close>: script numbers (\<^verbatim>\<open>script/script.h\<close>, \<^verbatim>\<open>CScriptNum\<close>): encoding and decoding are inverse, the minimality rule
    leaves one encoding per number, arithmetic on four-byte operands does not overflow.
  \<^item> \<open>Script_Code\<close>: script byte code (\<^verbatim>\<open>script/script.h\<close>, \<^verbatim>\<open>script/script.cpp\<close>): reading and pushing operations, templates,
    \<^verbatim>\<open>FindAndDelete\<close>, counting signature operations.  Iterators are suffixes of the script.
  \<^item> \<open>Sig_Encoding\<close>: the checks of signature, key and push encodings (\<^verbatim>\<open>script/interpreter.cpp\<close>); strict DER is characterised.
  \<^item> \<open>Hash_Functions\<close>: SHA-256, SHA-1, RIPEMD-160 (\<^verbatim>\<open>crypto/\<close>) with their buffering, and the hashes built from them
    (\<^verbatim>\<open>hash.h\<close>); the locale \<open>block_hasher\<close> shows once, for the three of them, that cutting the input does not matter.
  \<^item> \<open>Script_Interp\<close>: \<^verbatim>\<open>EvalScript\<close> and \<^verbatim>\<open>VerifyScript\<close> with every opcode (\<^verbatim>\<open>script/interpreter.cpp\<close>): limits as
    invariants, what a successful run implies, pay-to-script-hash, multisignatures.  The signature checker is a record of
    functions, as in the code.
  \<^item> \<open>Serialization\<close>: \<^verbatim>\<open>serialize.h\<close>; the locale \<open>codec\<close> states what a writer and a reader promise and lifts it to vectors
    and optional values; every type of the wire format interprets it.
  \<^item> \<open>Transactions\<close>: \<^verbatim>\<open>primitives/transaction.h\<close>, \<^verbatim>\<open>consensus/tx_verify.cpp\<close> and the checks it calls.
  \<^item> \<open>Sig_Hash\<close>: both signature hashes and the transaction signature checker (\<^verbatim>\<open>script/interpreter.cpp\<close>): what they commit to.
  \<^item> \<open>Script_Standard\<close>: output templates (\<^verbatim>\<open>script/standard.cpp\<close>) and what spending them takes.
  \<^item> \<open>Arith_Uint256\<close>: \<^verbatim>\<open>arith_uint256.h\<close>, \<^verbatim>\<open>arith_uint256.cpp\<close>, \<^verbatim>\<open>uint256.cpp\<close>: limb arithmetic refines arithmetic modulo a
    power of two; the compact format of targets.
  \<^item> \<open>Chain_Params\<close>: \<^verbatim>\<open>consensus/params.h\<close>, \<^verbatim>\<open>consensus/upgrades.cpp\<close>, \<^verbatim>\<open>chainparams.cpp\<close> and the rewards of \<^verbatim>\<open>validation.cpp\<close>.
  \<^item> \<open>Block_Data\<close>: \<^verbatim>\<open>primitives/block.h\<close>.
  \<^item> \<open>Block_Index\<close>: \<^verbatim>\<open>chain.h\<close>, \<^verbatim>\<open>chain.cpp\<close>: the tree of entries in a heap of pointers, the skip list and the active chain.
  \<^item> \<open>Proof_Of_Work\<close>: \<^verbatim>\<open>pow.cpp\<close>; the locale \<open>modular_uint\<close> states what it relies on of the big integers.
  \<^item> \<open>Commitment_Tree\<close>: the incremental tree of note commitments and its witnesses (\<^verbatim>\<open>sapling/incrementalmerkletree.h\<close>,
    \<^verbatim>\<open>.cpp\<close>), over an abstract hash of two children; it refines the complete tree over its leaves.
  \<^item> \<open>Coins\<close>: the database of unspent outputs and the stack of caches on it (\<^verbatim>\<open>coins.h\<close>, \<^verbatim>\<open>coins.cpp\<close>, \<^verbatim>\<open>txdb.cpp\<close>,
    \<^verbatim>\<open>sapling/sapling_txdb.cpp\<close>): with the flags of its entries a stack of caches behaves as one map.
  \<^item> \<open>Coins_Blocks\<close>: what transactions and blocks do to that map (\<^verbatim>\<open>UpdateCoins\<close>, \<^verbatim>\<open>CheckTxInputs\<close> and the coins of
    \<^verbatim>\<open>ConnectBlock\<close> and \<^verbatim>\<open>DisconnectBlock\<close> of \<^verbatim>\<open>validation.cpp\<close>): disconnecting a block undoes connecting it.
  \<^item> \<open>Merkle\<close>, \<open>Merkle_Block\<close>: Merkle roots and branches in constant space (\<^verbatim>\<open>consensus/merkle.cpp\<close>) against the tree built
    level by level, and partial trees (\<^verbatim>\<open>merkleblock.cpp\<close>): what they prove, and that they read back.
  \<^item> \<open>Block_Checks\<close>: \<^verbatim>\<open>CheckBlock\<close> and the contextual checks of \<^verbatim>\<open>validation.cpp\<close>, \<^verbatim>\<open>blocksignature.cpp\<close>, \<^verbatim>\<open>checkpoints.cpp\<close>
    and \<^verbatim>\<open>sapling/sapling_validation.cpp\<close>: a header commits to its transactions, a coinbase to its height.
  \<^item> \<open>Compressor\<close>: the compact forms of scripts, amounts, coins and undo data (\<^verbatim>\<open>compressor.h\<close>, \<^verbatim>\<open>compressor.cpp\<close>,
    \<^verbatim>\<open>undo.h\<close>, \<^verbatim>\<open>coins.h\<close>), which read back.
  \<^item> \<open>Address_Index\<close>: the address, delegation, spent, supply and identification indexes (\<^verbatim>\<open>spentindex.h\<close>, \<^verbatim>\<open>txdb.cpp\<close>) and the
    records \<^verbatim>\<open>ConnectBlock\<close> and \<^verbatim>\<open>DisconnectBlock\<close> write to them; the locale \<open>outpoint_index\<close> states when an index of unspent
    outputs follows the unspent coins, and is interpreted on the address and the delegation index.
  \<^item> \<open>Connect_Block\<close>, \<open>Money_Supply\<close>: \<^verbatim>\<open>ConnectBlock\<close> and \<^verbatim>\<open>DisconnectBlock\<close> of \<^verbatim>\<open>validation.cpp\<close> as a whole, with \<^verbatim>\<open>CheckInputs\<close>, the limit of
    new coins (\<^verbatim>\<open>masternode-payments.cpp\<close>), the undo files, the indexes and the money supply (\<^verbatim>\<open>moneysupply.h\<close>): what a connected
    block does to the unspent coins, to the money supply and to the indexes.

  \<^bold>\<open>Conventions.\<close>  A class is a record, an enumeration a datatype, a 32- or 64-bit value whose wrap-around matters a word and
  other integers numbers with the width in the well-formedness predicate (\<open>..._ok\<close>).  Exceptions, failed assertions and
  undefined behaviour are \<open>None\<close> or a value of an error type.  Code that is not modelled is an argument: the BLAKE2b
  function, the verification of an ECDSA signature, the low-S test and the decompression of keys of the vendored
  libsecp256k1, the Pedersen hash of librustzcash, the budget and the multimining library, the clock.  Global variables of the
  code, such as the flag \<^verbatim>\<open>g_newP2CSRules\<close> and the chain parameters, are arguments as well.

  \<^bold>\<open>Bounds and termination.\<close>  Loops over data are structural recursions.  \<^verbatim>\<open>EvalScript\<close> recurses on the rest of the script.
  Loops over pointers of the block index are partial functions into the option type, without fuel; the theorems give
  their results on well-formed indices, so they also say that the loops end.

  \<^bold>\<open>Not modelled.\<close>  The wallet, networking, RPC and graphical interfaces, start-up, the databases, the memory pool, masternodes
  and budget: their behaviour is input and output, threads, locks and the clock.  Elliptic curves, Sapling proofs and the
  BLAKE2b hash are libraries.  The functions of the multimining submodule are not among the sources.  Floating-point fees
  and priorities, and functions that only format text, are left out of the modelled files.
\<close>

end
